(* ===== verification/Kernel_Prelude.thy ===== *)
theory Kernel_Prelude
  imports Main "HOL-Library.Word" "HOL-Library.Monad_Syntax" "HOL-Library.Signed_Division"
begin

unbundle bit_operations_syntax

text \<open>
  Shared vocabulary of the development: the fixed-width integer types of the kernel, the
  result type of code that can fault, the \<open>for\<close> loop over a half-open range of indices, and
  the generic facts on words, lists and loops that the component theories use.

  A value of type \<open>'a option\<close> is the result of a piece of code: \<open>None\<close> is undefined
  behaviour of the C++ program (an access outside the block a pointer points into, a
  dereference of \<open>NULL\<close>, a division by zero), \<open>Some x\<close> is normal completion with result
  \<open>x\<close>. Error codes the code itself returns (such as \<open>-1\<close>) are ordinary values.
\<close>

section \<open>Types\<close>

type_synonym u8 = "8 word"
type_synonym u16 = "16 word"
type_synonym u32 = "32 word"
type_synonym u64 = "64 word"
type_synonym size_t = "64 word"
type_synonym ssize_t = "64 word" \<comment> \<open>two's complement, read with \<^const>\<open>sint\<close>\<close>
type_synonym off_t = "64 word"
type_synonym pid_t = "64 word"
type_synonym tid_t = "64 word"

named_theorems fault_simps \<open>unfolding rules of fallible code\<close>
named_theorems bound_simps \<open>conversions between words and naturals\<close>

section \<open>Loops\<close>

text \<open>
  \<open>for_range f i n s\<close> is \<^verbatim>\<open>for(k = i; k < i + n; k++) s = f(k, s)\<close>, where the body may
  fault. The number of iterations \<open>n\<close> is computed by the caller from the bounds the code
  writes, wrap-around included.
\<close>

fun for_range :: "(nat \<Rightarrow> 's \<Rightarrow> 's option) \<Rightarrow> nat \<Rightarrow> nat \<Rightarrow> 's \<Rightarrow> 's option" where
  "for_range f i 0 s = Some s"
| "for_range f i (Suc n) s = do { s' \<leftarrow> f i s; for_range f (Suc i) n s' }"

lemma for_range_add:
  "for_range f i (m + n) s = do { s' \<leftarrow> for_range f i m s; for_range f (i + m) n s' }"
  by (induction m arbitrary: i s) (auto simp: bind_eq_None_conv split: Option.bind_splits)

lemma for_range_shift: "for_range (\<lambda>z. f (c + z)) j n s = for_range f (c + j) n s"
  by (induction n arbitrary: j s) (simp_all cong: Option.bind_cong)

lemma for_range_cong:
  assumes "\<And>k t. i \<le> k \<Longrightarrow> k < i + n \<Longrightarrow> f k t = g k t"
  shows "for_range f i n s = for_range g i n s"
  using assms
proof (induction n arbitrary: i s)
  case (Suc n)
  then show ?case by (auto split: Option.bind_splits)
qed simp

text \<open>The total-correctness rule of the loop: an invariant indexed by the loop counter.\<close>

lemma for_range_invariant:
  assumes "I i s"
    and "\<And>k t. i \<le> k \<Longrightarrow> k < i + n \<Longrightarrow> I k t \<Longrightarrow> \<exists>t'. f k t = Some t' \<and> I (Suc k) t'"
  shows "\<exists>s'. for_range f i n s = Some s' \<and> I (i + n) s'"
  using assms
proof (induction n arbitrary: i s)
  case (Suc n)
  from Suc.prems(2) [of i s] Suc.prems(1) obtain t where t: "f i s = Some t" "I (Suc i) t"
    by auto
  have "\<exists>s'. for_range f (Suc i) n t = Some s' \<and> I (Suc i + n) s'"
    by (rule Suc.IH) (use t Suc.prems in auto)
  with t show ?case by simp
qed simp

lemma for_range_Some_invariant:
  assumes "for_range f i n s = Some s'" and "I i s"
    and "\<And>k t t'. i \<le> k \<Longrightarrow> k < i + n \<Longrightarrow> I k t \<Longrightarrow> f k t = Some t' \<Longrightarrow> I (Suc k) t'"
  shows "I (i + n) s'"
  using assms
proof (induction n arbitrary: i s)
  case (Suc n)
  from Suc.prems(1) obtain t where t: "f i s = Some t" "for_range f (Suc i) n t = Some s'"
    by (auto simp: bind_eq_Some_conv)
  have "I (Suc i + n) s'"
    by (rule Suc.IH [OF t(2)]) (use t Suc.prems in auto)
  then show ?case by simp
qed simp

section \<open>Arrays\<close>

text \<open>
  Reading and writing a cell of a block of memory. A block is the list of its cells.
\<close>

definition read_at :: "'a list \<Rightarrow> nat \<Rightarrow> 'a option" where
  "read_at xs i = (if i < length xs then Some (xs ! i) else None)"

definition write_at :: "'a list \<Rightarrow> nat \<Rightarrow> 'a \<Rightarrow> 'a list option" where
  "write_at xs i x = (if i < length xs then Some (xs[i := x]) else None)"

lemma read_at_Some [simp]: "i < length xs \<Longrightarrow> read_at xs i = Some (xs ! i)"
  by (simp add: read_at_def)

lemma write_at_Some [simp]: "i < length xs \<Longrightarrow> write_at xs i x = Some (xs[i := x])"
  by (simp add: write_at_def)

lemma read_at_eq_Some: "read_at xs i = Some x \<longleftrightarrow> i < length xs \<and> x = xs ! i"
  by (auto simp: read_at_def)

lemma write_at_eq_Some: "write_at xs i x = Some ys \<longleftrightarrow> i < length xs \<and> ys = xs[i := x]"
  by (auto simp: write_at_def)

lemma read_at_None: "read_at xs i = None \<longleftrightarrow> length xs \<le> i"
  by (auto simp: read_at_def)

lemma write_at_None: "write_at xs i x = None \<longleftrightarrow> length xs \<le> i"
  by (auto simp: write_at_def)

lemmas [fault_simps] = read_at_eq_Some write_at_eq_Some read_at_None write_at_None
  bind_eq_Some_conv bind_eq_None_conv

lemma take_Suc_update:
  "i < length xs \<Longrightarrow> take (Suc i) (xs[i := x]) = take i xs @ [x]"
  by (simp add: take_Suc_conv_app_nth)

section \<open>Words and naturals\<close>

lemma unat_lt_2p64 [simp]: "unat (x :: 64 word) < 18446744073709551616"
  using unsigned_less [of x] by simp

lemma lt_unat_2p64: "i < unat (x :: 64 word) \<Longrightarrow> i < 2 ^ 64"
  using unat_lt_2p64 [of x] by (simp del: unat_lt_2p64)

lemma unat_add_lt [bound_simps]:
  fixes x y :: "64 word"
  assumes "unat x + unat y < 2 ^ 64"
  shows "unat (x + y) = unat x + unat y"
  using assms by (simp add: unat_word_ariths)

lemma unat_plus_1: "x < (y :: 64 word) \<Longrightarrow> unat (x + 1) = Suc (unat x)"
proof -
  assume "x < y"
  then have "unat x < unat y" by (simp add: word_less_nat_alt)
  moreover have "unat y < 18446744073709551616" by simp
  ultimately have "Suc (unat x) < 18446744073709551616" by linarith
  then show ?thesis by (subst unat_add_lt) simp_all
qed

lemma unat_mult_lt [bound_simps]:
  fixes x y :: "64 word"
  assumes "unat x * unat y < 2 ^ 64"
  shows "unat (x * y) = unat x * unat y"
  using assms by (simp add: unat_word_ariths)

lemma unat_of_nat_lt [bound_simps]:
  assumes "n < 2 ^ 64"
  shows "unat (of_nat n :: 64 word) = n"
  using assms by (simp add: unat_of_nat)

lemma of_nat_not_m1:
  assumes "k < unat (x :: 64 word)"
  shows "(of_nat k :: 64 word) \<noteq> -1"
proof
  assume "(of_nat k :: 64 word) = -1"
  moreover have "(-1 :: 64 word) = 18446744073709551615" by simp
  ultimately have "unat (of_nat k :: 64 word) = unat (18446744073709551615 :: 64 word)" by metis
  then have "unat (of_nat k :: 64 word) = 18446744073709551615" by simp
  moreover have "unat (of_nat k :: 64 word) = k" by (rule unat_of_nat_lt [OF lt_unat_2p64 [OF assms]])
  moreover have "unat x < 18446744073709551616" by simp
  ultimately show False using assms by linarith
qed

lemma unat_div_2 [bound_simps]: "unat (x div 2 :: 64 word) = unat x div 2"
  by (simp add: unat_div)

lemma word_div_2_eq_0_iff: "(x div 2 :: 64 word) = 0 \<longleftrightarrow> unat x < 2"
proof -
  have "(x div 2 :: 64 word) = 0 \<longleftrightarrow> unat (x div 2) = 0"
    by (metis unat_eq_zero)
  then show ?thesis by (auto simp: unat_div_2)
qed

lemma sint_range: "- (2 ^ 63) \<le> sint (x :: 64 word)" "sint (x :: 64 word) < 2 ^ 63"
  using sint_greater_eq [of x] sint_less [of x] by simp_all

lemma unat_sint_mod: "int (unat (x :: 64 word)) = sint x mod 2 ^ 64"
proof -
  have "uint x = take_bit 64 (sint x)" by (simp add: uint_sint)
  then show ?thesis by (simp add: take_bit_eq_mod)
qed

lemma mod_wrap:
  fixes k m :: int
  assumes "- m \<le> k" and "k < 0"
  shows "k mod (2 * m) = k + 2 * m"
proof -
  have "(k + 2 * m) mod (2 * m) = k + 2 * m"
    using assms by (intro mod_pos_pos_trivial) simp_all
  then show ?thesis by simp
qed

lemma unat_sint_nonneg: "0 \<le> sint (x :: 64 word) \<Longrightarrow> int (unat x) = sint x"
  using unat_sint_mod [of x] sint_range [of x] by simp

lemma unat_sint_neg: "sint (x :: 64 word) < 0 \<Longrightarrow> int (unat x) = sint x + 2 ^ 64"
  using mod_wrap [of "2 ^ 63" "sint x"] unat_sint_mod [of x] sint_range [of x] by simp

lemma sint_eq_unat:
  fixes x :: "64 word"
  assumes "unat x < 2 ^ 63"
  shows "sint x = int (unat x)"
proof (cases "0 \<le> sint x")
  case False
  then have "int (unat x) = sint x + 2 ^ 64" by (intro unat_sint_neg) simp
  moreover have "int (unat x) < 2 ^ 63"
    using assms by (simp only: of_nat_less_numeral_power_cancel_iff)
  ultimately have False using sint_range(1) [of x] by simp
  then show ?thesis ..
qed (use unat_sint_nonneg [of x] in simp)

lemma sint_neg_conv:
  fixes x :: "64 word"
  assumes "2 ^ 63 \<le> unat x"
  shows "sint x = int (unat x) - 2 ^ 64"
proof (cases "0 \<le> sint x")
  case True
  then have "int (unat x) = sint x" by (rule unat_sint_nonneg)
  moreover have "2 ^ 63 \<le> int (unat x)"
    using assms by (simp only: numeral_power_le_of_nat_cancel_iff)
  ultimately have False using sint_range(2) [of x] by linarith
  then show ?thesis ..
next
  case False
  then have "int (unat x) = sint x + 2 ^ 64" by (intro unat_sint_neg) simp
  then show ?thesis by linarith
qed

lemma unat_of_int_nonneg:
  assumes "0 \<le> k" and "k < 2 ^ 64"
  shows "unat (word_of_int k :: 64 word) = nat k"
proof -
  have "word_of_int k = (of_nat (nat k) :: 64 word)" using assms by simp
  moreover have "nat k < 2 ^ 64" using assms by (simp only: nat_less_numeral_power_cancel_iff)
  ultimately show ?thesis using unat_of_nat_lt [of "nat k"] by metis
qed

lemma sdiv_nonneg: "0 \<le> k \<Longrightarrow> 0 < l \<Longrightarrow> k sdiv l = k div (l :: int)"
  by (cases "k = 0") (simp_all add: signed_divide_int_def)

lemma sdiv_neg: "k < 0 \<Longrightarrow> 0 < l \<Longrightarrow> k sdiv l = - (- k div (l :: int))"
  by (simp add: signed_divide_int_def)

lemma sint_word_of_int:
  assumes "- (2 ^ 63) \<le> k" and "k < 2 ^ 63"
  shows "sint (word_of_int k :: 64 word) = k"
proof -
  have "sint (word_of_int k :: 64 word) = signed_take_bit 63 k"
    by (simp add: signed_of_int)
  then show ?thesis using assms by (simp add: signed_take_bit_int_eq_self)
qed

lemma word_eq_unatI: "unat x = unat y \<Longrightarrow> x = y"
  by (simp add: word_unat_eq_iff)

lemma takeWhile_length_less: "x \<in> set xs \<Longrightarrow> \<not> P x \<Longrightarrow> length (takeWhile P xs) < length xs"
  by (induction xs) auto

end
