(* ===== verification/Memutils.thy ===== *)
theory Memutils
  imports Kernel_Prelude
begin

text \<open>
  \<^verbatim>\<open>kernel/lib/memutils.hpp\<close> and \<^verbatim>\<open>memutils.cpp\<close>: rounding, logarithm and power,
  the bitmap primitives every allocator of the kernel uses, the memory copy and fill loops,
  and the C string functions. A bitmap is the list of its bytes, a C string the list of the
  characters of the block it lies in.
\<close>

section \<open>Definitions\<close>

subsection \<open>Integer helpers\<close>

text \<open>
  \<open>div_roundup\<close> and \<open>align_up\<close> take and return \<^verbatim>\<open>ssize_t\<close>: the division is signed and
  truncates towards zero. A divisor of zero traps; the callers whose divisor is not a
  constant test for it.
\<close>

definition div_roundup :: "ssize_t \<Rightarrow> ssize_t \<Rightarrow> ssize_t" where
  "div_roundup a b = word_of_int (sint (a + (b - 1)) sdiv sint b)"

definition align_up :: "ssize_t \<Rightarrow> ssize_t \<Rightarrow> ssize_t" where
  "align_up a b = div_roundup a b * b"

definition abs_diff :: "size_t \<Rightarrow> size_t \<Rightarrow> size_t" where
  "abs_diff a b = (if a > b then a - b else b - a)"

function log2_loop :: "size_t \<Rightarrow> size_t \<Rightarrow> size_t" where
  "log2_loop a cnt = (let a = a div 2 in if a \<noteq> 0 then log2_loop a (cnt + 1) else cnt)"
  by pat_completeness auto
termination
proof (relation "measure (\<lambda>(a, cnt). unat a)", goal_cases)
  case (2 a cnt x)
  then show ?case by (simp add: unat_div_2 word_div_2_eq_0_iff)
qed simp

definition log2 :: "size_t \<Rightarrow> size_t" where
  "log2 a = log2_loop a 0"

definition pow2_roundup :: "size_t \<Rightarrow> size_t" where
  "pow2_roundup a =
     (let a = a - 1;
          a = a OR drop_bit 1 a;
          a = a OR drop_bit 2 a;
          a = a OR drop_bit 4 a;
          a = a OR drop_bit 8 a;
          a = a OR drop_bit 16 a
      in a + 1)"

text \<open>The exponent is shifted arithmetically and the loop leaves when it is not positive.\<close>

function pow_loop :: "ssize_t \<Rightarrow> ssize_t \<Rightarrow> ssize_t \<Rightarrow> ssize_t" where
  "pow_loop result base e =
     (let result = (if e AND 1 \<noteq> 0 then result * base else result);
          e = signed_drop_bit 1 e
      in if sint e \<le> 0 then result else pow_loop result (base * base) e)"
  by pat_completeness auto
termination
proof (relation "measure (\<lambda>(r, b, e). nat (sint e))", goal_cases)
  case (2 r b e x xa)
  then have "sint xa = sint e div 2" and "0 < sint xa"
    by (simp_all add: sint_signed_drop_bit_eq drop_bit_eq_div)
  then show ?case by auto
qed simp

definition pow :: "ssize_t \<Rightarrow> ssize_t \<Rightarrow> ssize_t" where
  "pow base e = pow_loop 1 base e"

subsection \<open>Bitmaps\<close>

text \<open>
  The instances at \<^verbatim>\<open>uint8_t\<close>, the only ones the allocators use. The index is the value
  of the \<^verbatim>\<open>size_t\<close> argument.
\<close>

type_synonym bitmap = "u8 list"

definition bm_set :: "bitmap \<Rightarrow> nat \<Rightarrow> bitmap option" where
  "bm_set bm loc = do {
     x \<leftarrow> read_at bm (loc div 8);
     write_at bm (loc div 8) (x OR push_bit (loc mod 8) 1)
   }"

definition bm_clear :: "bitmap \<Rightarrow> nat \<Rightarrow> bitmap option" where
  "bm_clear bm loc = do {
     x \<leftarrow> read_at bm (loc div 8);
     write_at bm (loc div 8) (x AND NOT (push_bit (loc mod 8) 1))
   }"

definition bm_test :: "bitmap \<Rightarrow> nat \<Rightarrow> bool option" where
  "bm_test bm loc = do {
     x \<leftarrow> read_at bm (loc div 8);
     Some (drop_bit (loc mod 8) x AND 1 \<noteq> 0)
   }"

fun bm_first_free_loop :: "bitmap \<Rightarrow> nat \<Rightarrow> nat \<Rightarrow> ssize_t option" where
  "bm_first_free_loop bm i 0 = Some (-1)"
| "bm_first_free_loop bm i (Suc n) = do {
     t \<leftarrow> bm_test bm i;
     if \<not> t then Some (of_nat i) else bm_first_free_loop bm (Suc i) n
   }"

definition bm_first_free :: "bitmap \<Rightarrow> size_t \<Rightarrow> ssize_t option" where
  "bm_first_free bm sz = bm_first_free_loop bm 0 (unat sz)"

text \<open>The loop condition \<^verbatim>\<open>i < start + limit\<close> is evaluated with wrap-around.\<close>

definition bm_alloc_region :: "bitmap \<Rightarrow> size_t \<Rightarrow> size_t \<Rightarrow> bitmap option" where
  "bm_alloc_region bm start limit =
     for_range (\<lambda>i b. bm_set b i) (unat start) (unat (start + limit) - unat start) bm"

definition bm_free_region :: "bitmap \<Rightarrow> size_t \<Rightarrow> size_t \<Rightarrow> bitmap option" where
  "bm_free_region bm start limit =
     for_range (\<lambda>i b. bm_clear b i) (unat start) (unat (start + limit) - unat start) bm"

subsection \<open>Filling and copying\<close>

text \<open>
  The pointer arguments are a block and an offset into it. \<open>memset_loop\<close> and
  \<open>memcpy_loop\<close> are the bodies the four widths share.
\<close>

definition memset_loop :: "'a list \<Rightarrow> nat \<Rightarrow> 'a \<Rightarrow> size_t \<Rightarrow> 'a list option" where
  "memset_loop blk off d count = for_range (\<lambda>i b. write_at b (off + i) d) 0 (unat count) blk"

definition memset8 :: "u8 list \<Rightarrow> nat \<Rightarrow> u8 \<Rightarrow> size_t \<Rightarrow> u8 list option" where
  "memset8 = memset_loop"

definition memset16 :: "u16 list \<Rightarrow> nat \<Rightarrow> u16 \<Rightarrow> size_t \<Rightarrow> u16 list option" where
  "memset16 = memset_loop"

definition memset32 :: "u32 list \<Rightarrow> nat \<Rightarrow> u32 \<Rightarrow> size_t \<Rightarrow> u32 list option" where
  "memset32 = memset_loop"

definition memset64 :: "u64 list \<Rightarrow> nat \<Rightarrow> u64 \<Rightarrow> size_t \<Rightarrow> u64 list option" where
  "memset64 = memset_loop"

definition memcpy_loop :: "'a list \<Rightarrow> nat \<Rightarrow> 'a list \<Rightarrow> nat \<Rightarrow> size_t \<Rightarrow> 'a list option" where
  "memcpy_loop dest doff src soff count =
     for_range (\<lambda>i b. do { x \<leftarrow> read_at src (soff + i); write_at b (doff + i) x })
       0 (unat count) dest"

definition memcpy8 :: "u8 list \<Rightarrow> nat \<Rightarrow> u8 list \<Rightarrow> nat \<Rightarrow> size_t \<Rightarrow> u8 list option" where
  "memcpy8 = memcpy_loop"

definition memcpy16 :: "u16 list \<Rightarrow> nat \<Rightarrow> u16 list \<Rightarrow> nat \<Rightarrow> size_t \<Rightarrow> u16 list option" where
  "memcpy16 = memcpy_loop"

definition memcpy32 :: "u32 list \<Rightarrow> nat \<Rightarrow> u32 list \<Rightarrow> nat \<Rightarrow> size_t \<Rightarrow> u32 list option" where
  "memcpy32 = memcpy_loop"

definition memcpy64 :: "u64 list \<Rightarrow> nat \<Rightarrow> u64 list \<Rightarrow> nat \<Rightarrow> size_t \<Rightarrow> u64 list option" where
  "memcpy64 = memcpy_loop"

definition memcpy :: "u8 list \<Rightarrow> nat \<Rightarrow> u8 list \<Rightarrow> nat \<Rightarrow> size_t \<Rightarrow> u8 list option" where
  "memcpy = memcpy_loop"

subsection \<open>C strings\<close>

abbreviation NUL :: char where
  "NUL \<equiv> CHR 0x00"

text \<open>The value of a \<^verbatim>\<open>char\<close>, which is signed on this target, in an expression.\<close>

definition char_val :: "char \<Rightarrow> ssize_t" where
  "char_val c = signed (of_char c :: 8 word)"

fun strlen_loop :: "string \<Rightarrow> nat option" where
  "strlen_loop [] = None"
| "strlen_loop (c # cs) = (if c = NUL then Some 0 else map_option Suc (strlen_loop cs))"

text \<open>\<open>None\<close> as the pointer argument is \<^verbatim>\<open>NULL\<close>.\<close>

definition strlen :: "string option \<Rightarrow> nat option" where
  "strlen str = (case str of None \<Rightarrow> Some 0 | Some s \<Rightarrow> strlen_loop s)"

fun strcmp :: "string \<Rightarrow> string \<Rightarrow> ssize_t option" where
  "strcmp (a # as) (b # bs) =
     (if a \<noteq> b then Some (char_val a - char_val b)
      else if a = NUL then Some 0
      else strcmp as bs)"
| "strcmp _ _ = None"

fun strncmp :: "string \<Rightarrow> string \<Rightarrow> nat \<Rightarrow> ssize_t option" where
  "strncmp _ _ 0 = Some 0"
| "strncmp (a # as) (b # bs) (Suc n) =
     (if a \<noteq> b then Some (char_val a - char_val b)
      else if a = NUL then Some 0
      else strncmp as bs n)"
| "strncmp _ _ (Suc n) = None"

text \<open>\<open>strcpy_loop dest i src\<close>: the loop at index \<open>i\<close>, \<open>src\<close> the characters still to copy.\<close>

fun strcpy_loop :: "string \<Rightarrow> nat \<Rightarrow> string \<Rightarrow> string option" where
  "strcpy_loop dest i [] = None"
| "strcpy_loop dest i (c # cs) =
     (if c \<noteq> NUL then do { d \<leftarrow> write_at dest i c; strcpy_loop d (Suc i) cs }
      else write_at dest i NUL)"

definition strcpy :: "string \<Rightarrow> string \<Rightarrow> string option" where
  "strcpy dest src = strcpy_loop dest 0 src"

fun strncpy_loop :: "string \<Rightarrow> nat \<Rightarrow> string \<Rightarrow> nat \<Rightarrow> string option" where
  "strncpy_loop dest i src 0 = Some dest"
| "strncpy_loop dest i [] (Suc n) = None"
| "strncpy_loop dest i (c # cs) (Suc n) =
     (if c \<noteq> NUL then do { d \<leftarrow> write_at dest i c; strncpy_loop d (Suc i) cs n }
      else for_range (\<lambda>k d. write_at d k NUL) i (Suc n) dest)"

definition strncpy :: "string \<Rightarrow> string \<Rightarrow> size_t \<Rightarrow> string option" where
  "strncpy dest src n = strncpy_loop dest 0 src (unat n)"

declare log2_loop.simps [simp del] pow_loop.simps [simp del]

section \<open>Rounding\<close>

lemma unat_div_roundup:
  assumes "0 < b" and "unat a + unat b < 2 ^ 63"
  shows "unat (div_roundup a b) = (unat a + unat b - 1) div unat b"
proof -
  let ?n = "unat a + unat b - 1"
  have b: "0 < unat b" using assms(1) by (simp add: word_less_nat_alt)
  have "a + (b - 1) = of_nat ?n"
    using b by simp
  moreover have "?n < 2 ^ 64" using assms(2) by simp
  ultimately have u: "unat (a + (b - 1)) = ?n"
    by (simp only: unat_of_nat_lt)
  have "sint (a + (b - 1)) = int ?n"
    using sint_eq_unat [of "a + (b - 1)"] u assms(2) b by linarith
  moreover have "sint b = int (unat b)"
    using assms(2) by (intro sint_eq_unat) linarith
  ultimately have "div_roundup a b = of_nat (?n div unat b)"
    using b by (simp only: div_roundup_def sdiv_nonneg zdiv_int [symmetric] of_nat_0_le_iff
        of_nat_0_less_iff of_int_of_nat_eq)
  moreover have "?n div unat b < 2 ^ 64"
    using assms(2) b by (intro le_less_trans [OF div_le_dividend]) simp
  ultimately show ?thesis by (simp only: unat_of_nat_lt)
qed

lemma unat_align_up:
  assumes "0 < b" and "unat a + unat b < 2 ^ 63"
  shows "unat (align_up a b) = (unat a + unat b - 1) div unat b * unat b"
proof -
  have "(unat a + unat b - 1) div unat b * unat b \<le> unat a + unat b - 1" by simp
  also have "\<dots> < 2 ^ 64" using assms(2) by simp
  finally show ?thesis
    unfolding align_up_def using unat_div_roundup [OF assms] unat_mult_lt by metis
qed

lemma roundup_least:
  fixes a b :: nat
  assumes "0 < b"
  shows "a \<le> (a + b - 1) div b * b" and "(a + b - 1) div b * b < a + b"
proof -
  have "a + b - 1 = (a + b - 1) div b * b + (a + b - 1) mod b" by simp
  moreover have "(a + b - 1) mod b < b" using assms by simp
  ultimately show "a \<le> (a + b - 1) div b * b" using assms by linarith
  show "(a + b - 1) div b * b < a + b"
    using assms div_times_less_eq_dividend [of "a + b - 1" b] by linarith
qed

lemma align_up_multiple:
  assumes "0 < b" and "unat a + unat b < 2 ^ 63"
  shows "unat b dvd unat (align_up a b)" and "a \<le> align_up a b"
    and "unat (align_up a b) < unat a + unat b"
  using roundup_least [of "unat b" "unat a"] assms
  by (simp_all add: unat_align_up word_le_nat_alt word_less_nat_alt)

lemma align_up_id:
  assumes "0 < b" and "unat a + unat b < 2 ^ 63" and "unat b dvd unat a"
  shows "align_up a b = a"
proof (rule word_eq_unatI)
  have b: "0 < unat b" using assms(1) by (simp add: word_less_nat_alt)
  obtain k where k: "unat a = k * unat b" using assms(3) by (metis dvd_div_mult_self)
  have "(unat b - 1 + k * unat b) div unat b = k"
    using b by (subst div_mult_self1) simp_all
  moreover have "unat a + unat b - 1 = unat b - 1 + k * unat b" using b k by simp
  ultimately show "unat (align_up a b) = unat a"
    using unat_align_up [OF assms(1,2)] k by simp
qed

text \<open>
  The higher half of the address space is negative as \<^verbatim>\<open>ssize_t\<close>, where truncation rounds
  upwards already: an aligned address is moved to the next multiple.
\<close>

lemma align_up_negative:
  assumes "1 < sint b" and "sint a + sint b \<le> 0" and "sint b dvd sint a"
  shows "align_up a b = a + b"
proof -
  obtain k where k: "sint a = k * sint b"
    using assms(3) by (metis dvd_div_mult_self)
  have "a + (b - 1) = word_of_int (sint a + (sint b - 1))" by simp
  then have "sint (a + (b - 1)) = sint a + (sint b - 1)"
    using assms sint_range [of a] sint_range [of b] sint_word_of_int [of "sint a + (sint b - 1)"]
    by simp
  moreover have "(sint a + (sint b - 1)) sdiv sint b = k + 1"
  proof -
    have "- (sint a + (sint b - 1)) = 1 + (- k - 1) * sint b"
      by (simp add: k algebra_simps)
    then have "- (sint a + (sint b - 1)) div sint b = - k - 1"
      using assms(1) by (simp only: div_mult_self1) simp
    then show ?thesis using assms by (simp add: sdiv_neg)
  qed
  ultimately have "align_up a b = word_of_int ((k + 1) * sint b)"
    by (simp add: align_up_def div_roundup_def)
  also have "\<dots> = word_of_int (sint a) + word_of_int (sint b)"
    unfolding k by (simp add: algebra_simps)
  finally show ?thesis by simp
qed

section \<open>Logarithm and powers\<close>

lemma log2_loop_correct:
  assumes "a \<noteq> 0"
  shows "\<exists>n. log2_loop a cnt = cnt + of_nat n \<and> 2 ^ n \<le> unat a \<and> unat a < 2 ^ Suc n"
  using assms
proof (induction a cnt rule: log2_loop.induct)
  case (1 a cnt)
  show ?case
  proof (cases "a div 2 = 0")
    case True
    then have "log2_loop a cnt = cnt" by (simp add: log2_loop.simps [of a])
    moreover have "unat a = 1"
      using True "1.prems" by (simp add: word_div_2_eq_0_iff) (metis less_2_cases unat_eq_zero)
    ultimately show ?thesis by (intro exI [of _ 0]) simp
  next
    case False
    with "1.IH" [OF refl] obtain n where
      n: "log2_loop (a div 2) (cnt + 1) = cnt + 1 + of_nat n"
        "2 ^ n \<le> unat a div 2" "unat a div 2 < 2 ^ Suc n"
      by (auto simp: unat_div_2)
    from n(1) False have "log2_loop a cnt = cnt + of_nat (Suc n)"
      by (simp add: log2_loop.simps [of a])
    moreover have "2 ^ Suc n \<le> unat a" "unat a < 2 ^ Suc (Suc n)"
      using n(2,3) by (simp_all add: less_eq_div_iff_mult_less_eq div_less_iff_less_mult mult.commute)
    ultimately show ?thesis by blast
  qed
qed

lemma log2_bounds:
  assumes "a \<noteq> 0"
  shows "2 ^ unat (log2 a) \<le> unat a" and "unat a < 2 ^ Suc (unat (log2 a))"
proof -
  obtain n where n: "log2 a = of_nat n" "2 ^ n \<le> unat a" "unat a < 2 ^ Suc n"
    using log2_loop_correct [OF assms, of 0] by (auto simp: log2_def)
  have "unat a < 2 ^ 64" by simp
  with n(2) have "(2::nat) ^ n < 2 ^ 64" by (rule le_less_trans)
  then have "n < 64" by (rule power_less_imp_less_exp [rotated]) simp
  then have "unat (log2 a) = n" using n(1) unat_of_nat_lt [of n] by simp
  with n show "2 ^ unat (log2 a) \<le> unat a" "unat a < 2 ^ Suc (unat (log2 a))" by simp_all
qed

text \<open>Smearing: each \<open>OR\<close> with a shifted copy doubles the window of bits seen.\<close>

definition smeared :: "u64 \<Rightarrow> nat \<Rightarrow> u64 \<Rightarrow> bool" where
  "smeared a w x \<longleftrightarrow> (\<forall>n. bit x n \<longleftrightarrow> (\<exists>k < w. bit a (n + k)))"

lemma smeared_1: "smeared a 1 a"
  by (simp add: smeared_def)

lemma smeared_step: "smeared a w x \<Longrightarrow> smeared a (2 * w) (x OR drop_bit w x)"
proof -
  assume x: "smeared a w x"
  have "(\<exists>k < w. bit a (n + k)) \<or> (\<exists>k < w. bit a (w + n + k)) \<longleftrightarrow> (\<exists>k < 2 * w. bit a (n + k))" for n
  proof
    assume "(\<exists>k < w. bit a (n + k)) \<or> (\<exists>k < w. bit a (w + n + k))"
    then show "\<exists>k < 2 * w. bit a (n + k)"
    proof
      assume "\<exists>k < w. bit a (n + k)"
      then show ?thesis by (metis mult_2 trans_less_add1)
    next
      assume "\<exists>k < w. bit a (w + n + k)"
      then obtain k where "k < w" "bit a (n + (w + k))" by (auto simp: ac_simps)
      then show ?thesis by (intro exI [of _ "w + k"]) simp
    qed
  next
    assume "\<exists>k < 2 * w. bit a (n + k)"
    then obtain k where k: "k < 2 * w" "bit a (n + k)" by auto
    show "(\<exists>k < w. bit a (n + k)) \<or> (\<exists>k < w. bit a (w + n + k))"
    proof (cases "k < w")
      case False
      with k have "k - w < w" "bit a (w + n + (k - w))" by simp_all
      then show ?thesis by blast
    qed (use k in blast)
  qed
  with x show "smeared a (2 * w) (x OR drop_bit w x)"
    by (simp add: smeared_def bit_or_iff bit_drop_bit_eq)
qed

lemma pow2_roundup_smeared: "\<exists>x. smeared (a - 1) 32 x \<and> pow2_roundup a = x + 1"
proof -
  define x1 where "x1 = (a - 1) OR drop_bit 1 (a - 1)"
  define x2 where "x2 = x1 OR drop_bit 2 x1"
  define x3 where "x3 = x2 OR drop_bit 4 x2"
  define x4 where "x4 = x3 OR drop_bit 8 x3"
  define x5 where "x5 = x4 OR drop_bit 16 x4"
  note defs = x1_def x2_def x3_def x4_def x5_def
  have "smeared (a - 1) 2 x1" using smeared_step [OF smeared_1] by (simp add: x1_def)
  from smeared_step [OF this] have "smeared (a - 1) 4 x2" by (simp add: x2_def)
  from smeared_step [OF this] have "smeared (a - 1) 8 x3" by (simp add: x3_def)
  from smeared_step [OF this] have "smeared (a - 1) 16 x4" by (simp add: x4_def)
  from smeared_step [OF this] have "smeared (a - 1) 32 x5" by (simp add: x5_def)
  moreover have "pow2_roundup a = x5 + 1"
    by (simp only: pow2_roundup_def Let_def defs)
  ultimately show ?thesis by blast
qed

lemma bit_unat_iff: "bit (x :: u64) n \<longleftrightarrow> bit (unat x) n"
  by (simp add: bit_unsigned_iff)

lemma ge_power_iff_bit:
  "2 ^ n \<le> (a :: nat) \<longleftrightarrow> (\<exists>k. bit a (n + k))"
proof
  assume "2 ^ n \<le> a"
  then have "drop_bit n a \<noteq> 0" by (simp add: drop_bit_eq_div div_eq_0_iff)
  then obtain k where "bit (drop_bit n a) k" using bit_eq_iff [of "drop_bit n a" 0] by auto
  then show "\<exists>k. bit a (n + k)" by (auto simp: bit_drop_bit_eq)
next
  assume "\<exists>k. bit a (n + k)"
  then obtain k where "bit (drop_bit n a) k" by (auto simp: bit_drop_bit_eq)
  then have "drop_bit n a \<noteq> 0" by (metis bit_0_eq bot_apply bot_bool_def)
  then show "2 ^ n \<le> a" by (simp add: drop_bit_eq_div div_eq_0_iff)
qed

lemma smeared_mask:
  assumes "smeared a 32 x" and "unat a < 2 ^ 32" and "a \<noteq> 0"
  shows "\<exists>m \<le> 32. unat x + 1 = 2 ^ m \<and> unat a < 2 ^ m \<and> 2 ^ m \<le> 2 * unat a"
proof -
  have hi: "k < 32" if "bit (unat a) k" for k
  proof -
    from that have "2 ^ k \<le> unat a" using ge_power_iff_bit [of k "unat a"] by (metis add_0_right)
    with assms(2) have "(2::nat) ^ k < 2 ^ 32" by linarith
    then show ?thesis by (rule power_less_imp_less_exp [rotated]) simp
  qed
  have b: "bit (unat x) n \<longleftrightarrow> 2 ^ n \<le> unat a" for n
    using assms(1) hi [of "n + k" for k] unfolding ge_power_iff_bit
    by (auto simp: smeared_def bit_unat_iff) (metis add_lessD1 add.commute)
  define l where "l = unat (log2 a)"
  have l: "2 ^ l \<le> unat a" "unat a < 2 ^ Suc l"
    using log2_bounds [OF assms(3)] by (simp_all add: l_def)
  have "bit (unat x) n \<longleftrightarrow> n < Suc l" for n
  proof
    assume "bit (unat x) n"
    then have "(2::nat) ^ n < 2 ^ Suc l" using b l(2) le_less_trans by blast
    then show "n < Suc l" by (rule power_less_imp_less_exp [rotated]) simp
  next
    assume "n < Suc l"
    then have "(2::nat) ^ n \<le> 2 ^ l" by simp
    then show "bit (unat x) n" using b l(1) le_trans by blast
  qed
  then have "unat x = mask (Suc l)" by (intro bit_eqI) (simp add: bit_mask_iff)
  then have "unat x + 1 = 2 ^ Suc l" by (simp only: mask_eq_exp_minus_1) simp
  moreover have "(2::nat) ^ l < 2 ^ 32" using l assms(2) by linarith
  then have "l < 32" by (rule power_less_imp_less_exp [rotated]) simp
  then have "Suc l \<le> 32" by simp
  moreover have "2 ^ Suc l \<le> 2 * unat a" using l(1) by simp
  ultimately show ?thesis using l(2) by blast
qed

lemma pow2_roundup_least:
  assumes "1 \<le> unat a" and "unat a \<le> 2 ^ 32"
  shows "\<exists>m \<le> 32. unat (pow2_roundup a) = 2 ^ m \<and> unat a \<le> 2 ^ m \<and> 2 ^ m < 2 * unat a"
proof -
  have a1: "unat (a - 1) = unat a - 1"
    using assms(1) by (subst unat_sub) (simp_all add: word_le_nat_alt)
  obtain x where x: "smeared (a - 1) 32 x" "pow2_roundup a = x + 1"
    using pow2_roundup_smeared by blast
  show ?thesis
  proof (cases "a - 1 = 0")
    case True
    then have "a = 1" by simp
    with x have "x = 0" by (auto intro!: bit_eqI simp: smeared_def)
    with x \<open>a = 1\<close> show ?thesis by (intro exI [of _ 0]) simp
  next
    case False
    have "unat (a - 1) < 2 ^ 32" using a1 assms by simp
    from smeared_mask [OF x(1) this False] obtain m where
      m: "m \<le> 32" "unat x + 1 = 2 ^ m" "unat (a - 1) < 2 ^ m" "2 ^ m \<le> 2 * unat (a - 1)" by blast
    have "(2::nat) ^ m \<le> 2 ^ 32" using m(1) by (intro power_increasing) simp_all
    then have "unat (pow2_roundup a) = 2 ^ m"
      using m(2) x(2) by (simp add: unat_add_lt)
    then show ?thesis using m a1 assms by (intro exI [of _ m]) auto
  qed
qed

lemma pow_loop_correct:
  "0 \<le> sint e \<Longrightarrow> pow_loop r b e = r * b ^ nat (sint e)"
proof (induction r b e rule: pow_loop.induct)
  case (1 r b e)
  define n where "n = nat (sint e)"
  define r' where "r' = (if e AND 1 \<noteq> 0 then r * b else r)"
  define e' where "e' = signed_drop_bit 1 e"
  have n: "sint e = int n" using "1.prems" by (simp add: n_def)
  have half: "sint e' = int (n div 2)"
    by (simp add: e'_def sint_signed_drop_bit_eq drop_bit_eq_div n zdiv_int)
  have "odd e \<longleftrightarrow> odd (sint e)"
    by (simp add: bit_sint_iff flip: bit_0)
  then have r': "r' = r * b ^ (n mod 2)"
    by (auto simp: r'_def n and_one_eq odd_iff_mod_2_eq_one)
  have step: "pow_loop r b e = (if sint e' \<le> 0 then r' else pow_loop r' (b * b) e')"
    by (simp add: pow_loop.simps [of r] Let_def r'_def e'_def)
  have parts: "r * b ^ n = r' * (b * b) ^ (n div 2)"
  proof -
    have "b ^ n = b ^ (n mod 2 + 2 * (n div 2))" by simp
    also have "\<dots> = b ^ (n mod 2) * (b * b) ^ (n div 2)"
      by (simp only: power_add power_mult power2_eq_square)
    finally show ?thesis by (simp add: r' mult.assoc)
  qed
  show ?case
  proof (cases "sint e' \<le> 0")
    case True
    then have "n div 2 = 0" using half by simp
    then show ?thesis using step True parts by (simp add: n)
  next
    case False
    have "pow_loop r' (b * b) e' = r' * (b * b) ^ nat (sint e')"
      by (rule "1.IH" [of r' e']) (use False in \<open>simp_all add: r'_def e'_def\<close>)
    then show ?thesis using step False parts half by (simp add: n)
  qed
qed

lemma pow_eq: "0 \<le> sint e \<Longrightarrow> pow b e = b ^ nat (sint e)"
  by (simp add: pow_def pow_loop_correct)

section \<open>The bitmap interface\<close>

text \<open>
  What the allocators rely on: within its length a bitmap is an array of Booleans, beyond it
  every access faults, and two bitmaps that agree on every bit are the same.
\<close>

locale bitmap_ops =
  fixes test :: "'b \<Rightarrow> nat \<Rightarrow> bool option"
    and mark :: "'b \<Rightarrow> nat \<Rightarrow> 'b option"
    and unmark :: "'b \<Rightarrow> nat \<Rightarrow> 'b option"
    and nbits :: "'b \<Rightarrow> nat"
  assumes test_None_iff: "test b i = None \<longleftrightarrow> nbits b \<le> i"
    and mark_None_iff: "mark b i = None \<longleftrightarrow> nbits b \<le> i"
    and unmark_None_iff: "unmark b i = None \<longleftrightarrow> nbits b \<le> i"
    and nbits_mark: "mark b i = Some b' \<Longrightarrow> nbits b' = nbits b"
    and nbits_unmark: "unmark b i = Some b' \<Longrightarrow> nbits b' = nbits b"
    and test_mark: "mark b i = Some b' \<Longrightarrow> test b' j = (if j = i then Some True else test b j)"
    and test_unmark: "unmark b i = Some b' \<Longrightarrow> test b' j = (if j = i then Some False else test b j)"
    and bits_ext: "nbits b = nbits b' \<Longrightarrow> (\<And>i. i < nbits b \<Longrightarrow> test b i = test b' i) \<Longrightarrow> b = b'"
begin

lemma mark_total: "i < nbits b \<Longrightarrow> \<exists>b'. mark b i = Some b'"
  using mark_None_iff [of b i] by (cases "mark b i") auto

lemma unmark_total: "i < nbits b \<Longrightarrow> \<exists>b'. unmark b i = Some b'"
  using unmark_None_iff [of b i] by (cases "unmark b i") auto

lemma test_total: "i < nbits b \<Longrightarrow> \<exists>t. test b i = Some t"
  using test_None_iff [of b i] by (cases "test b i") auto

lemma mark_region:
  assumes "s + n \<le> nbits b"
  shows "\<exists>b'. for_range (\<lambda>i b. mark b i) s n b = Some b' \<and> nbits b' = nbits b
    \<and> (\<forall>j. test b' j = (if s \<le> j \<and> j < s + n then Some True else test b j))"
proof (rule for_range_invariant [where I = "\<lambda>k b'. nbits b' = nbits b
    \<and> (\<forall>j. test b' j = (if s \<le> j \<and> j < k then Some True else test b j))"])
  fix k t
  assume k: "s \<le> k" "k < s + n" "nbits t = nbits b
    \<and> (\<forall>j. test t j = (if s \<le> j \<and> j < k then Some True else test b j))"
  then obtain t' where t': "mark t k = Some t'"
    using assms mark_total [of k t] by auto
  then show "\<exists>t'. mark t k = Some t' \<and> nbits t' = nbits b
      \<and> (\<forall>j. test t' j = (if s \<le> j \<and> j < Suc k then Some True else test b j))"
    using k nbits_mark [OF t'] test_mark [OF t'] by (auto simp: less_Suc_eq)
qed auto

lemma unmark_region:
  assumes "s + n \<le> nbits b"
  shows "\<exists>b'. for_range (\<lambda>i b. unmark b i) s n b = Some b' \<and> nbits b' = nbits b
    \<and> (\<forall>j. test b' j = (if s \<le> j \<and> j < s + n then Some False else test b j))"
proof (rule for_range_invariant [where I = "\<lambda>k b'. nbits b' = nbits b
    \<and> (\<forall>j. test b' j = (if s \<le> j \<and> j < k then Some False else test b j))"])
  fix k t
  assume k: "s \<le> k" "k < s + n" "nbits t = nbits b
    \<and> (\<forall>j. test t j = (if s \<le> j \<and> j < k then Some False else test b j))"
  then obtain t' where t': "unmark t k = Some t'"
    using assms unmark_total [of k t] by auto
  then show "\<exists>t'. unmark t k = Some t' \<and> nbits t' = nbits b
      \<and> (\<forall>j. test t' j = (if s \<le> j \<and> j < Suc k then Some False else test b j))"
    using k nbits_unmark [OF t'] test_unmark [OF t'] by (auto simp: less_Suc_eq)
qed auto

lemma mark_region_faults:
  assumes "nbits b < s + n" and "0 < n"
  shows "for_range (\<lambda>i b. mark b i) s n b = None"
proof (rule ccontr)
  assume "for_range (\<lambda>i b. mark b i) s n b \<noteq> None"
  then obtain b' where "for_range (\<lambda>i b. mark b i) s n b = Some b'" by blast
  then have "nbits b' = nbits b \<and> (s < s + n \<longrightarrow> s + n \<le> nbits b)"
  proof (rule for_range_Some_invariant [where
        I = "\<lambda>k t. nbits t = nbits b \<and> (s < k \<longrightarrow> k \<le> nbits b)"])
    fix k t t'
    assume "s \<le> k" "nbits t = nbits b \<and> (s < k \<longrightarrow> k \<le> nbits b)" and m: "mark t k = Some t'"
    then show "nbits t' = nbits b \<and> (s < Suc k \<longrightarrow> Suc k \<le> nbits b)"
      using nbits_mark [OF m] mark_None_iff [of t k] by auto
  qed simp
  with assms show False by simp
qed

text \<open>Marking a free region and unmarking it gives the bitmap back.\<close>

lemma mark_unmark_region:
  assumes "s + n \<le> nbits b" and "\<And>j. s \<le> j \<Longrightarrow> j < s + n \<Longrightarrow> test b j = Some False"
    and "for_range (\<lambda>i b. mark b i) s n b = Some b'"
  shows "for_range (\<lambda>i b. unmark b i) s n b' = Some b"
proof -
  from mark_region [OF assms(1)] assms(3) have
    b': "nbits b' = nbits b" "\<And>j. test b' j = (if s \<le> j \<and> j < s + n then Some True else test b j)"
    by auto
  from unmark_region [of s n b'] assms(1) b'(1) obtain b'' where
    b'': "for_range (\<lambda>i b. unmark b i) s n b' = Some b''" "nbits b'' = nbits b'"
      "\<And>j. test b'' j = (if s \<le> j \<and> j < s + n then Some False else test b' j)"
    by auto
  have "b'' = b"
    by (rule bits_ext) (use b' b'' assms(2) in auto)
  with b''(1) show ?thesis by simp
qed

end

text \<open>The byte-array bitmaps of the kernel satisfy the interface.\<close>

lemma bm_test_eq: "bm_test bm i = (if i < 8 * length bm then Some (bit (bm ! (i div 8)) (i mod 8)) else None)"
proof -
  have "drop_bit n x AND 1 \<noteq> 0 \<longleftrightarrow> bit x n" for x :: u8 and n
    by (simp add: and_one_eq bit_iff_odd_drop_bit odd_iff_mod_2_eq_one)
  then show ?thesis
    by (auto simp: bm_test_def read_at_def div_less_iff_less_mult mult.commute)
qed

lemma bm_set_eq: "bm_set bm i = (if i < 8 * length bm
    then Some (bm[i div 8 := set_bit (i mod 8) (bm ! (i div 8))]) else None)"
  by (auto simp: bm_set_def read_at_def write_at_def div_less_iff_less_mult mult.commute set_bit_eq_or)

lemma bm_clear_eq: "bm_clear bm i = (if i < 8 * length bm
    then Some (bm[i div 8 := unset_bit (i mod 8) (bm ! (i div 8))]) else None)"
  by (auto simp: bm_clear_def read_at_def write_at_def div_less_iff_less_mult mult.commute
      unset_bit_eq_and_not)

abbreviation bm_bits :: "bitmap \<Rightarrow> nat" where
  "bm_bits bm \<equiv> 8 * length bm"

lemma div_mod_8_eq: "i div 8 = j div 8 \<Longrightarrow> i mod 8 = j mod 8 \<Longrightarrow> i = (j::nat)"
  by (metis div_mult_mod_eq)

interpretation bm: bitmap_ops bm_test bm_set bm_clear bm_bits
proof unfold_locales
  fix b b' :: bitmap and i j :: nat
  show "bm_test b i = None \<longleftrightarrow> bm_bits b \<le> i" by (simp add: bm_test_eq not_less)
  show "bm_set b i = None \<longleftrightarrow> bm_bits b \<le> i" by (simp add: bm_set_eq not_less)
  show "bm_clear b i = None \<longleftrightarrow> bm_bits b \<le> i" by (simp add: bm_clear_eq not_less)
  show "bm_bits b' = bm_bits b" if "bm_set b i = Some b'"
    using that by (auto simp: bm_set_eq split: if_splits)
  show "bm_bits b' = bm_bits b" if "bm_clear b i = Some b'"
    using that by (auto simp: bm_clear_eq split: if_splits)
  show "bm_test b' j = (if j = i then Some True else bm_test b j)" if "bm_set b i = Some b'"
    using that div_mod_8_eq [of i j]
    by (auto simp: bm_set_eq bm_test_eq nth_list_update bit_set_bit_iff split: if_splits)
  show "bm_test b' j = (if j = i then Some False else bm_test b j)" if "bm_clear b i = Some b'"
    using that div_mod_8_eq [of i j]
    by (auto simp: bm_clear_eq bm_test_eq nth_list_update bit_unset_bit_iff split: if_splits)
  show "b = b'" if "bm_bits b = bm_bits b'" "\<And>i. i < bm_bits b \<Longrightarrow> bm_test b i = bm_test b' i"
  proof (rule nth_equalityI)
    show len: "length b = length b'" using that(1) by simp
    fix k assume k: "k < length b"
    show "b ! k = b' ! k"
    proof (rule bit_word_eqI)
      fix n assume "n < LENGTH(8)"
      then show "bit (b ! k) n = bit (b' ! k) n"
        using that(2) [of "8 * k + n"] k len by (simp add: bm_test_eq)
    qed
  qed
qed

lemma bm_first_free_loop_correct:
  assumes "i + n \<le> bm_bits bm" and "i + n < 2 ^ 64"
  shows "(\<forall>k. i \<le> k \<and> k < i + n \<longrightarrow> bm_test bm k = Some True) \<and> bm_first_free_loop bm i n = Some (-1)
    \<or> (\<exists>k. i \<le> k \<and> k < i + n \<and> bm_test bm k = Some False
        \<and> (\<forall>j. i \<le> j \<and> j < k \<longrightarrow> bm_test bm j = Some True)
        \<and> bm_first_free_loop bm i n = Some (of_nat k))"
  using assms
proof (induction n arbitrary: i)
  case (Suc n)
  obtain t where t: "bm_test bm i = Some t" using bm.test_total [of i bm] Suc.prems by auto
  show ?case
  proof (cases t)
    case False
    with t show ?thesis by (intro disjI2 exI [of _ i]) auto
  next
    case True
    have "Suc i + n \<le> bm_bits bm" "Suc i + n < 2 ^ 64" using Suc.prems by simp_all
    from Suc.IH [OF this] show ?thesis
    proof (elim disjE exE conjE)
      assume a: "\<forall>k. Suc i \<le> k \<and> k < Suc i + n \<longrightarrow> bm_test bm k = Some True"
        "bm_first_free_loop bm (Suc i) n = Some (-1)"
      have "bm_test bm k = Some True" if "i \<le> k" "k < i + Suc n" for k
        using that a(1) t True by (cases "k = i") auto
      with a t True show ?thesis by (intro disjI1) simp
    next
      fix k
      assume a: "Suc i \<le> k" "k < Suc i + n" "bm_test bm k = Some False"
        "\<forall>j. Suc i \<le> j \<and> j < k \<longrightarrow> bm_test bm j = Some True"
        "bm_first_free_loop bm (Suc i) n = Some (of_nat k)"
      have "bm_test bm j = Some True" if "i \<le> j" "j < k" for j
        using that a(4) t True by (cases "j = i") auto
      with a t True show ?thesis by (intro disjI2 exI [of _ k]) simp
    qed
  qed
qed auto

section \<open>Copying, filling and C strings\<close>

lemma memset_loop_eq:
  assumes "off + unat n \<le> length blk"
  shows "memset_loop blk off d n
    = Some (take off blk @ replicate (unat n) d @ drop (off + unat n) blk)"
proof -
  have "\<exists>b'. for_range (\<lambda>i b. write_at b (off + i) d) 0 (unat n) blk = Some b'
      \<and> b' = take off blk @ replicate (0 + unat n) d @ drop (off + (0 + unat n)) blk"
  proof (rule for_range_invariant [where
        I = "\<lambda>k b. b = take off blk @ replicate k d @ drop (off + k) blk"])
    fix k t
    assume "k < 0 + unat n" and t: "t = take off blk @ replicate k d @ drop (off + k) blk"
    then have k: "off + k < length blk" using assms by simp
    then have "drop (off + k) blk = blk ! (off + k) # drop (off + Suc k) blk"
      by (simp add: Cons_nth_drop_Suc)
    then show "\<exists>t'. write_at t (off + k) d = Some t'
        \<and> t' = take off blk @ replicate (Suc k) d @ drop (off + Suc k) blk"
      using k t by (simp add: list_update_append replicate_append_same)
  qed simp
  then show ?thesis by (simp add: memset_loop_def)
qed

lemma memcpy_loop_eq:
  assumes "doff + unat n \<le> length dest" and "soff + unat n \<le> length src"
  shows "memcpy_loop dest doff src soff n
    = Some (take doff dest @ take (unat n) (drop soff src) @ drop (doff + unat n) dest)"
proof -
  have "\<exists>b'. for_range (\<lambda>i b. do { x \<leftarrow> read_at src (soff + i); write_at b (doff + i) x })
        0 (unat n) dest = Some b'
      \<and> b' = take doff dest @ take (0 + unat n) (drop soff src) @ drop (doff + (0 + unat n)) dest"
  proof (rule for_range_invariant [where
        I = "\<lambda>k b. b = take doff dest @ take k (drop soff src) @ drop (doff + k) dest"])
    fix k t
    assume "k < 0 + unat n"
      and t: "t = take doff dest @ take k (drop soff src) @ drop (doff + k) dest"
    then have k: "doff + k < length dest" "soff + k < length src" using assms by simp_all
    then have "drop (doff + k) dest = dest ! (doff + k) # drop (doff + Suc k) dest"
      by (simp add: Cons_nth_drop_Suc)
    moreover have "take (Suc k) (drop soff src) = take k (drop soff src) @ [src ! (soff + k)]"
      using k(2) by (simp add: take_Suc_conv_app_nth)
    ultimately show "\<exists>t'. do { x \<leftarrow> read_at src (soff + k); write_at t (doff + k) x } = Some t'
        \<and> t' = take doff dest @ take (Suc k) (drop soff src) @ drop (doff + Suc k) dest"
      using k t by (simp add: list_update_append min_absorb2)
  qed simp
  then show ?thesis by (simp add: memcpy_loop_def)
qed

text \<open>The string a block holds: the characters before the first terminator.\<close>

definition c_string :: "string \<Rightarrow> string" where
  "c_string blk = takeWhile (\<lambda>c. c \<noteq> NUL) blk"

lemma strlen_loop_eq: "NUL \<in> set blk \<Longrightarrow> strlen_loop blk = Some (length (c_string blk))"
  by (induction blk) (auto simp: c_string_def)

lemma strlen_loop_faults: "NUL \<notin> set blk \<Longrightarrow> strlen_loop blk = None"
  by (induction blk) auto

lemma of_char_word_inj: "(of_char a :: 8 word) = of_char b \<longleftrightarrow> a = b"
proof
  have u: "unat (of_char c :: 8 word) = of_char c" for c
  proof -
    have "(of_char c :: 8 word) = of_nat (of_char c)" by (simp only: of_nat_of_char)
    moreover have "(of_char c :: nat) < 2 ^ 8" by (cases c) (simp add: split: bool.splits)
    ultimately show ?thesis by (simp only: unat_of_nat) simp
  qed
  assume "(of_char a :: 8 word) = of_char b"
  then have "(of_char a :: nat) = of_char b" by (simp only: u [symmetric])
  then show "a = b" by (rule of_char_eqI)
qed simp

lemma bit_char_val: "n < 8 \<Longrightarrow> bit (char_val c) n \<longleftrightarrow> bit (of_char c :: 8 word) n"
  by (cases "n = 7") (simp_all add: char_val_def bit_signed_iff min_def)

lemma char_val_inj: "char_val a = char_val b \<longleftrightarrow> a = b"
proof
  assume "char_val a = char_val b"
  then have "(of_char a :: 8 word) = of_char b"
    by (intro bit_word_eqI) (simp flip: bit_char_val)
  then show "a = b" by (simp only: of_char_word_inj)
qed simp

lemma strcmp_zero_iff:
  "NUL \<in> set a \<Longrightarrow> NUL \<in> set b \<Longrightarrow> strcmp a b = Some 0 \<longleftrightarrow> c_string a = c_string b"
  by (induction a b rule: strcmp.induct) (auto simp: c_string_def char_val_inj)

lemma strcmp_total: "NUL \<in> set a \<Longrightarrow> NUL \<in> set b \<Longrightarrow> \<exists>r. strcmp a b = Some r"
  by (induction a b rule: strcmp.induct) auto

lemma strncmp_zero_iff:
  "NUL \<in> set a \<Longrightarrow> NUL \<in> set b \<Longrightarrow>
    strncmp a b n = Some 0 \<longleftrightarrow> take n (c_string a) = take n (c_string b)"
  by (induction a b n rule: strncmp.induct) (auto simp: c_string_def char_val_inj)

lemma strcpy_loop_eq:
  assumes "NUL \<in> set src" and "i + length (c_string src) < length dest"
  shows "strcpy_loop dest i src = Some (take i dest @ c_string src @ [NUL]
    @ drop (i + length (c_string src) + 1) dest)"
  using assms
proof (induction dest i src rule: strcpy_loop.induct)
  case (2 dest i c cs)
  show ?case
  proof (cases "c = NUL")
    case True
    then show ?thesis using "2.prems" by (simp add: c_string_def upd_conv_take_nth_drop)
  next
    case False
    then have "i < length dest" using "2.prems" by simp
    then show ?thesis
      using "2.IH" [of "dest[i := c]"] "2.prems" False
      by (simp add: c_string_def take_Suc_update)
  qed
qed simp

section \<open>Properties\<close>

text \<open>
  For arguments whose sum stays below \<open>2 ^ 63\<close>, \<open>align_up\<close> is the least multiple of the
  alignment that is not below the address, and in particular keeps an aligned address.
\<close>

theorem align_up_least:
  assumes "0 < b" and "unat a + unat b < 2 ^ 63"
  shows "unat b dvd unat (align_up a b) \<and> unat a \<le> unat (align_up a b)
    \<and> (\<forall>m. unat b dvd m \<and> unat a \<le> m \<longrightarrow> unat (align_up a b) \<le> m)"
proof (intro conjI allI impI)
  fix m
  assume m: "unat b dvd m \<and> unat a \<le> m"
  show "unat (align_up a b) \<le> m"
  proof (rule ccontr)
    assume "\<not> unat (align_up a b) \<le> m"
    moreover have "unat b dvd unat (align_up a b) - m"
      using m align_up_multiple(1) [OF assms] by (intro dvd_diff_nat) simp_all
    ultimately have "unat b \<le> unat (align_up a b) - m" by (intro dvd_imp_le) simp_all
    then show False using m align_up_multiple(3) [OF assms] \<open>\<not> unat (align_up a b) \<le> m\<close> by linarith
  qed
qed (use align_up_multiple [OF assms] in \<open>simp_all add: word_le_nat_alt\<close>)

theorem align_up_least_witness:
  "unat (4096 :: size_t) dvd unat (align_up 5000 4096) \<and> unat (5000 :: size_t) \<le> unat (align_up 5000 4096)"
  using align_up_least [of 4096 5000] by simp

text \<open>
  On an aligned address of the higher half, which is negative as a signed number,
  \<open>align_up\<close> does not return the address but the next multiple above it.
\<close>

theorem align_up_higher_half:
  assumes "1 < sint b" and "sint a + sint b \<le> 0" and "sint b dvd sint a"
  shows "align_up a b = a + b \<and> align_up a b \<noteq> a"
  using align_up_negative [OF assms] assms(1) by auto

theorem align_up_higher_half_witness:
  "align_up 0xffff800000200000 0x1000 = 0xffff800000201000"
  using align_up_higher_half [of "0x1000" "0xffff800000200000"] by simp

text \<open>
  Up to \<open>2 ^ 32\<close>, \<open>pow2_roundup\<close> is the least power of two that is not below its
  argument, and \<open>log2\<close> gives its exponent back.
\<close>

theorem pow2_roundup_log2:
  assumes "1 \<le> unat a" and "unat a \<le> 2 ^ 32"
  shows "unat (pow2_roundup a) = 2 ^ unat (log2 (pow2_roundup a))
    \<and> unat a \<le> unat (pow2_roundup a)
    \<and> (\<forall>k. unat a \<le> 2 ^ k \<longrightarrow> unat (pow2_roundup a) \<le> 2 ^ k)"
proof -
  obtain m where m: "m \<le> 32" "unat (pow2_roundup a) = 2 ^ m" "unat a \<le> 2 ^ m" "2 ^ m < 2 * unat a"
    using pow2_roundup_least [OF assms] by auto
  then have "pow2_roundup a \<noteq> 0" by auto
  from log2_bounds [OF this] m(2) have "(2::nat) ^ unat (log2 (pow2_roundup a)) \<le> 2 ^ m"
    "(2::nat) ^ m < 2 ^ Suc (unat (log2 (pow2_roundup a)))" by simp_all
  then have "unat (log2 (pow2_roundup a)) = m"
    by (metis le_antisym less_Suc_eq_le one_less_numeral_iff power_le_imp_le_exp
        power_less_imp_less_exp semiring_norm(76))
  moreover have "(2::nat) ^ m \<le> 2 ^ k" if "unat a \<le> 2 ^ k" for k
  proof -
    have "(2::nat) ^ m < 2 ^ Suc k" using that m(4) by simp
    then have "m < Suc k" by (rule power_less_imp_less_exp [rotated]) simp
    then show ?thesis by (simp add: power_increasing)
  qed
  ultimately show ?thesis using m by simp
qed

theorem pow2_roundup_log2_witness:
  "unat (pow2_roundup 33) = 2 ^ unat (log2 (pow2_roundup 33)) \<and> 33 \<le> unat (pow2_roundup 33)"
  using pow2_roundup_log2 [of 33] by simp

text \<open>
  Above \<open>2 ^ 32\<close> the smearing stops too early (there is no shift by 32): for
  \<open>2 ^ 33 + 1\<close> the result is not a power of two.
\<close>

theorem pow2_roundup_above_32_bits:
  "pow2_roundup 0x200000001 = 0x3fffffffd \<and> (\<forall>m. unat (pow2_roundup 0x200000001) \<noteq> 2 ^ m)"
proof -
  have eq: "pow2_roundup 0x200000001 = 0x3fffffffd" by (simp add: pow2_roundup_def)
  have "(2::nat) ^ m \<noteq> 0x3fffffffd" for m
  proof
    assume p: "(2::nat) ^ m = 0x3fffffffd"
    have "odd (0x3fffffffd :: nat)" by simp
    with p have "odd ((2::nat) ^ m)" by simp
    then have "m = 0" by simp
    with p show False by simp
  qed
  moreover have "unat (0x3fffffffd :: size_t) = 0x3fffffffd" by simp
  ultimately show ?thesis using eq by metis
qed

text \<open>
  Marking a free region of a bitmap marks exactly its bits, and freeing it again gives
  the bitmap back; a region that leaves the bitmap faults.
\<close>

theorem bm_region_round_trip:
  assumes "unat start + unat limit < 2 ^ 64"
  shows "(unat start + unat limit \<le> bm_bits bm \<longrightarrow>
      (\<exists>bm'. bm_alloc_region bm start limit = Some bm'
        \<and> (\<forall>j. bm_test bm' j = (if unat start \<le> j \<and> j < unat start + unat limit
              then Some True else bm_test bm j))
        \<and> ((\<forall>j. unat start \<le> j \<and> j < unat start + unat limit \<longrightarrow> bm_test bm j = Some False)
             \<longrightarrow> bm_free_region bm' start limit = Some bm)))
    \<and> (0 < limit \<and> bm_bits bm < unat start + unat limit \<longrightarrow> bm_alloc_region bm start limit = None)"
proof (intro conjI impI)
  have n: "unat (start + limit) - unat start = unat limit"
    using assms by (simp add: unat_add_lt)
  show "\<exists>bm'. bm_alloc_region bm start limit = Some bm'
        \<and> (\<forall>j. bm_test bm' j = (if unat start \<le> j \<and> j < unat start + unat limit
              then Some True else bm_test bm j))
        \<and> ((\<forall>j. unat start \<le> j \<and> j < unat start + unat limit \<longrightarrow> bm_test bm j = Some False)
             \<longrightarrow> bm_free_region bm' start limit = Some bm)"
    if le: "unat start + unat limit \<le> bm_bits bm"
    using bm.mark_region [OF le] bm.mark_unmark_region [OF le]
    unfolding bm_alloc_region_def bm_free_region_def n by blast
  show "bm_alloc_region bm start limit = None"
    if "0 < limit \<and> bm_bits bm < unat start + unat limit"
    using that unfolding bm_alloc_region_def n
    by (intro bm.mark_region_faults) (simp_all add: word_less_nat_alt)
qed

theorem bm_region_round_trip_witness:
  "(\<exists>bm'. bm_alloc_region [0, 0] 3 7 = Some bm') \<and> bm_alloc_region [0, 0] 3 14 = None"
  using bm_region_round_trip [of 3 7 "[0, 0]"] bm_region_round_trip [of 3 14 "[0, 0]"] by auto

text \<open>
  \<open>bm_first_free\<close> returns the lowest clear bit among the first \<open>sz\<close> bits of the bitmap,
  or \<open>-1\<close> when all of them are set.
\<close>

theorem bm_first_free_correct:
  assumes "unat sz \<le> bm_bits bm"
  shows "(\<exists>k < unat sz. bm_first_free bm sz = Some (of_nat k) \<and> bm_test bm k = Some False
        \<and> (\<forall>j < k. bm_test bm j = Some True))
    \<or> bm_first_free bm sz = Some (-1) \<and> (\<forall>j < unat sz. bm_test bm j = Some True)"
proof -
  have "0 + unat sz < 2 ^ 64" using unat_lt_2p64 [of sz] by simp
  from bm_first_free_loop_correct [of 0 "unat sz" bm, OF _ this] assms show ?thesis
    unfolding bm_first_free_def by auto
qed

theorem bm_first_free_correct_witness:
  "bm_first_free [7] 8 = Some 3 \<and> (\<exists>k < 8. bm_first_free [7] 8 = Some (of_nat k) \<and> bm_test [7] k = Some False)"
proof -
  have "bm_first_free [7] 8 = Some 3"
    by code_simp
  then show ?thesis using bm_first_free_correct [of 8 "[7]"] by auto
qed

text \<open>
  On terminated strings \<open>strcmp\<close> and \<open>strncmp\<close> return, and return zero exactly when the
  strings, or their first \<open>n\<close> characters, are equal.
\<close>

theorem strcmp_strncmp_equality:
  assumes "NUL \<in> set a" and "NUL \<in> set b"
  shows "(\<exists>r. strcmp a b = Some r) \<and> (strcmp a b = Some 0 \<longleftrightarrow> c_string a = c_string b)
    \<and> (strncmp a b n = Some 0 \<longleftrightarrow> take n (c_string a) = take n (c_string b))"
  using strcmp_total [OF assms] strcmp_zero_iff [OF assms] strncmp_zero_iff [OF assms] by blast

theorem strcmp_strncmp_equality_witness:
  "strcmp (''ab'' @ [NUL]) (''ac'' @ [NUL]) \<noteq> Some 0 \<and> strncmp (''ab'' @ [NUL]) (''ac'' @ [NUL]) 1 = Some 0"
  using strcmp_strncmp_equality [of "''ab'' @ [NUL]" "''ac'' @ [NUL]" 1] by (simp add: c_string_def)

end
