(* ===== verification/Pmm.thy ===== *)
theory Pmm
  imports Memutils
begin

text \<open>
  \<^verbatim>\<open>kernel/mm/pmm.cpp\<close>: the physical page allocator. The linked list of chunks is a list,
  a chunk pointer an index into it and \<^verbatim>\<open>NULL\<close> the length of the list. A chunk's bitmap is
  the block of \<open>bitmap_size\<close> bytes carved from the boot buffer; \<open>bitmap_addr\<close> is its
  address. The constructor leaves \<^verbatim>\<open>next\<close> unset; the model takes it to be \<^verbatim>\<open>NULL\<close>. The spin lock is a flag: acquiring a lock that is held does not return
  (\<open>None\<close>).
\<close>

section \<open>Definitions\<close>

definition high_vma :: size_t where
  "high_vma = 0xffff800000000000"

definition kernel_high_vma :: size_t where
  "kernel_high_vma = 0xffffffff80000000"

definition page_size :: size_t where
  "page_size = 0x1000"

definition spin_lock :: "bool \<Rightarrow> bool option" where
  "spin_lock l = (if l then None else Some True)"

definition spin_release :: "bool \<Rightarrow> bool" where
  "spin_release l = False"

record mem_chunk =
  chunk_base :: size_t
  page_cnt :: size_t
  bitmap_size :: size_t
  bitmap_addr :: size_t
  bitmap :: bitmap

record stivale_mmap =
  mm_addr :: u64
  mm_len :: u64
  mmap_type :: u32

record pmm =
  root :: "mem_chunk list"
  pmm_lock :: bool
  buffer :: size_t
  total_mem :: size_t
  total_used_mem :: size_t

definition sizeof_mem_chunk :: size_t where
  "sizeof_mem_chunk = 56"

subsection \<open>Boot\<close>

definition chunk_alloc :: "pmm \<Rightarrow> size_t \<Rightarrow> size_t \<times> pmm" where
  "chunk_alloc s cnt = (buffer s, s\<lparr>buffer := buffer s + cnt\<rparr>)"

definition mem_chunk_init :: "pmm \<Rightarrow> size_t \<Rightarrow> size_t \<Rightarrow> mem_chunk \<times> pmm" where
  "mem_chunk_init s b cnt =
     (let bsize = div_roundup cnt 8;
          (bm, s) = chunk_alloc s bsize
      in (\<lparr>chunk_base = b, page_cnt = cnt, bitmap_size = bsize, bitmap_addr = bm,
           bitmap = replicate (unat bsize) 0\<rparr>, s))"

text \<open>The new node lies at \<open>buffer\<close>, which is advanced past it.\<close>

definition append_chunk :: "pmm \<Rightarrow> mem_chunk \<Rightarrow> pmm" where
  "append_chunk s c = s\<lparr>root := root s @ [c], buffer := buffer s + sizeof_mem_chunk\<rparr>"

fun max_size :: "stivale_mmap list \<Rightarrow> size_t" where
  "max_size [] = 0"
| "max_size (e # es) =
     (if mmap_type e = 1 then sizeof_mem_chunk + mm_len e div page_size div 8 else 0) + max_size es"

definition sum_mem :: "stivale_mmap list \<Rightarrow> size_t" where
  "sum_mem es = sum_list (map mm_len es)"

text \<open>
  The first region that can hold the buffer: the address of the buffer and the entries from
  that region on, the region itself shortened. When there is none the index runs off the end.
\<close>

fun find_buffer :: "size_t \<Rightarrow> stivale_mmap list \<Rightarrow> (size_t \<times> stivale_mmap list) option" where
  "find_buffer sz [] = None"
| "find_buffer sz (e # es) =
     (if mmap_type e = 1 \<and> mm_len e \<ge> sz
      then Some (mm_addr e + high_vma, e\<lparr>mm_addr := mm_addr e + sz, mm_len := mm_len e - sz\<rparr> # es)
      else find_buffer sz es)"

definition add_region :: "pmm \<Rightarrow> stivale_mmap \<Rightarrow> pmm" where
  "add_region s e =
     (if mmap_type e = 1 \<and> mm_len e \<noteq> 0 then
        let a = align_up (mm_addr e) page_size;
            l = mm_len e - (a - mm_addr e)
        in if root s \<noteq> [] then
             let (c, s) = mem_chunk_init s a (l div page_size) in append_chunk s c
           else
             let (_, s) = chunk_alloc s sizeof_mem_chunk;
                 (c, s) = mem_chunk_init s a (l div page_size)
             in s\<lparr>root := [c]\<rparr>
      else s)"

definition pmm_init :: "pmm \<Rightarrow> stivale_mmap list \<Rightarrow> pmm" where
  "pmm_init s es =
     (let sz = max_size es;
          s = s\<lparr>total_mem := total_mem s + sum_mem es\<rparr>
      in case find_buffer sz es of
           None \<Rightarrow> s
         | Some (b, es) \<Rightarrow> fold (\<lambda>e s. add_region s e) es (s\<lparr>buffer := b\<rparr>))"

subsection \<open>Allocation in a chunk\<close>

datatype probe = Busy | Free | Exhausted

text \<open>
  The inner loop of \<^verbatim>\<open>mem_chunk::alloc\<close> from bit \<open>j\<close> with \<open>n\<close> iterations left:
  \<open>Busy\<close> is the \<^verbatim>\<open>break\<close>, \<open>Free\<close> the successful return, \<open>Exhausted\<close> the end of the
  loop by its condition.
\<close>

fun probe_run :: "bitmap \<Rightarrow> nat \<Rightarrow> nat \<Rightarrow> nat \<Rightarrow> nat \<Rightarrow> probe option" where
  "probe_run bm cnt j count 0 = Some Exhausted"
| "probe_run bm cnt j count (Suc n) = do {
     t \<leftarrow> bm_test bm j;
     if t then Some Busy
     else if Suc count = cnt then Some Free
     else probe_run bm cnt (Suc j) (Suc count) n
   }"

text \<open>The outer loop. The result is the bit index and the address, or \<open>None\<close> at the end.\<close>

partial_function (option) alloc_scan ::
  "bitmap \<Rightarrow> size_t \<Rightarrow> size_t \<Rightarrow> size_t \<Rightarrow> size_t \<Rightarrow> size_t \<Rightarrow> (size_t \<times> size_t) option option" where
  "alloc_scan bm pages cnt align alloc_base i =
     (if \<not> i < pages then Some None
      else do {
        p \<leftarrow> probe_run bm (unat cnt) (unat i) 0 (unat (i + cnt) - unat i);
        case p of
          Busy \<Rightarrow> alloc_scan bm pages cnt align (alloc_base + align * page_size) (i + align)
        | Free \<Rightarrow> Some (Some (i, alloc_base))
        | Exhausted \<Rightarrow> alloc_scan bm pages cnt align alloc_base (i + align)
      })"

definition mem_chunk_alloc :: "pmm \<Rightarrow> nat \<Rightarrow> size_t \<Rightarrow> size_t \<Rightarrow> (size_t \<times> pmm) option" where
  "mem_chunk_alloc s k cnt align = do {
     c \<leftarrow> read_at (root s) k;
     l \<leftarrow> spin_lock (pmm_lock s);
     let s = s\<lparr>pmm_lock := l\<rparr>;
     _ \<leftarrow> (if align * page_size = 0 then None else Some ());
     let alloc_base = align_up (chunk_base c) (align * page_size);
     let bit_base = (alloc_base - chunk_base c) div page_size;
     r \<leftarrow> alloc_scan (bitmap c) (page_cnt c) cnt align alloc_base bit_base;
     case r of
       None \<Rightarrow> Some (-1, s\<lparr>pmm_lock := spin_release (pmm_lock s)\<rparr>)
     | Some (i, a) \<Rightarrow> do {
         bm \<leftarrow> for_range (\<lambda>z b. bm_set b (unat i + z)) 0 (unat cnt) (bitmap c);
         Some (a, s\<lparr>root := (root s)[k := c\<lparr>bitmap := bm\<rparr>],
                    pmm_lock := spin_release (pmm_lock s),
                    total_used_mem := total_used_mem s + cnt * page_size\<rparr>)
       }
   }"

definition mem_chunk_free :: "pmm \<Rightarrow> nat \<Rightarrow> size_t \<Rightarrow> size_t \<Rightarrow> pmm option" where
  "mem_chunk_free s k b cnt = do {
     c \<leftarrow> read_at (root s) k;
     l \<leftarrow> spin_lock (pmm_lock s);
     let i = div_roundup b page_size;
     r \<leftarrow> for_range (\<lambda>j (bm, used). do { bm \<leftarrow> bm_clear bm j; Some (bm, used - page_size) })
            (unat i) (unat (i + cnt) - unat i) (bitmap c, total_used_mem s);
     Some (s\<lparr>root := (root s)[k := c\<lparr>bitmap := fst r\<rparr>],
             pmm_lock := spin_release l, total_used_mem := snd r\<rparr>)
   }"

subsection \<open>The allocator\<close>

text \<open>
  The \<^verbatim>\<open>do\<close> loop over the chunks, at chunk \<open>k\<close> with \<open>n\<close> chunks after it. With no chunk
  at all the loop dereferences \<^verbatim>\<open>NULL\<close>, which \<^const>\<open>read_at\<close> reports.
\<close>

fun pmm_alloc_from :: "pmm \<Rightarrow> nat \<Rightarrow> nat \<Rightarrow> size_t \<Rightarrow> size_t \<Rightarrow> (size_t \<times> pmm) option" where
  "pmm_alloc_from s k n cnt align = do {
     (a, s) \<leftarrow> mem_chunk_alloc s k cnt align;
     if a = -1 then
       (case n of 0 \<Rightarrow> Some (-1, s) | Suc n \<Rightarrow> pmm_alloc_from s (Suc k) n cnt align)
     else Some (a, s)
   }"

definition pmm_alloc :: "pmm \<Rightarrow> size_t \<Rightarrow> size_t \<Rightarrow> (size_t \<times> pmm) option" where
  "pmm_alloc s cnt align = pmm_alloc_from s 0 (length (root s) - 1) cnt align"

text \<open>
  Physical memory as the array of its bytes, seen through the direct map at
  \<open>high_vma\<close>; \<open>clear_cells\<close> stores 64-bit zeros. \<^verbatim>\<open>calloc\<close> does not test for failure: a failed allocation is cleared at
  \<open>high_vma - 1\<close>, outside the direct map.
\<close>

type_synonym phys_mem = "u64 \<Rightarrow> u8"

fun clear_cells :: "phys_mem \<Rightarrow> u64 \<Rightarrow> nat \<Rightarrow> phys_mem" where
  "clear_cells m a 0 = m"
| "clear_cells m a (Suc n) = clear_cells (\<lambda>x. if x - a < 8 then 0 else m x) (a + 8) n"

definition pmm_calloc ::
  "pmm \<Rightarrow> phys_mem \<Rightarrow> size_t \<Rightarrow> size_t \<Rightarrow> (size_t \<times> pmm \<times> phys_mem) option" where
  "pmm_calloc s m cnt align = do {
     (a, s) \<leftarrow> pmm_alloc s cnt align;
     if a = -1 \<and> cnt * page_size div 8 \<noteq> 0 then None
     else Some (a, s, clear_cells m a (unat (cnt * page_size div 8)))
   }"

fun pmm_free_from :: "pmm \<Rightarrow> nat \<Rightarrow> nat \<Rightarrow> size_t \<Rightarrow> size_t \<Rightarrow> pmm option" where
  "pmm_free_from s k n b cnt = do {
     c \<leftarrow> read_at (root s) k;
     if b \<ge> chunk_base c \<and> b + cnt * page_size \<le> chunk_base c + page_cnt c * page_size
     then mem_chunk_free s k (b - chunk_base c) cnt
     else (case n of 0 \<Rightarrow> Some s | Suc n \<Rightarrow> pmm_free_from s (Suc k) n b cnt)
   }"

definition pmm_free :: "pmm \<Rightarrow> size_t \<Rightarrow> size_t \<Rightarrow> pmm option" where
  "pmm_free s b cnt = pmm_free_from s 0 (length (root s) - 1) b cnt"

declare alloc_scan.simps [code]
declare pmm_alloc_from.simps [simp del] pmm_free_from.simps [simp del]

section \<open>The scan\<close>

definition run_free :: "bitmap \<Rightarrow> nat \<Rightarrow> nat \<Rightarrow> bool" where
  "run_free bm i n \<longleftrightarrow> (\<forall>k. i \<le> k \<and> k < i + n \<longrightarrow> bm_test bm k = Some False)"

lemma probe_run_total:
  assumes "j + n \<le> bm_bits bm" and "count + n = cnt" and "0 < n"
  shows "probe_run bm cnt j count n = Some (if run_free bm j n then Free else Busy)"
  using assms
proof (induction n arbitrary: j count)
  case (Suc n)
  obtain t where t: "bm_test bm j = Some t" using bm.test_total [of j bm] Suc.prems by auto
  have split: "run_free bm j (Suc n) \<longleftrightarrow> \<not> t \<and> run_free bm (Suc j) n"
    using t unfolding run_free_def
    by (auto, metis Suc_leI le_neq_implies_less)
  show ?case
  proof (cases "n = 0")
    case True
    then show ?thesis using t Suc.prems split by (auto simp: run_free_def)
  next
    case False
    then have "probe_run bm cnt (Suc j) (Suc count) n = Some (if run_free bm (Suc j) n then Free else Busy)"
      using Suc.prems by (intro Suc.IH) simp_all
    then show ?thesis using t Suc.prems split False by simp
  qed
qed simp

text \<open>
  First fit: the scan stops at the first candidate \<open>i + t * align\<close> whose run is free, with
  the address moved by as many alignment steps, or reports that there is none.
\<close>

lemma alloc_scan_first_fit:
  fixes pages cnt align i a :: size_t
  assumes "0 < unat align" and "0 < unat cnt"
    and "unat pages + unat align < 2 ^ 64" and "unat pages + unat cnt < 2 ^ 64"
    and "unat pages + unat cnt \<le> Suc (bm_bits bm)"
  shows "(\<exists>t. unat i + t * unat align < unat pages
        \<and> run_free bm (unat i + t * unat align) (unat cnt)
        \<and> (\<forall>t' < t. \<not> run_free bm (unat i + t' * unat align) (unat cnt))
        \<and> alloc_scan bm pages cnt align a i
           = Some (Some (i + of_nat t * align, a + of_nat t * (align * page_size))))
    \<or> (\<forall>t. unat i + t * unat align < unat pages \<longrightarrow>
            \<not> run_free bm (unat i + t * unat align) (unat cnt))
      \<and> alloc_scan bm pages cnt align a i = Some None"
proof (induction "unat pages - unat i" arbitrary: i a rule: less_induct)
  case less
  show ?case
  proof (cases "i < pages")
    case False
    then have "alloc_scan bm pages cnt align a i = Some None"
      by (simp add: alloc_scan.simps)
    moreover have "unat pages \<le> unat i" using False by (simp add: word_less_nat_alt)
    ultimately show ?thesis by auto
  next
    case True
    then have lt: "unat i < unat pages" by (simp add: word_less_nat_alt)
    have ic: "unat (i + cnt) = unat i + unat cnt" and ia: "unat (i + align) = unat i + unat align"
      using lt assms by (simp_all add: unat_add_lt)
    have probe: "probe_run bm (unat cnt) (unat i) 0 (unat (i + cnt) - unat i)
        = Some (if run_free bm (unat i) (unat cnt) then Free else Busy)"
      using lt assms by (simp add: ic probe_run_total)
    show ?thesis
    proof (cases "run_free bm (unat i) (unat cnt)")
      case True
      then have "alloc_scan bm pages cnt align a i = Some (Some (i, a))"
        using \<open>i < pages\<close> probe by (simp add: alloc_scan.simps)
      then show ?thesis using True lt by (intro disjI1 exI [of _ 0]) simp
    next
      case False
      then have step: "alloc_scan bm pages cnt align a i
          = alloc_scan bm pages cnt align (a + align * page_size) (i + align)"
        using \<open>i < pages\<close> probe by (simp add: alloc_scan.simps [of _ _ _ _ a i])
      have shift: "unat (i + align) + t * unat align = unat i + Suc t * unat align" for t
        by (simp add: ia)
      have "unat pages - unat (i + align) < unat pages - unat i" using lt assms(1) ia by simp
      from less [OF this, of "a + align * page_size"] show ?thesis
      proof (elim disjE exE conjE)
        fix t
        assume t: "unat (i + align) + t * unat align < unat pages"
          "run_free bm (unat (i + align) + t * unat align) (unat cnt)"
          "\<forall>t' < t. \<not> run_free bm (unat (i + align) + t' * unat align) (unat cnt)"
          "alloc_scan bm pages cnt align (a + align * page_size) (i + align)
            = Some (Some (i + align + of_nat t * align,
                a + align * page_size + of_nat t * (align * page_size)))"
        have "\<not> run_free bm (unat i + t' * unat align) (unat cnt)" if "t' < Suc t" for t'
          using that t(3) False by (cases t') (simp_all add: shift)
        moreover have "alloc_scan bm pages cnt align a i
            = Some (Some (i + of_nat (Suc t) * align, a + of_nat (Suc t) * (align * page_size)))"
          using step t(4) by (simp add: algebra_simps)
        ultimately show ?thesis using t(1,2) unfolding shift by blast
      next
        assume n: "\<forall>t. unat (i + align) + t * unat align < unat pages \<longrightarrow>
            \<not> run_free bm (unat (i + align) + t * unat align) (unat cnt)"
          "alloc_scan bm pages cnt align (a + align * page_size) (i + align) = Some None"
        have "\<not> run_free bm (unat i + t * unat align) (unat cnt)"
          if "unat i + t * unat align < unat pages" for t
          using that n(1) False by (cases t) (simp_all add: shift)
        then show ?thesis using n(2) step by simp
      qed
    qed
  qed
qed

section \<open>Chunks\<close>

definition wf_chunk :: "mem_chunk \<Rightarrow> bool" where
  "wf_chunk c \<longleftrightarrow> bitmap_size c = div_roundup (page_cnt c) 8
     \<and> length (bitmap c) = unat (bitmap_size c)
     \<and> 4096 dvd unat (chunk_base c)
     \<and> unat (chunk_base c) + unat (page_cnt c) * 4096 < 2 ^ 62"

lemma page_size_unat [simp]: "unat page_size = 4096"
  by (simp add: page_size_def)

lemma wf_chunk_bits:
  assumes "wf_chunk c"
  shows "unat (page_cnt c) \<le> bm_bits (bitmap c)" and "bm_bits (bitmap c) < unat (page_cnt c) + 8"
proof -
  have pc: "unat (page_cnt c) < 2 ^ 50" using assms by (simp add: wf_chunk_def)
  then have "length (bitmap c) = (unat (page_cnt c) + 8 - 1) div 8"
    using assms unat_div_roundup [of 8 "page_cnt c"] by (simp add: wf_chunk_def)
  then show "unat (page_cnt c) \<le> bm_bits (bitmap c)" "bm_bits (bitmap c) < unat (page_cnt c) + 8"
    using roundup_least [of 8 "unat (page_cnt c)"] by simp_all
qed

text \<open>The first candidate of a chunk, as numbers.\<close>

lemma chunk_candidate:
  fixes c :: mem_chunk and align :: size_t
  defines "A \<equiv> align * page_size"
  defines "ab \<equiv> align_up (chunk_base c) A"
  defines "bb \<equiv> (ab - chunk_base c) div page_size"
  assumes "wf_chunk c" and "0 < unat align" and "unat align * 4096 < 2 ^ 62"
  shows "A \<noteq> 0" and "unat A = unat align * 4096" and "unat A dvd unat ab"
    and "unat ab = unat (chunk_base c) + 4096 * unat bb" and "unat ab < unat (chunk_base c) + unat A"
proof -
  have b: "unat (chunk_base c) < 2 ^ 62" "4096 dvd unat (chunk_base c)" using assms by (simp_all add: wf_chunk_def)
  show A: "unat A = unat align * 4096"
    using assms(6) by (simp add: A_def unat_mult_lt)
  then show A0: "A \<noteq> 0" using assms(5) by (metis mult_eq_0_iff not_gr_zero unat_0 zero_neq_numeral)
  have pos: "0 < A" using A0 by (simp add: word_neq_0_conv)
  have sum: "unat (chunk_base c) + unat A < 2 ^ 63" using A b(1) assms(6) by simp
  show dvd: "unat A dvd unat ab" and lt: "unat ab < unat (chunk_base c) + unat A"
    using align_up_multiple [OF pos sum] by (simp_all add: ab_def)
  have le: "chunk_base c \<le> ab" using align_up_multiple(2) [OF pos sum] by (simp add: ab_def)
  have "unat bb = (unat ab - unat (chunk_base c)) div 4096"
    using le by (simp add: bb_def unat_div unat_sub)
  moreover have "4096 dvd unat ab" using dvd A by (metis dvd_mult_right)
  then have "4096 dvd unat ab - unat (chunk_base c)" using b(2) by (rule dvd_diff_nat)
  ultimately show "unat ab = unat (chunk_base c) + 4096 * unat bb"
    using le by (simp add: word_le_nat_alt)
qed

text \<open>The candidates are exactly the page indices whose address has the alignment.\<close>

lemma chunk_candidate_iff:
  fixes b ab :: nat
  assumes "0 < al" and "ab = b + 4096 * bb" and "al * 4096 dvd ab" and "ab < b + al * 4096"
  shows "al * 4096 dvd b + 4096 * i \<longleftrightarrow> (\<exists>t. i = bb + t * al)"
proof
  assume d: "al * 4096 dvd b + 4096 * i"
  have "bb \<le> i"
  proof (rule ccontr)
    assume "\<not> bb \<le> i"
    then have "ab = (b + 4096 * i) + 4096 * (bb - i)" and pos: "0 < bb - i" using assms(2) by auto
    then have "al * 4096 dvd 4096 * (bb - i)" using d assms(3) by (metis dvd_add_right_iff)
    then have "al * 4096 \<le> 4096 * (bb - i)" using pos by (intro dvd_imp_le) simp_all
    then show False using assms(2,4) by simp
  qed
  then have "b + 4096 * i = ab + 4096 * (i - bb)" using assms(2) by simp
  then have "al * 4096 dvd 4096 * (i - bb)" using d assms(3) by (metis dvd_add_right_iff)
  then have "al dvd i - bb" by (simp add: mult.commute)
  then show "\<exists>t. i = bb + t * al" using \<open>bb \<le> i\<close> by (metis dvdE le_add_diff_inverse mult.commute)
next
  assume "\<exists>t. i = bb + t * al"
  then obtain t where "i = bb + t * al" ..
  then have "b + 4096 * i = ab + t * (al * 4096)" using assms(2) by simp
  then show "al * 4096 dvd b + 4096 * i" using assms(3) by simp
qed

text \<open>
  \<open>fits s k cnt align i\<close>: page \<open>i\<close> of chunk \<open>k\<close> starts a free, aligned run.
\<close>

definition fits :: "mem_chunk \<Rightarrow> size_t \<Rightarrow> size_t \<Rightarrow> nat \<Rightarrow> bool" where
  "fits c cnt align i \<longleftrightarrow> i < unat (page_cnt c) \<and> run_free (bitmap c) i (unat cnt)
     \<and> unat align * 4096 dvd unat (chunk_base c) + 4096 * i"

definition claim :: "pmm \<Rightarrow> nat \<Rightarrow> size_t \<Rightarrow> bitmap \<Rightarrow> pmm" where
  "claim s k cnt bm = s\<lparr>root := (root s)[k := (root s ! k)\<lparr>bitmap := bm\<rparr>],
     total_used_mem := total_used_mem s + cnt * page_size\<rparr>"

lemma mem_chunk_alloc_cases:
  assumes wf: "wf_chunk c" and k: "k < length (root s)" and c: "c = root s ! k"
    and unlocked: "\<not> pmm_lock s"
    and align: "0 < unat align" "unat align * 4096 < 2 ^ 62"
    and cnt: "0 < unat cnt" "unat (page_cnt c) + unat cnt \<le> Suc (bm_bits (bitmap c))"
  shows "(\<exists>i bm. fits c cnt align i \<and> (\<forall>j < i. \<not> fits c cnt align j)
        \<and> for_range (\<lambda>j b. bm_set b j) i (unat cnt) (bitmap c) = Some bm
        \<and> mem_chunk_alloc s k cnt align = Some (chunk_base c + of_nat (4096 * i), claim s k cnt bm))
    \<or> (\<forall>i. \<not> fits c cnt align i) \<and> mem_chunk_alloc s k cnt align = Some (-1, s)"
proof -
  define A where "A = align * page_size"
  define ab where "ab = align_up (chunk_base c) A"
  define bb where "bb = (ab - chunk_base c) div page_size"
  note cand = chunk_candidate [OF wf align, folded A_def, folded ab_def, folded bb_def]
  have dvd_iff: "unat align * 4096 dvd unat (chunk_base c) + 4096 * i
      \<longleftrightarrow> (\<exists>t. i = unat bb + t * unat align)" for i
    using cand align by (intro chunk_candidate_iff [of _ "unat ab"]) simp_all
  have bits: "bm_bits (bitmap c) < 2 ^ 50 + 8"
    using wf_chunk_bits [OF wf] wf by (simp add: wf_chunk_def)
  have bounds: "unat (page_cnt c) + unat align < 2 ^ 64" "unat (page_cnt c) + unat cnt < 2 ^ 64"
    using bits cnt align wf by (simp_all add: wf_chunk_def)
  let ?R = "alloc_scan (bitmap c) (page_cnt c) cnt align ab bb"
  have unfold: "mem_chunk_alloc s k cnt align = do {
      r \<leftarrow> ?R;
      case r of None \<Rightarrow> Some (-1, s)
      | Some (i, a) \<Rightarrow> do {
          bm \<leftarrow> for_range (\<lambda>z b. bm_set b (unat i + z)) 0 (unat cnt) (bitmap c);
          Some (a, claim s k cnt bm) } }"
    using k unlocked cand(1) unfolding mem_chunk_alloc_def claim_def
    by (cases s) (simp add: c ab_def A_def bb_def spin_lock_def spin_release_def Let_def
        cong: option.case_cong)
  from alloc_scan_first_fit [OF align(1) cnt(1) bounds cnt(2), of bb ab] show ?thesis
  proof (elim disjE exE conjE)
    fix t
    assume t: "unat bb + t * unat align < unat (page_cnt c)"
      "run_free (bitmap c) (unat bb + t * unat align) (unat cnt)"
      "\<forall>t' < t. \<not> run_free (bitmap c) (unat bb + t' * unat align) (unat cnt)"
      "?R = Some (Some (bb + of_nat t * align, ab + of_nat t * (align * page_size)))"
    define i where "i = unat bb + t * unat align"
    have "unat (page_cnt c) < 2 ^ 64" by simp
    with t(1) have i64: "i < 2 ^ 64" unfolding i_def by (rule less_trans)
    have iw: "bb + of_nat t * align = of_nat i" by (simp add: i_def)
    have ui: "unat (bb + of_nat t * align) = i" using i64 by (simp only: iw unat_of_nat_lt)
    have aw: "ab + of_nat t * (align * page_size) = chunk_base c + of_nat (4096 * i)"
    proof -
      have "ab = of_nat (unat ab)" by simp
      also have "\<dots> = chunk_base c + of_nat (4096 * unat bb)" by (simp add: cand(4))
      finally show ?thesis by (simp add: i_def page_size_def algebra_simps)
    qed
    have fit: "fits c cnt align i"
      unfolding fits_def dvd_iff using t(1,2) by (auto simp: i_def)
    have "i + unat cnt \<le> bm_bits (bitmap c)" using t(1) cnt(2) by (simp add: i_def)
    then obtain bm where bm: "for_range (\<lambda>j b. bm_set b j) i (unat cnt) (bitmap c) = Some bm"
      using bm.mark_region by blast
    have "\<not> fits c cnt align j" if "j < i" for j
    proof
      assume "fits c cnt align j"
      then obtain t' where t': "j = unat bb + t' * unat align" "run_free (bitmap c) j (unat cnt)"
        unfolding fits_def dvd_iff by auto
      then have "t' < t" using that align(1) by (auto simp: i_def)
      then show False using t(3) t' by simp
    qed
    moreover have "mem_chunk_alloc s k cnt align = Some (chunk_base c + of_nat (4096 * i), claim s k cnt bm)"
      unfolding unfold t(4) using bm for_range_shift [of "\<lambda>j b. bm_set b j" i 0]
      by (simp add: ui aw)
    ultimately show ?thesis using fit bm by blast
  next
    assume n: "\<forall>t. unat bb + t * unat align < unat (page_cnt c)
        \<longrightarrow> \<not> run_free (bitmap c) (unat bb + t * unat align) (unat cnt)" "?R = Some None"
    then have "\<not> fits c cnt align i" for i unfolding fits_def dvd_iff by auto
    moreover have "mem_chunk_alloc s k cnt align = Some (-1, s)" unfolding unfold n(2) by simp
    ultimately show ?thesis by blast
  qed
qed

text \<open>Freeing the run that was just allocated gives the state back.\<close>

lemma free_loop_eq:
  "for_range (\<lambda>j (bm, used). do { bm \<leftarrow> bm_clear bm j; Some (bm, used - page_size) }) i n (bm, u)
    = map_option (\<lambda>bm. (bm, u - of_nat n * page_size)) (for_range (\<lambda>j b. bm_clear b j) i n bm)"
proof (induction n arbitrary: i bm u)
  case (Suc n)
  show ?case
  proof (cases "bm_clear bm i")
    case (Some bm')
    then show ?thesis using Suc.IH [of "Suc i" bm' "u - page_size"] by (simp add: algebra_simps)
  qed simp
qed simp

lemma mem_chunk_free_run:
  assumes "k < length (root s)" and "\<not> pmm_lock s" and "i + unat cnt < 2 ^ 50 + 8"
    and "for_range (\<lambda>j b. bm_clear b j) i (unat cnt) (bitmap (root s ! k)) = Some bm"
    and "unat b = 4096 * i"
  shows "mem_chunk_free s k b cnt
    = Some (s\<lparr>root := (root s)[k := (root s ! k)\<lparr>bitmap := bm\<rparr>],
             total_used_mem := total_used_mem s - cnt * page_size\<rparr>)"
proof -
  have "unat (div_roundup b page_size) = (4096 * i + 4096 - 1) div 4096"
    using assms(3,5) unat_div_roundup [of page_size b] by (simp add: page_size_def)
  then have idx: "unat (div_roundup b page_size) = i" by simp
  then have sum: "unat (div_roundup b page_size + cnt) = i + unat cnt"
    using assms(3) by (subst unat_add_lt) simp_all
  show ?thesis
    using assms unfolding mem_chunk_free_def
    by (cases s) (simp add: spin_lock_def spin_release_def Let_def idx sum free_loop_eq)
qed

lemma mem_chunk_alloc_free:
  assumes "wf_chunk (root s ! k)" and "k < length (root s)" and "\<not> pmm_lock s"
    and "0 < unat align" "unat align * 4096 < 2 ^ 62"
    and "0 < unat cnt"
      "unat (page_cnt (root s ! k)) + unat cnt \<le> Suc (bm_bits (bitmap (root s ! k)))"
    and "mem_chunk_alloc s k cnt align = Some (a, s')" and "a \<noteq> -1"
  shows "mem_chunk_free s' k (a - chunk_base (root s ! k)) cnt = Some s"
proof -
  let ?c = "root s ! k"
  from mem_chunk_alloc_cases [OF assms(1,2) refl assms(3-7)] assms(8,9) obtain i bm where
    i: "fits ?c cnt align i"
      "for_range (\<lambda>j b. bm_set b j) i (unat cnt) (bitmap ?c) = Some bm"
      "a = chunk_base ?c + of_nat (4096 * i)" "s' = claim s k cnt bm"
    by auto
  have lt: "i < unat (page_cnt ?c)" and run: "run_free (bitmap ?c) i (unat cnt)"
    using i(1) by (simp_all add: fits_def)
  have pc: "unat (page_cnt ?c) < 2 ^ 50" using assms(1) by (simp add: wf_chunk_def)
  have small: "i + unat cnt < 2 ^ 50 + 8"
    using lt pc assms(7) wf_chunk_bits(2) [OF assms(1)] by simp
  have off: "unat (of_nat (4096 * i) :: size_t) = 4096 * i"
    using small by (intro unat_of_nat_lt) simp
  have "for_range (\<lambda>j b. bm_clear b j) i (unat cnt) bm = Some (bitmap ?c)"
    by (rule bm.mark_unmark_region [OF _ _ i(2)]) (use run lt assms(7) in \<open>auto simp: run_free_def\<close>)
  then have "mem_chunk_free s' k (of_nat (4096 * i)) cnt
      = Some (s'\<lparr>root := (root s')[k := (root s' ! k)\<lparr>bitmap := bitmap ?c\<rparr>],
             total_used_mem := total_used_mem s' - cnt * page_size\<rparr>)"
    using assms(2,3) small off by (intro mem_chunk_free_run) (simp_all add: i(4) claim_def)
  then show ?thesis using assms(2) by (cases s) (simp add: i(3,4) claim_def)
qed

section \<open>Single pages: refinement to a set of pages\<close>

text \<open>
  Abstractly the allocator is a finite set of pages, identified by their addresses, and the
  subset of those in use. \<open>pmm_inv\<close> says that the chunks are well formed and do not
  overlap, that the lock is free, and that \<open>total_used_mem\<close> counts the pages in use.
\<close>

definition chunk_pages :: "mem_chunk \<Rightarrow> nat set" where
  "chunk_pages c = {unat (chunk_base c) + 4096 * i | i. i < unat (page_cnt c)}"

definition chunk_used :: "mem_chunk \<Rightarrow> nat set" where
  "chunk_used c = {unat (chunk_base c) + 4096 * i | i. i < unat (page_cnt c) \<and> bm_test (bitmap c) i = Some True}"

definition managed_pages :: "pmm \<Rightarrow> nat set" where
  "managed_pages s = (\<Union>c \<in> set (root s). chunk_pages c)"

definition used_pages :: "pmm \<Rightarrow> nat set" where
  "used_pages s = (\<Union>k < length (root s). chunk_used (root s ! k))"

definition pmm_inv :: "pmm \<Rightarrow> bool" where
  "pmm_inv s \<longleftrightarrow> root s \<noteq> [] \<and> (\<forall>c \<in> set (root s). wf_chunk c) \<and> \<not> pmm_lock s
     \<and> (\<forall>k l. k < l \<and> l < length (root s) \<longrightarrow> chunk_pages (root s ! k) \<inter> chunk_pages (root s ! l) = {})
     \<and> total_used_mem s = of_nat (4096 * card (used_pages s))"

lemma chunk_used_subset: "chunk_used c \<subseteq> chunk_pages c"
  by (auto simp: chunk_used_def chunk_pages_def)

lemma finite_chunk_pages: "finite (chunk_pages c)"
  by (simp add: chunk_pages_def)

lemma finite_used_pages: "finite (used_pages s)"
  unfolding used_pages_def
  using finite_subset [OF chunk_used_subset finite_chunk_pages] by blast

lemma used_pages_managed: "used_pages s \<subseteq> managed_pages s"
  unfolding used_pages_def managed_pages_def using chunk_used_subset by fastforce

lemma chunk_used_bitmap:
  "chunk_used (c\<lparr>bitmap := bm\<rparr>)
    = {unat (chunk_base c) + 4096 * i | i. i < unat (page_cnt c) \<and> bm_test bm i = Some True}"
  "chunk_pages (c\<lparr>bitmap := bm\<rparr>) = chunk_pages c"
  by (simp_all add: chunk_used_def chunk_pages_def)

lemma wf_chunk_bitmap: "wf_chunk c \<Longrightarrow> length bm = length (bitmap c) \<Longrightarrow> wf_chunk (c\<lparr>bitmap := bm\<rparr>)"
  by (simp add: wf_chunk_def)

lemma used_pages_update:
  assumes "k < length (root s)"
  shows "used_pages (s\<lparr>root := (root s)[k := c]\<rparr>)
    = chunk_used c \<union> (\<Union>l \<in> {..<length (root s)} - {k}. chunk_used (root s ! l))"
  using assms by (auto simp: used_pages_def nth_list_update split: if_splits)

lemma page_in_other_chunk:
  assumes "pmm_inv s" and "k < length (root s)" and "l < length (root s)" and "l \<noteq> k"
    and "p \<in> chunk_pages (root s ! k)"
  shows "p \<notin> chunk_used (root s ! l)"
proof -
  have "chunk_pages (root s ! k) \<inter> chunk_pages (root s ! l) = {}"
    using assms(1-4) unfolding pmm_inv_def by (metis Int_commute linorder_neqE_nat)
  then show ?thesis using assms(5) chunk_used_subset by blast
qed

text \<open>A change of one chunk's bitmap at one page keeps the invariant.\<close>

lemma pmm_inv_bitmap_update:
  assumes "pmm_inv s" and "k < length (root s)" and "length bm = length (bitmap (root s ! k))"
    and "s' = s\<lparr>root := (root s)[k := (root s ! k)\<lparr>bitmap := bm\<rparr>], total_used_mem := u\<rparr>"
    and "u = of_nat (4096 * card (used_pages s'))"
  shows "pmm_inv s'" and "managed_pages s' = managed_pages s"
proof -
  let ?c = "root s ! k"
  have wf: "wf_chunk ?c" using assms(1,2) by (simp add: pmm_inv_def)
  have pages: "chunk_pages (root s' ! l) = chunk_pages (root s ! l)" if "l < length (root s)" for l
    using that assms(2,4) by (simp add: nth_list_update chunk_used_bitmap)
  have "\<forall>c \<in> set (root s'). wf_chunk c"
    using assms(1-4) wf by (auto simp: pmm_inv_def wf_chunk_bitmap dest!: set_update_subset_insert [THEN subsetD])
  moreover have "length (root s') = length (root s)" using assms(4) by simp
  moreover have "\<not> pmm_lock s'" "root s' \<noteq> []"
    using assms(1,2,4) by (auto simp: pmm_inv_def)
  moreover have "total_used_mem s' = of_nat (4096 * card (used_pages s'))"
    using assms(5) by (subst assms(4)) simp
  moreover have "chunk_pages (root s' ! l) \<inter> chunk_pages (root s' ! m) = {}"
    if "l < m" "m < length (root s)" for l m
    using that assms(1) pages [of l] pages [of m] by (simp add: pmm_inv_def)
  ultimately show "pmm_inv s'" unfolding pmm_inv_def by metis
  have "(\<Union>c \<in> set (root s'). chunk_pages c) = (\<Union>l < length (root s). chunk_pages (root s' ! l))"
    using assms(4) by (force simp: in_set_conv_nth)
  also have "\<dots> = (\<Union>l < length (root s). chunk_pages (root s ! l))"
    using pages by auto
  also have "\<dots> = (\<Union>c \<in> set (root s). chunk_pages c)"
    by (force simp: in_set_conv_nth)
  finally show "managed_pages s' = managed_pages s" by (simp add: managed_pages_def)
qed

lemma chunk_used_insert:
  assumes "i < unat (page_cnt c)" and "bm_set (bitmap c) i = Some bm"
  shows "chunk_used (c\<lparr>bitmap := bm\<rparr>) = insert (unat (chunk_base c) + 4096 * i) (chunk_used c)"
  using assms bm.test_mark [OF assms(2)]
  by (auto simp: chunk_used_bitmap chunk_used_def split: if_splits)

lemma chunk_used_remove:
  assumes "i < unat (page_cnt c)" and "bm_clear (bitmap c) i = Some bm"
  shows "chunk_used (c\<lparr>bitmap := bm\<rparr>) = chunk_used c - {unat (chunk_base c) + 4096 * i}"
  using assms bm.test_unmark [OF assms(2)]
  by (auto simp: chunk_used_bitmap chunk_used_def split: if_splits)

lemma used_pages_split:
  assumes "k < length (root s)"
  shows "used_pages s = chunk_used (root s ! k)
    \<union> (\<Union>l \<in> {..<length (root s)} - {k}. chunk_used (root s ! l))"
  using assms by (auto simp: used_pages_def)

lemma claim_page:
  assumes inv: "pmm_inv s" and k: "k < length (root s)" and c: "c = root s ! k"
    and i: "i < unat (page_cnt c)" "bm_test (bitmap c) i = Some False"
    and bm: "bm_set (bitmap c) i = Some bm"
  defines "p \<equiv> unat (chunk_base c) + 4096 * i"
  shows "p \<in> managed_pages s - used_pages s"
    and "used_pages (claim s k 1 bm) = insert p (used_pages s)"
    and "pmm_inv (claim s k 1 bm)" and "managed_pages (claim s k 1 bm) = managed_pages s"
proof -
  have pc: "p \<in> chunk_pages (root s ! k)" using i(1) c by (auto simp: p_def chunk_pages_def)
  have "p \<notin> chunk_used (root s ! k)" using i c by (auto simp: p_def chunk_used_def)
  moreover have "p \<notin> chunk_used (root s ! l)" if "l < length (root s)" "l \<noteq> k" for l
    using page_in_other_chunk [OF inv k that pc] .
  ultimately have new: "p \<notin> used_pages s" by (auto simp: used_pages_def)
  then show "p \<in> managed_pages s - used_pages s"
    using pc k by (auto simp: managed_pages_def)
  let ?s = "claim s k 1 bm"
  have upd: "used_pages ?s = used_pages (s\<lparr>root := (root s)[k := c\<lparr>bitmap := bm\<rparr>]\<rparr>)"
    by (simp add: used_pages_def claim_def c)
  show used: "used_pages ?s = insert p (used_pages s)"
    unfolding upd used_pages_update [OF k] chunk_used_insert [OF i(1) bm] used_pages_split [OF k]
    by (auto simp: c p_def)
  have mm_len: "length bm = length (bitmap (root s ! k))" using bm.nbits_mark [OF bm] c by simp
  have "total_used_mem s + 1 * page_size = of_nat (4096 * card (used_pages ?s))"
    using inv new finite_used_pages [of s] by (simp add: used pmm_inv_def page_size_def)
  then show "pmm_inv ?s" "managed_pages ?s = managed_pages s"
    using pmm_inv_bitmap_update [OF inv k mm_len] by (simp_all add: claim_def)
qed

lemma mem_chunk_alloc_page:
  assumes "pmm_inv s" and "k < length (root s)" and "c = root s ! k"
  shows "(\<exists>i bm. i < unat (page_cnt c) \<and> bm_test (bitmap c) i = Some False
        \<and> bm_set (bitmap c) i = Some bm
        \<and> mem_chunk_alloc s k 1 1 = Some (chunk_base c + of_nat (4096 * i), claim s k 1 bm))
    \<or> chunk_used c = chunk_pages c \<and> mem_chunk_alloc s k 1 1 = Some (-1, s)"
proof -
  have wf: "wf_chunk c" using assms by (simp add: pmm_inv_def)
  have fit: "fits c 1 1 i \<longleftrightarrow> i < unat (page_cnt c) \<and> bm_test (bitmap c) i = Some False" for i
  proof -
    have "4096 dvd unat (chunk_base c) + 4096 * i" using wf by (simp add: wf_chunk_def)
    moreover have "run_free (bitmap c) i 1 \<longleftrightarrow> bm_test (bitmap c) i = Some False"
      by (auto simp: run_free_def) (metis le_antisym less_Suc_eq_le)
    ultimately show ?thesis by (simp add: fits_def)
  qed
  have full: "chunk_used c = chunk_pages c" if "\<forall>i. \<not> fits c 1 1 i"
  proof -
    have "bm_test (bitmap c) i = Some True" if "i < unat (page_cnt c)" for i
      using that \<open>\<forall>i. \<not> fits c 1 1 i\<close> wf_chunk_bits(1) [OF wf] bm.test_total [of i "bitmap c"] fit
      by fastforce
    then show ?thesis by (auto simp: chunk_used_def chunk_pages_def)
  qed
  have unl: "\<not> pmm_lock s" using assms(1) by (simp add: pmm_inv_def)
  have "unat (page_cnt c) + unat (1 :: size_t) \<le> Suc (bm_bits (bitmap c))"
    using wf_chunk_bits(1) [OF wf] by simp
  moreover have "0 < unat (1 :: size_t)" "unat (1 :: size_t) * 4096 < 2 ^ 62" by simp_all
  ultimately have "(\<exists>i bm. fits c 1 1 i \<and> (\<forall>j < i. \<not> fits c 1 1 j)
        \<and> for_range (\<lambda>j b. bm_set b j) i (unat (1 :: size_t)) (bitmap c) = Some bm
        \<and> mem_chunk_alloc s k 1 1 = Some (chunk_base c + of_nat (4096 * i), claim s k 1 bm))
    \<or> (\<forall>i. \<not> fits c 1 1 i) \<and> mem_chunk_alloc s k 1 1 = Some (-1, s)"
    by (intro mem_chunk_alloc_cases [OF wf assms(2,3) unl])
  then show ?thesis
  proof (elim disjE exE conjE)
    fix i bm
    assume i: "fits c 1 1 i"
      "for_range (\<lambda>j b. bm_set b j) i (unat (1 :: size_t)) (bitmap c) = Some bm"
      "mem_chunk_alloc s k 1 1 = Some (chunk_base c + of_nat (4096 * i), claim s k 1 bm)"
    then have "bm_set (bitmap c) i = Some bm" by (simp split: Option.bind_splits)
    then show ?thesis using i fit by blast
  qed (use full in \<open>simp_all\<close>)
qed

lemma page_addr:
  assumes "wf_chunk c" and "i < unat (page_cnt c)"
  shows "unat (chunk_base c + of_nat (4096 * i)) = unat (chunk_base c) + 4096 * i"
    and "chunk_base c + of_nat (4096 * i) \<noteq> -1"
proof -
  have lt: "unat (chunk_base c) + 4096 * i < 2 ^ 62" using assms by (simp add: wf_chunk_def)
  then have "unat (of_nat (4096 * i) :: size_t) = 4096 * i" by (intro unat_of_nat_lt) simp
  then show eq: "unat (chunk_base c + of_nat (4096 * i)) = unat (chunk_base c) + 4096 * i"
    using lt by (subst unat_add_lt) simp_all
  have "\<not> unat (-1 :: size_t) < 2 ^ 62" by (simp add: unsigned_minus_1_eq_mask mask_eq_exp_minus_1)
  then show "chunk_base c + of_nat (4096 * i) \<noteq> -1" using eq lt by metis
qed

lemma pmm_alloc_from_page:
  assumes "pmm_inv s" and "k + Suc n = length (root s)"
  shows "(\<exists>l i bm. l < length (root s) \<and> i < unat (page_cnt (root s ! l))
        \<and> bm_test (bitmap (root s ! l)) i = Some False \<and> bm_set (bitmap (root s ! l)) i = Some bm
        \<and> pmm_alloc_from s k n 1 1 = Some (chunk_base (root s ! l) + of_nat (4096 * i), claim s l 1 bm))
    \<or> (\<forall>l. k \<le> l \<and> l < length (root s) \<longrightarrow> chunk_used (root s ! l) = chunk_pages (root s ! l))
      \<and> pmm_alloc_from s k n 1 1 = Some (-1, s)"
  using assms(2)
proof (induction n arbitrary: k)
  case 0
  then have k: "k < length (root s)" by simp
  have wf: "wf_chunk (root s ! k)" using assms(1) k by (simp add: pmm_inv_def)
  from mem_chunk_alloc_page [OF assms(1) k refl] show ?case
  proof (elim disjE exE conjE)
    fix i bm
    assume "i < unat (page_cnt (root s ! k))" "bm_test (bitmap (root s ! k)) i = Some False"
      "bm_set (bitmap (root s ! k)) i = Some bm"
      "mem_chunk_alloc s k 1 1 = Some (chunk_base (root s ! k) + of_nat (4096 * i), claim s k 1 bm)"
    then show ?thesis using k page_addr(2) [OF wf, of i]
      by (intro disjI1 exI [of _ k] exI [of _ i] exI [of _ bm]) (simp add: pmm_alloc_from.simps)
  next
    assume "chunk_used (root s ! k) = chunk_pages (root s ! k)" "mem_chunk_alloc s k 1 1 = Some (-1, s)"
    moreover have "l = k" if "k \<le> l" "l < length (root s)" for l using that 0 by simp
    ultimately show ?thesis by (intro disjI2) (auto simp: pmm_alloc_from.simps)
  qed
next
  case (Suc n)
  then have k: "k < length (root s)" by simp
  have wf: "wf_chunk (root s ! k)" using assms(1) k by (simp add: pmm_inv_def)
  from mem_chunk_alloc_page [OF assms(1) k refl] show ?case
  proof (elim disjE exE conjE)
    fix i bm
    assume "i < unat (page_cnt (root s ! k))" "bm_test (bitmap (root s ! k)) i = Some False"
      "bm_set (bitmap (root s ! k)) i = Some bm"
      "mem_chunk_alloc s k 1 1 = Some (chunk_base (root s ! k) + of_nat (4096 * i), claim s k 1 bm)"
    then show ?thesis using k page_addr(2) [OF wf, of i]
      by (intro disjI1 exI [of _ k] exI [of _ i] exI [of _ bm]) (simp add: pmm_alloc_from.simps)
  next
    assume a: "chunk_used (root s ! k) = chunk_pages (root s ! k)" "mem_chunk_alloc s k 1 1 = Some (-1, s)"
    have step: "pmm_alloc_from s k (Suc n) 1 1 = pmm_alloc_from s (Suc k) n 1 1"
      using a(2) by (simp add: pmm_alloc_from.simps [of s k])
    have "Suc k + Suc n = length (root s)" using Suc.prems by simp
    from Suc.IH [OF this] show ?thesis
    proof (elim disjE conjE)
      assume r: "\<forall>l. Suc k \<le> l \<and> l < length (root s)
          \<longrightarrow> chunk_used (root s ! l) = chunk_pages (root s ! l)"
        "pmm_alloc_from s (Suc k) n 1 1 = Some (-1, s)"
      have "chunk_used (root s ! l) = chunk_pages (root s ! l)" if "k \<le> l" "l < length (root s)" for l
        using that r(1) a(1) by (cases "l = k") auto
      then show ?thesis using r(2) step by auto
    qed (unfold step, blast)
  qed
qed

text \<open>The two operations against the abstract allocator.\<close>

lemma pmm_alloc_page:
  assumes "pmm_inv s"
  obtains (page) a s' where "pmm_alloc s 1 1 = Some (a, s')" "a \<noteq> -1"
      "unat a \<in> managed_pages s - used_pages s"
      "used_pages s' = insert (unat a) (used_pages s)"
      "managed_pages s' = managed_pages s" "pmm_inv s'"
  | (full) "pmm_alloc s 1 1 = Some (-1, s)" "used_pages s = managed_pages s"
proof -
  have "0 + Suc (length (root s) - 1) = length (root s)" using assms by (cases "root s") (simp_all add: pmm_inv_def)
  from pmm_alloc_from_page [OF assms this] show thesis
  proof (elim disjE exE conjE)
    fix l i bm
    assume l: "l < length (root s)" and i: "i < unat (page_cnt (root s ! l))"
      "bm_test (bitmap (root s ! l)) i = Some False" "bm_set (bitmap (root s ! l)) i = Some bm"
      "pmm_alloc_from s 0 (length (root s) - 1) 1 1
        = Some (chunk_base (root s ! l) + of_nat (4096 * i), claim s l 1 bm)"
    have "wf_chunk (root s ! l)" using assms l by (simp add: pmm_inv_def)
    note mm_addr = page_addr [OF this i(1)]
    show thesis
      using i(4) mm_addr claim_page [OF assms l refl i(1-3)]
      by (intro page [of "chunk_base (root s ! l) + of_nat (4096 * i)" "claim s l 1 bm"])
        (simp_all only: pmm_alloc_def not_False_eq_True)
  next
    assume a: "\<forall>l. 0 \<le> l \<and> l < length (root s) \<longrightarrow> chunk_used (root s ! l) = chunk_pages (root s ! l)"
      "pmm_alloc_from s 0 (length (root s) - 1) 1 1 = Some (-1, s)"
    have "used_pages s = managed_pages s"
      using a(1) unfolding used_pages_def managed_pages_def by (force simp: in_set_conv_nth)
    then show thesis using a(2) by (intro full) (simp_all add: pmm_alloc_def)
  qed
qed

lemma managed_page:
  assumes "pmm_inv s" and "p \<in> managed_pages s"
  shows "4096 dvd p" and "p < 2 ^ 62"
proof -
  from assms obtain c i where "wf_chunk c" "p = unat (chunk_base c) + 4096 * i" "i < unat (page_cnt c)"
    by (auto simp: managed_pages_def chunk_pages_def pmm_inv_def)
  then show "4096 dvd p" "p < 2 ^ 62" by (simp_all add: wf_chunk_def)
qed

text \<open>The range test of \<^verbatim>\<open>pmm::free\<close> recognises the pages of the chunk.\<close>

lemma free_guard:
  assumes "wf_chunk c" and "4096 dvd unat a" and "unat a < 2 ^ 62"
  shows "a \<ge> chunk_base c \<and> a + 1 * page_size \<le> chunk_base c + page_cnt c * page_size
    \<longleftrightarrow> unat a \<in> chunk_pages c"
proof -
  have b: "4096 dvd unat (chunk_base c)" "unat (chunk_base c) + unat (page_cnt c) * 4096 < 2 ^ 62"
    using assms(1) by (simp_all add: wf_chunk_def)
  have "unat (page_cnt c * page_size) = unat (page_cnt c) * 4096"
    using b(2) by (subst unat_mult_lt) simp_all
  then have "unat (chunk_base c + page_cnt c * page_size) = unat (chunk_base c) + unat (page_cnt c) * 4096"
    using b(2) by (subst unat_add_lt) simp_all
  moreover have "unat (a + 1 * page_size) = unat a + 4096"
    using assms(3) by (subst unat_add_lt) simp_all
  ultimately have "a \<ge> chunk_base c \<and> a + 1 * page_size \<le> chunk_base c + page_cnt c * page_size
      \<longleftrightarrow> unat (chunk_base c) \<le> unat a \<and> unat a + 4096 \<le> unat (chunk_base c) + unat (page_cnt c) * 4096"
    by (simp only: word_le_nat_alt)
  also have "\<dots> \<longleftrightarrow> unat a \<in> chunk_pages c"
  proof
    assume g: "unat (chunk_base c) \<le> unat a \<and> unat a + 4096 \<le> unat (chunk_base c) + unat (page_cnt c) * 4096"
    then have "4096 dvd unat a - unat (chunk_base c)" using assms(2) b(1) by (intro dvd_diff_nat)
    then obtain i where "unat a - unat (chunk_base c) = 4096 * i" by (rule dvdE)
    then have ai: "unat a = unat (chunk_base c) + 4096 * i" using g by (metis le_add_diff_inverse)
    then have "i < unat (page_cnt c)" using g by simp
    with ai show "unat a \<in> chunk_pages c" by (auto simp: chunk_pages_def)
  qed (auto simp: chunk_pages_def)
  finally show ?thesis .
qed

lemma pmm_free_from_page:
  assumes "pmm_inv s" and "4096 dvd unat a" and "unat a < 2 ^ 62"
    and "l < length (root s)" and "unat a \<in> chunk_pages (root s ! l)"
    and "k \<le> l" and "k + Suc n = length (root s)"
  shows "pmm_free_from s k n a 1 = mem_chunk_free s l (a - chunk_base (root s ! l)) 1"
  using assms(6,7)
proof (induction n arbitrary: k)
  case (Suc n)
  have wf: "wf_chunk (root s ! k)" using assms(1) Suc.prems by (simp add: pmm_inv_def)
  show ?case
  proof (cases "k = l")
    case True
    then show ?thesis using free_guard [OF wf assms(2,3)] assms(4,5)
      by (simp add: pmm_free_from.simps [of s l])
  next
    case False
    then have "k < l" using Suc.prems by simp
    then have "chunk_pages (root s ! k) \<inter> chunk_pages (root s ! l) = {}"
      using assms(1,4) unfolding pmm_inv_def by blast
    then have "unat a \<notin> chunk_pages (root s ! k)" using assms(5) by blast
    then have "pmm_free_from s k (Suc n) a 1 = pmm_free_from s (Suc k) n a 1"
      using free_guard [OF wf assms(2,3)] Suc.prems by (auto simp: pmm_free_from.simps [of s k])
    then show ?thesis using Suc.IH [of "Suc k"] Suc.prems \<open>k < l\<close> by simp
  qed
next
  case 0
  then have "k = l" using assms(4) by simp
  moreover have "wf_chunk (root s ! l)" using assms(1,4) by (simp add: pmm_inv_def)
  ultimately show ?case using free_guard [OF _ assms(2,3), of "root s ! l"] assms(4,5)
    by (simp add: pmm_free_from.simps [of s l])
qed

lemma pmm_free_page:
  assumes inv: "pmm_inv s" and a: "unat a \<in> used_pages s"
  obtains s' where "pmm_free s a 1 = Some s'" "pmm_inv s'"
    "used_pages s' = used_pages s - {unat a}" "managed_pages s' = managed_pages s"
proof -
  from a obtain l i where l: "l < length (root s)" and i: "i < unat (page_cnt (root s ! l))"
    "bm_test (bitmap (root s ! l)) i = Some True" "unat a = unat (chunk_base (root s ! l)) + 4096 * i"
    by (auto simp: used_pages_def chunk_used_def)
  let ?c = "root s ! l"
  have wf: "wf_chunk ?c" using inv l by (simp add: pmm_inv_def)
  have pc: "unat a \<in> chunk_pages ?c" using i by (auto simp: chunk_pages_def)
  have m: "4096 dvd unat a" "unat a < 2 ^ 62"
    using managed_page [OF inv] a used_pages_managed by blast+
  have "pmm_free s a 1 = mem_chunk_free s l (a - chunk_base ?c) 1"
    using inv m l pc unfolding pmm_free_def
    by (intro pmm_free_from_page) (auto simp: pmm_inv_def neq_Nil_conv)
  then have eq: "pmm_free s a 1 = mem_chunk_free s l (a - chunk_base ?c) 1" .
  obtain bm where bm: "bm_clear (bitmap ?c) i = Some bm"
    using bm.unmark_total [of i "bitmap ?c"] wf_chunk_bits(1) [OF wf] i(1) by auto
  define s' where "s' = s\<lparr>root := (root s)[l := ?c\<lparr>bitmap := bm\<rparr>],
      total_used_mem := total_used_mem s - 1 * page_size\<rparr>"
  have off: "unat (a - chunk_base ?c) = 4096 * i"
    using i(3) by (subst unat_sub) (simp_all add: word_le_nat_alt)
  have small: "i + unat (1 :: size_t) < 2 ^ 50 + 8" using i(1) wf by (simp add: wf_chunk_def)
  have "mem_chunk_free s l (a - chunk_base ?c) 1 = Some s'"
    unfolding s'_def using inv l bm small off
    by (intro mem_chunk_free_run [of l s i]) (simp_all add: pmm_inv_def)
  with eq have res: "pmm_free s a 1 = Some s'" by simp
  have used: "used_pages s' = used_pages s - {unat a}"
  proof -
    have "used_pages s' = used_pages (s\<lparr>root := (root s)[l := ?c\<lparr>bitmap := bm\<rparr>]\<rparr>)"
      by (simp add: s'_def used_pages_def)
    moreover have "unat a \<notin> chunk_used (root s ! k)" if "k < length (root s)" "k \<noteq> l" for k
      using page_in_other_chunk [OF inv l that pc] .
    ultimately show ?thesis
      unfolding used_pages_update [OF l] chunk_used_remove [OF i(1) bm] used_pages_split [OF l] i(3) [symmetric]
      by blast
  qed
  have mm_len: "length bm = length (bitmap ?c)" using bm.nbits_unmark [OF bm] by simp
  have tot: "total_used_mem s - 1 * page_size = of_nat (4096 * card (used_pages s'))"
  proof -
    have "card (used_pages s) = Suc (card (used_pages s'))"
      using card_Suc_Diff1 [OF finite_used_pages a] by (simp add: used)
    then show ?thesis using inv by (simp add: pmm_inv_def page_size_def)
  qed
  show thesis
    using that [OF res pmm_inv_bitmap_update(1) [OF inv l mm_len s'_def tot] used
        pmm_inv_bitmap_update(2) [OF inv l mm_len s'_def tot]] .
qed

section \<open>The page allocator interface\<close>

text \<open>What the page tables, the slab allocator and the drivers rely on.\<close>

locale page_allocator =
  fixes alloc :: "'s \<Rightarrow> (size_t \<times> 's) option"
    and free :: "'s \<Rightarrow> size_t \<Rightarrow> 's option"
    and inv :: "'s \<Rightarrow> bool"
    and managed :: "'s \<Rightarrow> nat set"
    and used :: "'s \<Rightarrow> nat set"
  assumes alloc_total: "inv s \<Longrightarrow> \<exists>a s'. alloc s = Some (a, s')"
    and alloc_page: "inv s \<Longrightarrow> alloc s = Some (a, s') \<Longrightarrow> a \<noteq> -1 \<Longrightarrow>
      unat a \<in> managed s - used s \<and> used s' = insert (unat a) (used s) \<and> managed s' = managed s \<and> inv s'"
    and alloc_full: "inv s \<Longrightarrow> alloc s = Some (-1, s') \<Longrightarrow> used s = managed s \<and> s' = s"
    and free_page: "inv s \<Longrightarrow> unat a \<in> used s \<Longrightarrow>
      \<exists>s'. free s a = Some s' \<and> inv s' \<and> used s' = used s - {unat a} \<and> managed s' = managed s"
    and page_bounds: "inv s \<Longrightarrow> p \<in> managed s \<Longrightarrow> 4096 dvd p \<and> p < 2 ^ 62"
    and used_managed: "inv s \<Longrightarrow> used s \<subseteq> managed s"
begin

lemma alloc_inv: "inv s \<Longrightarrow> alloc s = Some (a, s') \<Longrightarrow> inv s'"
  using alloc_page [of s a s'] alloc_full [of s s'] by (cases "a = -1") auto

lemma alloc_managed: "inv s \<Longrightarrow> alloc s = Some (a, s') \<Longrightarrow> managed s' = managed s"
  using alloc_page [of s a s'] alloc_full [of s s'] by (cases "a = -1") auto

lemma alloc_used_mono: "inv s \<Longrightarrow> alloc s = Some (a, s') \<Longrightarrow> used s \<subseteq> used s'"
  using alloc_page [of s a s'] alloc_full [of s s'] by (cases "a = -1") auto

lemma alloc_not_full: "inv s \<Longrightarrow> used s \<noteq> managed s \<Longrightarrow> alloc s = Some (a, s') \<Longrightarrow> a \<noteq> -1"
  using alloc_full [of s s'] by blast

lemma alloc_twice_distinct:
  assumes "inv s" and "alloc s = Some (a, s')" and "a \<noteq> -1" and "alloc s' = Some (b, s'')" and "b \<noteq> -1"
  shows "a \<noteq> b"
  using alloc_page [OF assms(1-3)] alloc_page [of s' b s''] assms by auto

lemma alloc_free_used:
  assumes "inv s" and "alloc s = Some (a, s')" and "a \<noteq> -1"
  shows "\<exists>s''. free s' a = Some s'' \<and> inv s'' \<and> used s'' = used s"
  using alloc_page [OF assms] free_page [of s' a] by auto

end

interpretation pmm_pages: page_allocator "\<lambda>s. pmm_alloc s 1 1" "\<lambda>s a. pmm_free s a 1"
  pmm_inv managed_pages used_pages
proof unfold_locales
  fix s s' a p
  assume inv: "pmm_inv s"
  show "\<exists>a s'. pmm_alloc s 1 1 = Some (a, s')"
    by (rule pmm_alloc_page [OF inv]) blast+
  show "unat a \<in> managed_pages s - used_pages s \<and> used_pages s' = insert (unat a) (used_pages s)
      \<and> managed_pages s' = managed_pages s \<and> pmm_inv s'"
    if "pmm_alloc s 1 1 = Some (a, s')" "a \<noteq> -1"
    by (rule pmm_alloc_page [OF inv]) (use that in auto)
  show "used_pages s = managed_pages s \<and> s' = s" if "pmm_alloc s 1 1 = Some (-1, s')"
    by (rule pmm_alloc_page [OF inv]) (use that in auto)
  show "\<exists>s'. pmm_free s a 1 = Some s' \<and> pmm_inv s' \<and> used_pages s' = used_pages s - {unat a}
      \<and> managed_pages s' = managed_pages s" if "unat a \<in> used_pages s"
    by (rule pmm_free_page [OF inv that]) blast
  show "4096 dvd p \<and> p < 2 ^ 62" if "p \<in> managed_pages s"
    using managed_page [OF inv that] by blast
  show "used_pages s \<subseteq> managed_pages s" by (rule used_pages_managed)
qed

section \<open>Properties\<close>

text \<open>
  C1. Allocating one page refines the abstract page set: from a consistent allocator the call
  returns, keeps the invariant (the accounting in \<open>total_used_mem\<close> included), and either
  hands out a managed page that was not in use, which is then the only change, or returns
  \<open>-1\<close> because every page is in use.
\<close>

theorem pmm_alloc_refines:
  assumes "pmm_inv s"
  shows "\<exists>a s'. pmm_alloc s 1 1 = Some (a, s') \<and> pmm_inv s' \<and> managed_pages s' = managed_pages s
    \<and> (if a = -1 then used_pages s = managed_pages s \<and> s' = s
       else unat a \<in> managed_pages s - used_pages s \<and> used_pages s' = insert (unat a) (used_pages s))"
  by (rule pmm_alloc_page [OF assms]) (use assms in auto)

definition one_chunk :: "u8 list \<Rightarrow> size_t \<Rightarrow> pmm" where
  "one_chunk bm used = \<lparr>root = [\<lparr>chunk_base = 0x100000, page_cnt = 12, bitmap_size = 2,
     bitmap_addr = 0, bitmap = bm\<rparr>], pmm_lock = False, buffer = 0, total_mem = 0xc000, total_used_mem = used\<rparr>"

lemma one_chunk_used:
  "used_pages (one_chunk bm u) = (\<lambda>i. 0x100000 + 4096 * i) ` {i. i < 12 \<and> bm_test bm i = Some True}"
  by (auto simp: one_chunk_def used_pages_def chunk_used_def)

lemma one_chunk_inv:
  assumes "length bm = 2" and "u = of_nat (4096 * card {i. i < 12 \<and> bm_test bm i = Some True})"
  shows "pmm_inv (one_chunk bm u)"
proof -
  have "card (used_pages (one_chunk bm u)) = card {i. i < 12 \<and> bm_test bm i = Some True}"
    unfolding one_chunk_used by (intro card_image inj_onI) simp
  moreover have "div_roundup 12 8 = 2" by (simp add: div_roundup_def signed_divide_int_def)
  ultimately show ?thesis
    using assms unfolding pmm_inv_def by (simp add: one_chunk_def wf_chunk_def)
qed

lemma two_pages_used: "{i. i < 12 \<and> bm_test [3, 0] i = Some True} = {0, 1}"
proof -
  have "bm_test [3, 0] i = Some True \<longleftrightarrow> i = 0 \<or> i = 1" if "i < 12" for i
  proof -
    have "i \<in> set [0..<12]" using that by simp
    then show ?thesis
      unfolding upt_rec_numeral by (simp add: upt_rec bm_test_def) (elim disjE; simp add: bm_test_def)
  qed
  then show ?thesis by auto
qed

theorem pmm_alloc_refines_witness:
  "\<exists>a s'. pmm_alloc (one_chunk [3, 0] 8192) 1 1 = Some (a, s') \<and> pmm_inv s'
    \<and> 0x100000 \<in> used_pages s'"
proof -
  have inv: "pmm_inv (one_chunk [3, 0] 8192)"
    by (rule one_chunk_inv) (simp_all add: two_pages_used)
  have "0x100000 \<in> used_pages (one_chunk [3, 0] 8192)"
    unfolding one_chunk_used two_pages_used by simp
  then show ?thesis using pmm_alloc_refines [OF inv] by (fastforce split: if_splits)
qed

text \<open>
  C2. Freeing one page in use refines removing it from the set of used pages: the call
  returns, keeps the invariant and changes nothing else.
\<close>

theorem pmm_free_refines:
  assumes "pmm_inv s" and "unat a \<in> used_pages s"
  shows "\<exists>s'. pmm_free s a 1 = Some s' \<and> pmm_inv s' \<and> used_pages s' = used_pages s - {unat a}
    \<and> managed_pages s' = managed_pages s"
  by (rule pmm_free_page [OF assms]) blast

theorem pmm_free_refines_witness:
  "\<exists>s'. pmm_free (one_chunk [3, 0] 8192) 0x101000 1 = Some s' \<and> pmm_inv s'
    \<and> used_pages s' = {0x100000}"
proof -
  have inv: "pmm_inv (one_chunk [3, 0] 8192)"
    by (rule one_chunk_inv) (simp_all add: two_pages_used)
  have u: "used_pages (one_chunk [3, 0] 8192) = {0x100000, 0x101000}"
    unfolding one_chunk_used two_pages_used by simp
  have "unat (0x101000 :: size_t) \<in> used_pages (one_chunk [3, 0] 8192)" unfolding u by simp
  from pmm_free_refines [OF inv this] show ?thesis unfolding u by auto
qed

text \<open>
  Two pages handed out one after the other, with no free in between, are different,
  page aligned and lie in managed memory.
\<close>

theorem pmm_alloc_twice:
  assumes "pmm_inv s" and "pmm_alloc s 1 1 = Some (a, s')" and "a \<noteq> -1"
    and "pmm_alloc s' 1 1 = Some (b, s'')" and "b \<noteq> -1"
  shows "a \<noteq> b \<and> 4096 dvd unat a \<and> 4096 dvd unat b \<and> {unat a, unat b} \<subseteq> managed_pages s"
proof -
  note a = pmm_pages.alloc_page [OF assms(1-3)]
  then have inv': "pmm_inv s'" by simp
  note b = pmm_pages.alloc_page [OF inv' assms(4,5)]
  show ?thesis
    using pmm_pages.alloc_twice_distinct [OF assms] a b
      pmm_pages.page_bounds [OF assms(1), of "unat a"] pmm_pages.page_bounds [OF assms(1), of "unat b"]
    by auto
qed

theorem pmm_alloc_twice_witness:
  "\<exists>a s' b s''. pmm_alloc (one_chunk [3, 0] 8192) 1 1 = Some (a, s')
    \<and> pmm_alloc s' 1 1 = Some (b, s'') \<and> a \<noteq> b"
proof -
  have inv: "pmm_inv (one_chunk [3, 0] 8192)"
    by (rule one_chunk_inv) (simp_all add: two_pages_used)
  have a: "pmm_alloc (one_chunk [3, 0] 8192) 1 1 = Some (0x102000, one_chunk [7, 0] 0x3000)"
    by code_simp
  moreover have b: "pmm_alloc (one_chunk [7, 0] 0x3000) 1 1 = Some (0x103000, one_chunk [15, 0] 0x4000)"
    by code_simp
  ultimately show ?thesis using pmm_alloc_twice [OF inv a _ b] by auto
qed



text \<open>
  Freeing a run in the chunk it was allocated from restores the allocator, the used
  memory included.
\<close>

theorem mem_chunk_alloc_free_round_trip:
  assumes "wf_chunk (root s ! k)" and "k < length (root s)" and "\<not> pmm_lock s"
    and "0 < unat align" "unat align * 4096 < 2 ^ 62"
    and "0 < unat cnt"
      "unat (page_cnt (root s ! k)) + unat cnt \<le> Suc (bm_bits (bitmap (root s ! k)))"
    and "mem_chunk_alloc s k cnt align = Some (a, s')" and "a \<noteq> -1"
  shows "mem_chunk_free s' k (a - chunk_base (root s ! k)) cnt = Some s"
  by (rule mem_chunk_alloc_free [OF assms])

theorem mem_chunk_alloc_free_round_trip_witness:
  "mem_chunk_free (one_chunk [51, 0] 0x4000) 0 0x4000 2 = Some (one_chunk [3, 0] 8192)"
proof -
  have "pmm_inv (one_chunk [3, 0] 8192)"
    by (rule one_chunk_inv) (simp_all add: two_pages_used)
  then have wf: "wf_chunk (root (one_chunk [3, 0] 8192) ! 0)" by (simp add: pmm_inv_def one_chunk_def)
  have run: "mem_chunk_alloc (one_chunk [3, 0] 8192) 0 2 4 = Some (0x104000, one_chunk [51, 0] 0x4000)"
    by code_simp
  show ?thesis
    using mem_chunk_alloc_free_round_trip [OF wf _ _ _ _ _ _ run] by (simp add: one_chunk_def)
qed

text \<open>
  The run is not bounded by the chunk: with all but the last page of a chunk in use, a
  request for two pages is answered with the last page and the address behind the chunk.
\<close>

theorem pmm_alloc_leaves_chunk:
  "\<exists>s'. pmm_alloc (one_chunk [255, 7] 0xb000) 2 1 = Some (0x10b000, s')
    \<and> unat (0x10c000 :: size_t) \<notin> managed_pages (one_chunk [255, 7] 0xb000)"
proof -
  have "pmm_alloc (one_chunk [255, 7] 0xb000) 2 1 = Some (0x10b000, one_chunk [255, 31] 0xd000)"
    by code_simp
  moreover have "unat (0x10c000 :: size_t) \<notin> managed_pages (one_chunk [255, 7] 0xb000)"
    by (simp add: managed_pages_def chunk_pages_def one_chunk_def)
  ultimately show ?thesis by blast
qed

end
