(* ===== verification/Slab.thy ===== *)
theory Slab
  imports Pmm
begin

text \<open>
  \<^verbatim>\<open>kernel/mm/slab.cpp\<close>: the kernel heap. Slabs and caches are records in stores indexed by
  their virtual address, with \<^verbatim>\<open>NULL\<close> the address 0; following a pointer that is in neither
  store faults. The bytes of the objects are the direct map of physical memory. A slab's
  bitmap is the block of 32 bytes that follows its header.
\<close>

section \<open>Definitions\<close>

definition objects_per_slab :: size_t where
  "objects_per_slab = 256"

record slab =
  available_objects :: size_t
  parent :: size_t
  buf :: size_t
  slab_bitmap :: bitmap
  slab_next :: size_t
  slab_last :: size_t

record cache =
  object_size :: size_t
  cache_flags :: size_t
  pages_per_slab :: size_t
  slab_empty :: size_t
  slab_partial :: size_t
  slab_full :: size_t
  cache_next :: size_t
  cache_last :: size_t

record kmm =
  slabs :: "size_t \<rightharpoonup> slab"
  caches :: "size_t \<rightharpoonup> cache"
  cache_root :: size_t
  slab_lock :: bool
  frames :: pmm
  mem :: phys_mem

definition sizeof_slab :: size_t where
  "sizeof_slab = 48"

definition sizeof_cache :: size_t where
  "sizeof_cache = 88"

definition slab_write :: "kmm \<Rightarrow> size_t \<Rightarrow> (slab \<Rightarrow> slab) \<Rightarrow> kmm option" where
  "slab_write s p f = do { x \<leftarrow> slabs s p; Some (s\<lparr>slabs := (slabs s)(p \<mapsto> f x)\<rparr>) }"

definition cache_write :: "kmm \<Rightarrow> size_t \<Rightarrow> (cache \<Rightarrow> cache) \<Rightarrow> kmm option" where
  "cache_write s p f = do { x \<leftarrow> caches s p; Some (s\<lparr>caches := (caches s)(p \<mapsto> f x)\<rparr>) }"

text \<open>The walks \<^verbatim>\<open>while(node->next != NULL) node = node->next\<close>.\<close>

partial_function (option) slab_tail :: "(size_t \<rightharpoonup> slab) \<Rightarrow> size_t \<Rightarrow> size_t option" where
  "slab_tail h node = do {
     n \<leftarrow> h node;
     if slab_next n \<noteq> 0 then slab_tail h (slab_next n) else Some node
   }"

partial_function (option) cache_tail :: "(size_t \<rightharpoonup> cache) \<Rightarrow> size_t \<Rightarrow> size_t option" where
  "cache_tail h node = do {
     n \<leftarrow> h node;
     if cache_next n \<noteq> 0 then cache_tail h (cache_next n) else Some node
   }"

declare slab_tail.simps [code] cache_tail.simps [code]

subsection \<open>Slabs and caches\<close>

definition alloc_slab :: "kmm \<Rightarrow> size_t \<Rightarrow> (size_t \<times> kmm) option" where
  "alloc_slab s p = do {
     par \<leftarrow> caches s p;
     (a, fr, m) \<leftarrow> pmm_calloc (frames s) (mem s) (pages_per_slab par) 1;
     let new_slab = a + high_vma;
     let s = s\<lparr>frames := fr, mem := m, slabs := (slabs s)(new_slab \<mapsto>
       \<lparr>available_objects = objects_per_slab, parent = p,
        buf = align_up (new_slab + sizeof_slab + objects_per_slab div 8) 16,
        slab_bitmap = replicate 32 0, slab_next = 0, slab_last = 0\<rparr>)\<rparr>;
     if slab_empty par = 0 then do {
       s \<leftarrow> cache_write s p (\<lambda>c. c\<lparr>slab_empty := new_slab\<rparr>);
       Some (new_slab, s)
     } else do {
       node \<leftarrow> slab_tail (slabs s) (slab_empty par);
       s \<leftarrow> slab_write s node (\<lambda>x. x\<lparr>slab_next := new_slab\<rparr>);
       s \<leftarrow> slab_write s new_slab (\<lambda>x. x\<lparr>slab_last := node\<rparr>);
       Some (new_slab, s)
     }
   }"

text \<open>
  The constructor runs on the temporary at address \<open>this\<close>, whose members the constructor does
  not set are taken to be zero, and moves it to the start of its first slab.
\<close>

definition slab_pages :: "size_t \<Rightarrow> size_t" where
  "slab_pages osize = div_roundup (osize * objects_per_slab + sizeof_slab + objects_per_slab div 8) page_size"

definition cache_ctor :: "kmm \<Rightarrow> size_t \<Rightarrow> size_t \<Rightarrow> size_t \<Rightarrow> kmm option" where
  "cache_ctor s this fl osize = do {
     let s = s\<lparr>caches := (caches s)(this \<mapsto>
       \<lparr>object_size = osize, cache_flags = fl, pages_per_slab = slab_pages osize,
        slab_empty = 0, slab_partial = 0, slab_full = 0, cache_next = 0, cache_last = 0\<rparr>)\<rparr>;
     (root_slab, s) \<leftarrow> alloc_slab s this;
     rs \<leftarrow> slabs s root_slab;
     c \<leftarrow> caches s this;
     let new_cache = buf rs;
     let s = s\<lparr>caches := (caches s)(new_cache \<mapsto> c)\<rparr>;
     s \<leftarrow> slab_write s root_slab (\<lambda>x. x\<lparr>buf := buf x + sizeof_cache, parent := new_cache\<rparr>);
     if cache_root s = 0 then Some (s\<lparr>cache_root := new_cache\<rparr>)
     else do {
       node \<leftarrow> cache_tail (caches s) (cache_root s);
       s \<leftarrow> cache_write s node (\<lambda>x. x\<lparr>cache_next := new_cache\<rparr>);
       cache_write s new_cache (\<lambda>x. x\<lparr>cache_last := node\<rparr>)
     }
   }"

text \<open>The loop of \<^verbatim>\<open>slab::alloc\<close> is the search of \<^const>\<open>bm_first_free\<close>.\<close>

definition slab_alloc :: "kmm \<Rightarrow> size_t \<Rightarrow> (size_t \<times> kmm) option" where
  "slab_alloc s p = do {
     x \<leftarrow> slabs s p;
     i \<leftarrow> bm_first_free (slab_bitmap x) objects_per_slab;
     if i = -1 then Some (0, s)
     else do {
       bm \<leftarrow> bm_set (slab_bitmap x) (unat i);
       s \<leftarrow> slab_write s p (\<lambda>x. x\<lparr>slab_bitmap := bm, available_objects := available_objects x - 1\<rparr>);
       par \<leftarrow> caches s (parent x);
       Some (buf x + i * object_size par, s)
     }
   }"

definition slab_free :: "kmm \<Rightarrow> size_t \<Rightarrow> size_t \<Rightarrow> kmm option" where
  "slab_free s p index = do {
     x \<leftarrow> slabs s p;
     t \<leftarrow> bm_test (slab_bitmap x) (unat index);
     if t then do {
       bm \<leftarrow> bm_clear (slab_bitmap x) (unat index);
       slab_write s p (\<lambda>x. x\<lparr>available_objects := available_objects x + 1, slab_bitmap := bm\<rparr>)
     } else Some s
   }"

text \<open>The three list heads of a cache, which \<^verbatim>\<open>move_slab\<close> receives by address.\<close>

datatype head = Empty | Partial | Full

fun get_head :: "head \<Rightarrow> cache \<Rightarrow> size_t" where
  "get_head Empty c = slab_empty c"
| "get_head Partial c = slab_partial c"
| "get_head Full c = slab_full c"

fun set_head :: "head \<Rightarrow> size_t \<Rightarrow> cache \<Rightarrow> cache" where
  "set_head Empty p c = c\<lparr>slab_empty := p\<rparr>"
| "set_head Partial p c = c\<lparr>slab_partial := p\<rparr>"
| "set_head Full p c = c\<lparr>slab_full := p\<rparr>"

definition move_slab :: "kmm \<Rightarrow> size_t \<Rightarrow> head \<Rightarrow> head \<Rightarrow> size_t \<Rightarrow> (int \<times> kmm) option" where
  "move_slab s c dest_head src_head src = do {
     ca \<leftarrow> caches s c;
     if src = 0 \<or> get_head src_head ca = 0 then Some (-1, s)
     else do {
       x \<leftarrow> slabs s src;
       s \<leftarrow> (if slab_next x \<noteq> 0 then slab_write s (slab_next x) (\<lambda>y. y\<lparr>slab_last := slab_last x\<rparr>) else Some s);
       x \<leftarrow> slabs s src;
       s \<leftarrow> (if slab_last x \<noteq> 0 then slab_write s (slab_last x) (\<lambda>y. y\<lparr>slab_next := slab_next x\<rparr>) else Some s);
       x \<leftarrow> slabs s src;
       s \<leftarrow> (if get_head src_head ca = src then cache_write s c (set_head src_head (slab_next x)) else Some s);
       ca \<leftarrow> caches s c;
       if get_head dest_head ca = 0 then do {
         s \<leftarrow> slab_write s src (\<lambda>y. y\<lparr>slab_last := 0, slab_next := 0\<rparr>);
         s \<leftarrow> cache_write s c (set_head dest_head src);
         Some (0, s)
       } else do {
         node \<leftarrow> slab_tail (slabs s) (get_head dest_head ca);
         s \<leftarrow> slab_write s node (\<lambda>y. y\<lparr>slab_next := src\<rparr>);
         s \<leftarrow> slab_write s src (\<lambda>y. y\<lparr>slab_last := node\<rparr>);
         Some (0, s)
       }
     }
   }"

definition alloc_obj :: "kmm \<Rightarrow> size_t \<Rightarrow> (size_t \<times> kmm) option" where
  "alloc_obj s c = do {
     ca \<leftarrow> caches s c;
     let slab_cur = (if slab_partial ca \<noteq> 0 then slab_partial ca else slab_empty ca);
     (slab_cur, s) \<leftarrow> (if slab_cur = 0 then do {
         (n, s) \<leftarrow> alloc_slab s c;
         s \<leftarrow> cache_write s c (\<lambda>x. x\<lparr>slab_empty := n\<rparr>);
         Some (n, s)
       } else Some (slab_cur, s));
     (a, s) \<leftarrow> slab_alloc s slab_cur;
     x \<leftarrow> slabs s slab_cur;
     (if available_objects x = 0 then do {
        (_, s) \<leftarrow> move_slab s c Full Partial slab_cur; Some (a, s)
      } else if available_objects x = objects_per_slab - 1 then do {
        (_, s) \<leftarrow> move_slab s c Partial Empty slab_cur; Some (a, s)
      } else Some (a, s))
   }"

definition scan_slab :: "kmm \<Rightarrow> size_t \<Rightarrow> size_t \<Rightarrow> size_t \<Rightarrow> (int \<times> kmm) option" where
  "scan_slab s osize obj slab_cur =
     (if slab_cur = 0 then Some (-1, s)
      else do {
        x \<leftarrow> slabs s slab_cur;
        if buf x \<le> obj \<and> buf x + osize * objects_per_slab > obj then do {
          _ \<leftarrow> (if osize = 0 then None else Some ());
          bm \<leftarrow> bm_clear (slab_bitmap x) (unat ((obj - buf x) div osize));
          s \<leftarrow> slab_write s slab_cur (\<lambda>y. y\<lparr>slab_bitmap := bm\<rparr>);
          Some (0, s)
        } else Some (-1, s)
      })"

definition free_obj :: "kmm \<Rightarrow> size_t \<Rightarrow> size_t \<Rightarrow> (int \<times> kmm) option" where
  "free_obj s c obj = do {
     ca \<leftarrow> caches s c;
     (ret, s) \<leftarrow> scan_slab s (object_size ca) obj (slab_partial ca);
     if ret = 0 then Some (ret, s)
     else do {
       (ret, s) \<leftarrow> scan_slab s (object_size ca) obj (slab_full ca);
       if ret = 0 then Some (ret, s) else Some (-1, s)
     }
   }"

subsection \<open>The heap\<close>

definition lock_slab :: "kmm \<Rightarrow> kmm option" where
  "lock_slab s = do { l \<leftarrow> spin_lock (slab_lock s); Some (s\<lparr>slab_lock := l\<rparr>) }"

definition unlock_slab :: "kmm \<Rightarrow> kmm" where
  "unlock_slab s = s\<lparr>slab_lock := spin_release (slab_lock s)\<rparr>"

definition round_size :: "size_t \<Rightarrow> size_t" where
  "round_size sz = (let r = pow2_roundup sz in if r \<le> 16 then 32 else r)"

partial_function (option) kmm_alloc_from :: "kmm \<Rightarrow> size_t \<Rightarrow> size_t \<Rightarrow> (size_t \<times> kmm) option" where
  "kmm_alloc_from s cache_cur rsize = do {
     c \<leftarrow> caches s cache_cur;
     if object_size c = rsize then alloc_obj (unlock_slab s) cache_cur
     else if cache_next c \<noteq> 0 then kmm_alloc_from s (cache_next c) rsize
     else Some (0, unlock_slab s)
   }"

definition kmm_alloc :: "kmm \<Rightarrow> size_t \<Rightarrow> (size_t \<times> kmm) option" where
  "kmm_alloc s sz =
     (if sz = 0 then Some (0, s)
      else do { s \<leftarrow> lock_slab s; kmm_alloc_from s (cache_root s) (round_size sz) })"

partial_function (option) kmm_free_from :: "kmm \<Rightarrow> size_t \<Rightarrow> size_t \<Rightarrow> (size_t \<times> kmm) option" where
  "kmm_free_from s cache_cur obj = do {
     (ret, s) \<leftarrow> free_obj s cache_cur obj;
     c \<leftarrow> caches s cache_cur;
     if ret \<noteq> 0 then Some (object_size c, unlock_slab s)
     else if cache_next c \<noteq> 0 then kmm_free_from s (cache_next c) obj
     else Some (0, unlock_slab s)
   }"

definition kmm_free :: "kmm \<Rightarrow> size_t \<Rightarrow> (size_t \<times> kmm) option" where
  "kmm_free s obj =
     (if obj = 0 then Some (0, s)
      else do { s \<leftarrow> lock_slab s; kmm_free_from s (cache_root s) obj })"

declare kmm_alloc_from.simps [code] kmm_free_from.simps [code]

text \<open>\<open>memset8\<close> and \<open>memcpy8\<close> on the direct map.\<close>

fun fill_bytes :: "phys_mem \<Rightarrow> u64 \<Rightarrow> u8 \<Rightarrow> nat \<Rightarrow> phys_mem" where
  "fill_bytes m p d 0 = m"
| "fill_bytes m p d (Suc n) = fill_bytes (m(p - high_vma := d)) (p + 1) d n"

fun copy_bytes :: "phys_mem \<Rightarrow> u64 \<Rightarrow> u64 \<Rightarrow> nat \<Rightarrow> phys_mem" where
  "copy_bytes m d p 0 = m"
| "copy_bytes m d p (Suc n) = copy_bytes (m(d - high_vma := m (p - high_vma))) (d + 1) (p + 1) n"

definition kmm_calloc :: "kmm \<Rightarrow> size_t \<Rightarrow> (size_t \<times> kmm) option" where
  "kmm_calloc s cnt = do {
     (a, s) \<leftarrow> kmm_alloc s cnt;
     if a = 0 then Some (0, s)
     else Some (a, s\<lparr>mem := fill_bytes (mem s) a 0 (unat cnt)\<rparr>)
   }"

text \<open>What \<^verbatim>\<open>realloc\<close> and \<^verbatim>\<open>recalloc\<close> share after the new block is allocated.\<close>

definition move_block :: "kmm \<Rightarrow> size_t \<Rightarrow> size_t \<Rightarrow> size_t \<Rightarrow> size_t \<Rightarrow> (size_t \<times> kmm) option" where
  "move_block s new_addr a cnt alloc_size =
     (let bytes_to_copy = (if cnt < alloc_size then alloc_size else cnt)
      in if new_addr = 0 \<and> bytes_to_copy \<noteq> 0 then None
         else Some (new_addr, s\<lparr>mem := copy_bytes (mem s) new_addr a (unat bytes_to_copy)\<rparr>))"

definition kmm_realloc :: "kmm \<Rightarrow> size_t \<Rightarrow> size_t \<Rightarrow> (size_t \<times> kmm) option" where
  "kmm_realloc s a cnt =
     (if a = 0 then Some (0, s)
      else do {
        (alloc_size, s) \<leftarrow> kmm_free s a;
        (new_addr, s) \<leftarrow> kmm_alloc s cnt;
        move_block s new_addr a cnt alloc_size
      })"

definition kmm_recalloc :: "kmm \<Rightarrow> size_t \<Rightarrow> size_t \<Rightarrow> (size_t \<times> kmm) option" where
  "kmm_recalloc s a cnt =
     (if a = 0 then Some (0, s)
      else do {
        (alloc_size, s) \<leftarrow> kmm_free s a;
        (new_addr, s) \<leftarrow> kmm_calloc s cnt;
        move_block s new_addr a cnt alloc_size
      })"

section \<open>Slab lists\<close>

text \<open>\<open>slab_chain h p ps\<close>: following \<^verbatim>\<open>next\<close> from \<open>p\<close> visits \<open>ps\<close> and ends at \<^verbatim>\<open>NULL\<close>.\<close>

fun slab_chain :: "(size_t \<rightharpoonup> slab) \<Rightarrow> size_t \<Rightarrow> size_t list \<Rightarrow> bool" where
  "slab_chain h p [] \<longleftrightarrow> p = 0"
| "slab_chain h p (q # qs) \<longleftrightarrow> p = q \<and> p \<noteq> 0 \<and> (case h p of None \<Rightarrow> False | Some x \<Rightarrow> slab_chain h (slab_next x) qs)"

lemma slab_tail_chain: "slab_chain h p ps \<Longrightarrow> ps \<noteq> [] \<Longrightarrow> slab_tail h p = Some (last ps)"
proof (induction ps arbitrary: p)
  case (Cons q qs)
  then obtain x where x: "h p = Some x" "p = q" "slab_chain h (slab_next x) qs"
    by (auto split: option.splits)
  show ?case
  proof (cases qs)
    case Nil
    then show ?thesis using x by (subst slab_tail.simps) simp
  next
    case (Cons r rs)
    then have "slab_next x \<noteq> 0" "slab_tail h (slab_next x) = Some (last qs)"
      using Cons.IH [OF x(3)] x(3) by auto
    then show ?thesis using x Cons by (subst slab_tail.simps) simp
  qed
qed simp

lemma slab_chain_cong: "(\<And>q. q \<in> set ps \<Longrightarrow> map_option slab_next (h' q) = map_option slab_next (h q))
    \<Longrightarrow> slab_chain h' p ps = slab_chain h p ps"
proof (induction ps arbitrary: p)
  case (Cons q qs)
  then have "map_option slab_next (h' q) = map_option slab_next (h q)" by simp
  then show ?case
    using Cons.IH Cons.prems by (cases "h q"; cases "h' q") (auto split: option.splits)
qed simp

lemma slab_chain_last: "slab_chain h p ps \<Longrightarrow> ps \<noteq> [] \<Longrightarrow> \<exists>y. h (last ps) = Some y \<and> slab_next y = 0"
  by (induction ps arbitrary: p) (auto split: option.splits if_splits)

lemma slab_chain_append:
  assumes "slab_chain h p ps" and "ps \<noteq> []" and "distinct ps" and "q \<notin> set ps" and "q \<noteq> 0"
    and "h (last ps) = Some y" and "slab_next x = 0"
  shows "slab_chain (h(last ps \<mapsto> y\<lparr>slab_next := q\<rparr>, q \<mapsto> x)) p (ps @ [q])"
  using assms(1-4,6)
proof (induction ps arbitrary: p)
  case (Cons r rs)
  let ?h = "h(last (r # rs) \<mapsto> y\<lparr>slab_next := q\<rparr>, q \<mapsto> x)"
  from Cons.prems obtain z where z: "p = r" "r \<noteq> 0" "h r = Some z" "slab_chain h (slab_next z) rs"
    by (auto split: option.splits)
  show ?case
  proof (cases "rs = []")
    case True
    then show ?thesis using z Cons.prems assms(5,7) by simp
  next
    case False
    have l: "last (r # rs) = last rs" "last rs \<in> set rs" using False by simp_all
    then have "?h r = Some z" using Cons.prems(3,4) z(3) by auto
    moreover have "slab_chain ?h (slab_next z) (rs @ [q])"
      unfolding l(1) using False Cons.prems(3-5) l by (intro Cons.IH [OF z(4)]) simp_all
    ultimately show ?thesis using z(1,2) by (simp only: append_Cons slab_chain.simps option.case simp_thms)
  qed
qed simp

section \<open>Caches\<close>

definition active_slab :: "cache \<Rightarrow> size_t" where
  "active_slab ca = (if slab_partial ca \<noteq> 0 then slab_partial ca else slab_empty ca)"

definition clear_bits :: "bitmap \<Rightarrow> nat set" where
  "clear_bits bm = {i. i < 256 \<and> bm_test bm i = Some False}"

text \<open>
  A slab that serves allocations is alone on its list and has at least as many clear bits as
  it counts available objects: \<^verbatim>\<open>free_obj\<close> clears bits without counting them.
\<close>

definition serving :: "slab \<Rightarrow> bool" where
  "serving x \<longleftrightarrow> slab_next x = 0 \<and> slab_last x = 0 \<and> length (slab_bitmap x) = 32
     \<and> available_objects x \<noteq> 0 \<and> unat (available_objects x) \<le> card (clear_bits (slab_bitmap x))"

definition cache_inv :: "kmm \<Rightarrow> size_t \<Rightarrow> size_t list \<Rightarrow> bool" where
  "cache_inv s c fs \<longleftrightarrow> (\<exists>ca. caches s c = Some ca \<and> object_size ca \<noteq> 0
     \<and> distinct fs \<and> slab_chain (slabs s) (slab_full ca) fs
     \<and> (\<forall>p \<in> set fs. \<exists>x. slabs s p = Some x \<and> parent x = c \<and> length (slab_bitmap x) = 32)
     \<and> (slab_partial ca = 0 \<or> slab_empty ca = 0)
     \<and> (active_slab ca \<noteq> 0 \<longrightarrow> active_slab ca \<notin> set fs
         \<and> (\<exists>x. slabs s (active_slab ca) = Some x \<and> parent x = c \<and> serving x
              \<and> (slab_empty ca \<noteq> 0 \<longleftrightarrow> available_objects x = 256))))"

text \<open>The objects in use: the slots whose bit is set, of every slab of the cache.\<close>

definition live :: "kmm \<Rightarrow> size_t \<Rightarrow> (size_t \<times> nat) set" where
  "live s c = {(p, i) | p i x. slabs s p = Some x \<and> parent x = c \<and> i < 256
      \<and> bm_test (slab_bitmap x) i = Some True}"

lemma finite_clear_bits [simp]: "finite (clear_bits bm)"
  by (simp add: clear_bits_def)

lemma clear_bits_set:
  assumes "bm_set bm i = Some bm'" and "i \<in> clear_bits bm"
  shows "clear_bits bm' = clear_bits bm - {i}"
  using assms(2) bm.test_mark [OF assms(1)] by (auto simp: clear_bits_def split: if_splits)

lemma clear_bits_clear:
  assumes "bm_clear bm i = Some bm'"
  shows "clear_bits bm \<subseteq> clear_bits bm'"
  using bm.test_unmark [OF assms] by (auto simp: clear_bits_def)

lemma clear_bits_zero: "clear_bits (replicate 32 0) = {..<256}"
  by (auto simp: clear_bits_def bm_test_eq)

text \<open>The slot a serving slab gives is its lowest clear one.\<close>

lemma slab_alloc_serving:
  assumes "slabs s p = Some x" and "caches s (parent x) = Some ca" and "serving x"
  obtains i bm where "i < 256" "bm_test (slab_bitmap x) i = Some False"
    "\<forall>j < i. bm_test (slab_bitmap x) j = Some True"
    "bm_set (slab_bitmap x) i = Some bm"
    "slab_alloc s p = Some (buf x + of_nat i * object_size ca,
       s\<lparr>slabs := (slabs s)(p \<mapsto> x\<lparr>slab_bitmap := bm, available_objects := available_objects x - 1\<rparr>)\<rparr>)"
proof -
  have len: "bm_bits (slab_bitmap x) = 256" using assms(3) by (simp add: serving_def)
  have u: "unat objects_per_slab = 256" by (simp add: objects_per_slab_def)
  have "clear_bits (slab_bitmap x) \<noteq> {}"
    using assms(3) unat_gt_0 [of "available_objects x"] by (auto simp: serving_def)
  then have "\<not> (\<forall>j < 256. bm_test (slab_bitmap x) j = Some True)" by (force simp: clear_bits_def)
  then obtain i where i: "i < 256" "bm_first_free (slab_bitmap x) objects_per_slab = Some (of_nat i)"
    "bm_test (slab_bitmap x) i = Some False" "\<forall>j < i. bm_test (slab_bitmap x) j = Some True"
    using bm_first_free_loop_correct [of 0 256 "slab_bitmap x"] len u by (auto simp: bm_first_free_def)
  obtain bm where bm: "bm_set (slab_bitmap x) i = Some bm"
    using bm.mark_total [of i "slab_bitmap x"] i(1) len by auto
  have ui: "unat (of_nat i :: size_t) = i" using i(1) by (intro unat_of_nat_lt) simp
  moreover have "unat (-1 :: size_t) \<noteq> i"
    using i(1) by (simp add: unsigned_minus_1_eq_mask mask_eq_exp_minus_1)
  ultimately have "(of_nat i :: size_t) \<noteq> -1" by metis
  then have "slab_alloc s p = Some (buf x + of_nat i * object_size ca,
       s\<lparr>slabs := (slabs s)(p \<mapsto> x\<lparr>slab_bitmap := bm, available_objects := available_objects x - 1\<rparr>)\<rparr>)"
    using assms i(2) bm ui by (simp add: slab_alloc_def slab_write_def)
  then show thesis using that i bm by blast
qed

lemma move_slab_first:
  assumes "caches s c = Some ca" and "get_head sh ca = p" and "p \<noteq> 0" and "dh \<noteq> sh"
    and "get_head dh ca = 0" and "slabs s p = Some x" and "slab_next x = 0" "slab_last x = 0"
  shows "move_slab s c dh sh p = Some (0, s\<lparr>caches := (caches s)(c \<mapsto> set_head dh p (set_head sh 0 ca))\<rparr>)"
proof -
  have x: "x\<lparr>slab_last := 0, slab_next := 0\<rparr> = x" using assms(7,8) by simp
  have "(slabs s)(p \<mapsto> x) = slabs s" using assms(6) by auto
  then have "s\<lparr>slabs := (slabs s)(p \<mapsto> x\<lparr>slab_last := 0, slab_next := 0\<rparr>)\<rparr> = s"
    unfolding x by simp
  moreover have "get_head dh (set_head sh 0 ca) = 0" using assms(4,5) by (cases dh; cases sh) simp_all
  ultimately show ?thesis
    using assms by (cases s) (simp add: move_slab_def slab_write_def cache_write_def)
qed

lemma move_slab_append:
  assumes "caches s c = Some ca" and "get_head sh ca = p" and "p \<noteq> 0" and "dh \<noteq> sh"
    and "slab_chain (slabs s) (get_head dh ca) ps" and "ps \<noteq> []" and "p \<notin> set ps"
    and "slabs s p = Some x" and "slab_next x = 0" "slab_last x = 0" and "slabs s (last ps) = Some y"
  shows "move_slab s c dh sh p = Some (0, s\<lparr>caches := (caches s)(c \<mapsto> set_head sh 0 ca),
    slabs := (slabs s)(last ps \<mapsto> y\<lparr>slab_next := p\<rparr>, p \<mapsto> x\<lparr>slab_last := last ps\<rparr>)\<rparr>)"
proof -
  have "get_head dh (set_head sh 0 ca) = get_head dh ca" using assms(4) by (cases dh; cases sh) simp_all
  moreover have "get_head dh ca \<noteq> 0" using assms(5,6) by (cases ps) auto
  moreover have "slab_tail (slabs s) (get_head dh ca) = Some (last ps)"
    using assms(5,6) by (rule slab_tail_chain)
  moreover have "p \<noteq> last ps" using assms(6,7) by auto
  ultimately show ?thesis using assms by (simp add: move_slab_def slab_write_def cache_write_def)
qed

subsection \<open>Allocating an object\<close>

definition slots :: "(size_t \<rightharpoonup> slab) \<Rightarrow> size_t \<rightharpoonup> size_t \<times> size_t \<times> bitmap" where
  "slots h p = map_option (\<lambda>x. (parent x, buf x, slab_bitmap x)) (h p)"

lemma live_slots: "live s c = {(p, i) | p i b bm. slots (slabs s) p = Some (c, b, bm) \<and> i < 256
    \<and> bm_test bm i = Some True}"
  by (auto simp: live_def slots_def)

lemma live_set_bit:
  assumes "slots (slabs s) p = Some (c, b, bm)" and "bm_set bm i = Some bm'" and "i < 256"
    and "slots (slabs s') = (slots (slabs s))(p \<mapsto> (c, b, bm'))"
  shows "live s' c = insert (p, i) (live s c)"
  using assms bm.test_mark [OF assms(2)] by (auto simp: live_slots split: if_splits)

lemma live_clear_bit:
  assumes "slots (slabs s) p = Some (c, b, bm)" and "bm_clear bm i = Some bm'" and "i < 256"
    and "slots (slabs s') = (slots (slabs s))(p \<mapsto> (c, b, bm'))"
  shows "live s' c = live s c - {(p, i)}"
  using assms bm.test_unmark [OF assms(2)] by (auto simp: live_slots split: if_splits)

text \<open>Taking an object from a slab that is not emptied by it leaves a serving slab.\<close>

lemma serving_take:
  assumes "serving x" and "bm_set (slab_bitmap x) i = Some bm" and "bm_test (slab_bitmap x) i = Some False"
    and "i < 256" and "available_objects x \<noteq> 1"
  shows "serving (x\<lparr>slab_bitmap := bm, available_objects := available_objects x - 1\<rparr>)"
proof -
  let ?n = "unat (available_objects x)"
  have n: "?n \<le> card (clear_bits (slab_bitmap x))" "available_objects x \<noteq> 0"
    using assms(1) by (simp_all add: serving_def)
  then have "1 \<le> available_objects x" by (simp add: word_le_nat_alt unat_gt_0 Suc_le_eq)
  then have m: "unat (available_objects x - 1) = ?n - 1" by (simp add: unat_sub)
  have "i \<in> clear_bits (slab_bitmap x)" using assms(3,4) by (simp add: clear_bits_def)
  then have "card (clear_bits bm) = card (clear_bits (slab_bitmap x)) - 1"
    using clear_bits_set [OF assms(2)] by (simp add: card_Diff_singleton)
  moreover have "length bm = length (slab_bitmap x)" using bm.nbits_mark [OF assms(2)] by simp
  ultimately show ?thesis using assms(1,5) m n by (auto simp: serving_def)
qed

text \<open>
  The cache between \<^verbatim>\<open>slab::alloc\<close> and \<^verbatim>\<open>move_slab\<close>: the current slab \<open>p\<close> is still alone on its
  list and may have run out of objects.
\<close>

definition cache_mid :: "kmm \<Rightarrow> size_t \<Rightarrow> cache \<Rightarrow> size_t list \<Rightarrow> size_t \<Rightarrow> slab \<Rightarrow> bool" where
  "cache_mid s c ca fs p x \<longleftrightarrow> caches s c = Some ca \<and> object_size ca \<noteq> 0
     \<and> distinct fs \<and> slab_chain (slabs s) (slab_full ca) fs
     \<and> (\<forall>q \<in> set fs. \<exists>y. slabs s q = Some y \<and> parent y = c \<and> length (slab_bitmap y) = 32)
     \<and> p \<notin> set fs \<and> p \<noteq> 0 \<and> slabs s p = Some x \<and> parent x = c \<and> length (slab_bitmap x) = 32
     \<and> slab_next x = 0 \<and> slab_last x = 0"

definition same_slots :: "kmm \<Rightarrow> kmm \<Rightarrow> bool" where
  "same_slots s s' \<longleftrightarrow> slots (slabs s') = slots (slabs s) \<and> frames s' = frames s \<and> mem s' = mem s"

lemma cache_mid_partial:
  assumes "cache_mid s c ca fs p x" and "slab_partial ca = p" and "slab_empty ca = 0"
    and "serving x" and "available_objects x \<noteq> 256"
  shows "cache_inv s c fs"
  using assms by (simp add: cache_mid_def cache_inv_def active_slab_def)

lemma cache_mid_first:
  assumes mid: "cache_mid s c ca fs p x" and "slab_empty ca = p" and "slab_partial ca = 0"
    and "serving x" and "available_objects x \<noteq> 256"
  shows "\<exists>s'. move_slab s c Partial Empty p = Some (0, s') \<and> cache_inv s' c fs \<and> same_slots s s'"
proof -
  define s' where "s' = s\<lparr>caches := (caches s)(c \<mapsto> ca\<lparr>slab_empty := 0, slab_partial := p\<rparr>)\<rparr>"
  have "move_slab s c Partial Empty p = Some (0, s')"
    using move_slab_first [of s c ca Empty p Partial x] assms by (simp add: s'_def cache_mid_def)
  moreover have "cache_mid s' c (ca\<lparr>slab_empty := 0, slab_partial := p\<rparr>) fs p x"
    using mid by (simp add: cache_mid_def s'_def)
  then have "cache_inv s' c fs" by (rule cache_mid_partial) (simp_all add: assms(4,5))
  ultimately show ?thesis by (simp add: same_slots_def s'_def)
qed

lemma cache_mid_full:
  assumes mid: "cache_mid s c ca fs p x" and par: "slab_partial ca = p" "slab_empty ca = 0"
  shows "\<exists>s'. move_slab s c Full Partial p = Some (0, s') \<and> cache_inv s' c (fs @ [p]) \<and> same_slots s s'"
proof (cases "fs = []")
  case True
  define s' where "s' = s\<lparr>caches := (caches s)(c \<mapsto> ca\<lparr>slab_partial := 0, slab_full := p\<rparr>)\<rparr>"
  have "slab_full ca = 0" using mid True by (simp add: cache_mid_def)
  then have "move_slab s c Full Partial p = Some (0, s')"
    using move_slab_first [of s c ca Partial p Full x] assms by (simp add: s'_def cache_mid_def)
  moreover have "cache_inv s' c (fs @ [p])"
    using mid par True by (simp add: cache_inv_def s'_def active_slab_def cache_mid_def)
  ultimately show ?thesis by (simp add: same_slots_def s'_def)
next
  case False
  have chain: "slab_chain (slabs s) (slab_full ca) fs" using mid by (simp add: cache_mid_def)
  obtain y where y: "slabs s (last fs) = Some y" using slab_chain_last [OF chain False] by blast
  define s' where "s' = s\<lparr>caches := (caches s)(c \<mapsto> ca\<lparr>slab_partial := 0\<rparr>),
    slabs := (slabs s)(last fs \<mapsto> y\<lparr>slab_next := p\<rparr>, p \<mapsto> x\<lparr>slab_last := last fs\<rparr>)\<rparr>"
  have "move_slab s c Full Partial p = Some (0, s')"
    using move_slab_append [of s c ca Partial p Full fs x y] assms y False
    by (simp add: s'_def cache_mid_def)
  moreover have lf: "last fs \<in> set fs" "last fs \<noteq> p" using False mid by (auto simp: cache_mid_def)
  have ch: "slab_chain (slabs s') (slab_full ca) (fs @ [p])"
    using slab_chain_append [OF chain False _ _ _ y, of p "x\<lparr>slab_last := last fs\<rparr>"] mid
    by (simp add: s'_def cache_mid_def)
  have "\<exists>z. slabs s' q = Some z \<and> parent z = c \<and> length (slab_bitmap z) = 32" if "q \<in> set (fs @ [p])" for q
  proof -
    have "\<exists>z. slabs s q = Some z \<and> parent z = c \<and> length (slab_bitmap z) = 32"
      using that mid by (auto simp: cache_mid_def)
    then show ?thesis using y mid by (auto simp: s'_def cache_mid_def)
  qed
  moreover have "caches s' c = Some (ca\<lparr>slab_partial := 0\<rparr>)" by (simp add: s'_def)
  ultimately have "cache_inv s' c (fs @ [p])"
    using mid ch par unfolding cache_inv_def by (auto simp: active_slab_def cache_mid_def)
  moreover have "slots (slabs s') = slots (slabs s)"
    using y mid by (auto simp: slots_def s'_def cache_mid_def)
  ultimately show ?thesis using \<open>move_slab s c Full Partial p = Some (0, s')\<close>
    by (simp add: same_slots_def s'_def)
qed

text \<open>The slab part of \<^verbatim>\<open>alloc_obj\<close>: a slot that was clear is taken from the active slab.\<close>

lemma alloc_obj_take:
  assumes inv: "cache_inv s c fs" and ca: "caches s c = Some ca" "active_slab ca = p" "p \<noteq> 0"
    and x: "slabs s p = Some x"
  obtains i bm s1 x1 where "i < 256" "bm_test (slab_bitmap x) i = Some False"
    "bm_set (slab_bitmap x) i = Some bm"
    "x1 = x\<lparr>slab_bitmap := bm, available_objects := available_objects x - 1\<rparr>"
    "s1 = s\<lparr>slabs := (slabs s)(p \<mapsto> x1)\<rparr>" "cache_mid s1 c ca fs p x1"
    "alloc_obj s c = (if available_objects x1 = 0 then
        do { (_, s) \<leftarrow> move_slab s1 c Full Partial p; Some (buf x + of_nat i * object_size ca, s) }
      else if available_objects x1 = objects_per_slab - 1 then
        do { (_, s) \<leftarrow> move_slab s1 c Partial Empty p; Some (buf x + of_nat i * object_size ca, s) }
      else Some (buf x + of_nat i * object_size ca, s1))"
proof -
  from inv ca x have pfs: "p \<notin> set fs" and xi: "parent x = c" "serving x"
    and chain: "slab_chain (slabs s) (slab_full ca) fs"
    unfolding cache_inv_def by auto
  obtain i bm where i: "i < 256" "bm_test (slab_bitmap x) i = Some False"
      "bm_set (slab_bitmap x) i = Some bm"
      "slab_alloc s p = Some (buf x + of_nat i * object_size ca,
         s\<lparr>slabs := (slabs s)(p \<mapsto> x\<lparr>slab_bitmap := bm, available_objects := available_objects x - 1\<rparr>)\<rparr>)"
    using slab_alloc_serving [OF x _ xi(2), of ca] ca(1) xi(1) by metis
  define x1 where "x1 = x\<lparr>slab_bitmap := bm, available_objects := available_objects x - 1\<rparr>"
  define s1 where "s1 = s\<lparr>slabs := (slabs s)(p \<mapsto> x1)\<rparr>"
  have "slab_chain (slabs s1) (slab_full ca) fs"
    using chain pfs by (subst slab_chain_cong [where h = "slabs s"]) (auto simp: s1_def)
  then have "cache_mid s1 c ca fs p x1"
    using inv ca pfs xi bm.nbits_mark [OF i(3)]
    unfolding cache_inv_def cache_mid_def by (auto simp: x1_def s1_def serving_def)
  moreover have "slabs s1 p = Some x1" by (simp add: s1_def)
  moreover have "alloc_obj s c = (if available_objects x1 = 0 then
        do { (_, s) \<leftarrow> move_slab s1 c Full Partial p; Some (buf x + of_nat i * object_size ca, s) }
      else if available_objects x1 = objects_per_slab - 1 then
        do { (_, s) \<leftarrow> move_slab s1 c Partial Empty p; Some (buf x + of_nat i * object_size ca, s) }
      else Some (buf x + of_nat i * object_size ca, s1))"
    using ca i(4) calculation unfolding alloc_obj_def active_slab_def
    by (simp add: x1_def [symmetric] s1_def [symmetric])
  ultimately show thesis using that i x1_def s1_def by blast
qed

lemma available_lt_256:
  assumes "serving x" and "i < 256" and "bm_test (slab_bitmap x) i = Some True"
  shows "available_objects x \<noteq> 256"
proof
  assume "available_objects x = 256"
  then have "unat (available_objects x) = 256" by simp
  moreover have "card (clear_bits (slab_bitmap x)) \<le> card ({..<256} - {i})"
    using assms(3) by (intro card_mono) (auto simp: clear_bits_def)
  ultimately show False using assms(1,2) by (simp add: serving_def)
qed

lemma alloc_obj_active:
  assumes inv: "cache_inv s c fs" and ca: "caches s c = Some ca" "active_slab ca = p" "p \<noteq> 0"
    and x: "slabs s p = Some x"
  obtains i s' fs' where "i < 256" "(p, i) \<notin> live s c"
    "alloc_obj s c = Some (buf x + of_nat i * object_size ca, s')"
    "live s' c = insert (p, i) (live s c)" "cache_inv s' c fs'" "fs' = fs \<or> fs' = fs @ [p]"
    "frames s' = frames s" "mem s' = mem s" "\<exists>x'. slabs s' p = Some x' \<and> buf x' = buf x"
proof -
  from inv ca x have heads: "slab_partial ca = 0 \<or> slab_empty ca = 0"
    and xi: "parent x = c" "serving x" "slab_empty ca \<noteq> 0 \<longleftrightarrow> available_objects x = 256"
    unfolding cache_inv_def by auto
  from alloc_obj_take [OF assms] obtain i bm s1 x1 where
    i: "i < 256" "bm_test (slab_bitmap x) i = Some False" "bm_set (slab_bitmap x) i = Some bm"
    and x1: "x1 = x\<lparr>slab_bitmap := bm, available_objects := available_objects x - 1\<rparr>"
    and s1: "s1 = s\<lparr>slabs := (slabs s)(p \<mapsto> x1)\<rparr>" and mid: "cache_mid s1 c ca fs p x1"
    and run: "alloc_obj s c = (if available_objects x1 = 0 then
        do { (_, s) \<leftarrow> move_slab s1 c Full Partial p; Some (buf x + of_nat i * object_size ca, s) }
      else if available_objects x1 = objects_per_slab - 1 then
        do { (_, s) \<leftarrow> move_slab s1 c Partial Empty p; Some (buf x + of_nat i * object_size ca, s) }
      else Some (buf x + of_nat i * object_size ca, s1))" .
  have taken: "serving x1 \<and> available_objects x1 \<noteq> 256" if "available_objects x \<noteq> 1"
    using serving_take [OF xi(2) i(3,2,1) that] available_lt_256 [of x1 i] bm.test_mark [OF i(3), of i] i(1)
    by (simp add: x1)
  have "\<exists>s' fs'. alloc_obj s c = Some (buf x + of_nat i * object_size ca, s') \<and> cache_inv s' c fs'
      \<and> (fs' = fs \<or> fs' = fs @ [p]) \<and> same_slots s1 s'"
  proof (cases "available_objects x = 1")
    case True
    then have "slab_partial ca = p" "slab_empty ca = 0"
      using xi(3) ca(2,3) by (auto simp: active_slab_def split: if_splits)
    from cache_mid_full [OF mid this] show ?thesis using True run by (auto simp: x1)
  next
    case False
    show ?thesis
    proof (cases "available_objects x = 256")
      case True
      then have "slab_empty ca = p" "slab_partial ca = 0"
        using xi(3) heads ca(2,3) by (auto simp: active_slab_def)
      from cache_mid_first [OF mid this] taken [OF False] show ?thesis
        using True run by (auto simp: x1 objects_per_slab_def)
    next
      case no: False
      then have "slab_partial ca = p" "slab_empty ca = 0"
        using xi(3) ca(2,3) by (auto simp: active_slab_def split: if_splits)
      from cache_mid_partial [OF mid this] taken [OF False] have "cache_inv s1 c fs" by simp
      moreover have "alloc_obj s c = Some (buf x + of_nat i * object_size ca, s1)"
        using run False no by (simp add: x1 objects_per_slab_def diff_eq_eq)
      ultimately show ?thesis by (auto simp: same_slots_def)
    qed
  qed
  then obtain s' fs' where s': "alloc_obj s c = Some (buf x + of_nat i * object_size ca, s')"
    "cache_inv s' c fs'" "fs' = fs \<or> fs' = fs @ [p]" "same_slots s1 s'" by blast
  have slots: "slots (slabs s') = (slots (slabs s))(p \<mapsto> (c, buf x, bm))"
    using s'(4) by (auto simp: same_slots_def s1 slots_def x1 xi(1))
  then have "\<exists>x'. slabs s' p = Some x' \<and> buf x' = buf x"
    by (auto simp: slots_def fun_eq_iff split: if_splits)
  moreover have "live s' c = insert (p, i) (live s c)" using slots
x xi(1) by (intro live_set_bit [OF _ i(3,1)]) (simp_all add: slots_def)
  moreover have "(p, i) \<notin> live s c" using x xi(1) i(2) by (auto simp: live_def)
  moreover have "frames s' = frames s" "mem s' = mem s" using s'(4) by (simp_all add: same_slots_def s1)
  ultimately show thesis using that i(1) s'(1-3) by blast
qed

text \<open>Without an active slab a fresh one is taken from the page allocator.\<close>

lemma alloc_obj_new_slab:
  assumes inv: "cache_inv s c fs" and ca: "caches s c = Some ca" "active_slab ca = 0"
    and pages: "pmm_calloc (frames s) (mem s) (pages_per_slab ca) 1 = Some (a, fr, m)"
    and new: "slabs s (a + high_vma) = None" "a + high_vma \<noteq> 0"
  obtains s1 x where "alloc_obj s c = alloc_obj s1 c" "cache_inv s1 c fs"
    "caches s1 c = Some (ca\<lparr>slab_empty := a + high_vma\<rparr>)" "slabs s1 (a + high_vma) = Some x"
    "buf x = align_up (a + high_vma + 80) 16"
    "live s1 c = live s c" "frames s1 = fr" "mem s1 = m"
proof -
  let ?p = "a + high_vma"
  define x where "x = \<lparr>available_objects = 256, parent = c, buf = align_up (?p + 80) 16,
    slab_bitmap = replicate 32 0, slab_next = 0, slab_last = 0\<rparr>"
  define s1 where "s1 = s\<lparr>frames := fr, mem := m, slabs := (slabs s)(?p \<mapsto> x),
    caches := (caches s)(c \<mapsto> ca\<lparr>slab_empty := ?p\<rparr>)\<rparr>"
  have heads: "slab_partial ca = 0" "slab_empty ca = 0" using ca(2) by (auto simp: active_slab_def split: if_splits)
  have eq: "?p + sizeof_slab + objects_per_slab div 8 = ?p + 80"
    by (simp add: sizeof_slab_def objects_per_slab_def)
  have "alloc_slab s c = Some (?p, s1)"
    using ca(1) pages heads unfolding alloc_slab_def eq
    by (simp add: s1_def x_def cache_write_def objects_per_slab_def sizeof_slab_def Let_def add.assoc)
  moreover have "cache_write s1 c (\<lambda>x. x\<lparr>slab_empty := ?p\<rparr>) = Some s1"
    by (simp add: cache_write_def s1_def)
  ultimately have run: "alloc_obj s c = alloc_obj s1 c"
    using ca(1) heads new(2) unfolding alloc_obj_def by (simp add: s1_def Let_def)
  have serv: "serving x" by (simp add: serving_def x_def clear_bits_zero)
  have notin: "?p \<notin> set fs" using inv new(1) by (auto simp: cache_inv_def)
  moreover have "slab_chain (slabs s1) (slab_full ca) fs \<longleftrightarrow> slab_chain (slabs s) (slab_full ca) fs"
    using notin by (intro slab_chain_cong) (auto simp: s1_def)
  moreover have "\<exists>y. slabs s1 q = Some y \<and> parent y = c \<and> length (slab_bitmap y) = 32" if "q \<in> set fs" for q
    using that inv notin by (auto simp: cache_inv_def s1_def)
  ultimately have "cache_inv s1 c fs"
    using inv ca(1) heads serv new(2) unfolding cache_inv_def
    by (auto simp: s1_def active_slab_def) (simp_all add: x_def)
  moreover have "live s1 c = live s c"
  proof -
    have "\<not> bm_test (slab_bitmap x) i = Some True" for i by (simp add: bm_test_eq x_def)
    then show ?thesis using new(1) by (auto simp: live_def s1_def split: if_splits)
  qed
  ultimately show thesis
    using run by (intro that [of s1 x]) (simp_all add: s1_def x_def)
qed

subsection \<open>Freeing an object\<close>

text \<open>An object that lies in slot \<open>i\<close> of the slab is recognised and its bit cleared.\<close>

definition in_slot :: "slab \<Rightarrow> size_t \<Rightarrow> size_t \<Rightarrow> nat \<Rightarrow> bool" where
  "in_slot x osize obj i \<longleftrightarrow> i < 256 \<and> obj = buf x + of_nat i * osize
     \<and> unat (buf x) + 256 * unat osize < 2 ^ 64"

lemma in_slot_index:
  assumes "in_slot x osize obj i" and "osize \<noteq> 0"
  shows "buf x \<le> obj \<and> buf x + osize * objects_per_slab > obj \<and> unat ((obj - buf x) div osize) = i"
proof -
  have os: "0 < unat osize" using assms(2) by (simp add: unat_gt_0)
  have i: "i < 256" "unat (buf x) + 256 * unat osize < 2 ^ 64" using assms(1) by (simp_all add: in_slot_def)
  have "i * unat osize < 256 * unat osize" using os i(1) by simp
  moreover have "256 * unat osize < 2 ^ 64" using i(2) by simp
  moreover have obj: "obj = of_nat (unat (buf x) + i * unat osize)" using assms(1) by (simp add: in_slot_def)
  ultimately have u: "unat obj = unat (buf x) + i * unat osize"
    using i(2) by (simp only: obj) (intro unat_of_nat_lt, linarith)
  have "unat (osize * objects_per_slab) = 256 * unat osize"
    using i(2) by (subst unat_mult_lt) (simp_all add: objects_per_slab_def)
  then have e: "unat (buf x + osize * objects_per_slab) = unat (buf x) + 256 * unat osize"
    using i(2) by (subst unat_add_lt) simp_all
  have le: "buf x \<le> obj" using u by (simp add: word_le_nat_alt)
  then have "unat ((obj - buf x) div osize) = (i * unat osize) div unat osize"
    using u by (simp add: unat_div unat_sub)
  then show ?thesis
    using le e u os \<open>i * unat osize < 256 * unat osize\<close> by (simp add: word_less_nat_alt)
qed

lemma scan_slab_hit:
  assumes "slabs s p = Some x" and "p \<noteq> 0" and "osize \<noteq> 0" and "in_slot x osize obj i"
    and "bm_clear (slab_bitmap x) i = Some bm"
  shows "scan_slab s osize obj p = Some (0, s\<lparr>slabs := (slabs s)(p \<mapsto> x\<lparr>slab_bitmap := bm\<rparr>)\<rparr>)"
  using in_slot_index [OF assms(4,3)] assms by (simp add: scan_slab_def slab_write_def)

lemma serving_clear:
  assumes "serving x" and "bm_clear (slab_bitmap x) i = Some bm"
  shows "serving (x\<lparr>slab_bitmap := bm\<rparr>)"
proof -
  have "card (clear_bits (slab_bitmap x)) \<le> card (clear_bits bm)"
    by (rule card_mono [OF finite_clear_bits clear_bits_clear [OF assms(2)]])
  then show ?thesis using assms bm.nbits_unmark [OF assms(2)] by (auto simp: serving_def)
qed

lemma cache_inv_clear:
  assumes inv: "cache_inv s c fs" and p: "slabs s p = Some x" and bm: "bm_clear (slab_bitmap x) i = Some bm"
  shows "cache_inv (s\<lparr>slabs := (slabs s)(p \<mapsto> x\<lparr>slab_bitmap := bm\<rparr>)\<rparr>) c fs"
proof -
  let ?s = "s\<lparr>slabs := (slabs s)(p \<mapsto> x\<lparr>slab_bitmap := bm\<rparr>)\<rparr>"
  have chain: "slab_chain (slabs ?s) q fs = slab_chain (slabs s) q fs" for q
    by (rule slab_chain_cong) (auto simp: p)
  have len: "length bm = length (slab_bitmap x)" using bm.nbits_unmark [OF bm] by simp
  have full: "\<exists>y. slabs ?s q = Some y \<and> parent y = c \<and> length (slab_bitmap y) = 32"
    if "\<exists>y. slabs s q = Some y \<and> parent y = c \<and> length (slab_bitmap y) = 32" for q
    using that p len by auto
  have act: "\<exists>y. slabs ?s q = Some y \<and> parent y = c \<and> serving y \<and> (e \<longleftrightarrow> available_objects y = 256)"
    if "\<exists>y. slabs s q = Some y \<and> parent y = c \<and> serving y \<and> (e \<longleftrightarrow> available_objects y = 256)" for q e
    using that p serving_clear [OF _ bm] by auto
  from inv obtain ca where "caches s c = Some ca" "object_size ca \<noteq> 0" "distinct fs"
    "slab_chain (slabs s) (slab_full ca) fs" "slab_partial ca = 0 \<or> slab_empty ca = 0"
    and f: "\<forall>q \<in> set fs. \<exists>y. slabs s q = Some y \<and> parent y = c \<and> length (slab_bitmap y) = 32"
    and a: "active_slab ca \<noteq> 0 \<longrightarrow> active_slab ca \<notin> set fs
         \<and> (\<exists>y. slabs s (active_slab ca) = Some y \<and> parent y = c \<and> serving y
              \<and> (slab_empty ca \<noteq> 0 \<longleftrightarrow> available_objects y = 256))"
    unfolding cache_inv_def by blast
  then show ?thesis
    unfolding cache_inv_def using chain full act
    by (intro exI [of _ ca]) (simp del: fun_upd_apply)
qed

section \<open>Block sizes\<close>

fun cache_chain :: "(size_t \<rightharpoonup> cache) \<Rightarrow> size_t \<Rightarrow> size_t list \<Rightarrow> bool" where
  "cache_chain h p [] \<longleftrightarrow> p = 0"
| "cache_chain h p (q # qs) \<longleftrightarrow> p = q \<and> p \<noteq> 0 \<and> (case h p of None \<Rightarrow> False | Some x \<Rightarrow> cache_chain h (cache_next x) qs)"

lemma kmm_alloc_from_chain:
  assumes "cache_chain (caches s) p cs" and "cs \<noteq> []"
  shows "kmm_alloc_from s p r
    = (case List.find (\<lambda>c. map_option object_size (caches s c) = Some r) cs of
        None \<Rightarrow> Some (0, unlock_slab s) | Some c \<Rightarrow> alloc_obj (unlock_slab s) c)"
  using assms
proof (induction cs arbitrary: p)
  case (Cons c cs)
  then obtain x where x: "p = c" "caches s c = Some x" "cache_chain (caches s) (cache_next x) cs"
    by (auto split: option.splits)
  show ?case
  proof (cases "cs = []")
    case True
    then show ?thesis using x by (subst kmm_alloc_from.simps) simp
  next
    case False
    then have "cache_next x \<noteq> 0" using x(3) by (cases cs) auto
    then show ?thesis using x Cons.IH [OF x(3) False] by (subst kmm_alloc_from.simps) simp
  qed
qed simp

lemma round_size_fits:
  assumes "1 \<le> unat sz" and "unat sz \<le> 2 ^ 32"
  shows "\<exists>m. 5 \<le> m \<and> m \<le> 32 \<and> unat (round_size sz) = 2 ^ m \<and> unat sz \<le> 2 ^ m"
proof -
  obtain m where m: "m \<le> 32" "unat (pow2_roundup sz) = 2 ^ m" "unat sz \<le> 2 ^ m"
    using pow2_roundup_least [OF assms] by auto
  show ?thesis
  proof (cases "m \<le> 4")
    case True
    then have "(2::nat) ^ m \<le> 2 ^ 4" by (intro power_increasing) simp_all
    then have "pow2_roundup sz \<le> 16" using m(2) by (simp add: word_le_nat_alt)
    then show ?thesis using m \<open>(2::nat) ^ m \<le> 2 ^ 4\<close> by (intro exI [of _ 5]) (simp add: round_size_def)
  next
    case False
    then have "(2::nat) ^ 5 \<le> 2 ^ m" by (intro power_increasing) simp_all
    then have "\<not> pow2_roundup sz \<le> 16" using m(2) by (simp add: word_le_nat_alt)
    then show ?thesis using m False by (intro exI [of _ m]) (simp add: round_size_def)
  qed
qed

text \<open>The caches of the kernel have the object sizes \<open>2 ^ 5\<close> to \<open>2 ^ 18\<close>.\<close>

lemma unat_slab_pages:
  assumes "unat osize \<le> 2 ^ 18" and "16 dvd unat osize"
  shows "unat (slab_pages osize) * 4096 = 256 * unat osize + 4096"
proof -
  obtain k where k: "unat osize = 16 * k" using assms(2) by blast
  have "unat (osize * 256) = unat osize * 256" using assms(1) by (subst unat_mult_lt) simp_all
  then have "unat (osize * 256 + 80) = unat osize * 256 + 80"
    using assms(1) by (subst unat_add_lt) simp_all
  then have "unat (slab_pages osize) = (unat osize * 256 + 80 + 4096 - 1) div 4096"
    unfolding slab_pages_def objects_per_slab_def sizeof_slab_def page_size_def
    using assms(1) unat_div_roundup [of 4096 "osize * 256 + 80"] by (simp add: add.assoc)
  also have "\<dots> = (4175 + k * 4096) div 4096" by (simp add: k)
  also have "\<dots> = k + 1" by simp
  finally show ?thesis by (simp add: k)
qed

text \<open>The direct map is in the higher half, so the buffer starts 16 bytes late.\<close>

lemma slab_buf:
  assumes "4096 dvd unat a" and "unat a < 2 ^ 46"
  shows "align_up (a + high_vma + 80) 16 = a + high_vma + 96" and "unat (a + high_vma) = unat a + unat high_vma"
proof -
  have hv: "unat high_vma = 18446603336221196288" by (simp add: high_vma_def)
  show u: "unat (a + high_vma) = unat a + unat high_vma" using assms(2) hv by (subst unat_add_lt) simp_all
  have u80: "unat (a + high_vma + 80) = unat a + 18446603336221196368"
    using u hv assms(2) by (subst unat_add_lt) simp_all
  have s: "sint (a + high_vma + 80) = int (unat a) - 140737488355248"
    using sint_neg_conv [of "a + high_vma + 80"] u80 by simp
  obtain k where k: "unat a = 4096 * k" using assms(1) by blast
  have "16 dvd int (unat a) - 140737488355248" unfolding k by simp
  then have "align_up (a + high_vma + 80) 16 = a + high_vma + 80 + 16"
  proof (intro align_up_negative)
    have "unat a \<le> 70368744177664" using assms(2) by simp
    then have "int (unat a) - 140737488355248 + 16 \<le> 0" by linarith
    then show "sint (a + high_vma + 80) + sint (16 :: size_t) \<le> 0" unfolding s by simp
    show "sint (16 :: size_t) dvd sint (a + high_vma + 80)"
      using \<open>16 dvd int (unat a) - 140737488355248\<close> unfolding s by simp
  qed simp
  then show "align_up (a + high_vma + 80) 16 = a + high_vma + 96" by (simp add: add.assoc)
qed

section \<open>Properties\<close>

text \<open>
  C5. Allocating from a cache whose slab lists are consistent returns an object slot that was
  not in use, makes exactly that slot live, and keeps the lists consistent: the current slab
  stays alone on its list, moves from the empty to the partial list with its first object and
  to the end of the full list with its last one, and a new slab is taken from the page
  allocator when there is none.
\<close>

theorem alloc_obj_fresh:
  assumes "cache_inv s c fs" and "caches s c = Some ca"
    and "active_slab ca = 0 \<Longrightarrow> pmm_calloc (frames s) (mem s) (pages_per_slab ca) 1 = Some (a, fr, m)
      \<and> slabs s (a + high_vma) = None \<and> a + high_vma \<noteq> 0"
  shows "\<exists>obj s' fs' p i x. alloc_obj s c = Some (obj, s') \<and> cache_inv s' c fs'
    \<and> i < 256 \<and> (p, i) \<notin> live s c \<and> live s' c = insert (p, i) (live s c)
    \<and> slabs s' p = Some x \<and> obj = buf x + of_nat i * object_size ca"
proof (cases "active_slab ca = 0")
  case False
  then obtain x where x: "slabs s (active_slab ca) = Some x"
    using assms(1,2) by (auto simp: cache_inv_def)
  from alloc_obj_active [OF assms(1,2) refl False x] show ?thesis by metis
next
  case True
  with assms(3) have pages: "pmm_calloc (frames s) (mem s) (pages_per_slab ca) 1 = Some (a, fr, m)"
    "slabs s (a + high_vma) = None" "a + high_vma \<noteq> 0" by simp_all
  from alloc_obj_new_slab [OF assms(1,2) True pages] obtain s1 x where
    s1: "alloc_obj s c = alloc_obj s1 c" "cache_inv s1 c fs"
    "caches s1 c = Some (ca\<lparr>slab_empty := a + high_vma\<rparr>)" "slabs s1 (a + high_vma) = Some x"
    "live s1 c = live s c" by metis
  have "slab_partial ca = 0" using True by (auto simp: active_slab_def split: if_splits)
  then have "active_slab (ca\<lparr>slab_empty := a + high_vma\<rparr>) = a + high_vma" by (simp add: active_slab_def)
  from alloc_obj_active [OF s1(2,3) this pages(3) s1(4)] show ?thesis
    unfolding s1(1,5) by simp metis
qed

definition one_cache :: kmm where
  "one_cache = \<lparr>slabs = [0x2000 \<mapsto> \<lparr>available_objects = 200, parent = 0x1000, buf = 0x2060,
       slab_bitmap = replicate 32 0, slab_next = 0, slab_last = 0\<rparr>],
     caches = [0x1000 \<mapsto> \<lparr>object_size = 32, cache_flags = 0, pages_per_slab = 3,
       slab_empty = 0, slab_partial = 0x2000, slab_full = 0, cache_next = 0, cache_last = 0\<rparr>],
     cache_root = 0x1000, slab_lock = False, frames = one_chunk [3, 0] 8192, mem = (\<lambda>_. 0)\<rparr>"

lemma one_cache_inv: "cache_inv one_cache 0x1000 []"
  by (simp add: one_cache_def cache_inv_def active_slab_def serving_def clear_bits_zero)

theorem alloc_obj_fresh_witness:
  "\<exists>obj s' p i. alloc_obj one_cache 0x1000 = Some (obj, s') \<and> (p, i) \<notin> live one_cache 0x1000
    \<and> live s' 0x1000 = insert (p, i) (live one_cache 0x1000)"
proof -
  obtain ca where ca: "caches one_cache 0x1000 = Some ca" "active_slab ca \<noteq> 0"
    by (simp add: one_cache_def active_slab_def)
  show ?thesis using alloc_obj_fresh [OF one_cache_inv ca(1)] ca(2) by blast
qed

text \<open>
  Freeing an object of the cache's current partial slab clears exactly its slot, returns 0
  and keeps the slab lists consistent.
\<close>

theorem free_obj_partial:
  assumes "cache_inv s c fs" and "caches s c = Some ca" and "slab_partial ca = p" "p \<noteq> 0"
    and "slabs s p = Some x" and "in_slot x (object_size ca) obj i"
  shows "\<exists>s'. free_obj s c obj = Some (0, s') \<and> cache_inv s' c fs \<and> live s' c = live s c - {(p, i)}"
proof -
  have act: "active_slab ca = p" using assms(3,4) by (simp add: active_slab_def)
  then have x: "parent x = c" "length (slab_bitmap x) = 32" "object_size ca \<noteq> 0"
    using assms(1,2,4,5) by (auto simp: cache_inv_def serving_def)
  then obtain bm where bm: "bm_clear (slab_bitmap x) i = Some bm"
    using bm.unmark_total [of i "slab_bitmap x"] assms(6) by (auto simp: in_slot_def)
  let ?s = "s\<lparr>slabs := (slabs s)(p \<mapsto> x\<lparr>slab_bitmap := bm\<rparr>)\<rparr>"
  have "free_obj s c obj = Some (0, ?s)"
    using scan_slab_hit [OF assms(5,4) x(3) assms(6) bm] assms(2,3) by (simp add: free_obj_def)
  moreover have "live ?s c = live s c - {(p, i)}"
    by (rule live_clear_bit [OF _ bm, where b = "buf x"])
      (use assms(5,6) x(1) in \<open>auto simp: slots_def in_slot_def\<close>)
  ultimately show ?thesis using cache_inv_clear [OF assms(1,5) bm] by auto
qed

theorem free_obj_partial_witness:
  "\<exists>s'. free_obj one_cache 0x1000 0x20c0 = Some (0, s') \<and> live s' 0x1000 = live one_cache 0x1000 - {(0x2000, 3)}"
proof -
  obtain ca x where ca: "caches one_cache 0x1000 = Some ca" "slab_partial ca = 0x2000"
    "slabs one_cache 0x2000 = Some x" "in_slot x (object_size ca) 0x20c0 3"
    by (simp add: one_cache_def in_slot_def)
  show ?thesis using free_obj_partial [OF one_cache_inv ca(1,2) _ ca(3,4)] by auto
qed

text \<open>
  \<open>kmm_free\<close> tests the result of \<open>free_obj\<close> the wrong way round: an object that the first
  cache does not hold ends the search there. Nothing is freed and the result is the object
  size of the first cache, whatever cache the object came from.
\<close>

theorem kmm_free_stops_at_first_cache:
  assumes "obj \<noteq> 0" and "\<not> slab_lock s" and "caches s (cache_root s) = Some ca"
    and "\<And>p. p \<in> {slab_partial ca, slab_full ca} \<Longrightarrow> p \<noteq> 0 \<Longrightarrow>
      \<exists>x. slabs s p = Some x \<and> \<not> (buf x \<le> obj \<and> buf x + object_size ca * objects_per_slab > obj)"
  shows "kmm_free s obj = Some (object_size ca, s)"
proof -
  let ?s = "s\<lparr>slab_lock := True\<rparr>"
  have miss: "scan_slab ?s (object_size ca) obj p = Some (-1, ?s)"
    if "p = slab_partial ca \<or> p = slab_full ca" for p
    using assms(4) [of p] that by (auto simp: scan_slab_def)
  have "free_obj ?s (cache_root s) obj = Some (-1, ?s)"
    using assms(3) by (simp add: free_obj_def miss)
  then have "kmm_free_from ?s (cache_root s) obj = Some (object_size ca, unlock_slab ?s)"
    using assms(3) by (subst kmm_free_from.simps) simp
  then show ?thesis
    using assms(1,2) by (simp add: kmm_free_def lock_slab_def spin_lock_def unlock_slab_def spin_release_def)
qed

theorem kmm_free_stops_at_first_cache_witness:
  "kmm_free one_cache 0x9000 = Some (32, one_cache)"
  using kmm_free_stops_at_first_cache [of "0x9000" one_cache]
  by (simp add: one_cache_def objects_per_slab_def)

text \<open>
  The heap serves a request of up to \<open>2 ^ 32\<close> bytes from the first cache of the list whose
  objects have the rounded size, which is a power of two of at least 32 and not below the
  request; when no cache has it the result is \<^verbatim>\<open>NULL\<close> and nothing changes.
\<close>

theorem kmm_alloc_size_class:
  assumes "1 \<le> unat sz" and "unat sz \<le> 2 ^ 32" and "\<not> slab_lock s"
    and "cache_chain (caches s) (cache_root s) cs" and "cs \<noteq> []"
  shows "(\<exists>m. 5 \<le> m \<and> unat (round_size sz) = 2 ^ m \<and> unat sz \<le> 2 ^ m)
    \<and> kmm_alloc s sz = (case List.find (\<lambda>c. map_option object_size (caches s c) = Some (round_size sz)) cs of
        None \<Rightarrow> Some (0, s) | Some c \<Rightarrow> alloc_obj s c)"
proof
  show "\<exists>m. 5 \<le> m \<and> unat (round_size sz) = 2 ^ m \<and> unat sz \<le> 2 ^ m"
    using round_size_fits [OF assms(1,2)] by blast
  have "sz \<noteq> 0" using assms(1) by auto
  have unlock: "unlock_slab (s\<lparr>slab_lock := True\<rparr>) = s"
    using assms(3) by (simp add: unlock_slab_def spin_release_def)
  from \<open>sz \<noteq> 0\<close> show "kmm_alloc s sz = (case List.find (\<lambda>c. map_option object_size (caches s c) = Some (round_size sz)) cs of
        None \<Rightarrow> Some (0, s) | Some c \<Rightarrow> alloc_obj s c)"
    using assms(3-5) kmm_alloc_from_chain [of "s\<lparr>slab_lock := True\<rparr>" "cache_root s" cs "round_size sz"]
    unfolding unlock by (simp add: kmm_alloc_def lock_slab_def spin_lock_def)
qed

theorem kmm_alloc_size_class_witness:
  "kmm_alloc one_cache 20 = alloc_obj one_cache 0x1000 \<and> kmm_alloc one_cache 100 = Some (0, one_cache)"
proof -
  have "round_size 20 = 32" "round_size 100 = 128" by (simp_all add: round_size_def pow2_roundup_def)
  then show ?thesis
    using kmm_alloc_size_class [of 20 one_cache "[0x1000]"] kmm_alloc_size_class [of 100 one_cache "[0x1000]"]
    by (simp add: one_cache_def)
qed

text \<open>
  For every cache size of the kernel the objects of a slab, behind its header, its bitmap
  and, in the first slab, the cache structure, lie inside the pages taken for it.
\<close>

theorem slab_objects_in_pages:
  assumes "4096 dvd unat a" and "unat a < 2 ^ 46" and "16 dvd unat osize" and "unat osize \<le> 2 ^ 18"
  shows "let b = align_up (a + high_vma + sizeof_slab + objects_per_slab div 8) 16 in
    unat (a + high_vma + sizeof_slab) + 32 \<le> unat b
    \<and> unat (b + sizeof_cache) + 256 * unat osize \<le> unat (a + high_vma) + 4096 * unat (slab_pages osize)"
proof -
  let ?v = "a + high_vma"
  have "?v + sizeof_slab + objects_per_slab div 8 = ?v + 80"
    by (simp add: sizeof_slab_def objects_per_slab_def)
  then have b: "align_up (?v + sizeof_slab + objects_per_slab div 8) 16 = ?v + 96"
    using slab_buf(1) [OF assms(1,2)] by (simp only:)
  have v: "unat ?v = unat a + 18446603336221196288" using slab_buf(2) [OF assms(1,2)] by (simp add: high_vma_def)
  have "unat (?v + 48) = unat ?v + 48" "unat (?v + 96) = unat ?v + 96" "unat (?v + 184) = unat ?v + 184"
    using v assms(2) by (subst unat_add_lt; simp)+
  moreover have "?v + 96 + sizeof_cache = ?v + 184" by (simp add: sizeof_cache_def)
  moreover have "?v + sizeof_slab = ?v + 48" by (simp add: sizeof_slab_def)
  ultimately show ?thesis
    using unat_slab_pages [OF assms(4,3)] unfolding Let_def b by (simp only:) linarith
qed

theorem slab_objects_in_pages_witness:
  "let b = align_up (0x200000 + high_vma + sizeof_slab + objects_per_slab div 8) 16 in
    unat (b + sizeof_cache) + 256 * 32 \<le> unat (0x200000 + high_vma) + 4096 * unat (slab_pages 32)"
  using slab_objects_in_pages [of "0x200000" 32] by (simp add: Let_def)

end
