(* ===== verification/Vector.thy ===== *)
theory Vector
  imports Slab
begin

text \<open>
  \<^verbatim>\<open>kernel/lib/vector.hpp\<close>. The template parameter appears as the size of an element and
  whether its destructor does anything. An array is the block the heap hands out for it: as
  many cells as fit into the object of the size class the request is rounded to, none when the
  request is empty or larger than the largest cache (\<^verbatim>\<open>NULL\<close>). A cell that was never written
  is \<open>None\<close>. Accesses outside the block fault. What \<^verbatim>\<open>delete\<close> does to the heap is modelled in
  the heap's own theory and left out here.
\<close>

section \<open>Definitions\<close>

record tinfo =
  sizeof :: nat
  trivial_dtor :: bool

definition heap_block :: "nat \<Rightarrow> nat" where
  "heap_block b = (if b = 0 \<or> 2 ^ 18 < b then 0 else unat (round_size (of_nat b)))"

definition new_array :: "tinfo \<Rightarrow> nat \<Rightarrow> 'a option list" where
  "new_array T n = replicate (heap_block (n * sizeof T) div sizeof T) None"

record 'a vector =
  elements :: "'a option list"
  buf_size :: size_t
  buf_cap :: size_t

definition vector_new :: "'a vector" where
  "vector_new = \<lparr>elements = [], buf_size = 0, buf_cap = 0\<rparr>"

text \<open>The loop \<^verbatim>\<open>elements[i].~T()\<close> up to \<open>n\<close>; a trivial destructor does not touch memory.\<close>

definition destroy :: "tinfo \<Rightarrow> 'a option list \<Rightarrow> size_t \<Rightarrow> unit option" where
  "destroy T es n = (if trivial_dtor T \<or> unat n \<le> length es then Some () else None)"

definition internal_resize :: "tinfo \<Rightarrow> 'a vector \<Rightarrow> size_t \<Rightarrow> 'a vector option" where
  "internal_resize T v cap =
     (if cap \<le> buf_cap v then Some v
      else do {
        let new_cap = cap * 2;
        new_arr \<leftarrow> memcpy_loop (new_array T (unat new_cap)) 0 (elements v) 0 (buf_cap v);
        _ \<leftarrow> destroy T (elements v) (buf_size v);
        Some (v\<lparr>elements := new_arr, buf_cap := new_cap\<rparr>)
      })"

definition vector_copy :: "tinfo \<Rightarrow> 'a vector \<Rightarrow> 'a vector option" where
  "vector_copy T other = do {
     v \<leftarrow> internal_resize T (vector_new\<lparr>buf_size := buf_size other\<rparr>) (buf_size other);
     es \<leftarrow> memcpy_loop (elements v) 0 (elements other) 0 (buf_size v);
     Some (v\<lparr>elements := es\<rparr>)
   }"

text \<open>The swap behind move construction and assignment gives the moved-to vector first.\<close>

definition vector_swap :: "'a vector \<Rightarrow> 'a vector \<Rightarrow> 'a vector \<times> 'a vector" where
  "vector_swap a b = (a\<lparr>elements := elements b, buf_size := buf_size b, buf_cap := buf_cap b\<rparr>,
     b\<lparr>elements := elements a, buf_size := buf_size a, buf_cap := buf_cap a\<rparr>)"

definition vector_push :: "tinfo \<Rightarrow> 'a vector \<Rightarrow> 'a \<Rightarrow> 'a vector option" where
  "vector_push T v x = do {
     v \<leftarrow> internal_resize T v (buf_size v + 1);
     es \<leftarrow> write_at (elements v) (unat (buf_size v)) (Some x);
     Some (v\<lparr>elements := es, buf_size := buf_size v + 1\<rparr>)
   }"

definition vector_pop :: "'a vector \<Rightarrow> ('a option \<times> 'a vector) option" where
  "vector_pop v = do {
     let n = buf_size v - 1;
     x \<leftarrow> read_at (elements v) (unat n);
     Some (x, v\<lparr>buf_size := n\<rparr>)
   }"

definition vector_at :: "'a vector \<Rightarrow> size_t \<Rightarrow> 'a option" where
  "vector_at v i = do { x \<leftarrow> read_at (elements v) (unat i); x }"

definition vector_set :: "'a vector \<Rightarrow> size_t \<Rightarrow> 'a \<Rightarrow> 'a vector option" where
  "vector_set v i x = do { es \<leftarrow> write_at (elements v) (unat i) (Some x); Some (v\<lparr>elements := es\<rparr>) }"

definition vector_remove :: "tinfo \<Rightarrow> 'a vector \<Rightarrow> size_t \<Rightarrow> 'a vector option" where
  "vector_remove T v index =
     (if buf_size v < index then Some v
      else do {
        let new_arr = new_array T (unat (buf_size v - 1));
        new_arr \<leftarrow> memcpy_loop new_arr 0 (elements v) 0 index;
        new_arr \<leftarrow> memcpy_loop new_arr (unat index) (elements v) (unat (index + 1))
                     (of_nat (unat (buf_size v) - unat (index + 1)));
        Some (v\<lparr>elements := new_arr, buf_size := buf_size v - 1\<rparr>)
      })"

section \<open>Blocks\<close>

lemma heap_block_le:
  assumes "0 < b" and "b \<le> 2 ^ 18"
  shows "b \<le> heap_block b"
proof -
  have u: "unat (of_nat b :: size_t) = b" using assms(2) by (intro unat_of_nat_lt) simp
  with assms obtain m where "unat (round_size (of_nat b)) = 2 ^ m" "b \<le> 2 ^ m"
    using round_size_fits [of "of_nat b"] by auto
  then show ?thesis using assms by (simp add: heap_block_def)
qed

lemma length_new_array:
  assumes "0 < sizeof T" and "n * sizeof T \<le> 2 ^ 18"
  shows "n \<le> length (new_array T n)"
proof (cases "n = 0")
  case False
  then have "n * sizeof T \<le> heap_block (n * sizeof T)" using assms by (intro heap_block_le) simp_all
  then show ?thesis using assms(1) by (simp add: new_array_def less_eq_div_iff_mult_less_eq)
qed simp

section \<open>Vectors as sequences\<close>

text \<open>
  \<open>vec_ok\<close> is what reading needs: the constructed elements lie in the block. \<open>vec_inv\<close>, which
  growing needs too, says that the recorded capacity does.
\<close>

definition vec_ok :: "'a vector \<Rightarrow> bool" where
  "vec_ok v \<longleftrightarrow> unat (buf_size v) \<le> length (elements v)
     \<and> (\<forall>i < unat (buf_size v). elements v ! i \<noteq> None)"

definition vec_inv :: "'a vector \<Rightarrow> bool" where
  "vec_inv v \<longleftrightarrow> vec_ok v \<and> buf_size v \<le> buf_cap v \<and> unat (buf_cap v) \<le> length (elements v)"

definition vec_list :: "'a vector \<Rightarrow> 'a list" where
  "vec_list v = map the (take (unat (buf_size v)) (elements v))"

text \<open>Room for one more element without exhausting the largest size class.\<close>

definition vec_room :: "tinfo \<Rightarrow> 'a vector \<Rightarrow> bool" where
  "vec_room T v \<longleftrightarrow> 0 < sizeof T \<and> 2 * (unat (buf_size v) + 1) * sizeof T \<le> 2 ^ 18"

lemma vec_list_length [simp]: "vec_ok v \<Longrightarrow> length (vec_list v) = unat (buf_size v)"
  by (simp add: vec_list_def vec_ok_def)

lemma vec_list_nth: "vec_ok v \<Longrightarrow> i < unat (buf_size v) \<Longrightarrow> elements v ! i = Some (vec_list v ! i)"
  by (auto simp: vec_list_def vec_ok_def)

lemma vec_listI:
  assumes "unat (buf_size v) = length xs" and "length xs \<le> length (elements v)"
    and "\<And>i. i < length xs \<Longrightarrow> elements v ! i = Some (xs ! i)"
  shows "vec_ok v \<and> vec_list v = xs"
  using assms by (auto simp: vec_ok_def vec_list_def intro!: nth_equalityI)

lemma vector_new_list [simp]: "vec_inv vector_new" "vec_list vector_new = []"
    "vec_ok vector_new" "buf_size vector_new = 0"
  by (simp_all add: vector_new_def vec_inv_def vec_ok_def vec_list_def)

lemma unat_size_Suc: "vec_room T v \<Longrightarrow> unat (buf_size v + 1) = Suc (unat (buf_size v))"
proof -
  assume "vec_room T v"
  then have t: "0 < sizeof T" "2 * (unat (buf_size v) + 1) * sizeof T \<le> 2 ^ 18"
    by (simp_all add: vec_room_def)
  have "2 * (unat (buf_size v) + 1) * 1 \<le> 2 * (unat (buf_size v) + 1) * sizeof T"
    using t(1) by (intro mult_le_mono) simp_all
  from le_trans [OF this t(2)] have "unat (buf_size v) < 2 ^ 18" by simp
  then show ?thesis by (subst unat_add_lt) simp_all
qed

lemma internal_resize_list:
  assumes "vec_inv v" and "vec_room T v"
  shows "\<exists>w. internal_resize T v (buf_size v + 1) = Some w \<and> vec_inv w \<and> vec_list w = vec_list v
    \<and> buf_size w = buf_size v \<and> unat (buf_size v) < unat (buf_cap w)"
proof (cases "buf_size v + 1 \<le> buf_cap v")
  case True
  then show ?thesis
    using assms unat_size_Suc [OF assms(2)] by (simp add: internal_resize_def word_le_nat_alt)
next
  case False
  let ?n = "unat (buf_size v)"
  have s: "unat (buf_size v + 1) = Suc ?n" by (rule unat_size_Suc [OF assms(2)])
  then have eq: "buf_cap v = buf_size v"
    using False assms(1) by (simp add: vec_inv_def word_le_nat_alt) (metis le_antisym not_less_eq_eq word_eq_unatI)
  have room: "2 * Suc ?n * sizeof T \<le> 2 ^ 18" "0 < sizeof T" using assms(2) by (simp_all add: vec_room_def)
  then have "2 * Suc ?n * 1 \<le> 2 * Suc ?n * sizeof T" by (intro mult_le_mono) simp_all
  then have small: "2 * Suc ?n \<le> 2 ^ 18" using room by linarith
  have c: "unat ((buf_size v + 1) * 2) = 2 * Suc ?n" using s small by (subst unat_mult_lt) simp_all
  let ?a = "new_array T (2 * Suc ?n) :: 'a option list"
  have la: "2 * Suc ?n \<le> length ?a" using room by (intro length_new_array) simp_all
  have le: "?n \<le> length (elements v)" using assms(1) by (simp add: vec_inv_def vec_ok_def)
  define w where "w = v\<lparr>elements := take ?n (elements v) @ drop ?n ?a, buf_cap := (buf_size v + 1) * 2\<rparr>"
  have "memcpy_loop ?a 0 (elements v) 0 (buf_cap v) = Some (take ?n (elements v) @ drop ?n ?a)"
    using memcpy_loop_eq [of 0 "buf_cap v" ?a 0 "elements v"] la le eq by simp
  then have run: "internal_resize T v (buf_size v + 1) = Some w"
    using False le unfolding internal_resize_def Let_def c by (simp add: destroy_def w_def)
  have "elements w ! i = Some (vec_list v ! i)" if "i < ?n" for i
    using that le vec_list_nth [of v i] assms(1) by (simp add: w_def nth_append vec_inv_def)
  then have ok: "vec_ok w \<and> vec_list w = vec_list v"
    using assms(1) le la by (intro vec_listI) (simp_all add: w_def vec_inv_def)
  moreover have "vec_inv w" using ok le la c s by (simp add: vec_inv_def w_def word_le_nat_alt)
  ultimately show ?thesis using run c by (simp add: w_def)
qed

lemma vector_push_list:
  assumes "vec_inv v" and "vec_room T v"
  shows "\<exists>w. vector_push T v x = Some w \<and> vec_inv w \<and> vec_list w = vec_list v @ [x]"
proof -
  let ?n = "unat (buf_size v)"
  obtain u where u: "internal_resize T v (buf_size v + 1) = Some u" "vec_inv u" "vec_list u = vec_list v"
    "buf_size u = buf_size v" "?n < unat (buf_cap u)"
    using internal_resize_list [OF assms] by blast
  have len: "?n < length (elements u)" using u(2,5) by (simp add: vec_inv_def)
  define w where "w = u\<lparr>elements := (elements u)[?n := Some x], buf_size := buf_size u + 1\<rparr>"
  have run: "vector_push T v x = Some w" using u len by (simp add: vector_push_def w_def)
  have s: "unat (buf_size v + 1) = Suc ?n" by (rule unat_size_Suc [OF assms(2)])
  have lv: "length (vec_list v) = ?n" using assms(1) by (simp add: vec_inv_def)
  have "elements w ! i = Some ((vec_list v @ [x]) ! i)" if "i < Suc ?n" for i
    using that len vec_list_nth [of u i] u(2-4) lv
    by (cases "i = ?n") (simp_all add: w_def nth_append vec_inv_def)
  then have ok: "vec_ok w \<and> vec_list w = vec_list v @ [x]"
    using lv len s u(4) by (intro vec_listI) (simp_all add: w_def)
  moreover have "vec_inv w" using ok u(2,4,5) s by (simp add: vec_inv_def w_def word_le_nat_alt)
  ultimately show ?thesis using run by blast
qed

lemma vector_pop_list:
  assumes "vec_inv v" and "vec_list v \<noteq> []"
  shows "\<exists>w. vector_pop v = Some (Some (last (vec_list v)), w) \<and> vec_inv w \<and> vec_list w = butlast (vec_list v)"
proof -
  have ok: "vec_ok v" using assms(1) by (simp add: vec_inv_def)
  have "buf_size v \<noteq> 0" using assms(2) ok by (auto simp: vec_list_def)
  then have s: "unat (buf_size v - 1) = unat (buf_size v) - 1" "0 < unat (buf_size v)"
    by (simp_all add: unat_sub word_le_nat_alt Suc_le_eq unat_gt_0)
  define w where "w = v\<lparr>buf_size := buf_size v - 1\<rparr>"
  have nth: "elements v ! i = Some (vec_list v ! i)" if "i < unat (buf_size v)" for i
    using vec_list_nth [OF ok that] .
  have "unat (buf_size v) - 1 < length (elements v)" using s ok unfolding vec_ok_def by linarith
  then have "vector_pop v = Some (Some (last (vec_list v)), w)"
    using s ok nth [of "unat (buf_size v) - 1"] assms(2) by (simp add: vector_pop_def w_def last_conv_nth)
  moreover have ok': "vec_ok w \<and> vec_list w = butlast (vec_list v)"
    using ok s nth \<open>unat (buf_size v) - 1 < length (elements v)\<close>
    by (intro vec_listI) (simp_all add: w_def nth_butlast)
  moreover have "vec_inv w" using ok' assms(1) s le_trans [OF diff_le_self]
    by (simp add: vec_inv_def w_def word_le_nat_alt)
  ultimately show ?thesis by blast
qed

lemma vector_remove_list:
  assumes "vec_ok v" and "i < buf_size v" and "0 < sizeof T" and "unat (buf_size v) * sizeof T \<le> 2 ^ 18"
  shows "\<exists>w. vector_remove T v i = Some w \<and> vec_ok w
    \<and> vec_list w = take (unat i) (vec_list v) @ drop (Suc (unat i)) (vec_list v)
    \<and> elements w = take (unat i) (elements v) @ drop (Suc (unat i)) (take (unat (buf_size v)) (elements v))
        @ drop (unat (buf_size v) - 1) (new_array T (unat (buf_size v) - 1))
    \<and> buf_size w = buf_size v - 1 \<and> buf_cap w = buf_cap v"
proof -
  let ?n = "unat (buf_size v)" and ?i = "unat i"
  have i: "?i < ?n" using assms(2) by (simp add: word_less_nat_alt)
  have n64: "?n < 18446744073709551616" by simp
  have s: "unat (buf_size v - 1) = ?n - 1" using i by (simp add: unat_sub word_le_nat_alt)
  have "?i + 1 < 18446744073709551616" using i n64 by linarith
  then have i1: "unat (i + 1) = Suc ?i" by (subst unat_add_lt) simp_all
  have le: "?n \<le> length (elements v)" using assms(1) by (simp add: vec_ok_def)
  let ?a = "new_array T (?n - 1) :: 'a option list"
  have "(?n - 1) * sizeof T \<le> ?n * sizeof T" by simp
  then have la: "?n - 1 \<le> length ?a" using assms(3,4) by (intro length_new_array) linarith+
  have cnt: "unat (of_nat (?n - Suc ?i) :: size_t) = ?n - Suc ?i" using n64 by (intro unat_of_nat_lt) (simp add: less_imp_diff_less)
  let ?b = "take ?i (elements v) @ drop ?i ?a"
  have c1: "memcpy_loop ?a 0 (elements v) 0 i = Some ?b"
    using memcpy_loop_eq [of 0 i ?a 0 "elements v"] la le i by simp
  let ?c = "take ?i (elements v) @ drop (Suc ?i) (take ?n (elements v)) @ drop (?n - 1) ?a"
  have c2: "memcpy_loop ?b ?i (elements v) (Suc ?i) (of_nat (?n - Suc ?i)) = Some ?c"
  proof -
    have "take ?i ?b = take ?i (elements v)" using i le by simp
    moreover have "drop (?i + (?n - Suc ?i)) ?b = drop (?n - 1) ?a" using i le by simp
    moreover have "take (?n - Suc ?i) (drop (Suc ?i) (elements v)) = drop (Suc ?i) (take ?n (elements v))"
      by (simp add: drop_take)
    ultimately show ?thesis
      using memcpy_loop_eq [of ?i "of_nat (?n - Suc ?i)" ?b "Suc ?i" "elements v"] la le i cnt by simp
  qed
  define w where "w = v\<lparr>elements := ?c, buf_size := buf_size v - 1\<rparr>"
  have run: "vector_remove T v i = Some w"
    using assms(2) c1 c2 by (simp add: vector_remove_def s i1 w_def)
  let ?l = "take ?i (vec_list v) @ drop (Suc ?i) (vec_list v)"
  have ll: "length ?l = ?n - 1" using assms(1) i by simp
  have "elements w ! j = Some (?l ! j)" if "j < ?n - 1" for j
    using that i le vec_list_nth [OF assms(1), of j] vec_list_nth [OF assms(1), of "Suc j"] assms(1)
    by (auto simp: w_def nth_append)
  then have "vec_ok w \<and> vec_list w = ?l"
    using ll s i le la by (intro vec_listI) (simp_all add: w_def)
  then show ?thesis using run by (simp add: w_def)
qed

section \<open>The sequence interface\<close>

text \<open>
  What the clients of a vector rely on: it is a sequence that grows and shrinks at its end,
  as long as there is room.
\<close>

locale sequence =
  fixes inv :: "'v \<Rightarrow> bool"
    and abs :: "'v \<Rightarrow> 'a list"
    and room :: "nat \<Rightarrow> bool"
    and fresh :: 'v
    and push :: "'v \<Rightarrow> 'a \<Rightarrow> 'v option"
    and pop :: "'v \<Rightarrow> ('a option \<times> 'v) option"
  assumes fresh: "inv fresh" "abs fresh = []"
    and room_mono: "room n \<Longrightarrow> m \<le> n \<Longrightarrow> room m"
    and push: "inv v \<Longrightarrow> room (length (abs v)) \<Longrightarrow>
      \<exists>w. push v x = Some w \<and> inv w \<and> abs w = abs v @ [x]"
    and pop: "inv v \<Longrightarrow> abs v \<noteq> [] \<Longrightarrow>
      \<exists>w. pop v = Some (Some (last (abs v)), w) \<and> inv w \<and> abs w = butlast (abs v)"
begin

lemma push_pop:
  assumes "inv v" and "room (length (abs v))"
  shows "\<exists>w u. push v x = Some w \<and> pop w = Some (Some x, u) \<and> inv u \<and> abs u = abs v"
proof -
  obtain w where w: "push v x = Some w" "inv w" "abs w = abs v @ [x]" using push [OF assms] by blast
  then show ?thesis using pop [of w] by auto
qed

lemma push_all:
  assumes "inv v" and "xs \<noteq> [] \<Longrightarrow> room (length (abs v) + length xs - 1)"
  shows "\<exists>w. foldl (\<lambda>v x. v \<bind> (\<lambda>v. push v x)) (Some v) xs = Some w \<and> inv w \<and> abs w = abs v @ xs"
  using assms
proof (induction xs arbitrary: v)
  case (Cons x xs)
  have "room (length (abs v))" by (rule room_mono [OF Cons.prems(2)]) simp_all
  then obtain w where w: "push v x = Some w" "inv w" "abs w = abs v @ [x]"
    using push [OF Cons.prems(1), of x] by blast
  then show ?case using Cons.IH [OF w(2)] Cons.prems(2) by simp
qed simp

end

definition seq_room :: "tinfo \<Rightarrow> nat \<Rightarrow> bool" where
  "seq_room T n \<longleftrightarrow> 0 < sizeof T \<and> 2 * (n + 1) * sizeof T \<le> 2 ^ 18"

interpretation vec: sequence vec_inv vec_list "seq_room T" vector_new "vector_push T" vector_pop for T
proof unfold_locales
  show "vec_inv vector_new" "vec_list vector_new = []" by (rule vector_new_list)+
  show "seq_room T m" if "seq_room T n" "m \<le> n" for m n
  proof -
    have "2 * (m + 1) * sizeof T \<le> 2 * (n + 1) * sizeof T" using that(2) by (intro mult_le_mono) simp_all
    also have "\<dots> \<le> 2 ^ 18" using that(1) by (simp only: seq_room_def)
    finally show ?thesis using that(1) by (simp add: seq_room_def)
  qed
  show "\<exists>w. vector_push T v x = Some w \<and> vec_inv w \<and> vec_list w = vec_list v @ [x]"
    if "vec_inv v" "seq_room T (length (vec_list v))" for v :: "'a vector" and x
    using that by (intro vector_push_list) (simp_all add: vec_room_def seq_room_def vec_inv_def)
  show "\<exists>w. vector_pop v = Some (Some (last (vec_list v)), w) \<and> vec_inv w \<and> vec_list w = butlast (vec_list v)"
    if "vec_inv v" "vec_list v \<noteq> []" for v :: "'a vector"
    by (rule vector_pop_list [OF that])
qed

definition vector_push_all :: "tinfo \<Rightarrow> 'a vector \<Rightarrow> 'a list \<Rightarrow> 'a vector option" where
  "vector_push_all T v xs = foldl (\<lambda>v x. v \<bind> (\<lambda>v. vector_push T v x)) (Some v) xs"

section \<open>Properties\<close>

text \<open>
  Pushing any list of elements that fits the largest size class onto a vector, with all the
  reallocations on the way, gives a vector with exactly these elements appended, and popping
  the last one gives it back.
\<close>

theorem vector_push_all_pop:
  assumes "vec_inv v" and "0 < sizeof T" and "2 * (length (vec_list v) + length xs + 1) * sizeof T \<le> 2 ^ 18"
  shows "\<exists>w. vector_push_all T v xs = Some w \<and> vec_inv w \<and> vec_list w = vec_list v @ xs
    \<and> (\<exists>w' u. vector_push T w x = Some w' \<and> vector_pop w' = Some (Some x, u) \<and> vec_list u = vec_list v @ xs)"
proof -
  have room: "seq_room T (length (vec_list v) + length xs)" using assms(2,3) by (simp only: seq_room_def simp_thms)
  then have "seq_room T (length (vec_list v) + length xs - 1)" by (rule vec.room_mono) simp
  then obtain w where w: "vector_push_all T v xs = Some w" "vec_inv w" "vec_list w = vec_list v @ xs"
    using vec.push_all [OF assms(1), of xs T] by (auto simp: vector_push_all_def)
  then show ?thesis using vec.push_pop [of w T x] room by auto
qed

theorem vector_push_all_pop_witness:
  "\<exists>w. vector_push_all \<lparr>sizeof = 8, trivial_dtor = True\<rparr> vector_new [1 :: nat, 2, 3] = Some w
    \<and> vec_list w = [1, 2, 3]"
  using vector_push_all_pop [of vector_new "\<lparr>sizeof = 8, trivial_dtor = True\<rparr>" "[1 :: nat, 2, 3]"]
  by auto

text \<open>
  Removing an element keeps the others in order; the result is readable, but the recorded
  capacity is left as it was while the new array is only as long as the remaining elements, so
  that a following push writes outside the array whenever the recorded capacity has room and
  the heap's rounding leaves none.
\<close>

theorem vector_remove_stale_capacity:
  assumes "vec_inv v" and "i < buf_size v" and "0 < sizeof T" and "unat (buf_size v) * sizeof T \<le> 2 ^ 18"
  shows "\<exists>w. vector_remove T v i = Some w \<and> vec_ok w
    \<and> vec_list w = take (unat i) (vec_list v) @ drop (Suc (unat i)) (vec_list v)
    \<and> (length (new_array T (unat (buf_size v) - 1) :: 'a option list) = unat (buf_size v) - 1
        \<longrightarrow> vector_push T w (x :: 'a) = None)"
proof -
  have ok: "vec_ok v" using assms(1) by (simp add: vec_inv_def)
  from vector_remove_list [OF ok assms(2-4)] obtain w where w: "vector_remove T v i = Some w" "vec_ok w"
    "vec_list w = take (unat i) (vec_list v) @ drop (Suc (unat i)) (vec_list v)"
    "elements w = take (unat i) (elements v) @ drop (Suc (unat i)) (take (unat (buf_size v)) (elements v))
        @ drop (unat (buf_size v) - 1) (new_array T (unat (buf_size v) - 1))"
    "buf_size w = buf_size v - 1" "buf_cap w = buf_cap v" by blast
  have i: "unat i < unat (buf_size v)" using assms(2) by (simp add: word_less_nat_alt)
  then have s: "unat (buf_size v - 1) = unat (buf_size v) - 1" by (simp add: unat_sub word_le_nat_alt)
  have "vector_push T w x = None" if "length (new_array T (unat (buf_size v) - 1) :: 'a option list) = unat (buf_size v) - 1"
  proof -
    have "length (elements w) = unat (buf_size v) - 1" using w(4) i ok that by (simp add: vec_ok_def)
    then have "write_at (elements w) (unat (buf_size w)) (Some x) = None"
      using w(5) s by (simp add: write_at_None)
    moreover have "internal_resize T w (buf_size w + 1) = Some w"
      using assms(1) w(5,6) by (simp add: internal_resize_def vec_inv_def)
    ultimately show ?thesis by (simp add: vector_push_def)
  qed
  then show ?thesis using w by blast
qed

theorem vector_remove_stale_capacity_witness:
  "\<exists>v w. vector_push_all \<lparr>sizeof = 32, trivial_dtor = True\<rparr> vector_new [1 :: nat, 2, 3] = Some v
    \<and> vector_remove \<lparr>sizeof = 32, trivial_dtor = True\<rparr> v 0 = Some w \<and> vec_list w = [2, 3]
    \<and> vector_push \<lparr>sizeof = 32, trivial_dtor = True\<rparr> w 4 = None"
proof -
  let ?T = "\<lparr>sizeof = 32, trivial_dtor = True\<rparr>"
  obtain v where v: "vector_push_all ?T vector_new [1 :: nat, 2, 3] = Some v" "vec_inv v" "vec_list v = [1, 2, 3]"
    using vec.push_all [of vector_new "[1 :: nat, 2, 3]" ?T]
    by (auto simp: vector_push_all_def seq_room_def)
  then have n: "unat (buf_size v) = 3" using vec_list_length [of v] by (simp add: vec_inv_def)
  have "length (new_array ?T 2 :: nat option list) = 2"
    by (simp add: new_array_def heap_block_def round_size_def pow2_roundup_def)
  then show ?thesis
    using vector_remove_stale_capacity [OF v(2), of 0 ?T 4] v n by (auto simp: word_less_nat_alt)
qed

text \<open>
  Copying a vector that is not empty runs the element destructors on the old array of the
  copy, which is \<^verbatim>\<open>NULL\<close>: with a destructor that does anything the copy faults, otherwise it
  has the same elements.
\<close>

theorem vector_copy_destroys_null:
  assumes "vec_ok v" and "0 < buf_size v" and "0 < sizeof T" and "2 * unat (buf_size v) * sizeof T \<le> 2 ^ 18"
  shows "if trivial_dtor T then \<exists>w. vector_copy T v = Some w \<and> vec_inv w \<and> vec_list w = vec_list v
    else vector_copy T v = None"
proof -
  let ?n = "unat (buf_size v)"
  have n: "0 < ?n" using assms(2) by (simp add: word_less_nat_alt)
  have nc: "\<not> buf_size v \<le> 0" using assms(2) by (simp add: word_le_nat_alt word_less_nat_alt)
  have "2 * ?n * 1 \<le> 2 * ?n * sizeof T" using assms(3) by (intro mult_le_mono) simp_all
  from le_trans [OF this assms(4)] have c: "unat (buf_size v * 2) = 2 * ?n" by (subst unat_mult_lt) simp_all
  let ?a = "new_array T (2 * ?n) :: 'a option list"
  have la: "2 * ?n \<le> length ?a" using assms(3,4) by (intro length_new_array)
  have empty: "memcpy_loop ?a 0 [] 0 0 = Some ?a" using memcpy_loop_eq [of 0 0 ?a 0 "[]"] by simp
  show ?thesis
  proof (cases "trivial_dtor T")
    case False
    then have "internal_resize T (vector_new\<lparr>buf_size := buf_size v\<rparr> :: 'a vector) (buf_size v) = None"
      unfolding internal_resize_def Let_def c using n nc empty by (simp add: vector_new_def destroy_def c)
    then show ?thesis using False by (simp add: vector_copy_def)
  next
    case True
    define u where "u = \<lparr>elements = ?a, buf_size = buf_size v, buf_cap = buf_size v * 2\<rparr>"
    have "internal_resize T (vector_new\<lparr>buf_size := buf_size v\<rparr>) (buf_size v) = Some u"
      unfolding internal_resize_def Let_def using nc empty True by (simp add: vector_new_def destroy_def c u_def)
    moreover have le: "?n \<le> length (elements v)" using assms(1) by (simp add: vec_ok_def)
    then have "memcpy_loop ?a 0 (elements v) 0 (buf_size v) = Some (take ?n (elements v) @ drop ?n ?a)"
      using memcpy_loop_eq [of 0 "buf_size v" ?a 0 "elements v"] la by simp
    ultimately have run: "vector_copy T v = Some (u\<lparr>elements := take ?n (elements v) @ drop ?n ?a\<rparr>)"
      by (simp add: vector_copy_def u_def)
    let ?w = "u\<lparr>elements := take ?n (elements v) @ drop ?n ?a\<rparr>"
    have "vec_ok ?w \<and> vec_list ?w = vec_list v"
      using assms(1) le la vec_list_nth [OF assms(1)] by (intro vec_listI) (simp_all add: u_def nth_append)
    then have "vec_inv ?w" using le la c by (simp add: vec_inv_def u_def word_le_nat_alt)
    then show ?thesis using run True \<open>vec_ok ?w \<and> vec_list ?w = vec_list v\<close> by auto
  qed
qed

theorem vector_copy_destroys_null_witness:
  "\<exists>v. vector_push_all \<lparr>sizeof = 16, trivial_dtor = False\<rparr> vector_new [''a''] = Some v
    \<and> vector_copy \<lparr>sizeof = 16, trivial_dtor = False\<rparr> v = None"
proof -
  let ?T = "\<lparr>sizeof = 16, trivial_dtor = False\<rparr>"
  obtain v where v: "vector_push_all ?T vector_new [''a''] = Some v" "vec_inv v" "vec_list v = [''a'']"
    using vec.push_all [of vector_new "[''a'']" ?T]
    by (auto simp: vector_push_all_def seq_room_def)
  then have "unat (buf_size v) = 1" using vec_list_length [of v] by (simp add: vec_inv_def)
  then show ?thesis
    using vector_copy_destroys_null [of v ?T] v by (auto simp: word_less_nat_alt vec_inv_def)
qed

end
