(* ===== verification/Map_Lib.thy ===== *)
theory Map_Lib
  imports Vector
begin

text \<open>
  \<^verbatim>\<open>kernel/lib/map.hpp\<close>: an association of tags with data in two parallel vectors. The
  reference \<^verbatim>\<open>operator[]\<close> returns is the index into the data vector, which \<open>map_get\<close> reads and
  \<open>map_put\<close> writes; a tag that is not there is inserted with the default value first.
\<close>

section \<open>Definitions\<close>

record ('f, 't) kmap =
  tags :: "'f vector"
  data :: "'t vector"

record 't map_types =
  tag_type :: tinfo
  data_type :: tinfo
  default_data :: 't

definition map_new :: "('f, 't) kmap" where
  "map_new = \<lparr>tags = vector_new, data = vector_new\<rparr>"

fun map_find :: "'f vector \<Rightarrow> 'f \<Rightarrow> nat \<Rightarrow> nat \<Rightarrow> nat option option" where
  "map_find ts k i 0 = Some None"
| "map_find ts k i (Suc n) = do {
     t \<leftarrow> vector_at ts (of_nat i);
     if t = k then Some (Some i) else map_find ts k (Suc i) n
   }"

definition map_index :: "'t map_types \<Rightarrow> ('f, 't) kmap \<Rightarrow> 'f \<Rightarrow> (size_t \<times> ('f, 't) kmap) option" where
  "map_index T m k = do {
     r \<leftarrow> map_find (tags m) k 0 (unat (buf_size (tags m)));
     case r of
       Some i \<Rightarrow> Some (of_nat i, m)
     | None \<Rightarrow> do {
         ts \<leftarrow> vector_push (tag_type T) (tags m) k;
         ds \<leftarrow> vector_push (data_type T) (data m) (default_data T);
         Some (buf_size ds - 1, m\<lparr>tags := ts, data := ds\<rparr>)
       }
   }"

definition map_get :: "'t map_types \<Rightarrow> ('f, 't) kmap \<Rightarrow> 'f \<Rightarrow> ('t \<times> ('f, 't) kmap) option" where
  "map_get T m k = do {
     (i, m) \<leftarrow> map_index T m k;
     x \<leftarrow> vector_at (data m) i;
     Some (x, m)
   }"

definition map_put :: "'t map_types \<Rightarrow> ('f, 't) kmap \<Rightarrow> 'f \<Rightarrow> 't \<Rightarrow> ('f, 't) kmap option" where
  "map_put T m k x = do {
     (i, m) \<leftarrow> map_index T m k;
     ds \<leftarrow> vector_set (data m) i x;
     Some (m\<lparr>data := ds\<rparr>)
   }"

definition map_size :: "('f, 't) kmap \<Rightarrow> size_t" where
  "map_size m = buf_size (tags m)"

definition map_get_tag :: "('f, 't) kmap \<Rightarrow> size_t \<Rightarrow> 'f option" where
  "map_get_tag m i = vector_at (tags m) i"

definition map_copy :: "'t map_types \<Rightarrow> ('f, 't) kmap \<Rightarrow> ('f, 't) kmap option" where
  "map_copy T m = do {
     ts \<leftarrow> vector_copy (tag_type T) (tags m);
     ds \<leftarrow> vector_copy (data_type T) (data m);
     Some \<lparr>tags = ts, data = ds\<rparr>
   }"

text \<open>The loop goes on after a removal, with the size read again.\<close>

partial_function (option) map_remove_from ::
  "'t map_types \<Rightarrow> ('f, 't) kmap \<Rightarrow> 'f \<Rightarrow> size_t \<Rightarrow> ('f, 't) kmap option" where
  "map_remove_from T m k i =
     (if i < buf_size (tags m) then do {
        t \<leftarrow> vector_at (tags m) i;
        m \<leftarrow> (if t = k then do {
            ts \<leftarrow> vector_remove (tag_type T) (tags m) i;
            ds \<leftarrow> vector_remove (data_type T) (data m) i;
            Some (m\<lparr>tags := ts, data := ds\<rparr>)
          } else Some m);
        map_remove_from T m k (i + 1)
      } else Some m)"

declare map_remove_from.simps [code]

definition map_remove :: "'t map_types \<Rightarrow> ('f, 't) kmap \<Rightarrow> 'f \<Rightarrow> ('f, 't) kmap option" where
  "map_remove T m k = map_remove_from T m k 0"

section \<open>Maps as finite functions\<close>

definition map_ok :: "('f, 't) kmap \<Rightarrow> bool" where
  "map_ok m \<longleftrightarrow> vec_ok (tags m) \<and> vec_ok (data m) \<and> buf_size (tags m) = buf_size (data m)
     \<and> distinct (vec_list (tags m))"

definition map_inv :: "('f, 't) kmap \<Rightarrow> bool" where
  "map_inv m \<longleftrightarrow> map_ok m \<and> vec_inv (tags m) \<and> vec_inv (data m)"

definition map_abs :: "('f, 't) kmap \<Rightarrow> 'f \<rightharpoonup> 't" where
  "map_abs m = map_of (zip (vec_list (tags m)) (vec_list (data m)))"

definition map_room :: "'t map_types \<Rightarrow> nat \<Rightarrow> bool" where
  "map_room T n \<longleftrightarrow> seq_room (tag_type T) n \<and> seq_room (data_type T) n"

lemma vector_at_list: "vec_ok v \<Longrightarrow> i < buf_size v \<Longrightarrow> vector_at v i = Some (vec_list v ! unat i)"
  using vec_list_nth [of v "unat i"] by (simp add: vector_at_def word_less_nat_alt vec_ok_def)

lemma map_find_correct:
  assumes "vec_ok v" and "i + n = unat (buf_size v)"
  shows "map_find v k i n = Some (if k \<in> set (drop i (vec_list v))
    then Some (i + length (takeWhile (\<lambda>t. t \<noteq> k) (drop i (vec_list v)))) else None)"
  using assms(2)
proof (induction n arbitrary: i)
  case (Suc n)
  have lt: "i < length (vec_list v)" using Suc.prems assms(1) by simp
  moreover have "i < 2 ^ 64" using Suc.prems by (intro lt_unat_2p64 [of _ "buf_size v"]) simp
  ultimately have "vector_at v (of_nat i) = Some (vec_list v ! i)"
    using Suc.prems assms(1) vector_at_list [of v "of_nat i"] unat_of_nat_lt [of i]
    by (simp add: word_less_nat_alt)
  moreover have "drop i (vec_list v) = vec_list v ! i # drop (Suc i) (vec_list v)"
    using lt by (simp add: Cons_nth_drop_Suc)
  ultimately show ?case using Suc.IH [of "Suc i"] Suc.prems by auto
qed (simp add: assms(1))

text \<open>The position of a tag, as the code finds it.\<close>

lemma map_find_0:
  assumes "map_ok m"
  shows "map_find (tags m) k 0 (unat (buf_size (tags m)))
    = Some (if k \<in> set (vec_list (tags m)) then Some (length (takeWhile (\<lambda>t. t \<noteq> k) (vec_list (tags m)))) else None)"
  using assms map_find_correct [of "tags m" 0 "unat (buf_size (tags m))" k] by (simp add: map_ok_def)

lemma map_position:
  assumes "map_ok m" and "k \<in> set (vec_list (tags m))"
  defines "i \<equiv> length (takeWhile (\<lambda>t. t \<noteq> k) (vec_list (tags m)))"
  shows "i < unat (buf_size (data m))" and "vec_list (tags m) ! i = k"
    and "map_abs m k = Some (vec_list (data m) ! i)" and "unat (of_nat i :: size_t) = i"
proof -
  have "i < length (vec_list (tags m))" unfolding i_def using assms(2) by (intro takeWhile_length_less [of k]) simp_all
  then show i: "i < unat (buf_size (data m))" and ti: "vec_list (tags m) ! i = k"
    using assms(1) nth_length_takeWhile [of "\<lambda>t. t \<noteq> k" "vec_list (tags m)"]
    by (simp_all add: map_ok_def i_def)
  have len: "length (vec_list (tags m)) = length (vec_list (data m))" using assms(1) by (simp add: map_ok_def)
  show "map_abs m k = Some (vec_list (data m) ! i)"
    using map_of_zip_nth [OF len, of i] assms(1) i ti by (simp add: map_abs_def map_ok_def)
  have "i < 2 ^ 64" using i by (rule lt_unat_2p64)
  then show "unat (of_nat i :: size_t) = i" by (rule unat_of_nat_lt)
qed

lemma map_abs_None: "map_ok m \<Longrightarrow> map_abs m k = None \<longleftrightarrow> k \<notin> set (vec_list (tags m))"
  by (simp add: map_abs_def map_ok_def)

lemma map_index_present:
  assumes "map_ok m" and "map_abs m k = Some x"
  obtains i where "map_index T m k = Some (of_nat i, m)" "i < unat (buf_size (data m))"
    "unat (of_nat i :: size_t) = i" "vec_list (data m) ! i = x" "vec_list (tags m) ! i = k"
proof -
  have k: "k \<in> set (vec_list (tags m))" using assms map_abs_None [of m k] by auto
  show thesis
    using that map_position [OF assms(1) k] map_find_0 [OF assms(1), of k] k assms(2)
    by (simp add: map_index_def)
qed

lemma map_index_absent:
  assumes "map_inv m" and "map_abs m k = None" and "map_room T (unat (map_size m))"
  obtains i n where "map_index T m k = Some (i, n)" "map_inv n" "unat i = unat (map_size m)"
    "vec_list (tags n) = vec_list (tags m) @ [k]" "vec_list (data n) = vec_list (data m) @ [default_data T]"
proof -
  have ok: "map_ok m" using assms(1) by (simp add: map_inv_def)
  have k: "k \<notin> set (vec_list (tags m))" using assms(2) ok by (simp add: map_abs_None)
  have len: "length (vec_list (tags m)) = unat (map_size m)" "length (vec_list (data m)) = unat (map_size m)"
    using ok by (simp_all add: map_ok_def map_size_def)
  obtain ts where ts: "vector_push (tag_type T) (tags m) k = Some ts" "vec_inv ts" "vec_list ts = vec_list (tags m) @ [k]"
    using vec.push [of "tags m" "tag_type T" k] assms(1,3) len by (auto simp: map_inv_def map_room_def)
  obtain ds where ds: "vector_push (data_type T) (data m) (default_data T) = Some ds" "vec_inv ds"
    "vec_list ds = vec_list (data m) @ [default_data T]"
    using vec.push [of "data m" "data_type T" "default_data T"] assms(1,3) len by (auto simp: map_inv_def map_room_def)
  have sz: "unat (buf_size ts) = Suc (unat (map_size m))" "unat (buf_size ds) = Suc (unat (map_size m))"
    using ts ds len vec_list_length [of ts] vec_list_length [of ds] by (simp_all add: vec_inv_def)
  then have "unat (buf_size ds - 1) = unat (map_size m)" by (subst unat_sub) (simp_all add: word_le_nat_alt)
  moreover have "map_inv (m\<lparr>tags := ts, data := ds\<rparr>)"
    using ok ts ds sz k by (auto simp: map_inv_def map_ok_def vec_inv_def intro: word_eq_unatI)
  ultimately show thesis
    using that map_find_0 [OF ok, of k] k ts ds by (simp add: map_index_def)
qed

lemma vector_set_list:
  assumes "vec_ok v" and "i < buf_size v"
  shows "\<exists>w. vector_set v i x = Some w \<and> vec_ok w \<and> vec_list w = (vec_list v)[unat i := x]
    \<and> buf_size w = buf_size v \<and> (vec_inv v \<longrightarrow> vec_inv w)"
proof -
  let ?w = "v\<lparr>elements := (elements v)[unat i := Some x]\<rparr>"
  have i: "unat i < unat (buf_size v)" "unat i < length (elements v)"
    using assms by (simp_all add: word_less_nat_alt vec_ok_def)
  have "vec_ok ?w \<and> vec_list ?w = (vec_list v)[unat i := x]"
    using assms(1) i vec_list_nth [OF assms(1)]
    by (intro vec_listI) (auto simp: nth_list_update vec_ok_def)
  then show ?thesis using i by (auto simp: vector_set_def vec_inv_def)
qed

lemma map_of_zip_update:
  assumes "distinct ks" and "i < length ks" and "length ks = length vs"
  shows "map_of (zip ks (vs[i := x])) = (map_of (zip ks vs))(ks ! i \<mapsto> x)"
  using assms
proof (induction ks vs arbitrary: i rule: list_induct2')
  case (4 k ks v vs)
  then show ?case by (cases i) (auto simp: fun_eq_iff)
qed auto

lemma map_of_zip_snoc:
  "length ks = length vs \<Longrightarrow> k \<notin> set ks \<Longrightarrow> map_of (zip (ks @ [k]) (vs @ [x])) = (map_of (zip ks vs))(k \<mapsto> x)"
  by (induction ks vs rule: list_induct2) auto

text \<open>Storing at a position the map knows.\<close>

lemma map_store:
  assumes "map_ok n" and "i < buf_size (data n)" and "vec_list (tags n) ! unat i = k"
  shows "\<exists>ds. vector_set (data n) i x = Some ds \<and> map_ok (n\<lparr>data := ds\<rparr>)
    \<and> map_abs (n\<lparr>data := ds\<rparr>) = (map_abs n)(k \<mapsto> x) \<and> (map_inv n \<longrightarrow> map_inv (n\<lparr>data := ds\<rparr>))"
proof -
  obtain ds where ds: "vector_set (data n) i x = Some ds" "vec_ok ds" "vec_list ds = (vec_list (data n))[unat i := x]"
    "buf_size ds = buf_size (data n)" "vec_inv (data n) \<longrightarrow> vec_inv ds"
    using vector_set_list [of "data n" i x] assms(1,2) by (auto simp: map_ok_def)
  have "unat i < length (vec_list (tags n))" "length (vec_list (tags n)) = length (vec_list (data n))"
    using assms(1,2) by (simp_all add: map_ok_def word_less_nat_alt)
  then have "map_abs (n\<lparr>data := ds\<rparr>) = (map_abs n)(k \<mapsto> x)"
    using map_of_zip_update [of "vec_list (tags n)" "unat i" "vec_list (data n)" x] assms(1,3) ds(3)
    by (simp add: map_abs_def map_ok_def)
  then show ?thesis using ds assms(1) by (auto simp: map_ok_def map_inv_def)
qed

section \<open>The finite map interface\<close>

text \<open>
  What the clients rely on. Reading a key that is not there inserts the default value: there
  is no lookup without effect.
\<close>

locale finite_map =
  fixes inv :: "'m \<Rightarrow> bool"
    and abs :: "'m \<Rightarrow> 'k \<rightharpoonup> 'v"
    and room :: "'m \<Rightarrow> bool"
    and default :: 'v
    and get :: "'m \<Rightarrow> 'k \<Rightarrow> ('v \<times> 'm) option"
    and put :: "'m \<Rightarrow> 'k \<Rightarrow> 'v \<Rightarrow> 'm option"
  assumes get_present: "inv m \<Longrightarrow> abs m k = Some x \<Longrightarrow> get m k = Some (x, m)"
    and get_absent: "inv m \<Longrightarrow> room m \<Longrightarrow> abs m k = None \<Longrightarrow>
      \<exists>n. get m k = Some (default, n) \<and> inv n \<and> abs n = (abs m)(k \<mapsto> default)"
    and put: "inv m \<Longrightarrow> room m \<Longrightarrow> \<exists>n. put m k x = Some n \<and> inv n \<and> abs n = (abs m)(k \<mapsto> x)"
begin

lemma get_put_same: "inv m \<Longrightarrow> room m \<Longrightarrow> \<exists>n. put m k x = Some n \<and> get n k = Some (x, n)"
  using put [of m k x] get_present by fastforce

lemma get_put_other:
  assumes "inv m" and "room m" and "j \<noteq> k" and "abs m j = Some y"
  shows "\<exists>n. put m k x = Some n \<and> get n j = Some (y, n)"
  using put [OF assms(1,2), of k x] get_present [of _ j y] assms(3,4) by fastforce

lemma get_keeps:
  assumes "inv m" and "room m" and "get m k = Some (x, n)" and "abs m j = Some y"
  shows "abs n j = Some y"
  using assms get_present [of m k] get_absent [of m k] by (cases "abs m k") (auto split: if_splits)

end

interpretation kmap: finite_map map_inv map_abs "\<lambda>m. map_room T (unat (map_size m))" "default_data T"
  "map_get T" "map_put T" for T :: "'t map_types"
proof unfold_locales
  fix m :: "('f, 't) kmap" and k x
  assume inv: "map_inv m"
  then have ok: "map_ok m" by (simp add: map_inv_def)
  show "map_get T m k = Some (x, m)" if some: "map_abs m k = Some x"
  proof -
    obtain i where i: "map_index T m k = Some (of_nat i, m)" "i < unat (buf_size (data m))"
      "unat (of_nat i :: size_t) = i" "vec_list (data m) ! i = x"
      using map_index_present [OF ok some] by blast
    then have "vector_at (data m) (of_nat i) = Some x"
      using ok by (subst vector_at_list) (simp_all add: map_ok_def word_less_nat_alt)
    then show ?thesis using i(1) by (simp add: map_get_def)
  qed
  assume room: "map_room T (unat (map_size m))"
  show "\<exists>n. map_get T m k = Some (default_data T, n) \<and> map_inv n \<and> map_abs n = (map_abs m)(k \<mapsto> default_data T)"
    if none: "map_abs m k = None"
  proof -
    obtain i n where n: "map_index T m k = Some (i, n)" "map_inv n" "unat i = unat (map_size m)"
      "vec_list (tags n) = vec_list (tags m) @ [k]" "vec_list (data n) = vec_list (data m) @ [default_data T]"
      using map_index_absent [OF inv none room] by blast
    have len: "length (vec_list (tags m)) = unat (map_size m)" "length (vec_list (data m)) = unat (map_size m)"
      using ok by (simp_all add: map_ok_def map_size_def)
    have "unat (buf_size (data n)) = length (vec_list (data n))" using n(2) by (simp add: map_inv_def map_ok_def)
    then have "vector_at (data n) i = Some (default_data T)"
      using n len by (subst vector_at_list) (simp_all add: word_less_nat_alt map_inv_def map_ok_def nth_append)
    moreover have "map_abs n = (map_abs m)(k \<mapsto> default_data T)"
      using n(4,5) len none ok map_of_zip_snoc [of "vec_list (tags m)" "vec_list (data m)"]
      by (simp add: map_abs_def [of n] map_abs_def [of m, symmetric] map_abs_None)
    ultimately show ?thesis using n by (simp add: map_get_def)
  qed
  show "\<exists>n. map_put T m k x = Some n \<and> map_inv n \<and> map_abs n = (map_abs m)(k \<mapsto> x)"
  proof (cases "map_abs m k")
    case (Some y)
    obtain i where i: "map_index T m k = Some (of_nat i, m)" "i < unat (buf_size (data m))"
      "unat (of_nat i :: size_t) = i" "vec_list (tags m) ! i = k"
      using map_index_present [OF ok Some] by blast
    then show ?thesis
      using map_store [OF ok, of "of_nat i" k x] inv by (auto simp: map_put_def word_less_nat_alt)
  next
    case None
    obtain i n where n: "map_index T m k = Some (i, n)" "map_inv n" "unat i = unat (map_size m)"
      "vec_list (tags n) = vec_list (tags m) @ [k]" "vec_list (data n) = vec_list (data m) @ [default_data T]"
      using map_index_absent [OF inv None room] by blast
    have len: "length (vec_list (tags m)) = unat (map_size m)" "length (vec_list (data m)) = unat (map_size m)"
      using ok by (simp_all add: map_ok_def map_size_def)
    have okn: "map_ok n" using n(2) by (simp add: map_inv_def)
    then have "unat (buf_size (data n)) = length (vec_list (data n))" by (simp add: map_ok_def)
    then have lt: "i < buf_size (data n)" using n len by (simp add: word_less_nat_alt)
    have "vec_list (tags n) ! unat i = k" using n len by (simp add: nth_append)
    moreover have "map_abs n = (map_abs m)(k \<mapsto> default_data T)"
      using n(4,5) len None ok map_of_zip_snoc [of "vec_list (tags m)" "vec_list (data m)"]
      by (simp add: map_abs_def [of n] map_abs_def [of m, symmetric] map_abs_None)
    ultimately show ?thesis using map_store [OF okn lt, of k x] n(1,2) by (auto simp: map_put_def)
  qed
qed

section \<open>Positions\<close>

text \<open>The effect of a store on the two vectors: a known key keeps its place, a new one comes last.\<close>

lemma map_inv_lengths:
  assumes "map_inv m"
  shows "length (vec_list (data m)) = length (vec_list (tags m))" and "unat (map_size m) = length (vec_list (tags m))"
    and "distinct (vec_list (tags m))" and "unat (buf_size (tags m)) = length (vec_list (tags m))"
  using assms by (simp_all add: map_inv_def map_ok_def map_size_def)

lemma map_abs_nth:
  assumes "map_inv m" and "i < length (vec_list (tags m))"
  shows "map_abs m (vec_list (tags m) ! i) = Some (vec_list (data m) ! i)"
  using assms map_of_zip_nth [of "vec_list (tags m)" "vec_list (data m)" i] map_inv_lengths [OF assms(1)]
  by (simp add: map_abs_def)

lemma map_abs_dom: "map_inv m \<Longrightarrow> dom (map_abs m) = set (vec_list (tags m))"
  using map_inv_lengths [of m] by (simp add: map_abs_def)

lemma map_abs_obtain:
  assumes "map_inv m" and "map_abs m k = Some x"
  obtains i where "i < length (vec_list (tags m))" "vec_list (tags m) ! i = k" "vec_list (data m) ! i = x"
proof -
  have "k \<in> set (vec_list (tags m))" using map_abs_dom [OF assms(1)] assms(2) by blast
  then obtain i where "i < length (vec_list (tags m))" "vec_list (tags m) ! i = k" by (auto simp: in_set_conv_nth)
  then show thesis using that map_abs_nth [OF assms(1)] assms(2) by auto
qed

lemma map_put_present:
  assumes "map_inv m" and "i < length (vec_list (tags m))" and "k = vec_list (tags m) ! i"
  shows "\<exists>n. map_put T m k x = Some n \<and> map_inv n \<and> tags n = tags m \<and> vec_list (data n) = (vec_list (data m))[i := x]
    \<and> map_abs n = (map_abs m)(k \<mapsto> x)"
proof -
  have ok: "map_ok m" using assms(1) by (simp add: map_inv_def)
  obtain j where j: "map_index T m k = Some (of_nat j, m)" "j < unat (buf_size (data m))"
    "unat (of_nat j :: size_t) = j" "vec_list (tags m) ! j = k"
    using map_index_present [OF ok] map_abs_nth [OF assms(1,2)] assms(3) by metis
  have "j < length (vec_list (tags m))" using j(2) ok by (simp add: map_ok_def)
  then have ji: "j = i" using map_inv_lengths(3) [OF assms(1)] assms(2,3) j(4) by (simp add: nth_eq_iff_index_eq)
  have lt: "of_nat j < buf_size (data m)" using j(2,3) by (simp add: word_less_nat_alt)
  obtain ds where ds: "vector_set (data m) (of_nat j) x = Some ds" "vec_list ds = (vec_list (data m))[j := x]"
    using vector_set_list [of "data m" "of_nat j" x] lt ok j(3) by (auto simp: map_ok_def)
  then have p: "map_put T m k x = Some (m\<lparr>data := ds\<rparr>)" using j(1) by (simp add: map_put_def)
  have "map_inv (m\<lparr>data := ds\<rparr>) \<and> map_abs (m\<lparr>data := ds\<rparr>) = (map_abs m)(k \<mapsto> x)"
    using map_store [OF ok lt, of k x] j(3,4) ds(1) assms(1) by auto
  then show ?thesis using p ds(2) ji by simp
qed

lemma map_put_absent:
  assumes "map_inv m" and "map_abs m k = None" and "map_room T (unat (map_size m))"
  shows "\<exists>n. map_put T m k x = Some n \<and> map_inv n \<and> vec_list (tags n) = vec_list (tags m) @ [k]
    \<and> vec_list (data n) = vec_list (data m) @ [x] \<and> map_abs n = (map_abs m)(k \<mapsto> x)"
proof -
  obtain i n where n: "map_index T m k = Some (i, n)" "map_inv n" "unat i = unat (map_size m)"
    "vec_list (tags n) = vec_list (tags m) @ [k]" "vec_list (data n) = vec_list (data m) @ [default_data T]"
    using map_index_absent [OF assms] by blast
  have len: "unat i = length (vec_list (data m))" using n(3) map_inv_lengths [OF assms(1)] by simp
  have "unat (buf_size (data n)) = length (vec_list (data n))"
    using n(2) by (simp add: map_inv_def map_ok_def)
  then have lt: "i < buf_size (data n)" using n(5) len by (simp add: word_less_nat_alt)
  have okn: "map_ok n" using n(2) by (simp add: map_inv_def)
  obtain ds where ds: "vector_set (data n) i x = Some ds" "vec_list ds = (vec_list (data n))[unat i := x]"
    using vector_set_list [of "data n" i x] lt okn by (auto simp: map_ok_def)
  have inv: "map_inv (n\<lparr>data := ds\<rparr>)"
    using map_store [OF okn lt refl, of x] ds(1) n(2) by auto
  have "map_put T m k x = Some (n\<lparr>data := ds\<rparr>)" using n(1) ds(1) by (simp add: map_put_def)
  moreover have "map_abs (n\<lparr>data := ds\<rparr>) = (map_abs m)(k \<mapsto> x)"
    using kmap.put [OF assms(1,3), of k x] calculation by auto
  ultimately show ?thesis using inv n(4,5) ds(2) len by simp
qed

section \<open>Maps from lists\<close>

text \<open>The map with the given entries and no spare room, for states written out.\<close>

definition vec_of :: "'a list \<Rightarrow> 'a vector" where
  "vec_of xs = \<lparr>elements = map Some xs, buf_size = of_nat (length xs), buf_cap = of_nat (length xs)\<rparr>"

definition kmap_of :: "('f \<times> 't) list \<Rightarrow> ('f, 't) kmap" where
  "kmap_of al = \<lparr>tags = vec_of (map fst al), data = vec_of (map snd al)\<rparr>"

lemma vec_of_list:
  assumes "length xs < 2 ^ 64"
  shows "vec_inv (vec_of xs)" and "vec_list (vec_of xs) = xs" and "vec_ok (vec_of xs)"
proof -
  have b: "unat (buf_size (vec_of xs)) = length xs" using assms unat_of_nat_lt [of "length xs"] by (simp add: vec_of_def)
  have "vec_ok (vec_of xs) \<and> vec_list (vec_of xs) = xs"
    using b by (intro vec_listI) (simp_all add: vec_of_def)
  then show "vec_ok (vec_of xs)" "vec_list (vec_of xs) = xs" "vec_inv (vec_of xs)"
    using b by (simp_all add: vec_inv_def) (simp_all add: vec_of_def)
qed

lemma kmap_of_inv:
  assumes "length al < 2 ^ 64" and "distinct (map fst al)"
  shows "map_inv (kmap_of al)" and "map_abs (kmap_of al) = map_of al" and "unat (map_size (kmap_of al)) = length al"
proof -
  note v = vec_of_list [of "map fst al"] vec_of_list [of "map snd al"]
  show "map_inv (kmap_of al)" using v assms by (simp add: map_inv_def map_ok_def kmap_of_def) (simp add: vec_of_def)
  show "map_abs (kmap_of al) = map_of al" using v assms by (simp add: map_abs_def kmap_of_def zip_map_fst_snd)
  show "unat (map_size (kmap_of al)) = length al"
    using assms unat_of_nat_lt [of "length al"] by (simp add: map_size_def kmap_of_def vec_of_def)
qed

section \<open>Removal\<close>

lemma map_of_zip_remove:
  assumes "distinct ks" and "i < length ks" and "length ks = length vs"
  shows "map_of (zip (take i ks @ drop (Suc i) ks) (take i vs @ drop (Suc i) vs)) = (map_of (zip ks vs))(ks ! i := None)"
  using assms
proof (induction ks vs arbitrary: i rule: list_induct2')
  case (4 k ks v vs)
  then show ?case by (cases i) (auto simp: fun_eq_iff)
qed auto

definition map_fits :: "'t map_types \<Rightarrow> nat \<Rightarrow> bool" where
  "map_fits T n \<longleftrightarrow> 0 < sizeof (tag_type T) \<and> 0 < sizeof (data_type T)
     \<and> n * sizeof (tag_type T) \<le> 2 ^ 18 \<and> n * sizeof (data_type T) \<le> 2 ^ 18"

lemma map_remove_from_absent:
  assumes "map_ok m" and "k \<notin> set (drop (unat i) (vec_list (tags m)))" and "i \<le> buf_size (tags m)"
  shows "map_remove_from T m k i = Some m"
  using assms(2,3)
proof (induction "unat (buf_size (tags m)) - unat i" arbitrary: i rule: less_induct)
  case less
  show ?case
  proof (cases "i < buf_size (tags m)")
    case False
    then show ?thesis by (subst map_remove_from.simps) simp
  next
    case True
    then have lt: "unat i < unat (buf_size (tags m))" by (simp add: word_less_nat_alt)
    have i1: "unat (i + 1) = Suc (unat i)" by (rule unat_plus_1 [OF True])
    have ok: "vec_ok (tags m)" using assms(1) by (simp add: map_ok_def)
    have ne: "vec_list (tags m) ! unat i \<noteq> k"
      using less.prems(1) lt ok by (metis Cons_nth_drop_Suc list.set_intros(1) vec_list_length)
    have "map_remove_from T m k (i + 1) = Some m"
    proof (rule less.hyps)
      show "k \<notin> set (drop (unat (i + 1)) (vec_list (tags m)))"
        using less.prems(1) set_drop_subset_set_drop [of "unat i" "Suc (unat i)" "vec_list (tags m)"]
        by (auto simp: i1)
    qed (use lt i1 in \<open>simp_all add: word_le_nat_alt\<close>)
    then show ?thesis using True vector_at_list [OF ok True] ne by (subst map_remove_from.simps) simp
  qed
qed

lemma map_remove_step:
  assumes ok: "map_ok m" and i: "i < buf_size (tags m)" and k: "vec_list (tags m) ! unat i = k"
    and fits: "map_fits T (unat (buf_size (tags m)))"
  shows "\<exists>n. map_remove_from T m k i = Some n \<and> map_ok n \<and> map_abs n = (map_abs m)(k := None)"
proof -
  have ok': "vec_ok (tags m)" "vec_ok (data m)" "buf_size (data m) = buf_size (tags m)" "distinct (vec_list (tags m))"
    using ok by (simp_all add: map_ok_def)
  obtain ts where ts: "vector_remove (tag_type T) (tags m) i = Some ts" "vec_ok ts"
    "vec_list ts = take (unat i) (vec_list (tags m)) @ drop (Suc (unat i)) (vec_list (tags m))"
    "buf_size ts = buf_size (tags m) - 1"
    using vector_remove_list [OF ok'(1) i, of "tag_type T"] fits by (auto simp: map_fits_def)
  obtain ds where ds: "vector_remove (data_type T) (data m) i = Some ds" "vec_ok ds"
    "vec_list ds = take (unat i) (vec_list (data m)) @ drop (Suc (unat i)) (vec_list (data m))"
    "buf_size ds = buf_size (tags m) - 1"
    using vector_remove_list [OF ok'(2), of i "data_type T"] ok'(3) i fits by (auto simp: map_fits_def)
  define n where "n = m\<lparr>tags := ts, data := ds\<rparr>"
  have lt: "unat i < length (vec_list (tags m))" using i ok' by (simp add: word_less_nat_alt)
  have split: "vec_list (tags m) = take (unat i) (vec_list (tags m)) @ k # drop (Suc (unat i)) (vec_list (tags m))"
    using id_take_nth_drop [OF lt] k by simp
  then have "distinct (take (unat i) (vec_list (tags m)) @ k # drop (Suc (unat i)) (vec_list (tags m)))"
    using ok'(4) by simp
  then have nk: "distinct (vec_list ts)" "k \<notin> set (vec_list ts)" using ts(3) by auto
  have okn: "map_ok n" using ts ds nk by (simp add: n_def map_ok_def)
  have abs: "map_abs n = (map_abs m)(k := None)"
    using map_of_zip_remove [OF ok'(4) lt, of "vec_list (data m)"] ok' ts(3) ds(3) k
    by (simp add: map_abs_def n_def)
  have i1: "unat (i + 1) = Suc (unat i)" by (rule unat_plus_1 [OF i])
  have "map_remove_from T n k (i + 1) = Some n"
  proof (cases "i + 1 \<le> buf_size (tags n)")
    case True
    have "k \<notin> set (drop (unat (i + 1)) (vec_list (tags n)))"
      using nk(2) set_drop_subset [of _ "vec_list ts"] by (auto simp: n_def)
    then show ?thesis by (rule map_remove_from_absent [OF okn _ True])
  next
    case False
    then have "\<not> i + 1 < buf_size (tags n)" by (simp add: not_le less_asym)
    then show ?thesis by (subst map_remove_from.simps) (simp only: if_False)
  qed
  then have "map_remove_from T m k i = Some n"
    using i vector_at_list [OF ok'(1) i] k ts(1) ds(1) by (subst map_remove_from.simps) (simp add: n_def)
  then show ?thesis using okn abs by blast
qed

lemma map_remove_from_correct:
  assumes ok: "map_ok m" and fits: "map_fits T (unat (buf_size (tags m)))" and i: "i \<le> buf_size (tags m)"
    and k: "k \<notin> set (take (unat i) (vec_list (tags m)))"
  shows "\<exists>n. map_remove_from T m k i = Some n \<and> map_ok n \<and> map_abs n = (map_abs m)(k := None)"
  using i k
proof (induction "unat (buf_size (tags m)) - unat i" arbitrary: i rule: less_induct)
  case less
  have len: "length (vec_list (tags m)) = unat (buf_size (tags m))" using ok by (simp add: map_ok_def)
  show ?case
  proof (cases "i < buf_size (tags m)")
    case False
    then have "unat (buf_size (tags m)) \<le> unat i" by (simp add: word_less_nat_alt)
    then have "k \<notin> set (vec_list (tags m))" using less.prems(2) len by simp
    then have "map_abs m k = None" using ok by (simp add: map_abs_None)
    then have "map_abs m = (map_abs m)(k := None)" by auto
    then show ?thesis using False ok by (subst map_remove_from.simps) simp
  next
    case True
    show ?thesis
    proof (cases "vec_list (tags m) ! unat i = k")
      case hit: True
      then show ?thesis using map_remove_step [OF ok True hit fits] by simp
    next
      case miss: False
      have lt: "unat i < unat (buf_size (tags m))" using True by (simp add: word_less_nat_alt)
      have i1: "unat (i + 1) = Suc (unat i)" by (rule unat_plus_1 [OF True])
      have "\<exists>n. map_remove_from T m k (i + 1) = Some n \<and> map_ok n \<and> map_abs n = (map_abs m)(k := None)"
        by (rule less.hyps) (use lt i1 less.prems miss len in \<open>simp_all add: word_le_nat_alt take_Suc_conv_app_nth\<close>)
      moreover have "map_remove_from T m k i = map_remove_from T m k (i + 1)"
        using True ok vector_at_list [of "tags m" i] miss
        by (subst map_remove_from.simps) (simp add: map_ok_def)
      ultimately show ?thesis by simp
    qed
  qed
qed

section \<open>Properties\<close>

text \<open>
  C40. A map behaves as a finite function: a value that was stored is read back, other keys keep
  theirs, and reading an unknown key stores and returns the default value.
\<close>

theorem map_put_get:
  assumes "map_inv m" and "map_room T (unat (map_size m))"
  shows "(\<exists>n. map_put T m k x = Some n \<and> map_inv n \<and> map_abs n = (map_abs m)(k \<mapsto> x) \<and> map_get T n k = Some (x, n))
    \<and> (map_abs m k = None \<longrightarrow>
        (\<exists>n. map_get T m k = Some (default_data T, n) \<and> map_inv n \<and> map_abs n = (map_abs m)(k \<mapsto> default_data T)))"
  using kmap.put [OF assms, of k x] kmap.get_present [of _ k x T] kmap.get_absent [OF assms, of k] by fastforce

theorem map_put_get_witness:
  "\<exists>n. map_put \<lparr>tag_type = \<lparr>sizeof = 8, trivial_dtor = True\<rparr>, data_type = \<lparr>sizeof = 8, trivial_dtor = True\<rparr>,
      default_data = (0 :: nat)\<rparr> map_new (3 :: nat) 7 = Some n \<and> map_abs n = [3 \<mapsto> 7]"
proof -
  let ?T = "\<lparr>tag_type = \<lparr>sizeof = 8, trivial_dtor = True\<rparr>, data_type = \<lparr>sizeof = 8, trivial_dtor = True\<rparr>,
      default_data = (0 :: nat)\<rparr>"
  have "map_inv (map_new :: (nat, nat) kmap)"
    by (simp add: map_inv_def map_ok_def map_new_def)
  moreover have "map_room ?T (unat (map_size (map_new :: (nat, nat) kmap)))"
    by (simp add: map_room_def seq_room_def map_size_def map_new_def vector_new_def)
  moreover have "map_abs (map_new :: (nat, nat) kmap) = Map.empty" by (simp add: map_abs_def map_new_def)
  ultimately show ?thesis using map_put_get [of map_new ?T "3 :: nat" 7] by auto
qed

text \<open>
  Removing a key ends, although the loop goes on after the removal on the shifted vectors,
  and removes exactly that key.
\<close>

theorem map_remove_correct:
  assumes "map_ok m" and "map_fits T (unat (map_size m))"
  shows "\<exists>n. map_remove T m k = Some n \<and> map_ok n \<and> map_abs n = (map_abs m)(k := None)"
  using map_remove_from_correct [of m T 0 k] assms by (simp add: map_remove_def map_size_def)

theorem map_remove_correct_witness:
  "\<exists>n. map_remove \<lparr>tag_type = \<lparr>sizeof = 8, trivial_dtor = True\<rparr>, data_type = \<lparr>sizeof = 8, trivial_dtor = True\<rparr>,
      default_data = (0 :: nat)\<rparr> (map_new :: (nat, nat) kmap) 3 = Some n \<and> map_abs n = Map.empty"
proof -
  have "map_ok (map_new :: (nat, nat) kmap)"
    by (simp add: map_ok_def map_new_def)
  moreover have "map_abs (map_new :: (nat, nat) kmap) = Map.empty" by (simp add: map_abs_def map_new_def)
  ultimately show ?thesis
    using map_remove_correct [of map_new "\<lparr>tag_type = \<lparr>sizeof = 8, trivial_dtor = True\<rparr>,
        data_type = \<lparr>sizeof = 8, trivial_dtor = True\<rparr>, default_data = (0 :: nat)\<rparr>" "3 :: nat"]
    by (auto simp: map_fits_def map_size_def map_new_def vector_new_def)
qed

end
