(* ===== verification/KString.thy ===== *)
theory KString
  imports Vector
begin

text \<open>
  \<^verbatim>\<open>kernel/lib/string.cpp\<close>. A string is the heap block its pointer lies in, the offset of the
  pointer in the block (the increment operators move it) and the length. Cells that were never
  written are \<open>None\<close>; comparing one is undefined, copying one is not. A pointer argument is the
  list of cells from the pointer on.
\<close>

section \<open>Definitions\<close>

type_synonym cells = "char option list"

record kstring =
  str_raw :: cells
  str_off :: nat
  str_length :: size_t

definition npos :: size_t where
  "npos = NOT 0"

definition str_cells :: "kstring \<Rightarrow> cells" where
  "str_cells s = drop (str_off s) (str_raw s)"

definition new_chars :: "size_t \<Rightarrow> cells" where
  "new_chars n = replicate (heap_block (unat n)) None"

definition string_empty :: kstring where
  "string_empty = \<lparr>str_raw = [], str_off = 0, str_length = 0\<rparr>"

fun cells_strlen :: "cells \<Rightarrow> size_t option" where
  "cells_strlen (Some c # cs) = (if c = NUL then Some 0 else map_option ((+) 1) (cells_strlen cs))"
| "cells_strlen _ = None"

definition string_copy :: "kstring \<Rightarrow> kstring option" where
  "string_copy other = do {
     b \<leftarrow> memcpy_loop (new_chars (str_length other + 1)) 0 (str_cells other) 0 (str_length other);
     b \<leftarrow> write_at b (unat (str_length other)) (Some NUL);
     Some \<lparr>str_raw = b, str_off = 0, str_length = str_length other\<rparr>
   }"

definition string_of_raw :: "cells \<Rightarrow> kstring option" where
  "string_of_raw raw = do {
     len \<leftarrow> cells_strlen raw;
     b \<leftarrow> memcpy_loop (new_chars (len + 1)) 0 raw 0 len;
     b \<leftarrow> write_at b (unat len) (Some NUL);
     Some \<lparr>str_raw = b, str_off = 0, str_length = len\<rparr>
   }"

definition string_of_raw_len :: "cells \<Rightarrow> size_t \<Rightarrow> kstring option" where
  "string_of_raw_len raw len = do {
     b \<leftarrow> memcpy_loop (new_chars len) 0 raw 0 len;
     b \<leftarrow> write_at b (unat len) (Some NUL);
     Some \<lparr>str_raw = b, str_off = 0, str_length = len\<rparr>
   }"

fun cells_eq :: "cells \<Rightarrow> cells \<Rightarrow> nat \<Rightarrow> bool option" where
  "cells_eq a b 0 = Some True"
| "cells_eq (Some x # a) (Some y # b) (Suc n) = (if x \<noteq> y then Some False else cells_eq a b n)"
| "cells_eq _ _ (Suc n) = None"

definition string_eq :: "kstring \<Rightarrow> kstring \<Rightarrow> bool option" where
  "string_eq s a =
     (if str_length s \<noteq> str_length a then Some False
      else cells_eq (str_cells s) (str_cells a) (unat (str_length s)))"

definition string_neq :: "kstring \<Rightarrow> kstring \<Rightarrow> bool option" where
  "string_neq s a = map_option Not (string_eq s a)"

definition string_at :: "kstring \<Rightarrow> size_t \<Rightarrow> char option" where
  "string_at s i = do { c \<leftarrow> read_at (str_cells s) (unat i); c }"

definition string_incr :: "kstring \<Rightarrow> kstring" where
  "string_incr s = s\<lparr>str_length := str_length s - 1, str_off := str_off s + 1\<rparr>"

definition string_decr :: "kstring \<Rightarrow> kstring option" where
  "string_decr s = (if str_off s = 0 then None
     else Some (s\<lparr>str_length := str_length s + 1, str_off := str_off s - 1\<rparr>))"

definition string_plus :: "kstring \<Rightarrow> kstring \<Rightarrow> kstring option" where
  "string_plus s other = do {
     new_str \<leftarrow> memcpy_loop (new_chars (str_length other + str_length s)) 0 (str_cells s) 0 (str_length s + 1);
     new_str \<leftarrow> memcpy_loop new_str (unat (str_length s)) (str_cells other) 0 (str_length other);
     let new_length = str_length s + str_length other;
     new_str \<leftarrow> write_at new_str (unat new_length) (Some NUL);
     string_of_raw_len new_str new_length
   }"

definition string_plus_assign :: "kstring \<Rightarrow> kstring \<Rightarrow> kstring option" where
  "string_plus_assign s other = string_plus s other"

text \<open>
  The digits are written backwards into a static buffer of 50 characters, which the at most 19
  digits of a 64-bit number do not fill. A negative remainder indexes before the digit table.
\<close>

definition digits :: string where
  "digits = ''0123456789''"

function number_loop :: "int \<Rightarrow> string \<Rightarrow> string option" where
  "number_loop number str =
     (if number smod 10 < 0 then None
      else let str = digits ! nat (number smod 10) # str;
               number = number sdiv 10
           in if number \<noteq> 0 then number_loop number str else Some str)"
  by pat_completeness auto
termination
proof (relation "measure (\<lambda>(n, s). nat \<bar>n\<bar>)", goal_cases)
  case (2 n s x xa)
  have "nat \<bar>n sdiv 10\<bar> < nat \<bar>n\<bar>" if "n sdiv 10 \<noteq> 0"
    using that by (cases "n < 0") (simp add: sdiv_neg, simp add: sdiv_nonneg, presburger)
  then show ?case using 2 by simp
qed simp

declare number_loop.simps [simp del]

definition string_plus_number :: "kstring \<Rightarrow> ssize_t \<Rightarrow> kstring option" where
  "string_plus_number s number = do {
     str \<leftarrow> number_loop (sint number) [];
     n \<leftarrow> string_of_raw (map Some (str @ [NUL]));
     string_plus s n
   }"

fun find_first_loop :: "cells \<Rightarrow> char \<Rightarrow> nat \<Rightarrow> nat \<Rightarrow> size_t option" where
  "find_first_loop cs c i 0 = Some npos"
| "find_first_loop cs c i (Suc n) = do {
     x \<leftarrow> read_at cs i;
     x \<leftarrow> x;
     if x = c then Some (of_nat i) else find_first_loop cs c (Suc i) n
   }"

definition find_first :: "kstring \<Rightarrow> char \<Rightarrow> size_t \<Rightarrow> size_t option" where
  "find_first s c start = find_first_loop (str_cells s) c (unat start) (unat (str_length s) - unat start)"

text \<open>The loop runs downwards over \<open>i - 1, ..., 0\<close>.\<close>

fun find_last_loop :: "cells \<Rightarrow> char \<Rightarrow> nat \<Rightarrow> size_t option" where
  "find_last_loop cs c 0 = Some npos"
| "find_last_loop cs c (Suc i) = do {
     x \<leftarrow> read_at cs i;
     x \<leftarrow> x;
     if x = c then Some (of_nat i) else find_last_loop cs c i
   }"

definition find_last :: "kstring \<Rightarrow> char \<Rightarrow> size_t option" where
  "find_last s c = find_last_loop (str_cells s) c (nat (sint (str_length s)))"

definition string_erase :: "kstring \<Rightarrow> size_t \<Rightarrow> size_t \<Rightarrow> kstring option" where
  "string_erase s pos sz = do {
     let sz = (if sz = npos then str_length s - pos else sz);
     tmp \<leftarrow> memcpy_loop (new_chars (str_length s - sz)) 0 (str_cells s) 0 pos;
     tmp \<leftarrow> memcpy_loop tmp (unat pos) (str_cells s) (unat (pos + sz))
             (of_nat (unat (str_length s) - unat (pos + sz)));
     Some \<lparr>str_raw = tmp, str_off = 0, str_length = str_length s - sz\<rparr>
   }"

definition string_substr :: "kstring \<Rightarrow> size_t \<Rightarrow> size_t \<Rightarrow> kstring option" where
  "string_substr s start sz =
     (let sz = (if sz = npos then str_length s - start else sz)
      in if sz = 0 then Some string_empty
         else string_of_raw_len (drop (unat start) (str_cells s)) sz)"

definition string_swap :: "kstring \<Rightarrow> kstring \<Rightarrow> kstring \<times> kstring" where
  "string_swap a b = (b, a)"

section \<open>The value of a string\<close>

definition str_ok :: "kstring \<Rightarrow> bool" where
  "str_ok s \<longleftrightarrow> unat (str_length s) \<le> length (str_cells s)
     \<and> (\<forall>i < unat (str_length s). str_cells s ! i \<noteq> None)"

definition str_val :: "kstring \<Rightarrow> string" where
  "str_val s = map the (take (unat (str_length s)) (str_cells s))"

lemma str_val_length [simp]: "str_ok s \<Longrightarrow> length (str_val s) = unat (str_length s)"
  by (simp add: str_val_def str_ok_def)

lemma str_prefix: "str_ok s \<Longrightarrow> take (unat (str_length s)) (str_cells s) = map Some (str_val s)"
  by (rule nth_equalityI) (auto simp: str_val_def str_ok_def)

lemma str_nth: "str_ok s \<Longrightarrow> i < unat (str_length s) \<Longrightarrow> str_cells s ! i = Some (str_val s ! i)"
  by (auto simp: str_val_def str_ok_def)

lemma str_valI:
  assumes "str_cells s = map Some xs @ ys" and "unat (str_length s) = length xs"
  shows "str_ok s \<and> str_val s = xs"
  using assms by (simp add: str_ok_def str_val_def nth_append comp_def)

text \<open>There is room for a terminator behind \<open>n\<close> characters in the block for \<open>n\<close> of them.\<close>

definition terminator_fits :: "nat \<Rightarrow> bool" where
  "terminator_fits n \<longleftrightarrow> n < heap_block n"

lemma string_of_raw_len_val:
  assumes "raw = map Some xs @ ys" and "length xs = unat len" and "terminator_fits (unat len)"
  shows "\<exists>s. string_of_raw_len raw len = Some s \<and> str_ok s \<and> str_val s = xs
    \<and> str_length s = len \<and> string_at s len = Some NUL"
proof -
  let ?b = "new_chars len"
  have lb: "unat len < length ?b" using assms(3) by (simp add: new_chars_def terminator_fits_def)
  have "memcpy_loop ?b 0 raw 0 len = Some (map Some xs @ drop (unat len) ?b)"
    using memcpy_loop_eq [of 0 len ?b 0 raw] assms(1,2) lb by simp
  moreover have "drop (unat len) ?b = ?b ! unat len # drop (Suc (unat len)) ?b"
    using lb by (simp add: Cons_nth_drop_Suc)
  ultimately have run: "string_of_raw_len raw len = Some \<lparr>str_raw = map Some xs @ Some NUL # drop (Suc (unat len)) ?b,
      str_off = 0, str_length = len\<rparr>"
    using lb assms(2) by (simp add: string_of_raw_len_def list_update_append)
  then show ?thesis
    using str_valI [of "\<lparr>str_raw = map Some xs @ Some NUL # drop (Suc (unat len)) ?b, str_off = 0, str_length = len\<rparr>" xs]
      assms(2) by (simp add: str_cells_def string_at_def nth_append)
qed

lemma string_of_raw_len_faults:
  assumes "raw = map Some xs @ ys" and "length xs = unat len" and "\<not> terminator_fits (unat len)"
  shows "string_of_raw_len raw len = None"
proof -
  have "length (new_chars len) \<le> unat len" using assms(3) by (simp add: new_chars_def terminator_fits_def)
  moreover have "length b = length (new_chars len)" if "memcpy_loop (new_chars len) 0 raw 0 len = Some b" for b
    by (rule for_range_Some_invariant [where I = "\<lambda>k b. length b = length (new_chars len)",
          OF that [unfolded memcpy_loop_def]])
      (auto simp: fault_simps split: Option.bind_splits)
  ultimately show ?thesis
    by (cases "memcpy_loop (new_chars len) 0 raw 0 len") (simp_all add: string_of_raw_len_def bind_eq_None_conv write_at_None)
qed

lemma string_plus_val:
  assumes "str_ok s" and "str_ok t" and "string_at s (str_length s) \<noteq> None"
    and "unat (str_length s) + unat (str_length t) < 2 ^ 18"
    and fits: "terminator_fits (unat (str_length s) + unat (str_length t))"
  shows "\<exists>r. string_plus s t = Some r \<and> str_ok r \<and> str_val r = str_val s @ str_val t
    \<and> string_at r (str_length r) = Some NUL"
proof -
  let ?m = "unat (str_length s)" and ?n = "unat (str_length t)"
  have sum: "unat (str_length s + str_length t) = ?m + ?n" using assms(4) by (subst unat_add_lt) simp_all
  have m1: "unat (str_length s + 1) = Suc ?m" using assms(4) by (subst unat_add_lt) simp_all
  let ?b = "new_chars (str_length t + str_length s)"
  have lb: "?m + ?n < length ?b" using fits sum by (simp add: new_chars_def terminator_fits_def add.commute)
  have ls: "Suc ?m \<le> length (str_cells s)"
    using assms(3) by (auto simp: string_at_def read_at_def split: if_splits)
  have lt: "?n \<le> length (str_cells t)" using assms(2) by (simp add: str_ok_def)
  define b1 where "b1 = take (Suc ?m) (str_cells s) @ drop (Suc ?m) ?b"
  have c1: "memcpy_loop ?b 0 (str_cells s) 0 (str_length s + 1) = Some b1"
    using memcpy_loop_eq [of 0 "str_length s + 1" ?b 0 "str_cells s"] m1 ls lb by (simp add: b1_def)
  have l1: "length b1 = length ?b" using ls lb by (simp add: b1_def)
  have t1: "take ?m b1 = map Some (str_val s)"
    using str_prefix [OF assms(1)] ls by (simp add: b1_def)
  have c2: "memcpy_loop b1 ?m (str_cells t) 0 (str_length t)
      = Some (map Some (str_val s) @ map Some (str_val t) @ drop (?m + ?n) b1)"
    using memcpy_loop_eq [of ?m "str_length t" b1 0 "str_cells t"] lt lb l1 t1 str_prefix [OF assms(2)] by simp
  let ?x = "str_val s @ str_val t"
  have "drop (?m + ?n) b1 = b1 ! (?m + ?n) # drop (Suc (?m + ?n)) b1" using lb l1 by (simp add: Cons_nth_drop_Suc)
  then have c3: "write_at (map Some (str_val s) @ map Some (str_val t) @ drop (?m + ?n) b1) (?m + ?n) (Some NUL)
      = Some (map Some ?x @ Some NUL # drop (Suc (?m + ?n)) b1)"
    using assms(1,2) lb l1 by (simp add: list_update_append)
  have "string_plus s t = string_of_raw_len (map Some ?x @ Some NUL # drop (Suc (?m + ?n)) b1) (str_length s + str_length t)"
    using c1 c2 c3 sum by (simp add: string_plus_def)
  then show ?thesis
    using string_of_raw_len_val [OF refl, of ?x "str_length s + str_length t" "Some NUL # drop (Suc (?m + ?n)) b1"]
      assms(1,2) fits sum by auto
qed

lemma find_first_loop_val:
  assumes "str_ok s" and "i + n = unat (str_length s)"
  shows "find_first_loop (str_cells s) c i n = Some (if c \<in> set (drop i (str_val s))
    then of_nat (i + length (takeWhile (\<lambda>x. x \<noteq> c) (drop i (str_val s)))) else npos)"
  using assms(2)
proof (induction n arbitrary: i)
  case (Suc n)
  then have lt: "i < unat (str_length s)" by simp
  then have d: "drop i (str_val s) = str_val s ! i # drop (Suc i) (str_val s)"
    using assms(1) by (simp add: Cons_nth_drop_Suc)
  have "read_at (str_cells s) i = Some (Some (str_val s ! i))"
    using lt assms(1) str_nth [OF assms(1) lt] by (simp add: str_ok_def)
  then show ?case using Suc.IH [of "Suc i"] Suc.prems by (auto simp: d)
qed (simp add: assms(1))

lemma string_substr_val:
  assumes "str_ok s" and "unat start + unat sz \<le> unat (str_length s)" and "0 < sz" "sz \<noteq> npos"
    and "terminator_fits (unat sz)"
  shows "\<exists>r. string_substr s start sz = Some r \<and> str_ok r \<and> str_val r = take (unat sz) (drop (unat start) (str_val s))"
proof -
  let ?x = "take (unat sz) (drop (unat start) (str_val s))"
  have "drop (unat start) (str_cells s) = map Some ?x @ drop (unat sz) (drop (unat start) (str_cells s))"
  proof -
    have "take (unat sz) (drop (unat start) (str_cells s)) = map Some ?x"
      using assms(1,2) str_nth [OF assms(1)] by (intro nth_equalityI) (auto simp: str_ok_def)
    then show ?thesis by (metis append_take_drop_id)
  qed
  moreover have "length ?x = unat sz" using assms(1,2) by simp
  ultimately show ?thesis
    using string_of_raw_len_val [of "drop (unat start) (str_cells s)" ?x _ sz] assms(3-5)
    by (auto simp: string_substr_def)
qed

lemma cells_eq_val: "length x = n \<Longrightarrow> length y = n \<Longrightarrow> cells_eq (map Some x @ a) (map Some y @ b) n = Some (x = y)"
proof (induction n arbitrary: x y)
  case (Suc n)
  then obtain u us v vs where "x = u # us" "y = v # vs" by (metis length_Suc_conv)
  then show ?case using Suc by simp
qed simp

lemma string_eq_val:
  assumes "str_ok s" and "str_ok t"
  shows "string_eq s t = Some (str_val s = str_val t)"
proof (cases "str_length s = str_length t")
  case True
  have "str_cells x = map Some (str_val x) @ drop (unat (str_length x)) (str_cells x)" if "str_ok x" for x
    using str_prefix [OF that] by (metis append_take_drop_id)
  then show ?thesis
    using True assms cells_eq_val [of "str_val s" "unat (str_length s)" "str_val t"] by (metis string_eq_def str_val_length)
next
  case False
  then have "length (str_val s) \<noteq> length (str_val t)" using assms by (auto dest: word_eq_unatI)
  then show ?thesis using False by (auto simp: string_eq_def)
qed

section \<open>Decimal numbers\<close>

definition digit_value :: "char \<Rightarrow> nat" where
  "digit_value c = of_char c - 48"

definition decimal :: "string \<Rightarrow> nat" where
  "decimal ds = foldl (\<lambda>v c. 10 * v + digit_value c) 0 ds"

lemma digits_nth: "i < 10 \<Longrightarrow> digit_value (digits ! i) = i \<and> digits ! i \<noteq> NUL"
proof -
  assume "i < 10"
  then have "i \<in> {0, 1, 2, 3, 4, 5, 6, 7, 8, 9}" by auto
  then show ?thesis by (auto simp: digits_def digit_value_def)
qed

lemma decimal_foldl: "foldl (\<lambda>v c. 10 * v + digit_value c) a ds = a * 10 ^ length ds + decimal ds"
proof (induction ds arbitrary: a)
  case (Cons d ds)
  show ?case
    using Cons.IH [of "10 * a + digit_value d"] Cons.IH [of "digit_value d"]
    by (simp add: decimal_def algebra_simps)
qed (simp add: decimal_def)

lemma decimal_Cons: "decimal (d # ds) = digit_value d * 10 ^ length ds + decimal ds"
  using decimal_foldl [of "digit_value d" ds] by (simp add: decimal_def)

lemma number_loop_correct:
  "\<exists>r. number_loop (int n) str = Some (r @ str) \<and> decimal r = n \<and> r \<noteq> [] \<and> NUL \<notin> set r
    \<and> n < 10 ^ length r \<and> (1 < length r \<longrightarrow> 10 ^ (length r - 1) \<le> n)"
proof (induction n arbitrary: str rule: less_induct)
  case (less n)
  have q: "int n sdiv 10 = int (n div 10)" by (simp add: sdiv_nonneg zdiv_int)
  have m: "int n smod 10 = int (n mod 10)" by (cases "n = 0") (simp_all add: smod_int_alt_def q zmod_int minus_div_mult_eq_mod)
  let ?d = "digits ! (n mod 10)"
  have d: "digit_value ?d = n mod 10" "?d \<noteq> NUL" using digits_nth [of "n mod 10"] by simp_all
  have step: "number_loop (int n) str = (if n div 10 \<noteq> 0 then number_loop (int (n div 10)) (?d # str) else Some (?d # str))"
    by (subst number_loop.simps) (simp add: q m)
  show ?case
  proof (cases "n div 10 = 0")
    case True
    then have "n mod 10 = n" "n < 10" by simp_all
    then show ?thesis using step True d by (intro exI [of _ "[?d]"]) (simp add: decimal_def)
  next
    case False
    then have "n div 10 < n" by (simp add: div_less_dividend)
    from less.IH [OF this, of "?d # str"] obtain r where r: "number_loop (int (n div 10)) (?d # str) = Some (r @ ?d # str)"
      "decimal r = n div 10" "r \<noteq> []" "NUL \<notin> set r" "n div 10 < 10 ^ length r"
      "1 < length r \<longrightarrow> 10 ^ (length r - 1) \<le> n div 10" by blast
    have "decimal (r @ [?d]) = n" using r(2) d by (simp add: decimal_def)
    moreover have "n < 10 ^ length (r @ [?d])" using r(5) by simp
    moreover have "10 ^ (length (r @ [?d]) - 1) \<le> n"
    proof (cases "1 < length r")
      case True
      then have "(10::nat) ^ length r = 10 * 10 ^ (length r - 1)" by (metis One_nat_def Suc_pred less_trans power_Suc zero_less_one)
      moreover have "10 * 10 ^ (length r - 1) \<le> 10 * (n div 10)" using r(6) True by simp
      ultimately show ?thesis by simp
    next
      case short: False
      then have "length r = 1" using r(3) by (cases r) auto
      then show ?thesis using False by simp
    qed
    ultimately show ?thesis using step False r d by (intro exI [of _ "r @ [?d]"]) simp
  qed
qed

lemma decimal_length:
  assumes "1 < length ds \<longrightarrow> 10 ^ (length ds - 1) \<le> nat k" and "k < 2 ^ 63"
  shows "length ds \<le> 19"
proof (cases "1 < length ds")
  case True
  have k: "nat k < 10 ^ 19" using assms(2) by simp
  have "(10::nat) ^ (length ds - 1) \<le> nat k" using assms(1) True by blast
  from le_less_trans [OF this k] have "length ds - 1 < 19" by (rule power_less_imp_less_exp [rotated]) simp
  then show ?thesis by simp
qed simp

lemma cells_strlen_val: "NUL \<notin> set xs \<Longrightarrow> cells_strlen (map Some (xs @ [NUL])) = Some (of_nat (length xs))"
  by (induction xs) auto

lemma string_of_raw_val:
  assumes "NUL \<notin> set xs" and "length xs < 2 ^ 18"
  shows "\<exists>s. string_of_raw (map Some (xs @ [NUL])) = Some s \<and> str_ok s \<and> str_val s = xs \<and> string_at s (str_length s) = Some NUL"
proof -
  let ?n = "of_nat (length xs) :: size_t"
  have u: "unat ?n = length xs" using assms(2) by (intro unat_of_nat_lt) simp
  have u1: "unat (?n + 1) = Suc (length xs)" using u assms(2) by (subst unat_add_lt) simp_all
  have lb: "length xs < length (new_chars (?n + 1))"
    using heap_block_le [of "Suc (length xs)"] assms(2) u1 by (simp add: new_chars_def)
  let ?b = "map Some xs @ drop (length xs) (new_chars (?n + 1))"
  have "memcpy_loop (new_chars (?n + 1)) 0 (map Some (xs @ [NUL])) 0 ?n = Some ?b"
    using memcpy_loop_eq [of 0 ?n "new_chars (?n + 1)" 0 "map Some (xs @ [NUL])"] u lb by simp
  moreover have "length xs < length ?b" using lb by simp
  ultimately have "string_of_raw (map Some (xs @ [NUL])) = Some \<lparr>str_raw = ?b[length xs := Some NUL], str_off = 0, str_length = ?n\<rparr>"
    unfolding string_of_raw_def cells_strlen_val [OF assms(1)] by (simp add: u)
  moreover have "?b[length xs := Some NUL] = map Some xs @ (drop (length xs) (new_chars (?n + 1)))[0 := Some NUL]"
    by (simp add: list_update_append)
  ultimately show ?thesis
    using str_valI [of "\<lparr>str_raw = ?b[length xs := Some NUL], str_off = 0, str_length = ?n\<rparr>" xs] u lb
    by (simp add: str_cells_def string_at_def nth_append)
qed

section \<open>Properties\<close>

definition lit :: "string \<Rightarrow> kstring" where
  "lit x = \<lparr>str_raw = map Some x @ [Some NUL], str_off = 0, str_length = of_nat (length x)\<rparr>"

lemma lit_val:
  assumes "length x < 2 ^ 18"
  shows "str_ok (lit x)" "str_val (lit x) = x" "unat (str_length (lit x)) = length x"
    "string_at (lit x) (str_length (lit x)) = Some NUL"
proof -
  show u: "unat (str_length (lit x)) = length x" using assms by (simp add: lit_def unat_of_nat_lt)
  then show "str_ok (lit x)" "str_val (lit x) = x"
    using str_valI [of "lit x" x "[Some NUL]"] by (simp_all add: lit_def str_cells_def)
  show "string_at (lit x) (str_length (lit x)) = Some NUL"
    using u by (simp add: string_at_def lit_def str_cells_def nth_append)
qed

text \<open>
  Concatenation gives the concatenated value, terminated, whenever the block for the joint
  length has room for the terminator; for a joint length that fills its size class exactly the
  terminator is written outside the block.
\<close>

theorem string_plus_concat:
  assumes "str_ok s" and "str_ok t" and "string_at s (str_length s) \<noteq> None"
    and "unat (str_length s) + unat (str_length t) < 2 ^ 18"
  shows "if terminator_fits (unat (str_length s) + unat (str_length t))
    then \<exists>r. string_plus s t = Some r \<and> str_ok r \<and> str_val r = str_val s @ str_val t
      \<and> string_at r (str_length r) = Some NUL
    else string_plus s t = None"
proof (cases "terminator_fits (unat (str_length s) + unat (str_length t))")
  case True
  then show ?thesis using string_plus_val [OF assms] by simp
next
  case False
  let ?l = "str_length s + str_length t"
  let ?b = "new_chars (str_length t + str_length s)"
  have sum: "unat ?l = unat (str_length s) + unat (str_length t)" using assms(4) by (subst unat_add_lt) simp_all
  have short: "length ?b \<le> unat ?l"
    using False sum by (simp add: new_chars_def terminator_fits_def add.commute)
  have keep: "length b' = length b" if "memcpy_loop b o' src so n = Some b'" for b b' :: cells and o' src so n
    by (rule for_range_Some_invariant [where I = "\<lambda>k c. length c = length b", OF that [unfolded memcpy_loop_def]])
      (auto simp: fault_simps split: Option.bind_splits)
  have "string_plus s t = None"
  proof (cases "memcpy_loop ?b 0 (str_cells s) 0 (str_length s + 1)")
    case (Some b1)
    show ?thesis
    proof (cases "memcpy_loop b1 (unat (str_length s)) (str_cells t) 0 (str_length t)")
      case (Some b2)
      then have "write_at b2 (unat ?l) (Some NUL) = None"
        using keep [OF Some] keep [OF \<open>memcpy_loop ?b 0 (str_cells s) 0 (str_length s + 1) = Some b1\<close>] short
        by (simp add: write_at_None)
      then show ?thesis
        using Some \<open>memcpy_loop ?b 0 (str_cells s) 0 (str_length s + 1) = Some b1\<close>
        by (simp add: string_plus_def Let_def)
    qed (use Some in \<open>simp add: string_plus_def\<close>)
  qed (simp add: string_plus_def)
  then show ?thesis using False by simp
qed

theorem string_plus_concat_witness:
  "(\<exists>r. string_plus (lit ''dev'') (lit ''/tty'') = Some r \<and> str_val r = ''dev/tty'')
    \<and> string_plus (lit (replicate 20 CHR ''a'')) (lit (replicate 12 CHR ''b'')) = None"
proof -
  have fits: "terminator_fits 7" "\<not> terminator_fits 32"
    by (simp_all add: terminator_fits_def heap_block_def round_size_def pow2_roundup_def)
  have seven: "Suc (Suc (Suc (Suc (Suc (Suc (Suc 0)))))) = 7" by simp
  from fits show ?thesis
    using string_plus_concat [of "lit ''dev''" "lit ''/tty''"]
      string_plus_concat [of "lit (replicate 20 CHR ''a'')" "lit (replicate 12 CHR ''b'')"]
      lit_val [of "''dev''"] lit_val [of "''/tty''"]
      lit_val [of "replicate 20 CHR ''a''"] lit_val [of "replicate 12 CHR ''b''"]
    by (simp add: seven del: One_nat_def) auto
qed

text \<open>
  \<open>find_first\<close> returns the first position of the character from the start on, or \<open>npos\<close>, and
  \<open>substr\<close> up to that position is the value up to the character: what splitting a path at its
  separators relies on.
\<close>

theorem find_first_substr:
  assumes "str_ok s" and "c \<in> set (str_val s)" and "str_val s ! 0 \<noteq> c"
    and "terminator_fits (length (takeWhile (\<lambda>x. x \<noteq> c) (str_val s)))" and "unat (str_length s) < 2 ^ 63"
  shows "\<exists>i r. find_first s c 0 = Some i \<and> unat i = length (takeWhile (\<lambda>x. x \<noteq> c) (str_val s))
    \<and> string_substr s 0 i = Some r \<and> str_val r = takeWhile (\<lambda>x. x \<noteq> c) (str_val s)"
proof -
  let ?p = "takeWhile (\<lambda>x. x \<noteq> c) (str_val s)"
  have lt: "length ?p < unat (str_length s)"
    using takeWhile_length_less [OF assms(2), of "\<lambda>x. x \<noteq> c"] assms(1) by simp
  have ff: "find_first s c 0 = Some (of_nat (length ?p))"
    using find_first_loop_val [of s 0 "unat (str_length s)" c] assms(1,2) by (simp add: find_first_def)
  have u: "unat (of_nat (length ?p) :: size_t) = length ?p" using lt by (intro unat_of_nat_lt lt_unat_2p64)
  have pos: "0 < length ?p" using assms(2,3) by (cases "str_val s") auto
  have "length ?p < 2 ^ 63" using lt assms(5) by (rule less_trans)
  moreover have "\<not> unat npos < 2 ^ 63" by (simp add: npos_def unsigned_minus_1_eq_mask mask_eq_exp_minus_1)
  ultimately have "of_nat (length ?p) \<noteq> npos" using u by metis
  then show ?thesis
    using string_substr_val [OF assms(1), of 0 "of_nat (length ?p)"] u lt pos assms(4) ff
      takeWhile_eq_take [of "\<lambda>x. x \<noteq> c" "str_val s"] by (auto simp: word_less_nat_alt)
qed

theorem find_first_substr_witness:
  "\<exists>i r. find_first (lit ''dev/tty'') CHR ''/'' 0 = Some i \<and> unat i = 3
    \<and> string_substr (lit ''dev/tty'') 0 i = Some r \<and> str_val r = ''dev''"
proof -
  have "terminator_fits 3"
    by (simp add: terminator_fits_def heap_block_def round_size_def pow2_roundup_def)
  then have "terminator_fits (Suc (Suc (Suc 0)))" by (simp add: numeral_3_eq_3)
  then show ?thesis
    using find_first_substr [of "lit ''dev/tty''" "CHR ''/''"] lit_val [of "''dev/tty''"]
    by (simp add: numeral_3_eq_3)
qed

text \<open>
  Appending a non-negative number appends its decimal digits, without leading zeros.
\<close>

theorem string_plus_number_decimal:
  assumes "str_ok s" and "string_at s (str_length s) \<noteq> None" and "unat (str_length s) < 2 ^ 17"
    and "0 \<le> sint number"
  shows "\<exists>ds. decimal ds = nat (sint number) \<and> (1 < length ds \<longrightarrow> 10 ^ (length ds - 1) \<le> nat (sint number))
    \<and> (terminator_fits (unat (str_length s) + length ds) \<longrightarrow>
        (\<exists>r. string_plus_number s number = Some r \<and> str_ok r \<and> str_val r = str_val s @ ds))"
proof -
  obtain ds where ds: "number_loop (sint number) [] = Some ds" "decimal ds = nat (sint number)" "NUL \<notin> set ds"
    "1 < length ds \<longrightarrow> 10 ^ (length ds - 1) \<le> nat (sint number)"
    using number_loop_correct [of "nat (sint number)" "[]"] assms(4) by auto
  have small: "length ds \<le> 19" using ds(4) sint_range [of number] by (intro decimal_length)
  then obtain t where t: "string_of_raw (map Some (ds @ [NUL])) = Some t" "str_ok t" "str_val t = ds"
    using string_of_raw_val [OF ds(3)] by auto
  have lt: "unat (str_length t) = length ds" using t str_val_length [of t] by simp
  have "\<exists>r. string_plus_number s number = Some r \<and> str_ok r \<and> str_val r = str_val s @ ds"
    if "terminator_fits (unat (str_length s) + length ds)"
    using string_plus_val [OF assms(1) t(2) assms(2)] that lt small assms(3) ds(1) t(1,3)
    by (auto simp: string_plus_number_def)
  then show ?thesis using ds by blast
qed

theorem string_plus_number_decimal_witness:
  "\<exists>ds. decimal ds = 1984 \<and> (terminator_fits (3 + length ds) \<longrightarrow>
    (\<exists>r. string_plus_number (lit ''tty'') 1984 = Some r \<and> str_val r = ''tty'' @ ds))"
  using string_plus_number_decimal [of "lit ''tty''" 1984] lit_val [of "''tty''"]
  by (auto simp: numeral_3_eq_3)

end
