(* ===== verification/Vmm.thy ===== *)
theory Vmm
  imports Pmm
begin

text \<open>
  \<^verbatim>\<open>kernel/mm/vmm.cpp\<close> and \<^verbatim>\<open>vmm.hpp\<close>: four- and five-level page tables. A page table is an
  array of 512 entries found at its pointer in the direct map, so the memory the code reads and
  writes is a function from table pointers and indices to entries; \<^verbatim>\<open>pmm::calloc\<close> clears the
  tables at the pages it returns. A \<^verbatim>\<open>pmle\<close> object is the pair of table and index it points to,
  and calling a method through a null one faults. \<open>page_length\<close>, which the look-up constructor
  does not set, is an argument of the operations that read it.
\<close>

section \<open>Definitions\<close>

record vmm =
  tabs :: "u64 \<Rightarrow> nat \<Rightarrow> u64"
  vframes :: pmm

record pmlx_table =
  highest_raw :: u64
  plock :: bool

definition entry_write :: "vmm \<Rightarrow> u64 \<Rightarrow> nat \<Rightarrow> u64 \<Rightarrow> vmm" where
  "entry_write s t i e = s\<lparr>tabs := (tabs s)(t := (tabs s t)(i := e))\<rparr>"

text \<open>
  The base of the direct map, which \<^verbatim>\<open>main\<close> moves before anything else runs when the processor has
  five-level paging: the operations on four levels use \<open>high_vma\<close>, those on five \<open>high_vma5\<close>, and
  those they share take it as an argument.
\<close>

definition high_vma5 :: u64 where
  "high_vma5 = 0xff00000000000000"

definition high_vma_of :: "bool \<Rightarrow> u64" where
  "high_vma_of five = (if five then high_vma5 else high_vma)"

text \<open>
  \<^verbatim>\<open>pmm::calloc\<close> as seen by the tables: the pages are cleared; a failed allocation is cleared at
  \<open>high_vma - 1\<close> and faults.
\<close>

definition calloc_pages_at :: "u64 \<Rightarrow> vmm \<Rightarrow> size_t \<Rightarrow> (u64 \<times> vmm) option" where
  "calloc_pages_at hv s cnt = do {
     (a, fr) \<leftarrow> pmm_alloc (vframes s) cnt 1;
     if a = -1 then None
     else Some (a, s\<lparr>vframes := fr,
       tabs := (\<lambda>t i. if t - (a + hv) < cnt * page_size then 0 else tabs s t i)\<rparr>)
   }"

abbreviation calloc_pages :: "vmm \<Rightarrow> size_t \<Rightarrow> (u64 \<times> vmm) option" where
  "calloc_pages \<equiv> calloc_pages_at high_vma"

subsection \<open>Entries\<close>

definition flags_p :: u64 where "flags_p = 0x1"

definition flags_pwt :: u64 where "flags_pwt = 0x8"

definition flags_pcd :: u64 where "flags_pcd = 0x10"

definition flags_ps :: u64 where "flags_ps = 0x80"

definition pml1_flags_pat :: u64 where "pml1_flags_pat = 0x80"

definition pml2_flags_pat :: u64 where "pml2_flags_pat = 0x1000"

definition is_present :: "u64 \<Rightarrow> bool" where
  "is_present e \<longleftrightarrow> e AND flags_p \<noteq> 0"

definition is_huge :: "u64 \<Rightarrow> bool" where
  "is_huge e \<longleftrightarrow> e AND flags_ps \<noteq> 0"

definition set_flag :: "u64 \<Rightarrow> u64 \<Rightarrow> bool \<Rightarrow> u64" where
  "set_flag e fl value = (if value then e OR fl else e AND NOT fl)"

definition set_present :: "u64 \<Rightarrow> bool \<Rightarrow> u64" where
  "set_present e value = set_flag e flags_p value"

definition set_pa :: "u64 \<Rightarrow> u64 \<Rightarrow> ssize_t \<Rightarrow> u64" where
  "set_pa flags_pat e pa =
     (let e = set_flag e flags_pat (bit pa 2);
          e = set_flag e flags_pcd (bit pa 1)
      in set_flag e flags_pwt (bit pa 0))"

definition get_base :: "u64 \<Rightarrow> u64" where
  "get_base e = e AND NOT 0xfff"

definition pml5_idx :: "u64 \<Rightarrow> nat" where
  "pml5_idx vaddr = unat (drop_bit 48 vaddr AND 0x1ff)"

definition pml4_idx :: "u64 \<Rightarrow> nat" where
  "pml4_idx vaddr = unat (drop_bit 39 vaddr AND 0x1ff)"

definition pml3_idx :: "u64 \<Rightarrow> nat" where
  "pml3_idx vaddr = unat (drop_bit 30 vaddr AND 0x1ff)"

definition pml2_idx :: "u64 \<Rightarrow> nat" where
  "pml2_idx vaddr = unat (drop_bit 21 vaddr AND 0x1ff)"

definition pml1_idx :: "u64 \<Rightarrow> nat" where
  "pml1_idx vaddr = unat (drop_bit 12 vaddr AND 0x1ff)"

text \<open>The pointer to the table an entry refers to.\<close>

definition pml_raw_at :: "u64 \<Rightarrow> u64 \<Rightarrow> u64" where
  "pml_raw_at hv e = (e AND NOT 0xfff) + hv"

abbreviation pml_raw :: "u64 \<Rightarrow> u64" where
  "pml_raw \<equiv> pml_raw_at high_vma"

subsection \<open>Mapping\<close>

text \<open>
  The three forms of filling in an absent entry. The flag of the result says whether the code
  goes on; it returns when the entry is absent and no flags are given.
\<close>

definition ensure_table_at :: "u64 \<Rightarrow> vmm \<Rightarrow> u64 \<Rightarrow> nat \<Rightarrow> u64 \<Rightarrow> (bool \<times> vmm) option" where
  "ensure_table_at hv s t i fl =
     (if tabs s t i = 0 then
        if fl = 0 then Some (False, s)
        else do { (p, s) \<leftarrow> calloc_pages_at hv s 1; Some (True, entry_write s t i (p OR fl)) }
      else Some (True, s))"

abbreviation ensure_table :: "vmm \<Rightarrow> u64 \<Rightarrow> nat \<Rightarrow> u64 \<Rightarrow> (bool \<times> vmm) option" where
  "ensure_table \<equiv> ensure_table_at high_vma"

definition ensure_huge_at :: "u64 \<Rightarrow> vmm \<Rightarrow> u64 \<Rightarrow> nat \<Rightarrow> u64 \<Rightarrow> u64 \<Rightarrow> (bool \<times> vmm) option" where
  "ensure_huge_at hv s t i fl paddr =
     (if tabs s t i = 0 then
        if fl = 0 then Some (False, s)
        else if fl AND 0x80 \<noteq> 0 then Some (True, entry_write s t i (paddr OR fl))
        else do { (p, s) \<leftarrow> calloc_pages_at hv s 1; Some (True, entry_write s t i (p OR fl)) }
      else Some (True, s))"

abbreviation ensure_huge :: "vmm \<Rightarrow> u64 \<Rightarrow> nat \<Rightarrow> u64 \<Rightarrow> u64 \<Rightarrow> (bool \<times> vmm) option" where
  "ensure_huge \<equiv> ensure_huge_at high_vma"

definition ensure_page :: "vmm \<Rightarrow> u64 \<Rightarrow> nat \<Rightarrow> u64 \<Rightarrow> u64 \<Rightarrow> bool \<times> vmm" where
  "ensure_page s t i fl paddr =
     (if tabs s t i = 0 then
        if fl = 0 then (False, s) else (True, entry_write s t i (paddr OR fl))
      else (True, s))"

definition apply_pa :: "vmm \<Rightarrow> u64 \<Rightarrow> nat \<Rightarrow> u64 \<Rightarrow> ssize_t \<Rightarrow> vmm" where
  "apply_pa s t i flags_pat pa =
     (if pa \<noteq> -1 then entry_write s t i (set_pa flags_pat (tabs s t i) pa) else s)"

text \<open>
  \<^verbatim>\<open>virtual_address::map\<close>: the state and the \<open>page_length\<close> it sets, \<open>None\<close> when it returns before.
\<close>

definition pml4_map :: "vmm \<Rightarrow> u64 \<Rightarrow> u64 \<Rightarrow> u64 \<Rightarrow> u64 \<Rightarrow> u64 \<Rightarrow> u64 \<Rightarrow> u64 \<Rightarrow> ssize_t
    \<Rightarrow> (vmm \<times> u64 option) option" where
  "pml4_map s pml4_raw vaddr paddr pml4_flags pml3_flags pml2_flags pml1_flags pa =
     (if pml4_raw = 0 then Some (s, None)
      else do {
        (go, s) \<leftarrow> ensure_table s pml4_raw (pml4_idx vaddr) pml4_flags;
        if \<not> go then Some (s, None) else do {
        let pml3_raw = pml_raw (tabs s pml4_raw (pml4_idx vaddr));
        (go, s) \<leftarrow> ensure_huge s pml3_raw (pml3_idx vaddr) pml3_flags paddr;
        if \<not> go then Some (s, None)
        else if is_huge (tabs s pml3_raw (pml3_idx vaddr)) then
          Some (apply_pa s pml3_raw (pml3_idx vaddr) pml2_flags_pat pa, Some 0x40000000)
        else do {
        let pml2_raw = pml_raw (tabs s pml3_raw (pml3_idx vaddr));
        (go, s) \<leftarrow> ensure_huge s pml2_raw (pml2_idx vaddr) pml2_flags paddr;
        if \<not> go then Some (s, None)
        else if is_huge (tabs s pml2_raw (pml2_idx vaddr)) then
          Some (apply_pa s pml2_raw (pml2_idx vaddr) pml2_flags_pat pa, Some 0x200000)
        else do {
        let pml1_raw = pml_raw (tabs s pml2_raw (pml2_idx vaddr));
        let (go, s) = ensure_page s pml1_raw (pml1_idx vaddr) pml1_flags paddr;
        if \<not> go then Some (s, None)
        else Some (apply_pa s pml1_raw (pml1_idx vaddr) pml1_flags_pat pa, Some 0x1000)
        }}}})"

text \<open>
  Five levels. The level-3 entry is built with \<open>+\<close>. The level-4 \<^verbatim>\<open>pmle\<close> is made at the level-3
  index, but nothing is read through it.
\<close>

definition ensure_huge_add :: "u64 \<Rightarrow> vmm \<Rightarrow> u64 \<Rightarrow> nat \<Rightarrow> u64 \<Rightarrow> u64 \<Rightarrow> (bool \<times> vmm) option" where
  "ensure_huge_add hv s t i fl paddr =
     (if tabs s t i = 0 then
        if fl = 0 then Some (False, s)
        else if fl AND 0x80 \<noteq> 0 then Some (True, entry_write s t i (paddr OR fl))
        else do { (p, s) \<leftarrow> calloc_pages_at hv s 1; Some (True, entry_write s t i (p + fl)) }
      else Some (True, s))"

definition pml5_map :: "vmm \<Rightarrow> u64 \<Rightarrow> u64 \<Rightarrow> u64 \<Rightarrow> u64 \<Rightarrow> u64 \<Rightarrow> u64 \<Rightarrow> u64 \<Rightarrow> u64 \<Rightarrow> ssize_t
    \<Rightarrow> (vmm \<times> u64 option) option" where
  "pml5_map s pml5_raw vaddr paddr pml5_flags pml4_flags pml3_flags pml2_flags pml1_flags pa =
     (if pml5_raw = 0 then Some (s, None)
      else do {
        (go, s) \<leftarrow> ensure_table_at high_vma5 s pml5_raw (pml5_idx vaddr) pml5_flags;
        if \<not> go then Some (s, None) else do {
        let pml4_raw = pml_raw_at high_vma5 (tabs s pml5_raw (pml5_idx vaddr));
        (go, s) \<leftarrow> ensure_table_at high_vma5 s pml4_raw (pml4_idx vaddr) pml4_flags;
        if \<not> go then Some (s, None) else do {
        let pml3_raw = pml_raw_at high_vma5 (tabs s pml4_raw (pml4_idx vaddr));
        (go, s) \<leftarrow> ensure_huge_add high_vma5 s pml3_raw (pml3_idx vaddr) pml3_flags paddr;
        if \<not> go then Some (s, None)
        else if is_huge (tabs s pml3_raw (pml3_idx vaddr)) then
          Some (apply_pa s pml3_raw (pml3_idx vaddr) pml2_flags_pat pa, Some 0x40000000)
        else do {
        let pml2_raw = pml_raw_at high_vma5 (tabs s pml3_raw (pml3_idx vaddr));
        (go, s) \<leftarrow> ensure_huge_at high_vma5 s pml2_raw (pml2_idx vaddr) pml2_flags paddr;
        if \<not> go then Some (s, None)
        else if is_huge (tabs s pml2_raw (pml2_idx vaddr)) then
          Some (apply_pa s pml2_raw (pml2_idx vaddr) pml2_flags_pat pa, Some 0x200000)
        else do {
        let pml1_raw = pml_raw_at high_vma5 (tabs s pml2_raw (pml2_idx vaddr));
        let (go, s) = ensure_page s pml1_raw (pml1_idx vaddr) pml1_flags paddr;
        if \<not> go then Some (s, None)
        else Some (apply_pa s pml1_raw (pml1_idx vaddr) pml1_flags_pat pa, Some 0x1000)
        }}}}})"

subsection \<open>Looking up and unmapping\<close>

record pml_entries =
  e3 :: "(u64 \<times> nat) option"
  e2 :: "(u64 \<times> nat) option"
  e1 :: "(u64 \<times> nat) option"

definition no_entries :: pml_entries where
  "no_entries = \<lparr>e3 = None, e2 = None, e1 = None\<rparr>"

text \<open>The part of the look-up constructors the two table formats share: levels 3 to 1.\<close>

definition pml3_lookup_at :: "u64 \<Rightarrow> vmm \<Rightarrow> u64 \<Rightarrow> u64 \<Rightarrow> pml_entries" where
  "pml3_lookup_at hv s pml3_raw vaddr =
     (let x3 = tabs s pml3_raw (pml3_idx vaddr) in
      if x3 = 0 then no_entries else
      let v = no_entries\<lparr>e3 := Some (pml3_raw, pml3_idx vaddr)\<rparr> in
      if \<not> is_present x3 \<or> is_huge x3 then v else
      let pml2_raw = pml_raw_at hv x3; x2 = tabs s pml2_raw (pml2_idx vaddr) in
      if x2 = 0 then v else
      let v = v\<lparr>e2 := Some (pml2_raw, pml2_idx vaddr)\<rparr> in
      if \<not> is_present x2 \<or> is_huge x2 then v else
      let pml1_raw = pml_raw_at hv x2 in
      if tabs s pml1_raw (pml1_idx vaddr) = 0 then v
      else v\<lparr>e1 := Some (pml1_raw, pml1_idx vaddr)\<rparr>)"

definition pml4_lookup_at :: "u64 \<Rightarrow> vmm \<Rightarrow> u64 \<Rightarrow> u64 \<Rightarrow> pml_entries" where
  "pml4_lookup_at hv s pml4_raw vaddr =
     (let x4 = tabs s pml4_raw (pml4_idx vaddr) in
      if x4 = 0 then no_entries
      else if \<not> is_present x4 then no_entries
      else pml3_lookup_at hv s (pml_raw_at hv x4) vaddr)"

abbreviation pml4_lookup :: "vmm \<Rightarrow> u64 \<Rightarrow> u64 \<Rightarrow> pml_entries" where
  "pml4_lookup \<equiv> pml4_lookup_at high_vma"

definition pml5_lookup :: "vmm \<Rightarrow> u64 \<Rightarrow> u64 \<Rightarrow> pml_entries" where
  "pml5_lookup s pml5_raw vaddr =
     (let x5 = tabs s pml5_raw (pml5_idx vaddr) in
      if x5 = 0 then no_entries
      else if \<not> is_present x5 then no_entries
      else pml4_lookup_at high_vma5 s (pml_raw_at high_vma5 x5) vaddr)"

definition clear_present :: "vmm \<Rightarrow> u64 \<times> nat \<Rightarrow> u64 \<times> vmm" where
  "clear_present s e =
     (let x = tabs s (fst e) (snd e) in (get_base x, entry_write s (fst e) (snd e) (set_present x False)))"

definition pml_unmap :: "vmm \<Rightarrow> pml_entries \<Rightarrow> (u64 \<times> vmm) option" where
  "pml_unmap s v = do {
     p3 \<leftarrow> e3 v;
     if is_huge (tabs s (fst p3) (snd p3)) then Some (clear_present s p3)
     else do {
       p2 \<leftarrow> e2 v;
       if is_huge (tabs s (fst p2) (snd p2)) then Some (clear_present s p2)
       else do { p1 \<leftarrow> e1 v; Some (clear_present s p1) }
     }
   }"

subsection \<open>Table operations\<close>

definition lock_table :: "pmlx_table \<Rightarrow> pmlx_table option" where
  "lock_table t = do { l \<leftarrow> spin_lock (plock t); Some (t\<lparr>plock := l\<rparr>) }"

definition release_table :: "pmlx_table \<Rightarrow> pmlx_table" where
  "release_table t = t\<lparr>plock := spin_release (plock t)\<rparr>"

text \<open>\<^verbatim>\<open>pmm::alloc(1)\<close>, whose result is used as it is, \<open>-1\<close> included.\<close>

definition alloc_frame :: "vmm \<Rightarrow> (u64 \<times> vmm) option" where
  "alloc_frame s = do { (a, fr) \<leftarrow> pmm_alloc (vframes s) 1 1; Some (a, s\<lparr>vframes := fr\<rparr>) }"

definition pml4_map_range :: "vmm \<Rightarrow> pmlx_table \<Rightarrow> u64 \<Rightarrow> size_t \<Rightarrow> u64 \<Rightarrow> ssize_t
    \<Rightarrow> (vmm \<times> pmlx_table) option" where
  "pml4_map_range s t vaddr cnt flags pa = do {
     t \<leftarrow> lock_table t;
     (s, _) \<leftarrow> for_range (\<lambda>i (s, vaddr). do {
         (p, s) \<leftarrow> alloc_frame s;
         (s, _) \<leftarrow> (if flags AND 0x80 \<noteq> 0
           then pml4_map s (highest_raw t) vaddr p 0x3 0x3 flags 0 pa
           else pml4_map s (highest_raw t) vaddr p 0x3 0x3 0x3 flags pa);
         Some (s, vaddr + (if flags AND 0x80 \<noteq> 0 then 0x200000 else 0x1000))
       }) 0 (unat cnt) (s, vaddr);
     Some (s, release_table t)
   }"

definition pml5_map_range :: "vmm \<Rightarrow> pmlx_table \<Rightarrow> u64 \<Rightarrow> size_t \<Rightarrow> u64 \<Rightarrow> ssize_t
    \<Rightarrow> (vmm \<times> pmlx_table) option" where
  "pml5_map_range s t vaddr cnt flags pa = do {
     t \<leftarrow> lock_table t;
     let extra = (if flags AND 0x4 \<noteq> 0 then 0x4 else 0);
     (s, _) \<leftarrow> for_range (\<lambda>i (s, vaddr). do {
         (p, s) \<leftarrow> alloc_frame s;
         (s, _) \<leftarrow> (if flags AND 0x80 \<noteq> 0
           then pml5_map s (highest_raw t) vaddr p (0x3 OR extra) (0x3 OR extra) (0x3 OR extra) flags 0 pa
           else pml5_map s (highest_raw t) vaddr p (0x3 OR extra) (0x3 OR extra) (0x3 OR extra) (0x3 OR extra) flags pa);
         Some (s, vaddr + (if flags AND 0x80 \<noteq> 0 then 0x200000 else 0x1000))
       }) 0 (unat cnt) (s, vaddr);
     Some (s, release_table t)
   }"

text \<open>The unmapping loop, with \<open>page_length\<close> the value the uninitialised member happens to have.\<close>

fun unmap_loop :: "(vmm \<Rightarrow> u64 \<Rightarrow> pml_entries) \<Rightarrow> u64 \<Rightarrow> vmm \<Rightarrow> u64 \<Rightarrow> nat \<Rightarrow> vmm option" where
  "unmap_loop look page_length s vaddr 0 = Some s"
| "unmap_loop look page_length s vaddr (Suc n) =
     (if page_length = 0 then Some s
      else do {
        (_, s) \<leftarrow> pml_unmap s (look s vaddr);
        unmap_loop look page_length s (vaddr + page_length) n
      })"

definition pml4_unmap_range :: "u64 \<Rightarrow> vmm \<Rightarrow> pmlx_table \<Rightarrow> u64 \<Rightarrow> size_t \<Rightarrow> (vmm \<times> pmlx_table) option" where
  "pml4_unmap_range page_length s t vaddr cnt = do {
     t \<leftarrow> lock_table t;
     s \<leftarrow> unmap_loop (\<lambda>s. pml4_lookup s (highest_raw t)) page_length s vaddr (unat cnt);
     Some (s, release_table t)
   }"

definition pml5_unmap_range :: "u64 \<Rightarrow> vmm \<Rightarrow> pmlx_table \<Rightarrow> u64 \<Rightarrow> size_t \<Rightarrow> (vmm \<times> pmlx_table) option" where
  "pml5_unmap_range page_length s t vaddr cnt = do {
     t \<leftarrow> lock_table t;
     s \<leftarrow> unmap_loop (\<lambda>s. pml5_lookup s (highest_raw t)) page_length s vaddr (unat cnt);
     Some (s, release_table t)
   }"

definition pml4_map_page :: "vmm \<Rightarrow> pmlx_table \<Rightarrow> u64 \<Rightarrow> u64 \<Rightarrow> ssize_t \<Rightarrow> (vmm \<times> pmlx_table) option" where
  "pml4_map_page s t vaddr flags pa = do {
     t \<leftarrow> lock_table t;
     (s, _) \<leftarrow> (if flags AND 0x80 \<noteq> 0
       then do { (p, s) \<leftarrow> calloc_pages s 0x200; pml4_map s (highest_raw t) vaddr p 0x3 0x3 flags 0 pa }
       else do { (p, s) \<leftarrow> calloc_pages s 1; pml4_map s (highest_raw t) vaddr p 0x3 0x3 0x3 flags pa });
     Some (s, release_table t)
   }"

definition pml4_map_page_raw :: "vmm \<Rightarrow> pmlx_table \<Rightarrow> u64 \<Rightarrow> u64 \<Rightarrow> u64 \<Rightarrow> u64 \<Rightarrow> ssize_t
    \<Rightarrow> (vmm \<times> pmlx_table) option" where
  "pml4_map_page_raw s t vaddr paddr flags1 flags0 pa = do {
     t \<leftarrow> lock_table t;
     (s, _) \<leftarrow> (if flags0 AND 0x80 \<noteq> 0
       then pml4_map s (highest_raw t) vaddr paddr flags1 flags1 flags0 0 pa
       else pml4_map s (highest_raw t) vaddr paddr flags1 flags1 flags1 flags0 pa);
     Some (s, release_table t)
   }"

definition pml4_unmap_page :: "u64 \<Rightarrow> vmm \<Rightarrow> pmlx_table \<Rightarrow> u64 \<Rightarrow> (vmm \<times> pmlx_table) option" where
  "pml4_unmap_page page_length s t vaddr = do {
     t \<leftarrow> lock_table t;
     if page_length = 0 then Some (s, release_table t)
     else do {
       (_, s) \<leftarrow> pml_unmap s (pml4_lookup s (highest_raw t) vaddr);
       Some (s, release_table t)
     }
   }"

definition pml5_map_page :: "vmm \<Rightarrow> pmlx_table \<Rightarrow> u64 \<Rightarrow> u64 \<Rightarrow> ssize_t \<Rightarrow> (vmm \<times> pmlx_table) option" where
  "pml5_map_page s t vaddr flags pa = do {
     t \<leftarrow> lock_table t;
     (s, _) \<leftarrow> (if flags AND 0x80 \<noteq> 0
       then do { (p, s) \<leftarrow> calloc_pages_at high_vma5 s 0x200; pml5_map s (highest_raw t) vaddr p 0x3 0x3 0x3 flags 0 pa }
       else do { (p, s) \<leftarrow> calloc_pages_at high_vma5 s 1; pml5_map s (highest_raw t) vaddr p 0x3 0x3 0x3 0x3 flags pa });
     Some (s, release_table t)
   }"

definition pml5_map_page_raw :: "vmm \<Rightarrow> pmlx_table \<Rightarrow> u64 \<Rightarrow> u64 \<Rightarrow> u64 \<Rightarrow> u64 \<Rightarrow> ssize_t
    \<Rightarrow> (vmm \<times> pmlx_table) option" where
  "pml5_map_page_raw s t vaddr paddr flags1 flags0 pa = do {
     t \<leftarrow> lock_table t;
     (s, _) \<leftarrow> (if flags0 AND 0x80 \<noteq> 0
       then pml5_map s (highest_raw t) vaddr paddr flags1 flags1 flags1 flags0 0 pa
       else pml5_map s (highest_raw t) vaddr paddr flags1 flags1 flags1 flags1 flags0 pa);
     Some (s, release_table t)
   }"

definition pml5_unmap_page :: "u64 \<Rightarrow> vmm \<Rightarrow> pmlx_table \<Rightarrow> u64 \<Rightarrow> (vmm \<times> pmlx_table) option" where
  "pml5_unmap_page page_length s t vaddr = do {
     t \<leftarrow> lock_table t;
     if page_length = 0 then Some (s, release_table t)
     else do {
       (_, s) \<leftarrow> pml_unmap s (pml5_lookup s (highest_raw t) vaddr);
       Some (s, release_table t)
     }
   }"

text \<open>The bytes of the attribute register, lowest first.\<close>

definition pat_write :: "nat \<Rightarrow> u64 \<Rightarrow> u64 \<Rightarrow> u64" where
  "pat_write i b w = (w AND NOT (push_bit (8 * i) 0xff)) OR push_bit (8 * i) b"

definition set_pat :: "u64 \<Rightarrow> u64 \<Rightarrow> ssize_t \<times> u64" where
  "set_pat cpuid_rdx pat =
     (if cpuid_rdx AND 0x10000 = 0 then (-1, pat)
      else (0, pat_write 5 7 (pat_write 0 6 (pat_write 4 5 (pat_write 3 4 (pat_write 2 1 (pat_write 1 0 pat)))))))"

definition create_generic :: "u64 \<Rightarrow> vmm \<Rightarrow> pmlx_table \<Rightarrow> (pmlx_table \<times> vmm) option" where
  "create_generic hv s kernel_mapping = do {
     (p, s) \<leftarrow> calloc_pages_at hv s 1;
     let t = p + hv;
     let s = entry_write s t 256 (tabs s (highest_raw kernel_mapping) 256);
     let s = entry_write s t 511 (tabs s (highest_raw kernel_mapping) 511);
     Some (\<lparr>highest_raw = t, plock = False\<rparr>, s)
   }"

text \<open>
  The two mapping loops of \<^verbatim>\<open>init\<close>; \<open>five\<close> is the feature bit that selects the format. \<open>vmm_init\<close>
  returns the kernel's table, the attribute register and the value loaded into \<^verbatim>\<open>cr3\<close>.
\<close>

definition map_page_raw :: "bool \<Rightarrow> vmm \<Rightarrow> pmlx_table \<Rightarrow> u64 \<Rightarrow> u64 \<Rightarrow> u64 \<Rightarrow> u64 \<Rightarrow> ssize_t
    \<Rightarrow> (vmm \<times> pmlx_table) option" where
  "map_page_raw five = (if five then pml5_map_page_raw else pml4_map_page_raw)"

definition map_linear :: "bool \<Rightarrow> vmm \<Rightarrow> pmlx_table \<Rightarrow> u64 \<Rightarrow> nat \<Rightarrow> (vmm \<times> pmlx_table) option" where
  "map_linear five s t off n = do {
     (s, t, _) \<leftarrow> for_range (\<lambda>i (s, t, phys). do {
         (s, t) \<leftarrow> map_page_raw five s t (phys + off) phys (0x3 OR 0x4) (0x3 OR 0x80 OR 0x100 OR 0x4) (-1);
         Some (s, t, phys + 0x200000)
       }) 0 n (s, t, 0);
     Some (s, t)
   }"

definition vmm_init :: "bool \<Rightarrow> u64 \<Rightarrow> u64 \<Rightarrow> vmm \<Rightarrow> (vmm \<times> pmlx_table \<times> u64 \<times> u64) option" where
  "vmm_init five cpuid_rdx pat s = do {
     let hv = high_vma_of five;
     (p, s) \<leftarrow> calloc_pages_at hv s 1;
     (s, t) \<leftarrow> map_linear five s \<lparr>highest_raw = p + hv, plock = False\<rparr> kernel_high_vma 0x200;
     (s, t) \<leftarrow> map_linear five s t hv (unat (total_mem (vframes s) div 0x200000));
     Some (s, t, snd (set_pat cpuid_rdx pat), highest_raw t - hv)
   }"

section \<open>Page tables as trees\<close>

text \<open>
  The walk of the memory management unit from a table at level \<open>k\<close>: it stops at an entry that
  is not present, or at a leaf, whose entry and level it returns. The address field of an entry
  is its bits 12 to 51.
\<close>

definition lvl_idx :: "nat \<Rightarrow> u64 \<Rightarrow> nat" where
  "lvl_idx k va = unat (drop_bit (9 * k + 3) va AND 0x1ff)"

definition leaf :: "nat \<Rightarrow> u64 \<Rightarrow> bool" where
  "leaf k e \<longleftrightarrow> k = 1 \<or> k \<le> 3 \<and> is_huge e"

definition hw_raw :: "u64 \<Rightarrow> u64" where
  "hw_raw e = (e AND 0xffffffffff000) + high_vma"

fun walk :: "(u64 \<Rightarrow> nat \<Rightarrow> u64) \<Rightarrow> nat \<Rightarrow> u64 \<Rightarrow> u64 \<Rightarrow> (u64 \<times> nat) option" where
  "walk m 0 t va = None"
| "walk m (Suc k) t va =
     (let e = m t (lvl_idx (Suc k) va) in
      if \<not> is_present e then None
      else if leaf (Suc k) e then Some (e, Suc k)
      else walk m k (hw_raw e) va)"

definition tbl :: "nat \<Rightarrow> u64 \<Rightarrow> bool" where
  "tbl k e \<longleftrightarrow> e \<noteq> 0 \<and> \<not> leaf k e"

text \<open>The tables below a table, and that they form a tree with present entries.\<close>

fun footprint :: "(u64 \<Rightarrow> nat \<Rightarrow> u64) \<Rightarrow> nat \<Rightarrow> u64 \<Rightarrow> u64 set" where
  "footprint m 0 t = {}"
| "footprint m (Suc k) t =
     insert t (\<Union>i \<in> {i. i < 512 \<and> tbl (Suc k) (m t i)}. footprint m k (pml_raw (m t i)))"

fun wf_table :: "(u64 \<Rightarrow> nat \<Rightarrow> u64) \<Rightarrow> nat \<Rightarrow> u64 \<Rightarrow> bool" where
  "wf_table m 0 t \<longleftrightarrow> True"
| "wf_table m (Suc k) t \<longleftrightarrow>
     (\<forall>i < 512. tbl (Suc k) (m t i) \<longrightarrow> is_present (m t i) \<and> hw_raw (m t i) = pml_raw (m t i)
        \<and> t \<notin> footprint m k (pml_raw (m t i)) \<and> wf_table m k (pml_raw (m t i)))
     \<and> (\<forall>i < 512. \<forall>j < 512. i \<noteq> j \<and> tbl (Suc k) (m t i) \<and> tbl (Suc k) (m t j) \<longrightarrow>
          footprint m k (pml_raw (m t i)) \<inter> footprint m k (pml_raw (m t j)) = {})"

text \<open>Nothing is mapped at \<open>va\<close> down to level \<open>l\<close>, and no larger page covers it.\<close>

fun vacant :: "(u64 \<Rightarrow> nat \<Rightarrow> u64) \<Rightarrow> nat \<Rightarrow> u64 \<Rightarrow> u64 \<Rightarrow> nat \<Rightarrow> bool" where
  "vacant m 0 t va l \<longleftrightarrow> False"
| "vacant m (Suc k) t va l \<longleftrightarrow>
     (let e = m t (lvl_idx (Suc k) va) in
      e = 0 \<or> l < Suc k \<and> tbl (Suc k) e \<and> vacant m k (pml_raw e) va l)"

lemma lvl_idx_lt: "lvl_idx k va < 512"
proof -
  have "drop_bit (9 * k + 3) va AND 0x1ff = take_bit 9 (drop_bit (9 * k + 3) va)"
    by (simp add: take_bit_eq_mask mask_eq_exp_minus_1)
  then have "lvl_idx k va = take_bit 9 (unat (drop_bit (9 * k + 3) va))"
    by (simp add: lvl_idx_def unsigned_take_bit_eq)
  also have "\<dots> < 2 ^ 9" by (rule take_bit_nat_less_exp)
  finally show ?thesis by simp
qed

lemma lvl_idx_pml:
  "lvl_idx (Suc (Suc (Suc (Suc 0)))) = pml4_idx" "lvl_idx (Suc (Suc (Suc 0))) = pml3_idx"
  "lvl_idx (Suc (Suc 0)) = pml2_idx" "lvl_idx (Suc 0) = pml1_idx"
  by (auto simp: lvl_idx_def pml4_idx_def pml3_idx_def pml2_idx_def pml1_idx_def)

lemma not_present_0 [simp]: "\<not> is_present 0"
  by (simp add: is_present_def)

lemma not_tbl_0 [simp]: "\<not> tbl k 0"
  by (simp add: tbl_def)

lemma footprint_frame:
  "\<forall>q \<in> footprint m k t. m' q = m q \<Longrightarrow> footprint m' k t = footprint m k t \<and> wf_table m' k t = wf_table m k t"
proof (induction k arbitrary: t)
  case (Suc k)
  then have t: "m' t = m t" by simp
  have sub: "footprint m' k (pml_raw (m t i)) = footprint m k (pml_raw (m t i))
      \<and> wf_table m' k (pml_raw (m t i)) = wf_table m k (pml_raw (m t i))" if "i < 512" "tbl (Suc k) (m t i)" for i
    using Suc.prems that by (intro Suc.IH) auto
  then show ?case by (simp add: t)
qed simp

lemma walk_frame:
  "\<forall>q \<in> footprint m k t. m' q = m q \<Longrightarrow> wf_table m k t \<Longrightarrow> walk m' k t va = walk m k t va"
proof (induction k arbitrary: t)
  case (Suc k)
  let ?e = "m t (lvl_idx (Suc k) va)"
  have t: "m' t = m t" using Suc.prems by simp
  have "walk m' k (hw_raw ?e) va = walk m k (hw_raw ?e) va" if "is_present ?e" "\<not> leaf (Suc k) ?e"
  proof -
    have e: "tbl (Suc k) ?e" using that by (auto simp: tbl_def)
    then have "hw_raw ?e = pml_raw ?e" "wf_table m k (pml_raw ?e)"
      using Suc.prems(2) lvl_idx_lt by auto
    moreover have "\<forall>q \<in> footprint m k (pml_raw ?e). m' q = m q"
      using Suc.prems(1) e lvl_idx_lt by auto
    ultimately show ?thesis using Suc.IH by simp
  qed
  then show ?case by (simp add: t Let_def)
qed simp

section \<open>Mapping by levels\<close>

text \<open>The unrolled code of \<^const>\<open>pml4_map\<close> as one recursion over the levels.\<close>

definition page_len :: "nat \<Rightarrow> u64" where
  "page_len k = (if k = 1 then 0x1000 else if k = 2 then 0x200000 else 0x40000000)"

definition ensure :: "nat \<Rightarrow> vmm \<Rightarrow> u64 \<Rightarrow> nat \<Rightarrow> u64 \<Rightarrow> u64 \<Rightarrow> (bool \<times> vmm) option" where
  "ensure k s t i fl p = (if k = 1 then Some (ensure_page s t i fl p)
     else if k \<le> 3 then ensure_huge s t i fl p else ensure_table s t i fl)"

fun map_levels :: "vmm \<Rightarrow> nat \<Rightarrow> u64 \<Rightarrow> u64 \<Rightarrow> u64 \<Rightarrow> (nat \<Rightarrow> u64) \<Rightarrow> ssize_t \<Rightarrow> (vmm \<times> u64 option) option" where
  "map_levels s 0 t va p fl pa = Some (s, None)"
| "map_levels s (Suc k) t va p fl pa = do {
     (go, s) \<leftarrow> ensure (Suc k) s t (lvl_idx (Suc k) va) (fl (Suc k)) p;
     if \<not> go then Some (s, None)
     else if leaf (Suc k) (tabs s t (lvl_idx (Suc k) va)) then
       Some (apply_pa s t (lvl_idx (Suc k) va) (if k = 0 then pml1_flags_pat else pml2_flags_pat) pa,
             Some (page_len (Suc k)))
     else map_levels s k (pml_raw (tabs s t (lvl_idx (Suc k) va))) va p fl pa
   }"

lemma pml4_map_levels:
  assumes "t \<noteq> 0"
  shows "pml4_map s t va p f4 f3 f2 f1 pa = map_levels s 4 t va p ((\<lambda>_. f4)(3 := f3, 2 := f2, 1 := f1)) pa"
proof -
  have n: "4 = Suc (Suc (Suc (Suc 0)))" by simp
  show ?thesis
    using assms unfolding pml4_map_def n map_levels.simps
    by (simp add: ensure_def leaf_def page_len_def Let_def lvl_idx_pml cong: if_cong)
qed

subsection \<open>Page frames of the tables\<close>

text \<open>The pointers to the pages in use, and the number of pages left.\<close>

definition raws :: "pmm \<Rightarrow> u64 set" where
  "raws fr = (\<lambda>p. of_nat p + high_vma) ` used_pages fr"

definition frames_ok :: "pmm \<Rightarrow> bool" where
  "frames_ok fr \<longleftrightarrow> pmm_inv fr \<and> (\<forall>p \<in> managed_pages fr. p < 2 ^ 52)"

definition free_frames :: "pmm \<Rightarrow> nat" where
  "free_frames fr = card (managed_pages fr - used_pages fr)"

lemma finite_managed_pages: "finite (managed_pages fr)"
  by (simp add: managed_pages_def finite_chunk_pages)

lemma used_frame:
  assumes "frames_ok fr" and "p \<in> used_pages fr"
  shows "4096 dvd p" "p < 2 ^ 52"
  using assms used_pages_managed [of fr] managed_page [of fr p] by (auto simp: frames_ok_def)

lemma page_distance:
  fixes a :: u64
  assumes "4096 dvd p" "p < 2 ^ 52" "4096 dvd unat a" "unat a < 2 ^ 52"
    and "(of_nat p + high_vma) - (a + high_vma) < page_size"
  shows "of_nat p = a"
proof -
  have u: "unat (of_nat p :: u64) = p" using assms(2) by (intro unat_of_nat_lt) simp
  have lt: "unat (of_nat p - a) < 4096" using assms(5) by (simp add: word_less_nat_alt page_size_def)
  have "p = unat a"
  proof (cases "unat a \<le> p")
    case True
    then have "unat (of_nat p - a) = p - unat a" using u by (simp add: unat_sub word_le_nat_alt)
    moreover have "4096 dvd p - unat a" using assms(1,3) by (rule dvd_diff_nat)
    ultimately have "p - unat a = 0" using lt by (metis dvd_imp_le gr_zeroI linorder_not_le)
    then show ?thesis using True by simp
  next
    case False
    have "unat (of_nat p - a) = (if a \<le> of_nat p then unat (of_nat p :: u64) - unat a
        else unat (of_nat p :: u64) + 2 ^ 64 - unat a)"
      using unat_sub_if_size [of "of_nat p :: u64" a] by (simp add: word_size word_le_nat_alt)
    then show ?thesis using False u lt assms(4) by (simp add: word_le_nat_alt)
  qed
  then show ?thesis by simp
qed

lemma calloc_page:
  assumes ok: "frames_ok (vframes s)" and free: "0 < free_frames (vframes s)"
  obtains a s' where "calloc_pages s 1 = Some (a, s')" "4096 dvd unat a" "unat a < 2 ^ 52"
    "a + high_vma \<notin> raws (vframes s)" "raws (vframes s') = insert (a + high_vma) (raws (vframes s))"
    "frames_ok (vframes s')" "managed_pages (vframes s') = managed_pages (vframes s)"
    "free_frames (vframes s') = free_frames (vframes s) - 1"
    "tabs s' (a + high_vma) = (\<lambda>_. 0)" "\<forall>q \<in> raws (vframes s). tabs s' q = tabs s q"
proof -
  let ?fr = "vframes s"
  have inv: "pmm_inv ?fr" using ok by (simp add: frames_ok_def)
  have "used_pages ?fr \<noteq> managed_pages ?fr" using free by (auto simp: free_frames_def)
  with pmm_alloc_page [OF inv] obtain a fr where a: "pmm_alloc ?fr 1 1 = Some (a, fr)" "a \<noteq> -1"
    "unat a \<in> managed_pages ?fr - used_pages ?fr" "used_pages fr = insert (unat a) (used_pages ?fr)"
    "managed_pages fr = managed_pages ?fr" "pmm_inv fr" by metis
  have al: "4096 dvd unat a" "unat a < 2 ^ 52" using a(3) ok managed_page [OF inv] by (auto simp: frames_ok_def)
  define s' where "s' = s\<lparr>vframes := fr,
    tabs := (\<lambda>t i. if t - (a + high_vma) < 1 * page_size then 0 else tabs s t i)\<rparr>"
  have inj: "of_nat p \<noteq> a" if "p \<in> used_pages ?fr" for p
  proof
    assume "of_nat p = a"
    moreover have "unat (of_nat p :: u64) = p" using used_frame [OF ok that] by (intro unat_of_nat_lt) simp
    ultimately show False using a(3) that by auto
  qed
  show thesis
  proof (rule that [of a s'])
    show "calloc_pages s 1 = Some (a, s')" using a(1,2) by (simp add: calloc_pages_at_def s'_def)
    show "a + high_vma \<notin> raws ?fr" using inj unfolding raws_def by (metis (no_types, lifting) add_right_cancel image_iff)
    show "raws (vframes s') = insert (a + high_vma) (raws ?fr)" by (simp add: raws_def s'_def a(4))
    have "managed_pages fr - used_pages fr = managed_pages ?fr - used_pages ?fr - {unat a}"
      using a(4,5) by auto
    then show "free_frames (vframes s') = free_frames ?fr - 1"
      using a(3) by (simp add: s'_def free_frames_def card_Diff_singleton)
    show "tabs s' (a + high_vma) = (\<lambda>_. 0)" by (simp add: s'_def page_size_def)
    show "\<forall>q \<in> raws ?fr. tabs s' q = tabs s q"
    proof
      fix q
      assume "q \<in> raws ?fr"
      then obtain p where p: "q = of_nat p + high_vma" "p \<in> used_pages ?fr" by (auto simp: raws_def)
      then have "\<not> q - (a + high_vma) < page_size"
        using page_distance [OF used_frame [OF ok p(2)] al] inj [OF p(2)] by auto
      then show "tabs s' q = tabs s q" by (simp add: s'_def)
    qed
  qed (use a al ok in \<open>auto simp: s'_def frames_ok_def\<close>)
qed

text \<open>An entry made of a page address and flags below the page size.\<close>

lemma entry_address:
  assumes "4096 dvd unat (a :: u64)" and "unat a < 2 ^ 52" and "fl < 0x1000"
  shows "pml_raw (a OR fl) = a + high_vma" and "hw_raw (a OR fl) = a + high_vma"
proof -
  have a0: "\<not> bit a n" if "n < 12" for n
  proof -
    have "take_bit 12 (unat a) = 0" using assms(1) by (simp add: take_bit_eq_mod mod_eq_0_iff_dvd)
    then have "\<not> bit (take_bit 12 (unat a)) n" by simp
    then show ?thesis using that by (simp add: bit_take_bit_iff bit_unat_iff)
  qed
  have a1: "\<not> bit a n" if "52 \<le> n" for n
  proof -
    have "take_bit 52 (unat a) = unat a" using assms(2) by (simp add: take_bit_nat_eq_self)
    then show ?thesis using that bit_take_bit_iff [of 52 "unat a" n] by (simp add: bit_unat_iff)
  qed
  have f: "\<not> bit fl n" if "12 \<le> n" for n
  proof -
    have "unat fl < 2 ^ 12" using assms(3) by (simp add: word_less_nat_alt)
    then have "take_bit 12 (unat fl) = unat fl" by (simp add: take_bit_nat_eq_self)
    then show ?thesis using that bit_take_bit_iff [of 12 "unat fl" n] by (simp add: bit_unat_iff)
  qed
  have m: "(0xfff :: u64) = mask 12" "(0xffffffffff000 :: u64) = mask 52 AND NOT (mask 12)"
    by (simp_all add: mask_eq_exp_minus_1)
  have "(a OR fl) AND NOT 0xfff = a"
    unfolding m
  proof (rule bit_word_eqI)
    fix n
    show "bit ((a OR fl) AND NOT (mask 12)) n = bit a n" if "n < LENGTH(64)"
      using a0 [of n] f [of n] that by (cases "n < 12") (simp_all add: bit_simps)
  qed
  moreover have "(a OR fl) AND 0xffffffffff000 = a"
    unfolding m
  proof (rule bit_word_eqI)
    fix n
    show "bit ((a OR fl) AND (mask 52 AND NOT (mask 12))) n = bit a n" if "n < LENGTH(64)"
      using a0 [of n] a1 [of n] f [of n] that by (cases "n < 12"; cases "n < 52") (simp_all add: bit_simps)
  qed
  ultimately show "pml_raw (a OR fl) = a + high_vma" "hw_raw (a OR fl) = a + high_vma"
    by (simp_all add: pml_raw_at_def hw_raw_def)
qed

subsection \<open>Mapping a page\<close>

definition tree_ok :: "vmm \<Rightarrow> nat \<Rightarrow> u64 \<Rightarrow> bool" where
  "tree_ok s k t \<longleftrightarrow> wf_table (tabs s) k t \<and> footprint (tabs s) k t \<subseteq> raws (vframes s) \<and> frames_ok (vframes s)"

definition other_page :: "nat \<Rightarrow> nat \<Rightarrow> u64 \<Rightarrow> u64 \<Rightarrow> bool" where
  "other_page l k va va' \<longleftrightarrow> (\<exists>j. l \<le> j \<and> j \<le> k \<and> lvl_idx j va' \<noteq> lvl_idx j va)"

text \<open>
  \<open>mapped l va r s s' k t\<close>: below the table \<open>t\<close> of level \<open>k\<close> the walk for the address \<open>va\<close>
  now ends with \<open>r\<close> at the page of level \<open>l\<close>, every other page of that size is translated as
  before, and only tables of this tree and new pages have changed.
\<close>

definition mapped :: "nat \<Rightarrow> u64 \<Rightarrow> (u64 \<times> nat) option \<Rightarrow> vmm \<Rightarrow> vmm \<Rightarrow> nat \<Rightarrow> u64 \<Rightarrow> bool" where
  "mapped l va r s s' k t \<longleftrightarrow> tree_ok s' k t
     \<and> raws (vframes s) \<subseteq> raws (vframes s')
     \<and> managed_pages (vframes s') = managed_pages (vframes s)
     \<and> footprint (tabs s') k t \<subseteq> footprint (tabs s) k t \<union> (raws (vframes s') - raws (vframes s))
     \<and> (\<forall>q \<in> raws (vframes s) - footprint (tabs s) k t. tabs s' q = tabs s q)
     \<and> walk (tabs s') k t va = r
     \<and> (\<forall>va'. other_page l k va va' \<longrightarrow> walk (tabs s') k t va' = walk (tabs s) k t va')"

definition flags_ok :: "(nat \<Rightarrow> u64) \<Rightarrow> nat \<Rightarrow> bool" where
  "flags_ok fl l \<longleftrightarrow> 0 < l \<and> l \<le> 3 \<and> is_present (fl l) \<and> (1 < l \<longrightarrow> is_huge (fl l))
     \<and> (\<forall>k. l < k \<longrightarrow> is_present (fl k) \<and> \<not> is_huge (fl k) \<and> fl k < 0x1000)"

lemma is_present_bit: "is_present e \<longleftrightarrow> bit e 0"
  using bit_iff_and_push_bit_not_eq_0 [of e 0] by (simp add: is_present_def flags_p_def)

lemma is_huge_bit: "is_huge e \<longleftrightarrow> bit e 7"
  using bit_iff_and_push_bit_not_eq_0 [of e 7] by (simp add: is_huge_def flags_ps_def)

lemma present_or: "is_present fl \<Longrightarrow> is_present (a OR fl)"
  by (simp only: is_present_bit bit_or_iff simp_thms)

lemma present_nz: "is_present e \<Longrightarrow> e \<noteq> 0"
  by auto

lemma page_aligned_bit: "4096 dvd unat (a :: u64) \<Longrightarrow> n < 12 \<Longrightarrow> \<not> bit a n"
proof -
  assume "4096 dvd unat a" "n < 12"
  moreover from this have "take_bit 12 (unat a) = 0" by (simp add: take_bit_eq_mod mod_eq_0_iff_dvd)
  then have "\<not> bit (take_bit 12 (unat a)) n" by simp
  ultimately show ?thesis by (simp add: bit_take_bit_iff bit_unat_iff)
qed

text \<open>Writing an entry that does not refer to a table, in place of another such entry.\<close>

lemma write_leaf:
  assumes tree: "tree_ok s l t" and l0: "0 < l" and i: "i = lvl_idx l va"
    and nt: "\<not> tbl l (tabs s t i)" "\<not> tbl l x" and s': "s' = entry_write s t i x"
  shows "mapped l va (if is_present x then Some (x, l) else None) s s' l t"
proof -
  obtain k where l: "l = Suc k" using l0 by (cases l) auto
  let ?m = "tabs s" and ?m' = "tabs s'"
  have m't: "?m' t j = (if j = i then x else ?m t j)" for j by (simp add: s' entry_write_def)
  have m'q: "?m' q = ?m q" if "q \<noteq> t" for q using that by (simp add: s' entry_write_def)
  have tb: "tbl l (?m' t j) = (tbl l (?m t j))" for j using nt by (simp add: m't)
  have same: "?m' t j = ?m t j" if "tbl l (?m t j)" for j using that nt by (auto simp: m't)
  have wf: "wf_table ?m l t" using tree by (simp add: tree_ok_def)
  have keep: "\<forall>q \<in> footprint ?m k (pml_raw (?m t j)). ?m' q = ?m q" if "j < 512" "tbl l (?m t j)" for j
  proof -
    have "t \<notin> footprint ?m k (pml_raw (?m t j))" using wf that by (simp add: l)
    then show ?thesis using m'q by metis
  qed
  have sub: "footprint ?m' k (pml_raw (?m t j)) = footprint ?m k (pml_raw (?m t j))
      \<and> wf_table ?m' k (pml_raw (?m t j)) = wf_table ?m k (pml_raw (?m t j))" if "j < 512" "tbl l (?m t j)" for j
    by (rule footprint_frame [OF keep [OF that]])
  have fp: "footprint ?m' l t = footprint ?m l t"
    unfolding l footprint.simps using tb same sub by (auto simp: l)
  have wf': "wf_table ?m' l t"
    using wf unfolding l wf_table.simps using tb same sub by (simp add: l)
  have "walk ?m' l t va' = walk ?m l t va'" if "lvl_idx l va' \<noteq> i" for va'
  proof -
    let ?y = "?m t (lvl_idx l va')"
    have "walk ?m' k (hw_raw ?y) va' = walk ?m k (hw_raw ?y) va'" if "is_present ?y" "\<not> leaf l ?y"
    proof -
      have y: "tbl l ?y" using that by (auto simp: tbl_def)
      then have "hw_raw ?y = pml_raw ?y" "wf_table ?m k (pml_raw ?y)" using wf lvl_idx_lt [of l va'] by (auto simp: l)
      then show ?thesis using walk_frame [OF keep [OF lvl_idx_lt y]] by simp
    qed
    then show ?thesis using that by (simp add: l m't [unfolded l] Let_def)
  qed
  then have others: "\<forall>va'. other_page l l va va' \<longrightarrow> walk ?m' l t va' = walk ?m l t va'"
    by (auto simp: other_page_def i)
  have "leaf l x" if "is_present x" using nt(2) present_nz [OF that] by (simp add: tbl_def)
  then have walk_va: "walk ?m' l t va = (if is_present x then Some (x, l) else None)"
    using i by (simp add: l m't [unfolded l] Let_def)
  have fr: "vframes s' = vframes s" by (simp add: s' entry_write_def)
  have "t \<in> footprint ?m l t" by (simp add: l)
  then have "\<forall>q \<in> raws (vframes s) - footprint ?m l t. ?m' q = ?m q" using m'q by (metis DiffE)
  then show ?thesis
    using tree fp wf' others walk_va unfolding mapped_def tree_ok_def fr by simp
qed

text \<open>The last level: the absent entry is written.\<close>

lemma map_levels_leaf:
  assumes tree: "tree_ok s l t" and vac: "vacant (tabs s) l t va l" and fl: "flags_ok fl l"
  shows "\<exists>s'. map_levels s l t va p fl (-1) = Some (s', Some (page_len l)) \<and> mapped l va (Some (p OR fl l, l)) s s' l t"
proof -
  obtain k where l: "l = Suc k" using fl by (cases l) (auto simp: flags_ok_def)
  let ?i = "lvl_idx l va" and ?x = "p OR fl l"
  have e: "tabs s t ?i = 0" using vac by (simp add: l Let_def)
  have pres: "is_present (fl l)" "is_present ?x" using fl present_or [of "fl l" p] by (simp_all add: flags_ok_def)
  have huge: "1 < l \<Longrightarrow> is_huge (fl l)" "1 < l \<Longrightarrow> is_huge ?x"
    using fl by (simp_all add: flags_ok_def is_huge_bit bit_or_iff)
  have lf: "leaf l ?x" using huge(2) fl by (cases "l = 1") (simp_all add: leaf_def flags_ok_def)
  define s' where "s' = entry_write s t ?i ?x"
  have "fl l \<noteq> 0" using pres(1) by (rule present_nz)
  then have "ensure l s t ?i (fl l) p = Some (True, s')"
    using e huge fl by (auto simp: ensure_def ensure_page_def ensure_huge_at_def s'_def flags_ok_def is_huge_def flags_ps_def)
  then have "map_levels s l t va p fl (-1) = Some (s', Some (page_len l))"
    using lf by (simp add: l s'_def entry_write_def apply_pa_def)
  moreover have "mapped l va (Some (?x, l)) s s' l t"
    using write_leaf [OF tree _ refl, of va ?x s'] e lf pres by (simp add: s'_def tbl_def l)
  ultimately show ?thesis by blast
qed

text \<open>An entry that is there: the tables below it change, the rest of the tree does not.\<close>

lemma mapped_descend:
  assumes tree: "tree_ok s (Suc k) t" and l: "l < Suc k" and e: "e = tabs s t (lvl_idx (Suc k) va)" "tbl (Suc k) e"
    and sub: "mapped l va r s s' k (pml_raw e)"
  shows "mapped l va r s s' (Suc k) t"
proof -
  let ?m = "tabs s" and ?m' = "tabs s'" and ?i = "lvl_idx (Suc k) va"
  let ?new = "raws (vframes s') - raws (vframes s)"
  have wf: "wf_table ?m (Suc k) t" and fpr: "footprint ?m (Suc k) t \<subseteq> raws (vframes s)"
    using tree by (simp_all add: tree_ok_def)
  have i: "?i < 512" by (rule lvl_idx_lt)
  from sub have s': "tree_ok s' k (pml_raw e)" "raws (vframes s) \<subseteq> raws (vframes s')"
    "managed_pages (vframes s') = managed_pages (vframes s)"
    "footprint ?m' k (pml_raw e) \<subseteq> footprint ?m k (pml_raw e) \<union> ?new"
    "\<And>q. q \<in> raws (vframes s) \<Longrightarrow> q \<notin> footprint ?m k (pml_raw e) \<Longrightarrow> ?m' q = ?m q"
    "walk ?m' k (pml_raw e) va = r"
    "\<And>va'. other_page l k va va' \<Longrightarrow> walk ?m' k (pml_raw e) va' = walk ?m k (pml_raw e) va'"
    by (auto simp: mapped_def)
  have tr: "t \<in> raws (vframes s)" using fpr by simp
  have te: "t \<notin> footprint ?m k (pml_raw e)" "is_present e" "hw_raw e = pml_raw e"
    using wf i e by auto
  have mt: "?m' t = ?m t" by (rule s'(5) [OF tr te(1)])
  have fpj: "footprint ?m k (pml_raw (?m t j)) \<subseteq> raws (vframes s)" if "j < 512" "tbl (Suc k) (?m t j)" for j
    using fpr that by auto
  have disj: "footprint ?m k (pml_raw (?m t j)) \<inter> footprint ?m k (pml_raw e) = {}"
    if "j < 512" "tbl (Suc k) (?m t j)" "j \<noteq> ?i" for j
    using wf i e that unfolding wf_table.simps by blast
  have keep: "\<forall>q \<in> footprint ?m k (pml_raw (?m t j)). ?m' q = ?m q" if "j < 512" "tbl (Suc k) (?m t j)" "j \<noteq> ?i" for j
    using disj [OF that] fpj [OF that(1,2)] s'(5) by blast
  have fp_j: "footprint ?m' k (pml_raw (?m t j)) = footprint ?m k (pml_raw (?m t j))
      \<and> wf_table ?m' k (pml_raw (?m t j)) = wf_table ?m k (pml_raw (?m t j))"
    if "j < 512" "tbl (Suc k) (?m t j)" "j \<noteq> ?i" for j
    by (rule footprint_frame [OF keep [OF that]])
  have fp: "footprint ?m' (Suc k) t \<subseteq> footprint ?m (Suc k) t \<union> ?new"
  proof
    fix q
    assume "q \<in> footprint ?m' (Suc k) t"
    then consider "q = t" | j where "j < 512" "tbl (Suc k) (?m t j)" "q \<in> footprint ?m' k (pml_raw (?m t j))"
      by (auto simp: mt)
    then show "q \<in> footprint ?m (Suc k) t \<union> ?new"
    proof cases
      case (2 j)
      then show ?thesis using fp_j [of j] s'(4) e by (cases "j = ?i") auto
    qed simp
  qed
  have wf': "wf_table ?m' (Suc k) t"
  proof -
    have each: "is_present (?m t j) \<and> hw_raw (?m t j) = pml_raw (?m t j) \<and> t \<notin> footprint ?m' k (pml_raw (?m t j))
        \<and> wf_table ?m' k (pml_raw (?m t j))" if "j < 512" "tbl (Suc k) (?m t j)" for j
      using wf that te s'(1,4) tr e fp_j [OF that] by (cases "j = ?i") (auto simp: tree_ok_def)
    have pair: "footprint ?m' k (pml_raw (?m t j)) \<inter> footprint ?m' k (pml_raw (?m t h)) = {}"
      if "j < 512" "h < 512" "j \<noteq> h" "tbl (Suc k) (?m t j)" "tbl (Suc k) (?m t h)" for j h
    proof -
      have one: "footprint ?m' k (pml_raw (?m t j)) \<inter> footprint ?m' k (pml_raw e) = {}"
        if "j < 512" "tbl (Suc k) (?m t j)" "j \<noteq> ?i" for j
        using disj [OF that] fp_j [OF that] fpj [OF that(1,2)] s'(4) by blast
      consider "j = ?i" | "h = ?i" | "j \<noteq> ?i" "h \<noteq> ?i" by blast
      then show ?thesis
      proof cases
        case 3
        then show ?thesis using fp_j that wf unfolding wf_table.simps by metis
      qed (use one that e in blast)+
    qed
    show ?thesis using each pair by (simp add: mt)
  qed
  have walk_va: "walk ?m' (Suc k) t va = r"
    using te e s'(6) by (simp add: mt Let_def tbl_def)
  have "walk ?m' (Suc k) t va' = walk ?m (Suc k) t va'" if other: "other_page l (Suc k) va va'" for va'
  proof (cases "lvl_idx (Suc k) va' = ?i")
    case True
    then have "other_page l k va va'" using other by (auto simp: other_page_def le_Suc_eq)
    then show ?thesis using True te e s'(7) by (simp add: mt Let_def)
  next
    case False
    let ?y = "?m t (lvl_idx (Suc k) va')"
    have "walk ?m' k (hw_raw ?y) va' = walk ?m k (hw_raw ?y) va'" if "is_present ?y" "\<not> leaf (Suc k) ?y"
    proof -
      have y: "tbl (Suc k) ?y" using that by (auto simp: tbl_def)
      then have "hw_raw ?y = pml_raw ?y" "wf_table ?m k (pml_raw ?y)" using wf lvl_idx_lt [of "Suc k" va'] by auto
      then show ?thesis using walk_frame [OF keep [OF lvl_idx_lt y False]] by simp
    qed
    then show ?thesis by (simp add: mt Let_def)
  qed
  moreover have "footprint ?m' (Suc k) t \<subseteq> raws (vframes s')" using fp fpr s'(2) by blast
  moreover have "\<forall>q \<in> raws (vframes s) - footprint ?m (Suc k) t. ?m' q = ?m q" using s'(5) i e by auto
  ultimately show ?thesis
    using wf' fp walk_va s'(1-3) by (simp add: mapped_def tree_ok_def)
qed

text \<open>An absent entry above the last level: a new, empty table is put in its place.\<close>

lemma fill_entry:
  assumes tree: "tree_ok s (Suc k) t" and k: "0 < k" and e: "tabs s t (lvl_idx (Suc k) va) = 0"
    and free: "0 < free_frames (vframes s)"
    and fl: "is_present fl" "\<not> is_huge fl" "fl < 0x1000"
  obtains s1 where "ensure (Suc k) s t (lvl_idx (Suc k) va) fl p = Some (True, s1)" "tree_ok s1 (Suc k) t"
    "tbl (Suc k) (tabs s1 t (lvl_idx (Suc k) va))"
    "vacant (tabs s1) k (pml_raw (tabs s1 t (lvl_idx (Suc k) va))) va l"
    "free_frames (vframes s1) = free_frames (vframes s) - 1"
    "raws (vframes s) \<subseteq> raws (vframes s1)" "managed_pages (vframes s1) = managed_pages (vframes s)"
    "footprint (tabs s1) (Suc k) t \<subseteq> footprint (tabs s) (Suc k) t \<union> (raws (vframes s1) - raws (vframes s))"
    "\<forall>q \<in> raws (vframes s) - footprint (tabs s) (Suc k) t. tabs s1 q = tabs s q"
    "\<forall>va'. walk (tabs s1) (Suc k) t va' = walk (tabs s) (Suc k) t va'"
proof -
  let ?i = "lvl_idx (Suc k) va" and ?m = "tabs s"
  have wf: "wf_table ?m (Suc k) t" and fpr: "footprint ?m (Suc k) t \<subseteq> raws (vframes s)" and fr: "frames_ok (vframes s)"
    using tree by (simp_all add: tree_ok_def)
  obtain a s0 where a: "calloc_pages s 1 = Some (a, s0)" "4096 dvd unat a" "unat a < 2 ^ 52"
    "a + high_vma \<notin> raws (vframes s)" "raws (vframes s0) = insert (a + high_vma) (raws (vframes s))"
    "frames_ok (vframes s0)" "managed_pages (vframes s0) = managed_pages (vframes s)"
    "free_frames (vframes s0) = free_frames (vframes s) - 1"
    "tabs s0 (a + high_vma) = (\<lambda>_. 0)" "\<forall>q \<in> raws (vframes s). tabs s0 q = tabs s q"
    using calloc_page [OF fr free] by blast
  let ?r = "a + high_vma" and ?x = "a OR fl"
  define s1 where "s1 = entry_write s0 t ?i ?x"
  let ?m1 = "tabs s1"
  have tr: "t \<in> raws (vframes s)" using fpr by simp
  then have rt: "?r \<noteq> t" using a(4) by auto
  have m1t: "?m1 t j = (if j = ?i then ?x else ?m t j)" for j
    using a(10) tr by (simp add: s1_def entry_write_def)
  have m1r: "?m1 ?r = (\<lambda>_. 0)" using a(9) rt by (simp add: s1_def entry_write_def)
  have m1q: "?m1 q = ?m q" if "q \<in> raws (vframes s)" "q \<noteq> t" for q
    using a(10) that by (simp add: s1_def entry_write_def)
  have fr1: "vframes s1 = vframes s0" by (simp add: s1_def entry_write_def)
  have raw: "pml_raw ?x = ?r" "hw_raw ?x = ?r" using entry_address [OF a(2,3) fl(3)] by simp_all
  have pres: "is_present ?x" by (rule present_or [OF fl(1)])
  have "\<not> is_huge ?x" using fl(2) page_aligned_bit [OF a(2), of 7] by (simp add: is_huge_bit bit_or_iff)
  then have tx: "tbl (Suc k) ?x" using k present_nz [OF pres] by (simp add: tbl_def leaf_def)
  obtain n where n: "k = Suc n" using k by (cases k) auto
  have zero: "footprint ?m1 k ?r = {?r}" "wf_table ?m1 k ?r" "vacant ?m1 k ?r va l" "walk ?m1 k ?r va' = None" for va'
    by (simp_all add: n m1r)
  have fpj: "footprint ?m k (pml_raw (?m t j)) \<subseteq> raws (vframes s) - {t}" if "j < 512" "tbl (Suc k) (?m t j)" for j
  proof -
    have "t \<notin> footprint ?m k (pml_raw (?m t j))" using wf that by simp
    moreover have "footprint ?m k (pml_raw (?m t j)) \<subseteq> footprint ?m (Suc k) t" using that by auto
    ultimately show ?thesis using fpr by blast
  qed
  have keep: "\<forall>q \<in> footprint ?m k (pml_raw (?m t j)). ?m1 q = ?m q" if "j < 512" "tbl (Suc k) (?m t j)" for j
    using fpj [OF that] m1q by blast
  have sub: "footprint ?m1 k (pml_raw (?m t j)) = footprint ?m k (pml_raw (?m t j))
      \<and> wf_table ?m1 k (pml_raw (?m t j)) = wf_table ?m k (pml_raw (?m t j))" if "j < 512" "tbl (Suc k) (?m t j)" for j
    by (rule footprint_frame [OF keep [OF that]])
  have i0: "tbl (Suc k) (?m1 t j) \<longleftrightarrow> j = ?i \<or> tbl (Suc k) (?m t j)" for j using tx e by (simp add: m1t)
  have ni: "j \<noteq> ?i" if "tbl (Suc k) (?m t j)" for j using that e by auto
  have fp: "footprint ?m1 (Suc k) t \<subseteq> insert ?r (footprint ?m (Suc k) t)"
  proof
    fix q
    assume "q \<in> footprint ?m1 (Suc k) t"
    then consider "q = t" | j where "j < 512" "tbl (Suc k) (?m1 t j)" "q \<in> footprint ?m1 k (pml_raw (?m1 t j))" by auto
    then show "q \<in> insert ?r (footprint ?m (Suc k) t)"
    proof cases
      case (2 j)
      then show ?thesis using sub [of j] zero(1) raw by (cases "j = ?i") (auto simp: m1t i0)
    qed simp
  qed
  have wf1: "wf_table ?m1 (Suc k) t"
  proof -
    have each: "is_present (?m1 t j) \<and> hw_raw (?m1 t j) = pml_raw (?m1 t j) \<and> t \<notin> footprint ?m1 k (pml_raw (?m1 t j))
        \<and> wf_table ?m1 k (pml_raw (?m1 t j))" if "j < 512" "tbl (Suc k) (?m1 t j)" for j
    proof (cases "j = ?i")
      case True
      then show ?thesis using pres raw zero rt by (simp add: m1t)
    next
      case False
      then show ?thesis using that wf sub [of j] fpj [of j] by (simp add: m1t)
    qed
    have pair: "footprint ?m1 k (pml_raw (?m1 t j)) \<inter> footprint ?m1 k (pml_raw (?m1 t h)) = {}"
      if "j < 512" "h < 512" "j \<noteq> h" "tbl (Suc k) (?m1 t j)" "tbl (Suc k) (?m1 t h)" for j h
    proof -
      have one: "?r \<notin> footprint ?m1 k (pml_raw (?m t j))" if "j < 512" "tbl (Suc k) (?m t j)" for j
        using sub [OF that] fpj [OF that] a(4) by blast
      consider "j = ?i" "h \<noteq> ?i" | "h = ?i" "j \<noteq> ?i" | "j \<noteq> ?i" "h \<noteq> ?i" using \<open>j \<noteq> h\<close> by blast
      then show ?thesis
      proof cases
        case 1
        then show ?thesis using one [of h] that zero(1) raw by (simp add: m1t)
      next
        case 2
        then show ?thesis using one [of j] that zero(1) raw by (simp add: m1t)
      next
        case 3
        then have "tbl (Suc k) (?m t j)" "tbl (Suc k) (?m t h)" using that(4,5) by (simp_all add: i0)
        then show ?thesis using 3 sub that(1-3) wf by (simp add: m1t)
      qed
    qed
    show ?thesis unfolding wf_table.simps using each pair by blast
  qed
  have walks: "walk ?m1 (Suc k) t va' = walk ?m (Suc k) t va'" for va'
  proof (cases "lvl_idx (Suc k) va' = ?i")
    case True
    then show ?thesis using raw zero(4) tx e by (simp add: m1t tbl_def Let_def)
  next
    case False
    let ?y = "?m t (lvl_idx (Suc k) va')"
    have "walk ?m1 k (hw_raw ?y) va' = walk ?m k (hw_raw ?y) va'" if "is_present ?y" "\<not> leaf (Suc k) ?y"
    proof -
      have y: "tbl (Suc k) ?y" using that by (auto simp: tbl_def)
      then have "hw_raw ?y = pml_raw ?y" "wf_table ?m k (pml_raw ?y)" using wf lvl_idx_lt [of "Suc k" va'] by auto
      then show ?thesis using walk_frame [OF keep [OF lvl_idx_lt y]] by simp
    qed
    then show ?thesis using False by (simp add: m1t Let_def)
  qed
  show thesis
  proof (rule that [of s1])
    have "fl \<noteq> 0" by (rule present_nz [OF fl(1)])
    moreover have "fl AND 0x80 = 0" using fl(2) by (simp add: is_huge_def flags_ps_def)
    ultimately show "ensure (Suc k) s t ?i fl p = Some (True, s1)"
      using e a(1) k by (simp add: ensure_def ensure_huge_at_def ensure_table_at_def s1_def)
    have "footprint ?m1 (Suc k) t \<subseteq> raws (vframes s1)" using fp fpr unfolding fr1 a(5) by blast
    then show "tree_ok s1 (Suc k) t" using wf1 a(6) unfolding tree_ok_def fr1 by blast
    show "tbl (Suc k) (?m1 t ?i)" using tx by (simp add: m1t)
    show "vacant ?m1 k (pml_raw (?m1 t ?i)) va l" using raw zero(3) by (simp add: m1t)
    have "t \<in> footprint ?m (Suc k) t" by simp
    then show "\<forall>q \<in> raws (vframes s) - footprint ?m (Suc k) t. ?m1 q = ?m q" using m1q by (metis DiffE)
    show "footprint ?m1 (Suc k) t \<subseteq> footprint ?m (Suc k) t \<union> (raws (vframes s1) - raws (vframes s))"
      using fp a(4) unfolding fr1 a(5) by blast
  qed (use a(5,7,8) fr1 walks in \<open>simp_all only: subset_insertI simp_thms\<close>)
qed

lemma mapped_trans:
  assumes "mapped l va r s1 s' k t"
    and "raws (vframes s) \<subseteq> raws (vframes s1)" and "managed_pages (vframes s1) = managed_pages (vframes s)"
    and "footprint (tabs s1) k t \<subseteq> footprint (tabs s) k t \<union> (raws (vframes s1) - raws (vframes s))"
    and "\<forall>q \<in> raws (vframes s) - footprint (tabs s) k t. tabs s1 q = tabs s q"
    and "\<forall>va'. walk (tabs s1) k t va' = walk (tabs s) k t va'"
  shows "mapped l va r s s' k t"
proof -
  from assms(1) have m: "tree_ok s' k t" "raws (vframes s1) \<subseteq> raws (vframes s')"
    "managed_pages (vframes s') = managed_pages (vframes s1)"
    "footprint (tabs s') k t \<subseteq> footprint (tabs s1) k t \<union> (raws (vframes s') - raws (vframes s1))"
    "\<forall>q \<in> raws (vframes s1) - footprint (tabs s1) k t. tabs s' q = tabs s1 q"
    "walk (tabs s') k t va = r"
    "\<forall>va'. other_page l k va va' \<longrightarrow> walk (tabs s') k t va' = walk (tabs s1) k t va'"
    by (simp_all add: mapped_def)
  have "footprint (tabs s') k t \<subseteq> footprint (tabs s) k t \<union> (raws (vframes s') - raws (vframes s))"
    using m(2,4) assms(2,4) by blast
  moreover have "tabs s' q = tabs s q" if "q \<in> raws (vframes s) - footprint (tabs s) k t" for q
  proof -
    have "q \<in> raws (vframes s1) - footprint (tabs s1) k t" using that assms(2,4) by blast
    then show ?thesis using m(5) assms(5) that by metis
  qed
  moreover have "raws (vframes s) \<subseteq> raws (vframes s')" using m(2) assms(2) by blast
  ultimately show ?thesis using m(1,3,6,7) assms(3,6) unfolding mapped_def by metis
qed

lemma map_levels_correct:
  assumes "tree_ok s k t" and "vacant (tabs s) k t va l" and "flags_ok fl l" and "l \<le> k"
    and "k - l \<le> free_frames (vframes s)"
  shows "\<exists>s'. map_levels s k t va p fl (-1) = Some (s', Some (page_len l)) \<and> mapped l va (Some (p OR fl l, l)) s s' k t"
  using assms(4,1,2,5)
proof (induction k arbitrary: s t rule: dec_induct)
  case base
  then show ?case using map_levels_leaf [OF _ _ assms(3)] by blast
next
  case (step k)
  let ?i = "lvl_idx (Suc k) va"
  have k: "0 < k" "l < Suc k" using step.hyps assms(3) by (auto simp: flags_ok_def)
  have fl: "is_present (fl (Suc k))" "\<not> is_huge (fl (Suc k))" "fl (Suc k) < 0x1000"
    using assms(3) k(2) by (auto simp: flags_ok_def)
  have descend: "\<exists>s'. map_levels s (Suc k) t va p fl (-1) = Some (s', Some (page_len l)) \<and> mapped l va (Some (p OR fl l, l)) s1 s' (Suc k) t"
    if "ensure (Suc k) s t ?i (fl (Suc k)) p = Some (True, s1)" and tree: "tree_ok s1 (Suc k) t"
      and e: "tbl (Suc k) (tabs s1 t ?i)" and vac: "vacant (tabs s1) k (pml_raw (tabs s1 t ?i)) va l"
      and free: "k - l \<le> free_frames (vframes s1)" for s1
  proof -
    have "wf_table (tabs s1) k (pml_raw (tabs s1 t ?i))"
      and "footprint (tabs s1) k (pml_raw (tabs s1 t ?i)) \<subseteq> footprint (tabs s1) (Suc k) t"
      using tree e lvl_idx_lt [of "Suc k" va] by (auto simp: tree_ok_def)
    then have "tree_ok s1 k (pml_raw (tabs s1 t ?i))"
      using tree unfolding tree_ok_def by (blast intro: subset_trans)
    then obtain s' where "map_levels s1 k (pml_raw (tabs s1 t ?i)) va p fl (-1) = Some (s', Some (page_len l))"
      "mapped l va (Some (p OR fl l, l)) s1 s' k (pml_raw (tabs s1 t ?i))"
      using step.IH [OF _ vac free] by blast
    then show ?thesis
      using mapped_descend [OF tree k(2) refl e] that(1) e by (simp add: tbl_def)
  qed
  show ?case
  proof (cases "tabs s t ?i = 0")
    case False
    then have e: "tbl (Suc k) (tabs s t ?i)" "vacant (tabs s) k (pml_raw (tabs s t ?i)) va l"
      using step.prems(2) by (simp_all add: Let_def)
    have "ensure (Suc k) s t ?i (fl (Suc k)) p = Some (True, s)"
      using False k(1) by (simp add: ensure_def ensure_huge_at_def ensure_table_at_def)
    then show ?thesis using descend [OF _ step.prems(1) e] step.prems(3) by simp
  next
    case True
    have "0 < free_frames (vframes s)" using step.prems(3) k(2) by simp
    from fill_entry [OF step.prems(1) k(1) True this fl, of p l] obtain s1 where
      s1: "ensure (Suc k) s t ?i (fl (Suc k)) p = Some (True, s1)" "tree_ok s1 (Suc k) t" "tbl (Suc k) (tabs s1 t ?i)"
      "vacant (tabs s1) k (pml_raw (tabs s1 t ?i)) va l" "free_frames (vframes s1) = free_frames (vframes s) - 1"
      "raws (vframes s) \<subseteq> raws (vframes s1)" "managed_pages (vframes s1) = managed_pages (vframes s)"
      "footprint (tabs s1) (Suc k) t \<subseteq> footprint (tabs s) (Suc k) t \<union> (raws (vframes s1) - raws (vframes s))"
      "\<forall>q \<in> raws (vframes s) - footprint (tabs s) (Suc k) t. tabs s1 q = tabs s q"
      "\<forall>va'. walk (tabs s1) (Suc k) t va' = walk (tabs s) (Suc k) t va'" by metis
    have "k - l \<le> free_frames (vframes s1)" using step.prems(3) s1(5) k(2) by simp
    from descend [OF s1(1-4) this] obtain s' where
      s': "map_levels s (Suc k) t va p fl (-1) = Some (s', Some (page_len l))" "mapped l va (Some (p OR fl l, l)) s1 s' (Suc k) t"
      by blast
    have "mapped l va (Some (p OR fl l, l)) s s' (Suc k) t"
      by (rule mapped_trans [OF s'(2) s1(6-10)])
    then show ?thesis using s'(1) by blast
  qed
qed

subsection \<open>Unmapping a page\<close>

text \<open>The slot the walk ends at.\<close>

fun leaf_slot :: "(u64 \<Rightarrow> nat \<Rightarrow> u64) \<Rightarrow> nat \<Rightarrow> u64 \<Rightarrow> u64 \<Rightarrow> u64 \<times> nat" where
  "leaf_slot m 0 t va = (t, 0)"
| "leaf_slot m (Suc k) t va =
     (let e = m t (lvl_idx (Suc k) va) in
      if leaf (Suc k) e then (t, lvl_idx (Suc k) va) else leaf_slot m k (pml_raw e) va)"

lemma clear_leaf:
  assumes "tree_ok s k t" and "walk (tabs s) k t va = Some (e, l)"
  defines "q \<equiv> leaf_slot (tabs s) k t va"
  shows "0 < l \<and> l \<le> k \<and> tabs s (fst q) (snd q) = e
    \<and> mapped l va None s (entry_write s (fst q) (snd q) (set_present e False)) k t"
  using assms(1,2) unfolding q_def
proof (induction k arbitrary: t)
  case (Suc k)
  let ?i = "lvl_idx (Suc k) va"
  let ?e = "tabs s t ?i"
  have pres: "is_present ?e" using Suc.prems(2) by (simp add: Let_def split: if_splits)
  show ?case
  proof (cases "leaf (Suc k) ?e")
    case True
    then have e: "?e = e" "l = Suc k" using Suc.prems(2) pres by (auto simp: Let_def)
    have "\<not> is_present (set_present e False)" "is_huge (set_present e False) = is_huge e"
      unfolding is_present_bit is_huge_bit set_present_def set_flag_def flags_p_def by (simp_all add: bit_simps)
    moreover from this have "leaf (Suc k) (set_present e False)" using True e by (simp add: leaf_def)
    ultimately have "mapped (Suc k) va None s (entry_write s t ?i (set_present e False)) (Suc k) t"
      using write_leaf [OF Suc.prems(1) _ refl, of va "set_present e False"] True by (simp add: tbl_def)
    then show ?thesis using True e by (simp add: Let_def)
  next
    case False
    have tb: "tbl (Suc k) ?e" using False present_nz [OF pres] by (simp add: tbl_def)
    then have sub: "hw_raw ?e = pml_raw ?e" "wf_table (tabs s) k (pml_raw ?e)"
      "footprint (tabs s) k (pml_raw ?e) \<subseteq> footprint (tabs s) (Suc k) t"
      using Suc.prems(1) lvl_idx_lt [of "Suc k" va] by (auto simp: tree_ok_def)
    then have "tree_ok s k (pml_raw ?e)"
      using Suc.prems(1) unfolding tree_ok_def by (blast intro: subset_trans)
    moreover have "walk (tabs s) k (pml_raw ?e) va = Some (e, l)"
      using Suc.prems(2) pres False sub(1) by (simp add: Let_def)
    ultimately have IH: "0 < l" "l \<le> k"
      "tabs s (fst (leaf_slot (tabs s) k (pml_raw ?e) va)) (snd (leaf_slot (tabs s) k (pml_raw ?e) va)) = e"
      "mapped l va None s (entry_write s (fst (leaf_slot (tabs s) k (pml_raw ?e) va))
         (snd (leaf_slot (tabs s) k (pml_raw ?e) va)) (set_present e False)) k (pml_raw ?e)"
      using Suc.IH by blast+
    then show ?thesis
      using mapped_descend [OF Suc.prems(1) _ refl tb IH(4)] False by (simp add: Let_def)
  qed
qed simp

lemma walk_4_steps:
  assumes "tree_ok s 4 t" and "walk (tabs s) 4 t va = Some (e, 1)"
  obtains x4 x3 x2 where "x4 = tabs s t (pml4_idx va)" "is_present x4"
    "x3 = tabs s (pml_raw x4) (pml3_idx va)" "is_present x3" "\<not> is_huge x3"
    "x2 = tabs s (pml_raw x3) (pml2_idx va)" "is_present x2" "\<not> is_huge x2"
    "tabs s (pml_raw x2) (pml1_idx va) = e" "is_present e"
    "leaf_slot (tabs s) 4 t va = (pml_raw x2, pml1_idx va)"
    "pml_raw x2 \<noteq> t" "pml_raw x2 \<noteq> pml_raw x4" "pml_raw x2 \<noteq> pml_raw x3"
proof -
  have n: "4 = Suc (Suc (Suc (Suc 0)))" by simp
  have sub: "hw_raw x = pml_raw x \<and> wf_table (tabs s) k (pml_raw x) \<and> q \<notin> footprint (tabs s) k (pml_raw x)
      \<and> footprint (tabs s) k (pml_raw x) \<subseteq> footprint (tabs s) (Suc k) q"
    if "wf_table (tabs s) (Suc k) q" "x = tabs s q (lvl_idx (Suc k) va)" "is_present x" "\<not> leaf (Suc k) x" for q k x
  proof -
    have "tbl (Suc k) x" using that(3,4) present_nz [of x] by (simp add: tbl_def)
    then show ?thesis using that(1,2) lvl_idx_lt [of "Suc k" va] by auto
  qed
  define x4 where "x4 = tabs s t (lvl_idx (Suc (Suc (Suc (Suc 0)))) va)"
  have 4: "is_present x4" "\<not> leaf (Suc (Suc (Suc (Suc 0)))) x4"
    using assms(2) unfolding n by (auto simp: Let_def x4_def leaf_def split: if_splits)
  have w4: "hw_raw x4 = pml_raw x4" "wf_table (tabs s) (Suc (Suc (Suc 0))) (pml_raw x4)"
    "t \<notin> footprint (tabs s) (Suc (Suc (Suc 0))) (pml_raw x4)"
    using sub [OF _ x4_def 4] assms(1) unfolding tree_ok_def n by blast+
  define x3 where "x3 = tabs s (pml_raw x4) (lvl_idx (Suc (Suc (Suc 0))) va)"
  have s3: "walk (tabs s) (Suc (Suc (Suc 0))) (pml_raw x4) va = Some (e, 1)"
    using assms(2) 4 w4(1) unfolding n by (simp add: x4_def Let_def)
  then have 3: "is_present x3" "\<not> leaf (Suc (Suc (Suc 0))) x3"
    by (auto simp: Let_def x3_def split: if_splits)
  have w3: "hw_raw x3 = pml_raw x3" "wf_table (tabs s) (Suc (Suc 0)) (pml_raw x3)"
    "pml_raw x4 \<notin> footprint (tabs s) (Suc (Suc 0)) (pml_raw x3)"
    "footprint (tabs s) (Suc (Suc 0)) (pml_raw x3) \<subseteq> footprint (tabs s) (Suc (Suc (Suc 0))) (pml_raw x4)"
    using sub [OF w4(2) x3_def 3] by blast+
  define x2 where "x2 = tabs s (pml_raw x3) (lvl_idx (Suc (Suc 0)) va)"
  have s2: "walk (tabs s) (Suc (Suc 0)) (pml_raw x3) va = Some (e, 1)"
    using s3 3 w3(1) by (simp add: x3_def Let_def)
  then have 2: "is_present x2" "\<not> leaf (Suc (Suc 0)) x2"
    by (auto simp: Let_def x2_def split: if_splits)
  have w2: "hw_raw x2 = pml_raw x2" "pml_raw x3 \<notin> footprint (tabs s) (Suc 0) (pml_raw x2)"
    "footprint (tabs s) (Suc 0) (pml_raw x2) \<subseteq> footprint (tabs s) (Suc (Suc 0)) (pml_raw x3)"
    using sub [OF w3(2) x2_def 2] by blast+
  have m1: "pml_raw x2 \<in> footprint (tabs s) (Suc 0) (pml_raw x2)" by simp
  note m2 = subsetD [OF w2(3) m1]
  note m3 = subsetD [OF w3(4) m2]
  have path: "pml_raw x2 \<noteq> t" "pml_raw x2 \<noteq> pml_raw x4" "pml_raw x2 \<noteq> pml_raw x3"
    using m1 m2 m3 w2(2) w3(3) w4(3) by metis+
  have s1: "walk (tabs s) (Suc 0) (pml_raw x2) va = Some (e, 1)"
    using s2 2 w2(1) by (simp add: x2_def Let_def)
  then have 1: "tabs s (pml_raw x2) (lvl_idx (Suc 0) va) = e" "is_present e"
    by (auto simp: Let_def leaf_def split: if_splits)
  have "leaf_slot (tabs s) 4 t va = (pml_raw x2, lvl_idx (Suc 0) va)"
    using 4 3 2 unfolding n by (simp add: x4_def [symmetric] x3_def [symmetric] x2_def [symmetric] leaf_def Let_def)
  then show thesis
    using that [OF x4_def [unfolded lvl_idx_pml] 4(1) x3_def [unfolded lvl_idx_pml] 3(1) _ x2_def [unfolded lvl_idx_pml] 2(1)]
      1 3(2) 2(2) path by (simp add: leaf_def lvl_idx_pml)
qed

lemma pml4_lookup_leaf:
  assumes "tree_ok s 4 t" and "walk (tabs s) 4 t va = Some (e, 1)"
  shows "pml_unmap s (pml4_lookup s t va) = Some (clear_present s (leaf_slot (tabs s) 4 t va))"
  by (rule walk_4_steps [OF assms])
    (auto simp: pml4_lookup_at_def pml3_lookup_at_def pml_unmap_def Let_def dest: present_nz)

subsection \<open>A small machine\<close>

text \<open>One chunk of twelve pages, the first of them an empty top-level table.\<close>

definition small_table :: pmlx_table where
  "small_table = \<lparr>highest_raw = 0x100000 + high_vma, plock = False\<rparr>"

definition small_vmm :: vmm where
  "small_vmm = \<lparr>tabs = (\<lambda>_ _. 0), vframes = one_chunk [1, 0] 4096\<rparr>"

lemma first_page_used: "{i. i < 12 \<and> bm_test [1, 0] i = Some True} = {0}"
proof -
  have "bm_test [1, 0] i = Some True \<longleftrightarrow> i = 0" if "i < 12" for i
  proof -
    have "i \<in> set [0..<12]" using that by simp
    then show ?thesis
      unfolding upt_rec_numeral by (simp add: upt_rec bm_test_def) (elim disjE; simp add: bm_test_def)
  qed
  then show ?thesis by auto
qed

lemma empty_table [simp]:
  "wf_table (\<lambda>_ _. 0) k t" "footprint (\<lambda>_ _. 0) k t \<subseteq> {t}" "vacant (\<lambda>_ _. 0) 4 t va l"
proof -
  show "wf_table (\<lambda>_ _. 0) k t" "footprint (\<lambda>_ _. 0) k t \<subseteq> {t}"
    by (cases k; simp add: tbl_def)+
  have "vacant (\<lambda>_ _. 0) (Suc 3) t va l" unfolding vacant.simps by simp
  then show "vacant (\<lambda>_ _. 0) 4 t va l" by simp
qed

lemma small_vmm_ok:
  "tree_ok small_vmm 4 (highest_raw small_table)" "11 = free_frames (vframes small_vmm)"
  "vacant (tabs small_vmm) 4 (highest_raw small_table) va l"
proof -
  let ?fr = "one_chunk [1, 0] 4096"
  have inv: "pmm_inv ?fr" by (rule one_chunk_inv) (simp_all add: first_page_used)
  have used: "used_pages ?fr = {0x100000}" unfolding one_chunk_used first_page_used by simp
  have man: "managed_pages ?fr = (\<lambda>i. 0x100000 + 4096 * i) ` {..<12}"
    by (auto simp: managed_pages_def chunk_pages_def one_chunk_def)
  have "frames_ok ?fr" using inv man by (auto simp: frames_ok_def)
  then show "tree_ok small_vmm 4 (highest_raw small_table)"
    by (simp add: tree_ok_def small_vmm_def small_table_def raws_def used)
  have "managed_pages ?fr - used_pages ?fr = (\<lambda>i. 0x100000 + 4096 * i) ` {1..<12}"
    unfolding man used by (auto simp: image_iff)
  moreover have "card ((\<lambda>i::nat. 0x100000 + 4096 * i) ` {1..<12}) = 11"
    by (subst card_image) (auto intro: inj_onI)
  ultimately show "11 = free_frames (vframes small_vmm)" by (simp add: free_frames_def small_vmm_def)
  show "vacant (tabs small_vmm) 4 (highest_raw small_table) va l" by (simp add: small_vmm_def)
qed

lemma small_vmm_mapped:
  "\<exists>s. tree_ok s 4 (highest_raw small_table) \<and> walk (tabs s) 4 (highest_raw small_table) 0x401000 = Some (0x5003, 1)"
proof -
  have fl: "flags_ok (\<lambda>_. 3) 1" by (simp add: flags_ok_def is_present_def flags_p_def is_huge_def flags_ps_def)
  have "\<exists>s'. map_levels small_vmm 4 (highest_raw small_table) 0x401000 0x5000 (\<lambda>_. 3) (-1) = Some (s', Some (page_len 1))
      \<and> mapped 1 0x401000 (Some (0x5000 OR 3, 1)) small_vmm s' 4 (highest_raw small_table)"
    by (rule map_levels_correct [OF small_vmm_ok(1,3) fl]) (simp_all add: small_vmm_ok(2) [symmetric])
  moreover have "(0x5000 OR 3 :: u64) = 0x5003" by simp
  ultimately show ?thesis unfolding mapped_def by metis
qed

section \<open>Properties\<close>

text \<open>
  C3. Mapping a page of 4 KiB or 2 MiB at an address nothing is mapped at: the call returns, the
  processor then translates exactly this page to the given frame with the given flags, every
  other page is translated as before, and the tables stay a tree of pages in use, the missing
  tables on the path being allocated. It holds when three pages are free.
\<close>

theorem pml4_map_page_raw_translates:
  assumes "tree_ok s 4 (highest_raw t)" and "highest_raw t \<noteq> 0" and "\<not> plock t"
    and "l = (if flags0 AND 0x80 \<noteq> 0 then 2 else 1)" and "vacant (tabs s) 4 (highest_raw t) va l"
    and "is_present flags1" "\<not> is_huge flags1" "flags1 < 0x1000" and "is_present flags0"
    and "3 \<le> free_frames (vframes s)"
  shows "\<exists>s'. pml4_map_page_raw s t va p flags1 flags0 (-1) = Some (s', t) \<and> tree_ok s' 4 (highest_raw t)
    \<and> walk (tabs s') 4 (highest_raw t) va = Some (p OR flags0, l)
    \<and> (\<forall>va'. other_page l 4 va va' \<longrightarrow> walk (tabs s') 4 (highest_raw t) va' = walk (tabs s) 4 (highest_raw t) va')"
proof -
  let ?fl = "if l = 2 then (\<lambda>_. flags1)(3 := flags1, 2 := flags0, 1 := 0)
    else (\<lambda>_. flags1)(3 := flags1, 2 := flags1, 1 := flags0)"
  have l: "l = 1 \<or> l = 2" "l = 2 \<longleftrightarrow> is_huge flags0" using assms(4) by (auto simp: is_huge_def flags_ps_def)
  have fl: "flags_ok ?fl l" "?fl l = flags0" using l assms(6-9) by (auto simp: flags_ok_def)
  obtain s' where s': "map_levels s 4 (highest_raw t) va p ?fl (-1) = Some (s', Some (page_len l))"
    "mapped l va (Some (p OR ?fl l, l)) s s' 4 (highest_raw t)"
    using map_levels_correct [OF assms(1,5) fl(1), of p] l(1) assms(10) by auto
  have "release_table (t\<lparr>plock := True\<rparr>) = t" using assms(3) by (simp add: release_table_def spin_release_def)
  moreover have "(if flags0 AND 0x80 \<noteq> 0
       then pml4_map s (highest_raw t) va p flags1 flags1 flags0 0 (-1)
       else pml4_map s (highest_raw t) va p flags1 flags1 flags1 flags0 (-1)) = Some (s', Some (page_len l))"
    using s'(1) assms(4) unfolding pml4_map_levels [OF assms(2)] by (cases "flags0 AND 0x80 = 0") simp_all
  ultimately have "pml4_map_page_raw s t va p flags1 flags0 (-1) = Some (s', t)"
    using assms(3)
    by (cases "flags0 AND 0x80 = 0") (simp_all add: pml4_map_page_raw_def lock_table_def spin_lock_def)
  then show ?thesis using s'(2) fl(2) by (simp add: mapped_def)
qed

theorem pml4_map_page_raw_translates_witness:
  "\<exists>s'. pml4_map_page_raw small_vmm small_table 0x401000 0x5000 3 7 (-1) = Some (s', small_table)
    \<and> walk (tabs s') 4 (highest_raw small_table) 0x401000 = Some (0x5007, 1)"
proof -
  have "highest_raw small_table \<noteq> 0" "\<not> plock small_table" by (simp_all add: small_table_def high_vma_def)
  moreover have "3 \<le> free_frames (vframes small_vmm)" using small_vmm_ok(2) by simp
  moreover have "(0x5000 OR 7 :: u64) = 0x5007" by simp
  ultimately show ?thesis
    using pml4_map_page_raw_translates [OF small_vmm_ok(1), of 1 7 "0x401000" 3 "0x5000"] small_vmm_ok(3)
    by (simp add: is_present_def is_huge_def flags_p_def flags_ps_def) blast
qed



text \<open>
  A page that was unmapped cannot be mapped again: the entry keeps its other bits, and as it
  is not zero a later mapping leaves it alone, so that the address still faults.
\<close>

theorem pml4_remap_has_no_effect:
  assumes "tree_ok s 4 (highest_raw t)" and "highest_raw t \<noteq> 0" and "\<not> plock t" and "page_length \<noteq> 0"
    and "walk (tabs s) 4 (highest_raw t) va = Some (e, 1)" and "set_present e False \<noteq> 0"
    and "flags0 AND 0x80 = 0"
  shows "\<exists>s'. pml4_unmap_page page_length s t va = Some (s', t)
    \<and> pml4_map_page_raw s' t va p flags1 flags0 (-1) = Some (s', t)
    \<and> walk (tabs s') 4 (highest_raw t) va = None"
proof -
  let ?h = "highest_raw t"
  let ?q = "leaf_slot (tabs s) 4 ?h va"
  define s' where "s' = entry_write s (fst ?q) (snd ?q) (set_present e False)"
  note q = clear_leaf [OF assms(1,5)]
  have rel: "release_table (t\<lparr>plock := True\<rparr>) = t" using assms(3) by (simp add: release_table_def spin_release_def)
  then have unmap: "pml4_unmap_page page_length s t va = Some (s', t)"
    using pml4_lookup_leaf [OF assms(1,5)] q assms(3,4)
    by (simp add: pml4_unmap_page_def lock_table_def spin_lock_def clear_present_def Let_def s'_def)
  from walk_4_steps [OF assms(1,5)] obtain x4 x3 x2 where x: "x4 = tabs s ?h (pml4_idx va)" "is_present x4"
    "x3 = tabs s (pml_raw x4) (pml3_idx va)" "is_present x3" "\<not> is_huge x3"
    "x2 = tabs s (pml_raw x3) (pml2_idx va)" "is_present x2" "\<not> is_huge x2"
    "?q = (pml_raw x2, pml1_idx va)"
    and path: "pml_raw x2 \<noteq> ?h" "pml_raw x2 \<noteq> pml_raw x4" "pml_raw x2 \<noteq> pml_raw x3" by metis
  from path have m: "tabs s' ?h = tabs s ?h" "tabs s' (pml_raw x4) = tabs s (pml_raw x4)"
    "tabs s' (pml_raw x3) = tabs s (pml_raw x3)" "tabs s' (pml_raw x2) (pml1_idx va) = set_present e False"
    using x(9) by (simp_all add: s'_def entry_write_def)
  have nz: "x4 \<noteq> 0" "x3 \<noteq> 0" "x2 \<noteq> 0" using x(2,4,7) by (auto dest: present_nz)
  have "pml4_map s' ?h va p flags1 flags1 flags1 flags0 (-1) = Some (s', Some 0x1000)"
    using assms(2,6) nz x m
    by (simp add: pml4_map_def ensure_table_at_def ensure_huge_at_def ensure_page_def apply_pa_def Let_def)
  then have "pml4_map_page_raw s' t va p flags1 flags0 (-1) = Some (s', t)"
    using assms(3,7) rel by (simp add: pml4_map_page_raw_def lock_table_def spin_lock_def)
  then show ?thesis using unmap q by (simp add: mapped_def s'_def)
qed

theorem pml4_remap_has_no_effect_witness:
  "\<exists>s s'. pml4_unmap_page 1 s small_table 0x401000 = Some (s', small_table)
    \<and> pml4_map_page_raw s' small_table 0x401000 0x9000 3 3 (-1) = Some (s', small_table)
    \<and> walk (tabs s') 4 (highest_raw small_table) 0x401000 = None"
proof -
  obtain s where s: "tree_ok s 4 (highest_raw small_table)"
    "walk (tabs s) 4 (highest_raw small_table) 0x401000 = Some (0x5003, 1)" using small_vmm_mapped by blast
  have "highest_raw small_table \<noteq> 0" "\<not> plock small_table" by (simp_all add: small_table_def high_vma_def)
  moreover have "set_present 0x5003 False \<noteq> 0" by (simp add: set_present_def set_flag_def flags_p_def)
  ultimately show ?thesis
    using pml4_remap_has_no_effect [OF s(1) _ _ _ s(2), of 1 3 "0x9000" 3] by auto
qed

end
