(* ===== verification/Devfs.thy ===== *)
theory Devfs
  imports Memutils
begin

text \<open>
  \<^verbatim>\<open>kernel/fs/devfs.hpp\<close> and the access part of \<^verbatim>\<open>devfs.cpp\<close>: mass storage devices and the device
  nodes through which a file system reads and writes a partition, and the layout of packed
  structures in memory. A device is the array of its bytes; the virtual \<^verbatim>\<open>msd::read\<close> and
  \<^verbatim>\<open>msd::write\<close> move bytes between it and a buffer. A buffer is the list of its bytes.
\<close>

section \<open>Definitions\<close>

record msd =
  sector_size :: ssize_t
  disk :: "u64 \<Rightarrow> u8"

record dev_node =
  partition_offset :: size_t
  node_sector_cnt :: size_t
  device :: "msd option"

definition bytes_at :: "(u64 \<Rightarrow> u8) \<Rightarrow> u64 \<Rightarrow> nat \<Rightarrow> u8 list" where
  "bytes_at d p n = map (\<lambda>i. d (p + of_nat i)) [0..<n]"

definition put_bytes :: "(u64 \<Rightarrow> u8) \<Rightarrow> u64 \<Rightarrow> u8 list \<Rightarrow> u64 \<Rightarrow> u8" where
  "put_bytes d p bs = (\<lambda>a. if unat (a - p) < length bs then bs ! unat (a - p) else d a)"

definition msd_read :: "msd \<Rightarrow> size_t \<Rightarrow> size_t \<Rightarrow> u8 list" where
  "msd_read m off cnt = bytes_at (disk m) off (unat cnt)"

definition msd_write :: "msd \<Rightarrow> size_t \<Rightarrow> u8 list \<Rightarrow> msd" where
  "msd_write m off bs = m\<lparr>disk := put_bytes (disk m) off bs\<rparr>"

text \<open>
  Without a device the calls return \<open>-1\<close> and do not touch the buffer. The callers do not look
  at the result and go on with a buffer that was never written, so this is a fault.
\<close>

definition dev_read :: "dev_node \<Rightarrow> size_t \<Rightarrow> size_t \<Rightarrow> u8 list option" where
  "dev_read n start cnt = do { m \<leftarrow> device n; Some (msd_read m (start + partition_offset n) cnt) }"

definition dev_write :: "dev_node \<Rightarrow> size_t \<Rightarrow> u8 list \<Rightarrow> dev_node option" where
  "dev_write n start bs = do {
     m \<leftarrow> device n;
     Some (n\<lparr>device := Some (msd_write m (start + partition_offset n) bs)\<rparr>)
   }"

subsection \<open>Packed structures\<close>

text \<open>
  A packed structure is the list of its bytes; a field is \<open>n\<close> bytes at its offset, the lowest
  first.
\<close>

fun le_bytes :: "nat \<Rightarrow> u64 \<Rightarrow> u8 list" where
  "le_bytes 0 w = []"
| "le_bytes (Suc n) w = ucast w # le_bytes n (drop_bit 8 w)"

fun le_word :: "u8 list \<Rightarrow> u64" where
  "le_word [] = 0"
| "le_word (b # bs) = ucast b OR push_bit 8 (le_word bs)"

definition get_field :: "nat \<Rightarrow> nat \<Rightarrow> u8 list \<Rightarrow> u64" where
  "get_field n off raw = le_word (take n (drop off raw))"

definition set_field :: "nat \<Rightarrow> nat \<Rightarrow> u64 \<Rightarrow> u8 list \<Rightarrow> u8 list" where
  "set_field n off v raw = take off raw @ le_bytes n v @ drop (off + n) raw"

definition get_u16 :: "nat \<Rightarrow> u8 list \<Rightarrow> u16" where
  "get_u16 off raw = ucast (get_field 2 off raw)"

definition set_u16 :: "nat \<Rightarrow> u16 \<Rightarrow> u8 list \<Rightarrow> u8 list" where
  "set_u16 off v = set_field 2 off (ucast v)"

definition get_u32 :: "nat \<Rightarrow> u8 list \<Rightarrow> u32" where
  "get_u32 off raw = ucast (get_field 4 off raw)"

definition set_u32 :: "nat \<Rightarrow> u32 \<Rightarrow> u8 list \<Rightarrow> u8 list" where
  "set_u32 off v = set_field 4 off (ucast v)"

section \<open>Fields\<close>

lemma length_le_bytes [simp]: "length (le_bytes n w) = n"
  by (induction n arbitrary: w) simp_all

lemma le_word_le_bytes: "le_word (le_bytes n w) = take_bit (8 * n) w"
proof (induction n arbitrary: w)
  case (Suc n)
  have "ucast (ucast w :: u8) OR push_bit 8 (take_bit (8 * n) (drop_bit 8 w)) = take_bit (8 * Suc n) w"
    by (rule bit_word_eqI) (auto simp: bit_simps)
  with Suc show ?case by simp
qed simp

lemma byte_of: "(ucast (ucast (x AND 0xff) :: u8) :: u64) = take_bit 8 (x :: u64)"
proof -
  have "(0xff :: u64) = mask 8" by (simp add: mask_eq_exp_minus_1)
  then show ?thesis unfolding \<open>0xff = mask 8\<close> by (intro bit_word_eqI) (auto simp: bit_simps)
qed

lemma take_bit_join: "take_bit k x OR push_bit k (take_bit j (drop_bit k x)) = take_bit (k + j) (x :: u64)"
  by (rule bit_word_eqI) (auto simp: bit_simps)

lemma le_word_append: "le_word (xs @ ys) = le_word xs OR push_bit (8 * length xs) (le_word ys)"
proof (induction xs)
  case (Cons x xs)
  have "ucast x OR push_bit 8 (le_word xs OR push_bit (8 * length xs) (le_word ys))
      = (ucast x OR push_bit 8 (le_word xs)) OR push_bit (8 * Suc (length xs)) (le_word ys)"
    by (rule bit_word_eqI) (auto simp: bit_simps algebra_simps)
  then show ?case using Cons by simp
qed simp

lemma length_set_field [simp]: "off + n \<le> length raw \<Longrightarrow> length (set_field n off v raw) = length raw"
  by (simp add: set_field_def)

lemma get_set_field: "off + n \<le> length raw \<Longrightarrow> get_field n off (set_field n off v raw) = take_bit (8 * n) v"
  by (simp add: get_field_def set_field_def le_word_le_bytes)

lemma set_field_nth:
  "off + n \<le> length raw \<Longrightarrow> i < off \<or> off + n \<le> i \<Longrightarrow> i < length raw \<Longrightarrow> set_field n off v raw ! i = raw ! i"
  by (auto simp: set_field_def nth_append)

lemma get_other_field:
  assumes "off + n \<le> length raw" and "off' + n' \<le> off \<or> off + n \<le> off'" and "off' + n' \<le> length raw"
  shows "get_field n' off' (set_field n off v raw) = get_field n' off' raw"
proof -
  have "take n' (drop off' (set_field n off v raw)) = take n' (drop off' raw)"
    using assms by (intro nth_equalityI) (auto simp: set_field_nth)
  then show ?thesis by (simp add: get_field_def)
qed

lemma get_set_u16 [simp]: "off + 2 \<le> length raw \<Longrightarrow> get_u16 off (set_u16 off v raw) = v"
  by (rule bit_word_eqI) (simp add: get_u16_def set_u16_def get_set_field bit_simps)

lemma get_set_u32 [simp]: "off + 4 \<le> length raw \<Longrightarrow> get_u32 off (set_u32 off v raw) = v"
  by (rule bit_word_eqI) (simp add: get_u32_def set_u32_def get_set_field bit_simps)

lemma length_set_u [simp]:
  "off + 2 \<le> length raw \<Longrightarrow> length (set_u16 off v raw) = length raw"
  "off + 4 \<le> length raw \<Longrightarrow> length (set_u32 off w raw) = length raw"
  by (simp_all add: set_u16_def set_u32_def)

lemma get_other_u32:
  "off + 4 \<le> length raw \<Longrightarrow> off' + 4 \<le> off \<or> off + 4 \<le> off' \<Longrightarrow> off' + 4 \<le> length raw \<Longrightarrow>
    get_u32 off' (set_u32 off v raw) = get_u32 off' raw"
  by (simp add: get_u32_def set_u32_def get_other_field)

lemma get_u32_set_u16:
  "off + 2 \<le> length raw \<Longrightarrow> off' + 4 \<le> off \<or> off + 2 \<le> off' \<Longrightarrow> off' + 4 \<le> length raw \<Longrightarrow>
    get_u32 off' (set_u16 off v raw) = get_u32 off' raw"
  by (simp add: get_u32_def set_u16_def get_other_field)

section \<open>Bytes of a device\<close>

lemma length_bytes_at [simp]: "length (bytes_at d p n) = n"
  by (simp add: bytes_at_def)

lemma nth_bytes_at [simp]: "i < n \<Longrightarrow> bytes_at d p n ! i = d (p + of_nat i)"
  by (simp add: bytes_at_def)

lemma bytes_at_append: "bytes_at d p m @ bytes_at d (p + of_nat m) n = bytes_at d p (m + n)"
  by (rule nth_equalityI) (auto simp: nth_append add.assoc simp flip: of_nat_add)

lemma put_bytes_at [simp]:
  assumes "length bs \<le> 2 ^ 64"
  shows "bytes_at (put_bytes d p bs) p (length bs) = bs"
proof (rule nth_equalityI)
  fix i assume "i < length (bytes_at (put_bytes d p bs) p (length bs))"
  then have i: "i < length bs" by simp
  then have "unat (of_nat i :: u64) = i" using assms by (intro unat_of_nat_lt) simp
  with i show "bytes_at (put_bytes d p bs) p (length bs) ! i = bs ! i" by (simp add: put_bytes_def)
qed simp

text \<open>Two ranges of addresses with no address in common.\<close>

definition apart :: "u64 \<Rightarrow> nat \<Rightarrow> u64 \<Rightarrow> nat \<Rightarrow> bool" where
  "apart p m q n \<longleftrightarrow> (\<forall>i < m. \<not> unat (p + of_nat i - q) < n)"

lemma bytes_at_put_apart: "apart p m q (length bs) \<Longrightarrow> bytes_at (put_bytes d q bs) p m = bytes_at d p m"
  by (rule nth_equalityI) (simp_all add: put_bytes_def apart_def)

lemma apart_shift: "apart (p + c) m (q + c) n = apart p m q n"
  by (simp add: apart_def algebra_simps)

lemma apartI:
  assumes "unat p + m \<le> unat q \<or> unat q + n \<le> unat p" "unat p + m \<le> 2 ^ 64" "unat q + n \<le> 2 ^ 64"
  shows "apart p m q n"
  unfolding apart_def
proof (intro allI impI)
  fix i assume i: "i < m"
  have e: "unat (p + of_nat i) = unat p + i"
    using assms(2) i by (subst unat_add_lt) (simp_all add: unat_of_nat_lt)
  show "\<not> unat (p + of_nat i - q) < n"
  proof (cases "unat q \<le> unat p + i")
    case True
    then have "unat (p + of_nat i - q) = unat p + i - unat q"
      by (metis e unat_sub word_le_nat_alt)
    then show ?thesis using assms(1) True i by linarith
  next
    case False
    have "unat (p + of_nat i - q) = unat p + i + 2 ^ 64 - unat q"
      using False e by (simp add: unat_sub_if')
    then show ?thesis using assms(3) False by simp
  qed
qed

section \<open>The interface of a store\<close>

text \<open>
  What the file systems rely on: a read returns the bytes a write put there, and a write leaves
  every other range alone.
\<close>

locale byte_store =
  fixes ready :: "'s \<Rightarrow> bool"
    and rd :: "'s \<Rightarrow> u64 \<Rightarrow> u64 \<Rightarrow> u8 list option"
    and wr :: "'s \<Rightarrow> u64 \<Rightarrow> u8 list \<Rightarrow> 's option"
  assumes rd_total: "ready s \<Longrightarrow> \<exists>bs. rd s p n = Some bs \<and> length bs = unat n"
    and wr_total: "ready s \<Longrightarrow> \<exists>s'. wr s p bs = Some s' \<and> ready s'"
    and rd_wr_same: "ready s \<Longrightarrow> wr s p bs = Some s' \<Longrightarrow> unat n = length bs \<Longrightarrow> rd s' p n = Some bs"
    and rd_wr_apart: "ready s \<Longrightarrow> wr s p bs = Some s' \<Longrightarrow> apart q (unat n) p (length bs) \<Longrightarrow> rd s' q n = rd s q n"
begin

lemma wr_ready: "ready s \<Longrightarrow> wr s p bs = Some s' \<Longrightarrow> ready s'"
  using wr_total [of s p bs] by auto

lemma rd_length: "ready s \<Longrightarrow> rd s p n = Some bs \<Longrightarrow> length bs = unat n"
  using rd_total [of s p n] by auto

text \<open>Read a structure, change it, write it back, read it again.\<close>

lemma read_modify_write:
  assumes "ready s" and "\<And>bs. length bs = unat n \<Longrightarrow> length (f bs) = unat n"
  shows "\<exists>bs s'. rd s p n = Some bs \<and> wr s p (f bs) = Some s' \<and> ready s' \<and> rd s' p n = Some (f bs)"
proof -
  obtain bs where bs: "rd s p n = Some bs" "length bs = unat n" using rd_total [OF assms(1)] by blast
  moreover obtain s' where "wr s p (f bs) = Some s'" "ready s'" using wr_total [OF assms(1)] by blast
  ultimately show ?thesis using rd_wr_same [OF assms(1)] assms(2) by metis
qed

text \<open>A second write next to the first keeps it.\<close>

lemma rd_after_two:
  assumes "ready s" and "wr s p bs = Some s1" and "wr s1 q cs = Some s2"
    and "unat n = length bs" and "apart p (length bs) q (length cs)"
  shows "rd s2 p n = Some bs"
  using assms rd_wr_same rd_wr_apart wr_ready by metis

end

interpretation dev: byte_store "\<lambda>n. device n \<noteq> None" dev_read dev_write
proof unfold_locales
  fix s s' :: dev_node and p q n :: u64 and bs :: "u8 list"
  assume "device s \<noteq> None"
  then obtain m where m: "device s = Some m" by blast
  show "\<exists>bs. dev_read s p n = Some bs \<and> length bs = unat n" by (simp add: dev_read_def msd_read_def m)
  show "\<exists>s'. dev_write s p bs = Some s' \<and> device s' \<noteq> None" by (simp add: dev_write_def m)
  assume s': "dev_write s p bs = Some s'"
  show "dev_read s' p n = Some bs" if "unat n = length bs"
  proof -
    have "unat n < 18446744073709551616" by simp
    then have "bytes_at (put_bytes (disk m) (p + partition_offset s) bs) (p + partition_offset s) (length bs) = bs"
      using that by (intro put_bytes_at) simp
    then show ?thesis using s' that by (auto simp: dev_read_def dev_write_def m msd_read_def msd_write_def)
  qed
  show "dev_read s' q n = dev_read s q n" if "apart q (unat n) p (length bs)"
    using s' that
    by (auto simp: dev_read_def dev_write_def m msd_read_def msd_write_def bytes_at_put_apart apart_shift)
qed

end
