(* ===== verification/Ext2.thy ===== *)
theory Ext2
  imports Devfs
begin

text \<open>
  \<^verbatim>\<open>kernel/fs/ext2/block.cpp\<close>, \<^verbatim>\<open>inode.cpp\<close> and the allocation part of \<^verbatim>\<open>ext2.cpp\<close>: group descriptors,
  block and inode allocation, and the inodes with their block trees. The objects keep the bytes
  of their packed structures; their pointer to the file system is the state every operation
  takes and returns. \<open>-1\<close> for a failed allocation is a value, \<open>None\<close> a fault, here a division by
  zero, a bit outside a bitmap or a node without a device.
\<close>

section \<open>Definitions\<close>

record bgd =
  bgd_raw :: "u8 list"
  bgd_index :: u32

record inode =
  inode_raw :: "u8 list"
  inode_index :: u32

record fs =
  superb :: "u8 list"
  root_inode :: inode
  block_size :: size_t
  frag_size :: size_t
  bgd_cnt :: u32
  devfs_node :: dev_node

subsection \<open>Fields\<close>

definition sb_block_cnt :: "fs \<Rightarrow> u32" where "sb_block_cnt s = get_u32 4 (superb s)"

definition sb_block_size :: "fs \<Rightarrow> u32" where "sb_block_size s = get_u32 24 (superb s)"

definition sb_frag_size :: "fs \<Rightarrow> u32" where "sb_frag_size s = get_u32 28 (superb s)"

definition blocks_per_group :: "fs \<Rightarrow> u32" where "blocks_per_group s = get_u32 32 (superb s)"

definition inodes_per_group :: "fs \<Rightarrow> u32" where "inodes_per_group s = get_u32 40 (superb s)"

definition signature :: "fs \<Rightarrow> u16" where "signature s = get_u16 56 (superb s)"

definition inode_size :: "fs \<Rightarrow> u16" where "inode_size s = get_u16 88 (superb s)"

definition sizeof_superblock :: size_t where "sizeof_superblock = 200"

definition sizeof_bgd :: size_t where "sizeof_bgd = 32"

definition sizeof_inode :: size_t where "sizeof_inode = 116"

definition block_addr_bitmap :: "bgd \<Rightarrow> u32" where "block_addr_bitmap b = get_u32 0 (bgd_raw b)"

definition block_addr_inode :: "bgd \<Rightarrow> u32" where "block_addr_inode b = get_u32 4 (bgd_raw b)"

definition inode_table_block :: "bgd \<Rightarrow> u32" where "inode_table_block b = get_u32 8 (bgd_raw b)"

definition unallocated_blocks :: "bgd \<Rightarrow> u16" where "unallocated_blocks b = get_u16 12 (bgd_raw b)"

definition unallocated_inodes :: "bgd \<Rightarrow> u16" where "unallocated_inodes b = get_u16 14 (bgd_raw b)"

definition permissions :: "inode \<Rightarrow> u16" where "permissions i = get_u16 0 (inode_raw i)"

definition size32l :: "inode \<Rightarrow> u32" where "size32l i = get_u32 4 (inode_raw i)"

definition hard_link_cnt :: "inode \<Rightarrow> u16" where "hard_link_cnt i = get_u16 26 (inode_raw i)"

definition sector_cnt :: "inode \<Rightarrow> u32" where "sector_cnt i = get_u32 28 (inode_raw i)"

definition inode_block :: "inode \<Rightarrow> nat \<Rightarrow> u32" where "inode_block i k = get_u32 (40 + 4 * k) (inode_raw i)"

definition set_inode_block :: "nat \<Rightarrow> u32 \<Rightarrow> inode \<Rightarrow> inode" where
  "set_inode_block k v i = i\<lparr>inode_raw := set_u32 (40 + 4 * k) v (inode_raw i)\<rparr>"

definition set_sector_cnt :: "u32 \<Rightarrow> inode \<Rightarrow> inode" where
  "set_sector_cnt v i = i\<lparr>inode_raw := set_u32 28 v (inode_raw i)\<rparr>"

definition set_size32l :: "u32 \<Rightarrow> inode \<Rightarrow> inode" where
  "set_size32l v i = i\<lparr>inode_raw := set_u32 4 v (inode_raw i)\<rparr>"

subsection \<open>The disk\<close>

definition node_read :: "fs \<Rightarrow> size_t \<Rightarrow> size_t \<Rightarrow> u8 list option" where
  "node_read s p n = dev_read (devfs_node s) p n"

definition node_write :: "fs \<Rightarrow> size_t \<Rightarrow> u8 list \<Rightarrow> fs option" where
  "node_write s p bs = do { n \<leftarrow> dev_write (devfs_node s) p bs; Some (s\<lparr>devfs_node := n\<rparr>) }"

definition read_u32 :: "fs \<Rightarrow> size_t \<Rightarrow> u32 option" where
  "read_u32 s p = map_option (get_u32 0) (node_read s p 4)"

definition write_u32 :: "fs \<Rightarrow> size_t \<Rightarrow> u32 \<Rightarrow> fs option" where
  "write_u32 s p v = node_write s p (le_bytes 4 (ucast v))"

definition sector_size_of :: "fs \<Rightarrow> size_t option" where
  "sector_size_of s = map_option sector_size (device (devfs_node s))"

subsection \<open>Group descriptors\<close>

definition bgd_pos :: "fs \<Rightarrow> u32 \<Rightarrow> size_t option" where
  "bgd_pos s i =
     (let bgd_offset = (if block_size s \<ge> 2048 then block_size s else block_size s * 2)
      in if inodes_per_group s = 0 then None
         else Some (bgd_offset + sizeof_bgd * ucast (i div inodes_per_group s)))"

definition bgd_ctor :: "fs \<Rightarrow> u32 \<Rightarrow> bgd option" where
  "bgd_ctor s i = do {
     p \<leftarrow> bgd_pos s i;
     raw \<leftarrow> node_read s p sizeof_bgd;
     Some \<lparr>bgd_raw = raw, bgd_index = i\<rparr>
   }"

definition bgd_write_back :: "fs \<Rightarrow> bgd \<Rightarrow> fs option" where
  "bgd_write_back s b = do {
     p \<leftarrow> bgd_pos s (bgd_index b);
     node_write s p (bgd_raw b)
   }"

definition bgd_copy :: "fs \<Rightarrow> bgd \<Rightarrow> (bgd \<times> fs) option" where
  "bgd_copy s b = do { s \<leftarrow> bgd_write_back s b; Some (b, s) }"

text \<open>
  The part the two allocators share: \<open>block\<close> is the block of the bitmap, the result the index of
  the bit taken. The loop looks at \<open>block_size\<close> bits of the bitmap of as many bytes.
\<close>

definition take_bit_of :: "fs \<Rightarrow> u32 \<Rightarrow> (ssize_t \<times> fs) option" where
  "take_bit_of s blk = do {
     bm \<leftarrow> node_read s (ucast blk * block_size s) (block_size s);
     i \<leftarrow> bm_first_free_loop bm 0 (unat (block_size s));
     if i = -1 then Some (-1, s)
     else do {
       bm \<leftarrow> bm_set bm (unat i);
       s \<leftarrow> node_write s (ucast blk * block_size s) bm;
       Some (i, s)
     }
   }"

definition bgd_alloc_block :: "fs \<Rightarrow> bgd \<Rightarrow> (ssize_t \<times> bgd \<times> fs) option" where
  "bgd_alloc_block s b =
     (if unallocated_blocks b = 0 then Some (-1, b, s)
      else do {
        (i, s) \<leftarrow> take_bit_of s (block_addr_bitmap b);
        if i = -1 then Some (-1, b, s)
        else do {
          let b = b\<lparr>bgd_raw := set_u16 12 (unallocated_blocks b - 1) (bgd_raw b)\<rparr>;
          s \<leftarrow> bgd_write_back s b;
          Some (i, b, s)
        }
      })"

definition bgd_alloc_inode :: "fs \<Rightarrow> bgd \<Rightarrow> (ssize_t \<times> bgd \<times> fs) option" where
  "bgd_alloc_inode s b =
     (if unallocated_inodes b = 0 then Some (-1, b, s)
      else do {
        (i, s) \<leftarrow> take_bit_of s (block_addr_inode b);
        if i = -1 then Some (-1, b, s)
        else do {
          let b = b\<lparr>bgd_raw := set_u16 14 (unallocated_inodes b - 1) (bgd_raw b)\<rparr>;
          s \<leftarrow> bgd_write_back s b;
          Some (i + 1, b, s)
        }
      })"

subsection \<open>Blocks and inodes\<close>

fun alloc_block_from :: "fs \<Rightarrow> nat \<Rightarrow> nat \<Rightarrow> (ssize_t \<times> fs) option" where
  "alloc_block_from s i 0 = Some (-1, s)"
| "alloc_block_from s i (Suc n) = do {
     b \<leftarrow> bgd_ctor s (of_nat i);
     (blk, _, s) \<leftarrow> bgd_alloc_block s b;
     if blk = -1 then alloc_block_from s (Suc i) n
     else Some (of_nat i * ucast (blocks_per_group s) + blk, s)
   }"

definition alloc_block :: "fs \<Rightarrow> (ssize_t \<times> fs) option" where
  "alloc_block s = alloc_block_from s 0 (unat (bgd_cnt s))"

fun alloc_inode_from :: "fs \<Rightarrow> nat \<Rightarrow> nat \<Rightarrow> (ssize_t \<times> fs) option" where
  "alloc_inode_from s i 0 = Some (-1, s)"
| "alloc_inode_from s i (Suc n) = do {
     b \<leftarrow> bgd_ctor s (of_nat i);
     (ino, _, s) \<leftarrow> bgd_alloc_inode s b;
     if ino = -1 then alloc_inode_from s (Suc i) n
     else Some (of_nat i * ucast (inodes_per_group s) + ino, s)
   }"

definition alloc_inode :: "fs \<Rightarrow> (ssize_t \<times> fs) option" where
  "alloc_inode s = alloc_inode_from s 0 (unat (bgd_cnt s))"

definition free_block :: "fs \<Rightarrow> u32 \<Rightarrow> fs option" where
  "free_block s block =
     (if blocks_per_group s = 0 then None
      else do {
        let index = block div blocks_per_group s;
        let bitmap_index = block - index * blocks_per_group s;
        b \<leftarrow> bgd_ctor s index;
        bm \<leftarrow> node_read s (ucast (block_addr_bitmap b)) (block_size s);
        t \<leftarrow> bm_test bm (unat bitmap_index);
        if \<not> t then Some s
        else do {
          bm \<leftarrow> bm_clear bm (unat bitmap_index);
          s \<leftarrow> node_write s (ucast (block_addr_bitmap b)) bm;
          bgd_write_back s (b\<lparr>bgd_raw := set_u16 12 (unallocated_blocks b + 1) (bgd_raw b)\<rparr>)
        }
      })"

definition free_inode :: "fs \<Rightarrow> u32 \<Rightarrow> fs option" where
  "free_inode s i =
     (if inodes_per_group s = 0 then None
      else do {
        let index = i div inodes_per_group s;
        let bitmap_index = i - index * inodes_per_group s;
        b \<leftarrow> bgd_ctor s index;
        bm \<leftarrow> node_read s (ucast (block_addr_inode b)) (block_size s);
        t \<leftarrow> bm_test bm (unat bitmap_index);
        if \<not> t then Some s
        else do {
          bm \<leftarrow> bm_clear bm (unat bitmap_index);
          s \<leftarrow> node_write s (ucast (block_addr_inode b)) bm;
          bgd_write_back s (b\<lparr>bgd_raw := set_u16 14 (unallocated_inodes b + 1) (bgd_raw b)\<rparr>)
        }
      })"

definition inode_pos :: "fs \<Rightarrow> u32 \<Rightarrow> size_t option" where
  "inode_pos s i =
     (if inodes_per_group s = 0 then None
      else do {
        let inode_table_index = (i - 1) mod inodes_per_group s;
        b \<leftarrow> bgd_ctor s ((i - 1) div inodes_per_group s);
        Some (ucast (inode_table_block b) * block_size s + ucast (ucast (inode_size s) * inode_table_index :: u32))
      })"

definition inode_ctor :: "fs \<Rightarrow> u32 \<Rightarrow> inode option" where
  "inode_ctor s i = do {
     p \<leftarrow> inode_pos s i;
     raw \<leftarrow> node_read s p sizeof_inode;
     Some \<lparr>inode_raw = raw, inode_index = i\<rparr>
   }"

definition inode_write_back :: "fs \<Rightarrow> inode \<Rightarrow> fs option" where
  "inode_write_back s i = do {
     p \<leftarrow> inode_pos s (inode_index i);
     node_write s p (inode_raw i)
   }"

text \<open>The copy constructor writes the source back; assigning an inode from a variable makes a copy.\<close>

definition inode_copy :: "fs \<Rightarrow> inode \<Rightarrow> (inode \<times> fs) option" where
  "inode_copy s i = do { s \<leftarrow> inode_write_back s i; Some (i, s) }"

subsection \<open>Block trees\<close>

definition blocks_per_level :: "fs \<Rightarrow> size_t" where
  "blocks_per_level s = block_size s div 4"

text \<open>
  \<open>block_index\<close> starts as \<open>-1\<close> and a read of four bytes replaces its lower half.
\<close>

definition low_half :: "u32 \<Rightarrow> ssize_t" where
  "low_half v = 0xffffffff00000000 OR ucast v"

definition get_block :: "fs \<Rightarrow> inode \<Rightarrow> u32 \<Rightarrow> ssize_t option" where
  "get_block s ino iblock =
     (if iblock < 12 then Some (ucast (inode_block ino (unat iblock)))
      else
        let bpl = blocks_per_level s; bs = block_size s; iblock = iblock - 12
        in if ucast iblock \<ge> bpl then
             if bpl = 0 then None
             else let iblock = iblock - ucast bpl;
                      single_index = (ucast (ucast iblock div bpl) :: u32);
                      indirect_offset = (ucast (ucast iblock mod bpl) :: u32)
                  in if ucast single_index \<ge> bpl then do {
                       let iblock = iblock - ucast (bpl * bpl);
                       let double_indirect_index = (ucast (ucast iblock div bpl) :: u32);
                       single_indirect_index \<leftarrow> read_u32 s (ucast (inode_block ino 14) * bs + ucast (double_indirect_index * 4));
                       indirect_block \<leftarrow> read_u32 s (ucast double_indirect_index * bs + ucast (single_indirect_index * 4));
                       v \<leftarrow> read_u32 s (ucast indirect_block * bs + ucast (indirect_offset * 4));
                       Some (low_half v)
                     } else do {
                       indirect_block \<leftarrow> read_u32 s (ucast (inode_block ino 13) * bs + ucast (single_index * 4));
                       v \<leftarrow> read_u32 s (ucast indirect_block * bs + ucast (indirect_offset * 4));
                       Some (low_half v)
                     }
           else do {
             v \<leftarrow> read_u32 s (ucast (inode_block ino 12) * bs + ucast (iblock * 4));
             Some (low_half v)
           })"

text \<open>
  The two ways \<open>set_block\<close> fills in a missing table: a root in the inode, and a pointer on the
  disk at \<open>p\<close>. The first result is false when no block could be allocated.
\<close>

definition ensure_root :: "fs \<Rightarrow> inode \<Rightarrow> nat \<Rightarrow> (bool \<times> inode \<times> fs) option" where
  "ensure_root s ino k =
     (if inode_block ino k = 0 then do {
        (block, s) \<leftarrow> alloc_block s;
        if block = -1 then Some (False, ino, s)
        else do {
          let ino = set_inode_block k (ucast block) ino;
          s \<leftarrow> inode_write_back s ino;
          Some (True, ino, s)
        }
      } else Some (True, ino, s))"

definition ensure_pointer :: "fs \<Rightarrow> size_t \<Rightarrow> (u32 option \<times> fs) option" where
  "ensure_pointer s p = do {
     v \<leftarrow> read_u32 s p;
     if v = 0 then do {
       (block, s) \<leftarrow> alloc_block s;
       if block = -1 then Some (None, s)
       else do {
         s \<leftarrow> write_u32 s p (ucast block);
         Some (Some (ucast block), s)
       }
     } else Some (Some v, s)
   }"

text \<open>The single indirect case allocates the table and does not enter the block.\<close>

definition set_block :: "fs \<Rightarrow> inode \<Rightarrow> u32 \<Rightarrow> u32 \<Rightarrow> (ssize_t \<times> inode \<times> fs) option" where
  "set_block s ino iblock disk_block =
     (if iblock < 12 then Some (ucast disk_block, set_inode_block (unat iblock) disk_block ino, s)
      else
        let bpl = blocks_per_level s; bs = block_size s; iblock = iblock - 12
        in if ucast iblock \<ge> bpl then
             if bpl = 0 then None
             else let iblock = iblock - ucast bpl;
                      single_index = (ucast (ucast iblock div bpl) :: u32);
                      indirect_offset = (ucast (ucast iblock mod bpl) :: u32)
                  in if ucast single_index \<ge> bpl then do {
                       let iblock = iblock - ucast (bpl * bpl);
                       let double_indirect_index = (ucast (ucast iblock div bpl) :: u32);
                       (ok, ino, s) \<leftarrow> ensure_root s ino 14;
                       if \<not> ok then Some (-1, ino, s)
                       else do {
                         (v, s) \<leftarrow> ensure_pointer s (ucast (inode_block ino 14) * bs + ucast (double_indirect_index * 4));
                         case v of None \<Rightarrow> Some (-1, ino, s)
                         | Some single_indirect_index \<Rightarrow> do {
                           (v, s) \<leftarrow> ensure_pointer s (ucast double_indirect_index * bs + ucast (single_indirect_index * 4));
                           case v of None \<Rightarrow> Some (-1, ino, s)
                           | Some indirect_block \<Rightarrow> do {
                             s \<leftarrow> write_u32 s (ucast indirect_block * bs + ucast (indirect_offset * 4)) disk_block;
                             Some (ucast disk_block, ino, s)
                           }}}
                     } else do {
                       (ok, ino, s) \<leftarrow> ensure_root s ino 13;
                       if \<not> ok then Some (-1, ino, s)
                       else do {
                         (v, s) \<leftarrow> ensure_pointer s (ucast (inode_block ino 13) * bs + ucast (single_index * 4));
                         case v of None \<Rightarrow> Some (-1, ino, s)
                         | Some indirect_block \<Rightarrow> do {
                           s \<leftarrow> write_u32 s (ucast indirect_block * bs + ucast (indirect_offset * 4)) disk_block;
                           Some (ucast disk_block, ino, s)
                         }}
                     }
           else do {
             (ok, ino, s) \<leftarrow> ensure_root s ino 12;
             Some (if ok then ucast disk_block else -1, ino, s)
           })"

subsection \<open>Contents\<close>

text \<open>
  The loops of \<^verbatim>\<open>read\<close> and \<^verbatim>\<open>write\<close>, with the bytes left to transfer. A block size of zero divides
  by zero.
\<close>

function read_loop :: "fs \<Rightarrow> inode \<Rightarrow> size_t \<Rightarrow> nat \<Rightarrow> u8 list option" where
  "read_loop s ino pos left =
     (if left = 0 then Some []
      else if block_size s = 0 then None
      else do {
        let iblock = (ucast (pos div block_size s) :: u32);
        let offset = pos mod block_size s;
        let size = min left (unat (block_size s - offset));
        disk_block \<leftarrow> get_block s ino iblock;
        bs \<leftarrow> node_read s (ucast (ucast disk_block :: u32) * block_size s + offset) (of_nat size);
        rest \<leftarrow> read_loop s ino (pos + of_nat size) (left - size);
        Some (bs @ rest)
      })"
  by pat_completeness auto

function write_loop :: "fs \<Rightarrow> inode \<Rightarrow> size_t \<Rightarrow> u8 list \<Rightarrow> fs option" where
  "write_loop s ino pos bs =
     (if bs = [] then Some s
      else if block_size s = 0 then None
      else do {
        let iblock = (ucast (pos div block_size s) :: u32);
        let offset = pos mod block_size s;
        let size = min (length bs) (unat (block_size s - offset));
        disk_block \<leftarrow> get_block s ino iblock;
        s' \<leftarrow> node_write s (ucast (ucast disk_block :: u32) * block_size s + offset) (take size bs);
        write_loop s' ino (pos + of_nat size) (drop size bs)
      })"
  by pat_completeness auto

lemma unat_room:
  assumes "b \<noteq> (0 :: u64)"
  shows "unat (b - p mod b) = unat b - unat p mod unat b" "unat p mod unat b < unat b"
proof -
  show lt: "unat p mod unat b < unat b" using assms by (simp add: unat_gt_0)
  then have "p mod b \<le> b" by (simp add: word_le_nat_alt unat_mod)
  then show "unat (b - p mod b) = unat b - unat p mod unat b" by (simp add: unat_sub unat_mod)
qed

lemma room_pos: "b \<noteq> 0 \<Longrightarrow> 0 < unat (b - p mod b :: u64)"
  using unat_room [of b p] by simp

termination read_loop
  by (relation "measure (\<lambda>(s, ino, pos, left). left)") (auto simp: room_pos min_def)

termination write_loop
  by (relation "measure (\<lambda>(s, ino, pos, bs). length bs)") (auto simp: room_pos min_def)

declare read_loop.simps [simp del] write_loop.simps [simp del]

definition inode_read :: "fs \<Rightarrow> inode \<Rightarrow> off_t \<Rightarrow> off_t \<Rightarrow> u8 list option" where
  "inode_read s ino off cnt = read_loop s ino off (nat (sint cnt))"

fun grow_loop :: "fs \<Rightarrow> inode \<Rightarrow> size_t \<Rightarrow> nat \<Rightarrow> nat \<Rightarrow> (bool \<times> inode \<times> fs) option" where
  "grow_loop s ino sec i 0 = Some (True, ino, s)"
| "grow_loop s ino sec i (Suc n) = do {
     (disk_block, s) \<leftarrow> alloc_block s;
     if disk_block = -1 then Some (False, ino, s)
     else if sec = 0 then None
     else do {
       let ino = set_sector_cnt (ucast (ucast (sector_cnt ino) + block_size s div sec)) ino;
       (_, ino, s) \<leftarrow> set_block s ino (of_nat i) (ucast disk_block);
       grow_loop s ino sec (Suc i) n
     }
   }"

definition resize :: "fs \<Rightarrow> inode \<Rightarrow> off_t \<Rightarrow> off_t \<Rightarrow> (ssize_t \<times> inode \<times> fs) option" where
  "resize s ino start cnt = do {
     sec \<leftarrow> sector_size_of s;
     let have = ucast (sector_cnt ino) * sec;
     if sint (start + cnt) < sint (ucast have :: u32) then Some (0, ino, s)
     else if block_size s = 0 then None
     else do {
       let iblock_start = (ucast (div_roundup have (block_size s)) :: u32);
       let iblock_end = (ucast (div_roundup (start + cnt) (block_size s)) :: u32);
       let ino = (if int (unat (size32l ino)) < sint (start + cnt) then set_size32l (ucast (start + cnt)) ino else ino);
       (ok, ino, s) \<leftarrow> grow_loop s ino sec (unat iblock_start) (unat iblock_end - unat iblock_start);
       if \<not> ok then Some (-1, ino, s)
       else do { s \<leftarrow> inode_write_back s ino; Some (0, ino, s) }
     }
   }"

text \<open>The buffer passed to \<^verbatim>\<open>write\<close> holds the \<open>cnt\<close> bytes. The result of \<^verbatim>\<open>resize\<close> is not looked at.\<close>

definition inode_write :: "fs \<Rightarrow> inode \<Rightarrow> off_t \<Rightarrow> u8 list \<Rightarrow> (inode \<times> fs) option" where
  "inode_write s ino off bs = do {
     (_, ino, s) \<leftarrow> resize s ino off (of_nat (length bs));
     s \<leftarrow> write_loop s ino off bs;
     Some (ino, s)
   }"

definition inode_remove :: "fs \<Rightarrow> inode \<Rightarrow> fs option" where
  "inode_remove s ino = do {
     sec \<leftarrow> sector_size_of s;
     if block_size s = 0 then None
     else do {
       s \<leftarrow> for_range (\<lambda>i s. do { b \<leftarrow> get_block s ino (of_nat i); free_block s (ucast b) })
              0 (nat (sint (div_roundup (ucast (sector_cnt ino) * sec) (block_size s)))) s;
       free_inode s (inode_index ino)
     }
   }"

text \<open>
  Mounting: the superblock is two sectors into the partition. The result is the file system and
  whether its signature was found.
\<close>

definition shift_1024 :: "u32 \<Rightarrow> size_t option" where
  "shift_1024 k = (if 32 \<le> unat k then None else Some (scast (push_bit (unat k) 1024 :: u32)))"

definition fs_ctor :: "dev_node \<Rightarrow> (bool \<times> fs) option" where
  "fs_ctor node = do {
     m \<leftarrow> device node;
     sb \<leftarrow> dev_read node (sector_size m * 2) sizeof_superblock;
     let s = \<lparr>superb = sb, root_inode = \<lparr>inode_raw = [], inode_index = 0\<rparr>, block_size = 0, frag_size = 0,
              bgd_cnt = 0, devfs_node = node\<rparr>;
     if signature s \<noteq> 0xef53 then Some (False, s)
     else do {
       bs \<leftarrow> shift_1024 (sb_block_size s);
       fr \<leftarrow> shift_1024 (sb_frag_size s);
       if blocks_per_group s = 0 then None
       else do {
         let s = s\<lparr>block_size := bs, frag_size := fr,
                   bgd_cnt := ucast (div_roundup (ucast (sb_block_cnt s)) (ucast (blocks_per_group s)))\<rparr>;
         r \<leftarrow> inode_ctor s 2;
         Some (True, s\<lparr>root_inode := r\<rparr>)
       }
     }
   }"

section \<open>The store below the file system\<close>

abbreviation mounted :: "fs \<Rightarrow> bool" where
  "mounted s \<equiv> device (devfs_node s) \<noteq> None"

interpretation node: byte_store mounted node_read node_write
proof unfold_locales
  fix s s' :: fs and p q n :: u64 and bs :: "u8 list"
  assume m: "mounted s"
  show "\<exists>bs. node_read s p n = Some bs \<and> length bs = unat n"
    using dev.rd_total [OF m] by (simp add: node_read_def)
  show "\<exists>s'. node_write s p bs = Some s' \<and> mounted s'"
    using dev.wr_total [OF m, of p bs] by (auto simp: node_write_def)
  assume s': "node_write s p bs = Some s'"
  then have w: "dev_write (devfs_node s) p bs = Some (devfs_node s')" by (auto simp: node_write_def bind_eq_Some_conv)
  show "node_read s' p n = Some bs" if "unat n = length bs"
    using dev.rd_wr_same [OF m w that] by (simp add: node_read_def)
  show "node_read s' q n = node_read s q n" if "apart q (unat n) p (length bs)"
    using dev.rd_wr_apart [OF m w that] by (simp add: node_read_def)
qed

lemma node_write_other:
  assumes "node_write s p bs = Some s'"
  shows "superb s' = superb s" "block_size s' = block_size s" "bgd_cnt s' = bgd_cnt s" "root_inode s' = root_inode s"
    "sector_size_of s' = sector_size_of s"
  using assms
  by (auto simp: node_write_def bind_eq_Some_conv dev_write_def msd_write_def sector_size_of_def)

lemma node_write_fields:
  assumes "node_write s p bs = Some s'"
  shows "inodes_per_group s' = inodes_per_group s" "blocks_per_group s' = blocks_per_group s"
    "inode_size s' = inode_size s" "blocks_per_level s' = blocks_per_level s" "bgd_pos s' i = bgd_pos s i"
  using node_write_other [OF assms]
  by (simp_all add: inodes_per_group_def blocks_per_group_def inode_size_def blocks_per_level_def bgd_pos_def)

lemma read_u32_total: "mounted s \<Longrightarrow> \<exists>v. read_u32 s p = Some v"
  using node.rd_total [of s p 4] by (auto simp: read_u32_def)

lemma get_u32_le_bytes: "get_u32 0 (le_bytes 4 (ucast v)) = v"
  by (rule bit_word_eqI) (simp add: get_u32_def get_field_def le_word_le_bytes bit_simps)

lemma read_write_u32: "mounted s \<Longrightarrow> write_u32 s p v = Some s' \<Longrightarrow> read_u32 s' p = Some v"
  using node.rd_wr_same [of s p _ s' 4] by (simp add: read_u32_def write_u32_def get_u32_le_bytes)

lemma write_u32_total: "mounted s \<Longrightarrow> \<exists>s'. write_u32 s p v = Some s'"
  using node.wr_total [of s p] by (auto simp: write_u32_def)

lemma read_u32_apart: "mounted s \<Longrightarrow> write_u32 s p v = Some s' \<Longrightarrow> apart q 4 p 4 \<Longrightarrow> read_u32 s' q = read_u32 s q"
  using node.rd_wr_apart [of s p _ s' q 4] by (simp add: read_u32_def write_u32_def)

lemma get_block_total:
  assumes "mounted s" and "4 \<le> unat (block_size s)"
  shows "\<exists>b. get_block s ino iblock = Some b"
proof -
  have "blocks_per_level s \<noteq> 0"
    using assms(2) by (simp add: blocks_per_level_def unat_div flip: unat_eq_zero)
  moreover have "\<exists>v. read_u32 s p = Some v" for p using read_u32_total [OF assms(1)] by blast
  then obtain r where "\<And>p. read_u32 s p = Some (r p)" by metis
  ultimately show ?thesis by (simp add: get_block_def Let_def)
qed

section \<open>Reading the bytes of an inode\<close>

text \<open>The reference: one byte of the file at a time.\<close>

definition inode_byte :: "fs \<Rightarrow> inode \<Rightarrow> u64 \<Rightarrow> u8 option" where
  "inode_byte s ino p = do {
     b \<leftarrow> get_block s ino (ucast (p div block_size s));
     bs \<leftarrow> node_read s (ucast (ucast b :: u32) * block_size s + p mod block_size s) 1;
     Some (hd bs)
   }"

lemma node_read_bytes:
  "device (devfs_node s) = Some m \<Longrightarrow>
    node_read s p n = Some (bytes_at (disk m) (p + partition_offset (devfs_node s)) (unat n))"
  by (simp add: node_read_def dev_read_def msd_read_def)

lemma word_div_mod_step:
  fixes p b :: u64
  assumes "b \<noteq> 0" and "i < unat (b - p mod b)" and "unat p + i < 2 ^ 64"
  shows "(p + of_nat i) div b = p div b" and "(p + of_nat i) mod b = p mod b + of_nat i"
proof -
  have r: "unat (b - p mod b) = unat b - unat p mod unat b" "unat p mod unat b < unat b"
    using unat_room [OF assms(1)] by blast+
  have i: "unat (of_nat i :: u64) = i" using assms(3) by (intro unat_of_nat_lt) simp
  then have s: "unat (p + of_nat i) = unat p + i" using assms(3) by (subst unat_add_lt) simp_all
  have lt: "unat p mod unat b + i < unat b" using assms(2) r by simp
  moreover have "unat p + i = unat b * (unat p div unat b) + (unat p mod unat b + i)" by simp
  ultimately have d: "(unat p + i) div unat b = unat p div unat b" and m: "(unat p + i) mod unat b = unat p mod unat b + i"
    by (metis div_mult_self4 div_less add.right_neutral assms(1) unat_eq_zero, metis mod_mult_self4 mod_less)
  show "(p + of_nat i) div b = p div b" by (rule word_eq_unatI) (simp add: unat_div s d)
  have "unat (p mod b) + unat (of_nat i :: u64) < 2 ^ 64"
    using lt_unat_2p64 [OF lt] i by (simp add: unat_mod)
  from unat_add_lt [OF this] show "(p + of_nat i) mod b = p mod b + of_nat i"
    by (intro word_eq_unatI) (simp add: unat_mod s m i)
qed

lemma read_loop_bytes:
  assumes "mounted s" and "4 \<le> unat (block_size s)" and "unat pos + left \<le> 2 ^ 64"
  shows "\<exists>xs. read_loop s ino pos left = Some xs
    \<and> map Some xs = map (\<lambda>i. inode_byte s ino (pos + of_nat i)) [0..<left]"
  using assms
proof (induction s ino pos left rule: read_loop.induct)
  case (1 s ino pos left)
  show ?case
  proof (cases "left = 0")
    case True
    then show ?thesis by (simp add: read_loop.simps)
  next
    case False
    let ?b = "block_size s"
    define size where "size = min left (unat (?b - pos mod ?b))"
    have b: "?b \<noteq> 0" using 1(3) by auto
    have size: "0 < size" "size \<le> left" "size \<le> unat (?b - pos mod ?b)"
      using False room_pos [OF b] by (simp_all add: size_def)
    obtain blk where blk: "get_block s ino (ucast (pos div ?b)) = Some blk"
      using get_block_total [OF 1(2,3)] by blast
    obtain m where m: "device (devfs_node s) = Some m" using 1(2) by blast
    have sz: "unat (of_nat size :: u64) = size"
      using size(3) unat_lt_2p64 [of "?b - pos mod ?b"] by (intro unat_of_nat_lt) (simp del: unat_lt_2p64)
    let ?p = "ucast (ucast blk :: u32) * ?b + pos mod ?b"
    obtain bs where bs: "node_read s ?p (of_nat size) = Some bs"
      "bs = bytes_at (disk m) (?p + partition_offset (devfs_node s)) size"
      using node_read_bytes [OF m] sz by metis
    have chunk: "map Some bs = map (\<lambda>i. inode_byte s ino (pos + of_nat i)) [0..<size]"
    proof (rule nth_equalityI)
      fix i assume "i < length (map Some bs)"
      then have i: "i < size" by (simp add: bs)
      then have "unat pos + i < 2 ^ 64" using 1(4) size by simp
      from word_div_mod_step [OF b _ this] i size(3)
      have "inode_byte s ino (pos + of_nat i) = Some (disk m (?p + of_nat i + partition_offset (devfs_node s)))"
        by (simp add: inode_byte_def blk node_read_bytes [OF m] bytes_at_def add.assoc)
      then show "map Some bs ! i = map (\<lambda>i. inode_byte s ino (pos + of_nat i)) [0..<size] ! i"
        using i by (simp add: bs algebra_simps)
    qed (simp add: bs)
    have wrap: "unat (pos + of_nat size) + (left - size) \<le> 2 ^ 64"
    proof (cases "unat pos + size < 2 ^ 64")
      case True
      then have "unat (pos + of_nat size) = unat pos + size" using sz by (subst unat_add_lt) simp_all
      then show ?thesis using 1(4) size by simp
    next
      case False
      then have "left = size" using 1(4) size by simp
      then show ?thesis using unat_lt_2p64 [of "pos + of_nat size"] by (simp del: unat_lt_2p64)
    qed
    obtain rest where rest: "read_loop s ino (pos + of_nat size) (left - size) = Some rest"
      "map Some rest = map (\<lambda>i. inode_byte s ino (pos + of_nat size + of_nat i)) [0..<left - size]"
      using 1(1) [OF False b refl refl size_def blk bs(1) 1(2,3) wrap] by blast
    have "read_loop s ino pos left = Some (bs @ rest)"
      using False b blk bs(1) rest(1) by (subst read_loop.simps) (simp add: Let_def flip: size_def)
    moreover have "map (\<lambda>i. inode_byte s ino (pos + of_nat i)) [0..<left]
      = map (\<lambda>i. inode_byte s ino (pos + of_nat i)) [0..<size]
        @ map (\<lambda>i. inode_byte s ino (pos + of_nat size + of_nat i)) [0..<left - size]"
    proof -
      have "[0..<left] = [0..<size] @ map ((+) size) [0..<left - size]"
        using size(2) by (intro nth_equalityI) (auto simp: nth_append)
      then show ?thesis by (simp add: comp_def add.assoc)
    qed
    ultimately show ?thesis using chunk rest(2) by simp
  qed
qed

section \<open>Writing and reading back\<close>

text \<open>A byte of the partition, and the place of a byte of the file among the direct blocks.\<close>

definition content :: "fs \<Rightarrow> u64 \<Rightarrow> u8" where
  "content s a = disk (the (device (devfs_node s))) (a + partition_offset (devfs_node s))"

definition direct_pos :: "fs \<Rightarrow> inode \<Rightarrow> u64 \<Rightarrow> u64" where
  "direct_pos s ino p = ucast (inode_block ino (unat (p div block_size s))) * block_size s + p mod block_size s"

lemma node_write_content:
  assumes "mounted s"
  shows "\<exists>s'. node_write s p bs = Some s' \<and> mounted s' \<and> content s' = put_bytes (content s) p bs"
proof -
  obtain m where "device (devfs_node s) = Some m" using assms by blast
  then show ?thesis
    by (auto simp: node_write_def dev_write_def msd_write_def content_def put_bytes_def fun_eq_iff algebra_simps)
qed

lemma ucast_u32_back [simp]: "ucast (ucast (ucast b :: u64) :: u32) = (ucast (b :: u32) :: u64)"
  by (rule bit_word_eqI) (auto simp: bit_simps dest: bit_imp_le_length)

lemma get_block_direct:
  assumes "unat (p div block_size s) < 12"
  shows "get_block s ino (ucast (p div block_size s)) = Some (ucast (inode_block ino (unat (p div block_size s))))"
proof -
  have "unat (ucast (p div block_size s) :: u32) = unat (p div block_size s)"
    using assms by (simp add: unsigned_ucast_eq take_bit_nat_eq_self)
  then show ?thesis using assms by (simp add: get_block_def word_less_nat_alt)
qed

lemma inode_byte_direct:
  assumes "mounted s" and "unat (p div block_size s) < 12"
  shows "inode_byte s ino p = Some (content s (direct_pos s ino p))"
proof -
  obtain m where m: "device (devfs_node s) = Some m" using assms(1) by blast
  show ?thesis
    by (simp add: inode_byte_def get_block_direct [OF assms(2)] node_read_bytes [OF m] bytes_at_def content_def m direct_pos_def)
qed

lemma direct_pos_step:
  assumes "block_size s \<noteq> 0" and "i < unat (block_size s - p mod block_size s)" and "unat p + i < 2 ^ 64"
  shows "direct_pos s ino (p + of_nat i) = direct_pos s ino p + of_nat i"
  using word_div_mod_step [OF assms] by (simp add: direct_pos_def add.assoc)

lemma put_bytes_nth: "i < length bs \<Longrightarrow> length bs \<le> 2 ^ 64 \<Longrightarrow> put_bytes d p bs (p + of_nat i) = bs ! i"
  by (simp add: put_bytes_def unat_of_nat_lt)

lemma put_bytes_other:
  assumes "\<And>i. i < length bs \<Longrightarrow> a \<noteq> p + of_nat i"
  shows "put_bytes d p bs a = d a"
proof -
  have "\<not> unat (a - p) < length bs" using assms [of "unat (a - p)"] by auto
  then show ?thesis by (simp add: put_bytes_def)
qed

lemma write_loop_direct:
  assumes "mounted s" and "block_size s \<noteq> 0" and "unat pos + length bs \<le> 12 * unat (block_size s)"
    and "unat pos + length bs < 2 ^ 63"
    and "inj_on (\<lambda>i. direct_pos s ino (pos + of_nat i)) {..<length bs}"
  shows "\<exists>s'. write_loop s ino pos bs = Some s' \<and> mounted s' \<and> block_size s' = block_size s
    \<and> (\<forall>i < length bs. content s' (direct_pos s ino (pos + of_nat i)) = bs ! i)
    \<and> (\<forall>a. (\<forall>i < length bs. a \<noteq> direct_pos s ino (pos + of_nat i)) \<longrightarrow> content s' a = content s a)"
  using assms
proof (induction s ino pos bs rule: write_loop.induct)
  case (1 s ino pos bs)
  show ?case
  proof (cases "bs = []")
    case True
    then show ?thesis using 1(2) by (simp add: write_loop.simps)
  next
    case False
    let ?b = "block_size s" and ?pos = "direct_pos s ino"
    define size where "size = min (length bs) (unat (?b - pos mod ?b))"
    have size: "0 < size" "size \<le> length bs" "size \<le> unat (?b - pos mod ?b)"
      using False room_pos [OF 1(3)] by (simp_all add: size_def)
    have sz: "unat (pos + of_nat size) = unat pos + size"
      using 1(5) size(2) by (subst unat_add_lt) (simp_all add: unat_of_nat_lt)
    have "unat pos < 12 * unat ?b" using 1(4) False by (simp add: Suc_leI flip: length_greater_0_conv)
    then have "unat (pos div ?b) < 12" by (simp add: unat_div less_mult_imp_div_less)
    note blk = get_block_direct [OF this, of ino]
    obtain s1 where s1: "node_write s (?pos pos) (take size bs) = Some s1" "mounted s1"
      "content s1 = put_bytes (content s) (?pos pos) (take size bs)"
      using node_write_content [OF 1(2)] by blast
    note same = node_write_other(2) [OF s1(1)]
    have pos1: "direct_pos s1 ino = ?pos" using same by (simp add: direct_pos_def fun_eq_iff)
    have shift: "pos + of_nat size + of_nat i = pos + of_nat (size + i)" for i by simp
    have inj: "inj_on (\<lambda>i. ?pos (pos + of_nat size + of_nat i)) {..<length bs - size}"
    proof (rule inj_onI)
      fix i j
      assume i: "i \<in> {..<length bs - size}" and j: "j \<in> {..<length bs - size}"
        and "?pos (pos + of_nat size + of_nat i) = ?pos (pos + of_nat size + of_nat j)"
      then have "?pos (pos + of_nat (size + i)) = ?pos (pos + of_nat (size + j))" by (simp only: shift)
      from inj_onD [OF 1(6) this] show "i = j" using i j by simp
    qed
    have ih: "\<exists>s'. write_loop s1 ino (pos + of_nat size) (drop size bs) = Some s' \<and> mounted s' \<and> block_size s' = block_size s1
      \<and> (\<forall>i < length (drop size bs). content s' (direct_pos s1 ino (pos + of_nat size + of_nat i)) = drop size bs ! i)
      \<and> (\<forall>a. (\<forall>i < length (drop size bs). a \<noteq> direct_pos s1 ino (pos + of_nat size + of_nat i)) \<longrightarrow> content s' a = content s1 a)"
      using 1(3-5) inj s1(2) same sz size(2)
      by (intro 1(1) [OF False 1(3) refl refl size_def blk]) (simp_all add: s1(1) pos1 flip: direct_pos_def)
    then obtain s' where s': "write_loop s1 ino (pos + of_nat size) (drop size bs) = Some s'" "mounted s'" "block_size s' = ?b"
      "\<And>i. i < length bs - size \<Longrightarrow> content s' (?pos (pos + of_nat (size + i))) = bs ! (size + i)"
      "\<And>a. (\<And>i. i < length bs - size \<Longrightarrow> a \<noteq> ?pos (pos + of_nat (size + i))) \<Longrightarrow> content s' a = content s1 a"
      unfolding pos1 shift same by auto
    have run: "write_loop s ino pos bs = Some s'"
      using False 1(3) blk s1(1) s'(1) by (subst write_loop.simps) (simp add: Let_def flip: size_def direct_pos_def)
    have near: "?pos (pos + of_nat i) = ?pos pos + of_nat i" if "i < size" for i
      using that size 1(5) by (intro direct_pos_step [OF 1(3)]) simp_all
    have "content s' (?pos (pos + of_nat i)) = bs ! i" if i: "i < length bs" for i
    proof (cases "i < size")
      case True
      have "content s' (?pos (pos + of_nat i)) = content s1 (?pos (pos + of_nat i))"
      proof (rule s'(5))
        fix j assume j: "j < length bs - size"
        show "?pos (pos + of_nat i) \<noteq> ?pos (pos + of_nat (size + j))"
          using inj_onD [OF 1(6), of i "size + j"] i less_diff_conv [THEN iffD1, OF j] True
          by (auto simp: add.commute)
      qed
      also have "\<dots> = bs ! i"
        using True size(2) 1(5) unfolding s1(3) near [OF True] by (subst put_bytes_nth) simp_all
      finally show ?thesis .
    next
      case False
      then show ?thesis using s'(4) [of "i - size"] i by simp
    qed
    moreover have "content s' a = content s a" if a: "\<forall>i < length bs. a \<noteq> ?pos (pos + of_nat i)" for a
    proof -
      have "content s' a = content s1 a"
        using a by (intro s'(5)) (metis add.commute less_diff_conv)
      also have "\<dots> = content s a"
        unfolding s1(3) using a size(2) near by (intro put_bytes_other) (metis length_take min.absorb2 order_less_le_trans)
      finally show ?thesis .
    qed
    ultimately show ?thesis using run s'(2,3) by blast
  qed
qed

lemma direct_pos_unat:
  assumes "block_size s \<noteq> 0" and "unat (block_size s) \<le> 2 ^ 31"
  shows "unat (direct_pos s ino p) =
    unat (inode_block ino (unat (p div block_size s))) * unat (block_size s) + unat p mod unat (block_size s)"
proof -
  let ?k = "inode_block ino (unat (p div block_size s))" and ?b = "block_size s"
  have k32: "unat ?k < 2 ^ 32" using unsigned_less [of ?k] by simp
  then have k: "unat (ucast ?k :: u64) = unat ?k" by (simp add: unsigned_ucast_eq take_bit_nat_eq_self)
  have "unat ?k * unat ?b \<le> (2 ^ 32 - 1) * 2 ^ 31" using assms(2) k32 by (intro mult_le_mono) simp_all
  moreover have "unat p mod unat ?b < 2 ^ 31"
    using unat_room(2) [OF assms(1), of p] assms(2) by (rule order_less_le_trans)
  ultimately have lt: "unat ?k * unat ?b + unat p mod unat ?b < 2 ^ 64" by simp
  then have m: "unat (ucast ?k * ?b) = unat ?k * unat ?b" using k by (subst unat_mult_lt) simp_all
  then show ?thesis
    unfolding direct_pos_def using lt by (subst unat_add_lt) (simp_all add: unat_mod)
qed

lemma div_mod_unique:
  fixes r r' b x y :: nat
  assumes "r < b" and "r' < b" and "x * b + r = y * b + r'"
  shows "x = y \<and> r = r'"
proof -
  have "(x * b + r) div b = x" "(y * b + r') div b = y" using assms(1,2) by simp_all
  then show ?thesis using assms(3) by simp
qed

text \<open>The direct blocks a range of the file lies in.\<close>

definition touched :: "fs \<Rightarrow> u64 \<Rightarrow> nat \<Rightarrow> nat set" where
  "touched s off n = (\<lambda>i. unat (off + of_nat i) div unat (block_size s)) ` {..<n}"

lemma direct_pos_inj:
  assumes "block_size s \<noteq> 0" and "unat (block_size s) \<le> 2 ^ 31" and "unat off + n < 2 ^ 64"
    and "inj_on (inode_block ino) (touched s off n)"
  shows "inj_on (\<lambda>i. direct_pos s ino (off + of_nat i)) {..<n}"
proof (rule inj_onI)
  fix i j assume ij: "i \<in> {..<n}" "j \<in> {..<n}"
    and eq: "direct_pos s ino (off + of_nat i) = direct_pos s ino (off + of_nat j)"
  let ?b = "unat (block_size s)" and ?p = "\<lambda>i. unat (off + of_nat i)"
  have b: "0 < ?b" using assms(1) by (simp add: unat_gt_0)
  have "unat (inode_block ino (?p i div ?b)) * ?b + ?p i mod ?b = unat (inode_block ino (?p j div ?b)) * ?b + ?p j mod ?b"
    using arg_cong [OF eq, of unat] unfolding direct_pos_unat [OF assms(1,2)] by (simp only: unat_div)
  then have "unat (inode_block ino (?p i div ?b)) = unat (inode_block ino (?p j div ?b)) \<and> ?p i mod ?b = ?p j mod ?b"
    using b by (intro div_mod_unique) simp_all
  then have k: "inode_block ino (?p i div ?b) = inode_block ino (?p j div ?b)" "?p i mod ?b = ?p j mod ?b"
    by (simp_all add: word_eq_unatI)
  have "?p i div ?b = ?p j div ?b"
    using inj_onD [OF assms(4) k(1)] ij by (simp add: touched_def)
  then have "?p i = ?p j" using k(2) by (metis div_mult_mod_eq)
  moreover have "?p i = unat off + i" if "i < n" for i
    using that assms(3) by (subst unat_add_lt) (simp_all add: unat_of_nat_lt)
  ultimately show "i = j" using ij by simp
qed

lemma resize_enough:
  assumes "sector_size_of s = Some sec" and "sint (off + cnt) < sint (ucast (ucast (sector_cnt ino) * sec) :: u32)"
  shows "resize s ino off cnt = Some (0, ino, s)"
  using assms by (simp add: resize_def Let_def)

section \<open>Properties\<close>

text \<open>
  C34. Reading a range of an inode block by block gives exactly what reading it byte by byte
  through the block tree gives, and it always returns.
\<close>

theorem inode_read_bytewise:
  assumes "mounted s" and "4 \<le> unat (block_size s)" and "unat off + nat (sint cnt) \<le> 2 ^ 64"
  shows "\<exists>xs. inode_read s ino off cnt = Some xs
    \<and> map Some xs = map (\<lambda>i. inode_byte s ino (off + of_nat i)) [0..<nat (sint cnt)]"
  unfolding inode_read_def by (rule read_loop_bytes [OF assms])

text \<open>A file system of 1 KiB blocks on a disk whose bytes are their addresses.\<close>

definition small_fs :: fs where
  "small_fs = \<lparr>superb = set_u32 40 128 (set_u32 32 8192 (set_u16 88 128 (replicate 200 0))),
     root_inode = \<lparr>inode_raw = [], inode_index = 0\<rparr>, block_size = 1024, frag_size = 1024, bgd_cnt = 4,
     devfs_node = \<lparr>partition_offset = 0, node_sector_cnt = 0, device = Some \<lparr>sector_size = 512, disk = ucast\<rparr>\<rparr>\<rparr>"

definition small_inode :: inode where
  "small_inode = \<lparr>inode_raw = set_u32 28 24 (set_u32 40 7 (set_u32 44 9 (replicate 116 0))), inode_index = 12\<rparr>"

lemma small_fs_facts [simp]:
  "mounted small_fs" "block_size small_fs = 1024" "sector_size_of small_fs = Some 512"
  "inode_block small_inode 0 = 7" "inode_block small_inode (Suc 0) = 9" "sector_cnt small_inode = 24"
  "inodes_per_group small_fs = 128" "length (inode_raw small_inode) = 116"
  by (simp_all add: small_fs_def sector_size_of_def, code_simp+)

theorem inode_read_bytewise_witness:
  "\<exists>xs. inode_read small_fs small_inode 1020 8 = Some xs
    \<and> map Some xs = map (\<lambda>i. inode_byte small_fs small_inode (1020 + of_nat i)) [0..<8]"
  using inode_read_bytewise [of small_fs 1020 8 small_inode] by simp

text \<open>
  C35. Writing into the blocks a file already has, among its direct blocks, and reading the range
  again gives the bytes written; no other byte of the partition changes.
\<close>

theorem inode_write_read:
  assumes "mounted s" and "4 \<le> unat (block_size s)" and "unat (block_size s) \<le> 2 ^ 31"
    and "sector_size_of s = Some sec"
    and "sint (off + of_nat (length bs)) < sint (ucast (ucast (sector_cnt ino) * sec) :: u32)"
    and "unat off + length bs \<le> 12 * unat (block_size s)"
    and "inj_on (inode_block ino) (touched s off (length bs))"
  shows "\<exists>s'. inode_write s ino off bs = Some (ino, s')
    \<and> inode_read s' ino off (of_nat (length bs)) = Some bs
    \<and> (\<forall>a. (\<forall>i < length bs. a \<noteq> direct_pos s ino (off + of_nat i)) \<longrightarrow> content s' a = content s a)"
proof -
  let ?n = "length bs"
  have b: "block_size s \<noteq> 0" using assms(2) by auto
  have lt: "unat off + ?n < 2 ^ 63" using assms(3,6) by simp
  note inj = direct_pos_inj [OF b assms(3) _ assms(7)]
  obtain s' where s': "write_loop s ino off bs = Some s'" "mounted s'" "block_size s' = block_size s"
    "\<And>i. i < ?n \<Longrightarrow> content s' (direct_pos s ino (off + of_nat i)) = bs ! i"
    "\<And>a. (\<forall>i < ?n. a \<noteq> direct_pos s ino (off + of_nat i)) \<Longrightarrow> content s' a = content s a"
    using write_loop_direct [OF assms(1) b assms(6) lt inj] lt by auto
  have n: "nat (sint (of_nat ?n :: u64)) = ?n"
    using lt by (subst sint_eq_unat) (simp_all add: unat_of_nat_lt)
  obtain xs where xs: "inode_read s' ino off (of_nat ?n) = Some xs"
    "map Some xs = map (\<lambda>i. inode_byte s' ino (off + of_nat i)) [0..<?n]"
    using read_loop_bytes [OF s'(2), of off ?n ino] s'(3) assms(2) lt n unfolding inode_read_def by auto
  have "inode_byte s' ino (off + of_nat i) = Some (bs ! i)" if i: "i < ?n" for i
  proof -
    have "unat (off + of_nat i) = unat off + i"
      using i lt by (subst unat_add_lt) (simp_all add: unat_of_nat_lt)
    then have "unat ((off + of_nat i) div block_size s') < 12"
      using i assms(6) s'(3) by (simp add: unat_div less_mult_imp_div_less)
    from inode_byte_direct [OF s'(2) this] show ?thesis
      using s'(4) [OF i] s'(3) by (simp add: direct_pos_def)
  qed
  then have "map Some xs = map (\<lambda>i. Some (bs ! i)) [0..<?n]" unfolding xs(2) by simp
  also have "\<dots> = map Some bs" by (rule nth_equalityI) simp_all
  finally have "xs = bs" by simp
  then show ?thesis
    using xs(1) s'(1,5) resize_enough [OF assms(4,5)] by (auto simp: inode_write_def)
qed

theorem inode_write_read_witness:
  "\<exists>s'. inode_write small_fs small_inode 1020 [1, 2, 3, 4, 5, 6, 7, 8] = Some (small_inode, s')
    \<and> inode_read s' small_inode 1020 8 = Some [1, 2, 3, 4, 5, 6, 7, 8]"
proof -
  have "unat (1020 + of_nat i :: u64) div 1024 \<in> {0, 1}" if "i < 8" for i
  proof -
    have "unat (1020 + of_nat i :: u64) = 1020 + i"
      using that by (subst unat_add_lt) (simp_all add: unat_of_nat_lt)
    then show ?thesis using that by auto
  qed
  then have "touched small_fs 1020 8 \<subseteq> {0, 1}" unfolding touched_def by (simp add: image_subset_iff)
  moreover have "inj_on (inode_block small_inode) {0, 1}" by (simp add: inj_on_def)
  ultimately have "inj_on (inode_block small_inode) (touched small_fs 1020 8)" by (rule inj_on_subset [rotated])
  moreover have "length [1, 2, 3, 4, 5, 6, 7, 8 :: u8] = 8" by simp
  ultimately show ?thesis
    using inode_write_read [of small_fs 512 1020 "[1, 2, 3, 4, 5, 6, 7, 8]" small_inode]
    by (simp only: small_fs_facts) auto
qed

lemma bgd_ctorD:
  assumes "mounted s" and "bgd_ctor s i = Some b"
  shows "bgd_index b = i" "length (bgd_raw b) = 32"
  using assms node.rd_length [OF assms(1), of _ sizeof_bgd]
  by (auto simp: bgd_ctor_def bind_eq_Some_conv sizeof_bgd_def)

lemma inode_ctor_total:
  assumes "mounted s" and "inodes_per_group s \<noteq> 0"
  shows "\<exists>ino. inode_ctor s i = Some ino"
proof -
  obtain d where d: "bgd_pos s ((i - 1) div inodes_per_group s) = Some d" using assms(2) by (simp add: bgd_pos_def Let_def)
  obtain raw where "node_read s d sizeof_bgd = Some raw" using node.rd_total [OF assms(1)] by blast
  then obtain p where p: "inode_pos s i = Some p" using assms(2) d by (simp add: inode_pos_def bgd_ctor_def)
  obtain bs where "node_read s p sizeof_inode = Some bs" using node.rd_total [OF assms(1)] by blast
  then show ?thesis using p by (simp add: inode_ctor_def)
qed

text \<open>Writing back an inode that was read and not changed leaves the disk as it is.\<close>

lemma inode_write_back_unchanged:
  assumes "inode_ctor s i = Some ino"
  shows "inode_write_back s ino = Some s"
proof -
  obtain p where p: "inode_pos s i = Some p" "node_read s p sizeof_inode = Some (inode_raw ino)" "inode_index ino = i"
    using assms by (auto simp: inode_ctor_def bind_eq_Some_conv)
  then obtain m where m: "device (devfs_node s) = Some m" by (auto simp: node_read_def dev_read_def bind_eq_Some_conv)
  let ?o = "partition_offset (devfs_node s)"
  have raw: "inode_raw ino = bytes_at (disk m) (p + ?o) 116"
    using p(2) node_read_bytes [OF m, of p sizeof_inode] by (simp add: sizeof_inode_def)
  have "put_bytes (disk m) (p + ?o) (inode_raw ino) a = disk m a" for a
    unfolding raw by (auto simp: put_bytes_def)
  then have "put_bytes (disk m) (p + ?o) (inode_raw ino) = disk m" by (rule ext)
  then show ?thesis
    using p(1,3) m by (simp add: inode_write_back_def node_write_def dev_write_def msd_write_def)
qed

lemma bgd_write_back_ctor:
  assumes "mounted s" and "bgd_pos s (bgd_index b) = Some d" and "length (bgd_raw b) = 32"
  shows "\<exists>s'. bgd_write_back s b = Some s' \<and> node_write s d (bgd_raw b) = Some s' \<and> mounted s'
    \<and> bgd_ctor s' (bgd_index b) = Some b"
proof -
  obtain s' where s': "node_write s d (bgd_raw b) = Some s'" "mounted s'" using node.wr_total [OF assms(1)] by blast
  have "node_read s' d sizeof_bgd = Some (bgd_raw b)"
    using node.rd_wr_same [OF assms(1) s'(1)] assms(3) by (simp add: sizeof_bgd_def)
  then show ?thesis
    using s' assms(2) node_write_fields(5) [OF s'(1)] by (simp add: bgd_write_back_def bgd_ctor_def)
qed

lemma take_bit_of_correct:
  assumes "mounted s" and "p = ucast blk * block_size s" and "node_read s p (block_size s) = Some bm"
  shows "(\<forall>k < unat (block_size s). bm_test bm k = Some True) \<and> take_bit_of s blk = Some (-1, s)
    \<or> (\<exists>k bm' s'. k < unat (block_size s) \<and> bm_test bm k = Some False \<and> (\<forall>j < k. bm_test bm j = Some True)
        \<and> bm_set bm k = Some bm' \<and> length bm' = length bm \<and> node_write s p bm' = Some s' \<and> mounted s'
        \<and> take_bit_of s blk = Some (of_nat k, s'))"
proof -
  let ?n = "unat (block_size s)"
  have len: "length bm = ?n" using node.rd_length [OF assms(1,3)] .
  have lt: "?n < 2 ^ 64" by simp
  from bm_first_free_loop_correct [of 0 ?n bm] len lt consider
    (full) "\<forall>k < ?n. bm_test bm k = Some True" "bm_first_free_loop bm 0 ?n = Some (-1)"
  | (bit) k where "k < ?n" "bm_test bm k = Some False" "\<forall>j < k. bm_test bm j = Some True"
      "bm_first_free_loop bm 0 ?n = Some (of_nat k)"
    by auto
  then show ?thesis
  proof cases
    case full
    then show ?thesis using assms(2,3) by (simp add: take_bit_of_def)
  next
    case bit
    have k: "unat (of_nat k :: u64) = k" using lt_unat_2p64 [OF bit(1)] by (rule unat_of_nat_lt)
    have "(of_nat k :: u64) \<noteq> -1" by (rule of_nat_not_m1 [OF bit(1)])
    moreover obtain bm' where bm': "bm_set bm k = Some bm'"
      using bm.mark_total [of k bm] bit(1) len by auto
    moreover have "length bm' = length bm" using bm.nbits_mark [OF bm'] by simp
    moreover obtain s' where "node_write s p bm' = Some s'" "mounted s'" using node.wr_total [OF assms(1)] by blast
    ultimately show ?thesis
      using bit assms(2,3) k by (intro disjI2 exI [of _ k] exI [of _ bm'] exI [of _ s']) (simp add: take_bit_of_def)
  qed
qed

text \<open>
  C36. Allocating a block of a group takes the lowest clear bit among the first \<open>block_size\<close> bits of
  its bitmap, sets exactly this bit on the disk and lowers the count of the descriptor on the
  disk by one; when they are all set it answers -1 and changes nothing.
\<close>

theorem bgd_alloc_block_correct:
  assumes "mounted s" and "bgd_ctor s i = Some b" and "bgd_pos s i = Some d" and "unallocated_blocks b \<noteq> 0"
    and "p = ucast (block_addr_bitmap b) * block_size s" and "node_read s p (block_size s) = Some bm"
    and "apart p (unat (block_size s)) d 32"
  shows "if \<forall>k < unat (block_size s). bm_test bm k = Some True then bgd_alloc_block s b = Some (-1, b, s)
    else \<exists>k bm' b' s'. bgd_alloc_block s b = Some (of_nat k, b', s')
      \<and> k < unat (block_size s) \<and> bm_test bm k = Some False \<and> (\<forall>j < k. bm_test bm j = Some True)
      \<and> bm_set bm k = Some bm' \<and> node_read s' p (block_size s) = Some bm'
      \<and> bgd_ctor s' i = Some b' \<and> unallocated_blocks b' = unallocated_blocks b - 1
      \<and> block_addr_bitmap b' = block_addr_bitmap b"
  using take_bit_of_correct [OF assms(1,5,6)]
proof (elim disjE exE conjE)
  assume "\<forall>k < unat (block_size s). bm_test bm k = Some True" "take_bit_of s (block_addr_bitmap b) = Some (-1, s)"
  then show ?thesis using assms(4) by (simp add: bgd_alloc_block_def)
next
  fix k bm' s1
  assume k: "k < unat (block_size s)" "bm_test bm k = Some False" "\<forall>j < k. bm_test bm j = Some True"
    and bm': "bm_set bm k = Some bm'" "length bm' = length bm"
    and s1: "node_write s p bm' = Some s1" "mounted s1" "take_bit_of s (block_addr_bitmap b) = Some (of_nat k, s1)"
  note b = bgd_ctorD [OF assms(1,2)] and len = node.rd_length [OF assms(1,6)]
  define b' where "b' = b\<lparr>bgd_raw := set_u16 12 (unallocated_blocks b - 1) (bgd_raw b)\<rparr>"
  have b': "bgd_index b' = i" "length (bgd_raw b') = 32" "unallocated_blocks b' = unallocated_blocks b - 1"
    "block_addr_bitmap b' = block_addr_bitmap b"
    using b
    by (simp_all add: b'_def unallocated_blocks_def block_addr_bitmap_def get_u32_set_u16)
  have "bgd_pos s1 (bgd_index b') = Some d" using node_write_fields(5) [OF s1(1)] assms(3) b'(1) by simp
  from bgd_write_back_ctor [OF s1(2) this b'(2)] obtain s' where s': "bgd_write_back s1 b' = Some s'"
    "node_write s1 d (bgd_raw b') = Some s'" "bgd_ctor s' i = Some b'" using b'(1) by auto
  have "node_read s' p (block_size s) = Some bm'"
    using node.rd_after_two [OF assms(1) s1(1) s'(2), of "block_size s"] bm'(2) b'(2) len assms(7) by simp
  moreover have "(of_nat k :: u64) \<noteq> -1" by (rule of_nat_not_m1 [OF k(1)])
  then have "bgd_alloc_block s b = Some (of_nat k, b', s')"
    using assms(4) s1(3) s'(1) by (simp add: bgd_alloc_block_def Let_def flip: b'_def)
  moreover have "\<not> (\<forall>k < unat (block_size s). bm_test bm k = Some True)" using k by auto
  ultimately show ?thesis using k bm'(1) s'(3) b'(3,4) by auto
qed

theorem bgd_alloc_block_correct_witness:
  "\<exists>b b' s'. bgd_ctor small_fs 0 = Some b \<and> bgd_alloc_block small_fs b = Some (0, b', s')
    \<and> bgd_ctor s' 0 = Some b' \<and> unallocated_blocks b' = unallocated_blocks b - 1"
proof -
  have f: "map_option block_addr_bitmap (bgd_ctor small_fs 0) = Some 0x03020100"
    "map_option unallocated_blocks (bgd_ctor small_fs 0) = Some 0x0d0c" "bgd_pos small_fs 0 = Some 2048"
    by code_simp+
  then obtain b where b: "bgd_ctor small_fs 0 = Some b" "block_addr_bitmap b = 0x03020100" "unallocated_blocks b = 0x0d0c"
    by auto
  define p :: u64 where "p = ucast (block_addr_bitmap b) * block_size small_fs"
  have p: "p = 0xc08040000" by (simp add: p_def b)
  obtain bm where bm: "node_read small_fs p (block_size small_fs) = Some bm"
    using node.rd_total [of small_fs p] by auto
  have "bm = bytes_at ucast p 1024"
    using bm node_read_bytes [of small_fs "\<lparr>sector_size = 512, disk = ucast\<rparr>" p 1024] by (simp add: small_fs_def)
  then have t: "bm_test bm 0 = Some False" by (simp add: bm_test_eq p)
  have a: "apart p (unat (block_size small_fs)) 2048 32" by (rule apartI) (simp_all add: p)
  have nf: "\<not> (\<forall>k < unat (block_size small_fs). bm_test bm k = Some True)"
    using t by (auto intro!: exI [of _ 0])
  have u: "unallocated_blocks b \<noteq> 0" using b(3) by simp
  obtain k b' s' where r: "bgd_alloc_block small_fs b = Some (of_nat k, b', s')"
    "\<forall>j < k. bm_test bm j = Some True" "bgd_ctor s' 0 = Some b'" "unallocated_blocks b' = unallocated_blocks b - 1"
    using bgd_alloc_block_correct [OF small_fs_facts(1) b(1) f(3) u p_def bm a] unfolding if_not_P [OF nf] by blast
  then have "k = 0" using t by (metis neq0_conv option.inject)
  then show ?thesis using r b(1) by auto
qed

lemma bgd_pos_first_group: "i < inodes_per_group s \<Longrightarrow> bgd_pos s i = bgd_pos s 0"
proof -
  assume "i < inodes_per_group s"
  then have "i div inodes_per_group s = 0"
    by (simp add: word_less_nat_alt unat_div flip: unat_eq_zero)
  then show ?thesis by (simp add: bgd_pos_def)
qed

lemma bgd_ctor_first_group:
  "i < inodes_per_group s \<Longrightarrow> bgd_ctor s i = map_option (\<lambda>b. b\<lparr>bgd_index := i\<rparr>) (bgd_ctor s 0)"
  by (simp add: bgd_ctor_def bgd_pos_first_group split: Option.bind_splits)

lemma bgd_alloc_block_same:
  assumes "bgd_alloc_block s b = Some (-1, b', s')"
  shows "s' = s" "bgd_alloc_block s (b\<lparr>bgd_index := i\<rparr>) = Some (-1, b\<lparr>bgd_index := i\<rparr>, s)"
  using assms
  by (auto simp: bgd_alloc_block_def take_bit_of_def unallocated_blocks_def block_addr_bitmap_def bind_eq_Some_conv
      Let_def split: if_splits)

lemma alloc_block_from_full:
  assumes "bgd_ctor s 0 = Some b" and "bgd_alloc_block s b = Some (-1, b', s')" and "i + n \<le> unat (inodes_per_group s)"
  shows "alloc_block_from s i n = Some (-1, s)"
  using assms(3)
proof (induction n arbitrary: i)
  case (Suc n)
  have "unat (of_nat i :: u32) \<le> i" by (simp add: unat_of_nat)
  then have "of_nat i < inodes_per_group s" using Suc.prems by (simp add: word_less_nat_alt)
  then have "bgd_ctor s (of_nat i) = Some (b\<lparr>bgd_index := of_nat i\<rparr>)" by (simp add: bgd_ctor_first_group assms(1))
  then show ?case using bgd_alloc_block_same(2) [OF assms(2)] Suc by simp
qed simp

text \<open>
  The position of a descriptor is computed from the group number divided by the number of
  inodes of a group. With fewer groups than inodes in a group every group is taken for the
  first one: allocation only ever tries the first group and returns a block below the block
  size or -1.
\<close>

theorem alloc_block_first_group:
  assumes "mounted s" and "bgd_cnt s \<le> inodes_per_group s" and "bgd_cnt s \<noteq> 0"
  shows "\<exists>b blk b' s'. bgd_ctor s 0 = Some b \<and> bgd_alloc_block s b = Some (blk, b', s')
    \<and> alloc_block s = Some (blk, s') \<and> (blk = -1 \<or> blk < block_size s)"
proof -
  have ipg: "inodes_per_group s \<noteq> 0" using assms(2,3) by auto
  then obtain d where d: "bgd_pos s 0 = Some d" by (simp add: bgd_pos_def Let_def)
  then obtain b where b: "bgd_ctor s 0 = Some b"
    using node.rd_total [OF assms(1), of d sizeof_bgd] by (auto simp: bgd_ctor_def)
  note bi = bgd_ctorD [OF assms(1) b]
  have "\<exists>blk b' s'. bgd_alloc_block s b = Some (blk, b', s') \<and> (blk = -1 \<or> blk < block_size s)"
  proof (cases "unallocated_blocks b = 0")
    case False
    let ?p = "ucast (block_addr_bitmap b) * block_size s"
    obtain bm where bm: "node_read s ?p (block_size s) = Some bm" using node.rd_total [OF assms(1)] by blast
    from take_bit_of_correct [OF assms(1) refl bm] show ?thesis
    proof (elim disjE exE conjE)
      fix k bm' s1
      assume k: "k < unat (block_size s)" and s1: "node_write s ?p bm' = Some s1" "mounted s1"
        "take_bit_of s (block_addr_bitmap b) = Some (of_nat k, s1)"
      let ?b = "b\<lparr>bgd_raw := set_u16 12 (unallocated_blocks b - 1) (bgd_raw b)\<rparr>"
      have "bgd_pos s1 (bgd_index ?b) = Some d" using node_write_fields(5) [OF s1(1)] d bi by simp
      then obtain s' where "bgd_write_back s1 ?b = Some s'" using bgd_write_back_ctor [OF s1(2), of ?b] bi by auto
      then have "bgd_alloc_block s b = Some (of_nat k, ?b, s')"
        using False s1(3) of_nat_not_m1 [OF k] by (simp add: bgd_alloc_block_def Let_def)
      moreover have "(of_nat k :: u64) < block_size s"
        using k unat_of_nat_lt [OF lt_unat_2p64 [OF k]] by (simp add: word_less_nat_alt)
      ultimately show ?thesis by blast
    qed (use False in \<open>simp add: bgd_alloc_block_def\<close>)
  qed (simp add: bgd_alloc_block_def)
  then obtain blk b' s' where a: "bgd_alloc_block s b = Some (blk, b', s')" "blk = -1 \<or> blk < block_size s" by blast
  obtain n where n: "unat (bgd_cnt s) = Suc n" using assms(3) by (metis not0_implies_Suc unat_eq_zero)
  have "alloc_block s = Some (blk, s')"
  proof (cases "blk = -1")
    case True
    then have "s' = s" using bgd_alloc_block_same(1) [of s b b' s'] a(1) by simp
    moreover have "alloc_block_from s 0 (unat (bgd_cnt s)) = Some (-1, s)"
      using alloc_block_from_full [of s b b' s' 0 "unat (bgd_cnt s)"] b a(1) True assms(2) by (simp add: word_le_nat_alt)
    ultimately show ?thesis using True by (simp add: alloc_block_def)
  next
    case False
    then show ?thesis using n b a(1) by (simp add: alloc_block_def)
  qed
  then show ?thesis using b a by blast
qed

theorem alloc_block_first_group_witness:
  "\<exists>blk s'. alloc_block small_fs = Some (blk, s') \<and> (blk = -1 \<or> blk < 1024)"
proof -
  have "bgd_cnt small_fs = 4" by (simp add: small_fs_def)
  then show ?thesis using alloc_block_first_group [of small_fs] by auto
qed

text \<open>
  For the same reason the inodes of the second group are looked for in the table of the
  first: an inode and the one \<open>inodes_per_group\<close> later have the same place on the disk.
\<close>

theorem inode_pos_collides:
  assumes "0 < i" and "i \<le> inodes_per_group s" and "1 < inodes_per_group s"
    and "unat i + unat (inodes_per_group s) < 2 ^ 32"
  shows "inode_pos s (i + inodes_per_group s) = inode_pos s i"
proof -
  let ?n = "inodes_per_group s"
  have i: "unat (i - 1) = unat i - 1" using assms(1) by (metis unat_minus_one word_not_simps(1))
  have pos: "0 < unat i" "unat i \<le> unat ?n" "1 < unat ?n" using assms(1-3) by (simp_all add: word_less_nat_alt word_le_nat_alt)
  have "unat (i + ?n) = unat i + unat ?n" using assms(4) by (simp add: unat_word_ariths)
  moreover have "i + ?n \<noteq> 0" using calculation pos by (metis add_is_0 less_numeral_extra(3) unat_0)
  ultimately have j: "unat (i + ?n - 1) = unat i - 1 + unat ?n" using pos by (simp add: unat_minus_one)
  have a: "(i - 1) div ?n = 0" using i pos by (intro word_unat_eq_iff [THEN iffD2]) (simp add: unat_div)
  have "(unat i - 1 + unat ?n) div unat ?n = 1" using pos by (subst div_add_self2) simp_all
  then have b: "(i + ?n - 1) div ?n = 1"
    by (intro word_unat_eq_iff [THEN iffD2]) (simp only: unat_div j unat_1)
  have c: "(i + ?n - 1) mod ?n = (i - 1) mod ?n"
    by (intro word_unat_eq_iff [THEN iffD2]) (simp only: unat_mod i j mod_add_self2)
  have "bgd_ctor s 1 = map_option (\<lambda>b. b\<lparr>bgd_index := 1\<rparr>) (bgd_ctor s 0)"
    using assms(3) by (rule bgd_ctor_first_group)
  then show ?thesis
    by (cases "bgd_ctor s 0") (simp_all add: inode_pos_def a b c inode_table_block_def)
qed

theorem inode_pos_collides_witness: "inode_pos small_fs 140 = inode_pos small_fs 12"
  using inode_pos_collides [of 12 small_fs] by simp

text \<open>
  Writing an inode back and constructing it again gives the same inode, when its place in the
  table is not in the descriptor that says where the table is.
\<close>

theorem inode_write_back_ctor:
  assumes "mounted s" and "length (inode_raw ino) = 116" and "inode_pos s (inode_index ino) = Some p"
    and "bgd_pos s ((inode_index ino - 1) div inodes_per_group s) = Some d" and "apart d 32 p 116"
  shows "\<exists>s'. inode_write_back s ino = Some s' \<and> mounted s' \<and> inode_ctor s' (inode_index ino) = Some ino"
proof -
  obtain s' where s': "node_write s p (inode_raw ino) = Some s'" "mounted s'" using node.wr_total [OF assms(1)] by blast
  note same = node_write_fields [OF s'(1)] node_write_other [OF s'(1)]
  have "node_read s' d sizeof_bgd = node_read s d sizeof_bgd"
    using node.rd_wr_apart [OF assms(1) s'(1)] assms(2,5) by (simp add: sizeof_bgd_def)
  then have "bgd_ctor s' ((inode_index ino - 1) div inodes_per_group s) = bgd_ctor s ((inode_index ino - 1) div inodes_per_group s)"
    using assms(4) same by (simp add: bgd_ctor_def)
  then have "inode_pos s' (inode_index ino) = Some p"
    using assms(3) same by (simp add: inode_pos_def Let_def split: if_splits)
  moreover have "node_read s' p sizeof_inode = Some (inode_raw ino)"
    using node.rd_wr_same [OF assms(1) s'(1)] assms(2) by (simp add: sizeof_inode_def)
  ultimately show ?thesis using s' assms(3) by (simp add: inode_write_back_def inode_ctor_def)
qed

theorem inode_write_back_ctor_witness:
  "\<exists>s'. inode_write_back small_fs small_inode = Some s' \<and> inode_ctor s' 12 = Some small_inode"
proof -
  have i: "inode_index small_inode = 12" by (simp add: small_inode_def)
  have "inode_pos small_fs 12 = Some 0x2c28242580" "bgd_pos small_fs ((12 - 1) div inodes_per_group small_fs) = Some 2048"
    by code_simp+
  moreover have "apart 2048 32 0x2c28242580 116" by (rule apartI) simp_all
  ultimately show ?thesis using inode_write_back_ctor [of small_fs small_inode "0x2c28242580" 2048] i by auto
qed

text \<open>The place of a block in the double indirect tree: the index in the root and in the table.\<close>

definition double_path :: "fs \<Rightarrow> u32 \<Rightarrow> u32 \<times> u32" where
  "double_path s iblock =
     (let k = ucast (iblock - 12 - ucast (blocks_per_level s)) :: u64
      in (ucast (k div blocks_per_level s), ucast (k mod blocks_per_level s)))"

lemma set_block_direct:
  assumes "length (inode_raw ino) = 116" and "iblock < 12"
  shows "\<exists>ino'. set_block s ino iblock v = Some (ucast v, ino', s)
      \<and> get_block s ino' iblock = Some (ucast v)
      \<and> (\<forall>j < 12. j \<noteq> iblock \<longrightarrow> get_block s ino' j = get_block s ino j)"
proof -
  let ?ino = "set_inode_block (unat iblock) v ino"
  have u: "unat iblock < 12" using assms(2) by (simp add: word_less_nat_alt)
  have "inode_block ?ino (unat iblock) = v"
    using u assms(1) by (simp add: inode_block_def set_inode_block_def)
  moreover have "inode_block ?ino (unat j) = inode_block ino (unat j)" if "j < 12" "j \<noteq> iblock" for j
  proof -
    have "unat j < unat iblock \<or> unat iblock < unat j" using that(2) by (metis linorder_neqE_nat word_eq_unatI)
    moreover have "unat j < 12" using that(1) by (simp add: word_less_nat_alt)
    ultimately show ?thesis
      using get_other_u32 [of "40 + 4 * unat iblock" "inode_raw ino" "40 + 4 * unat j" v] u assms(1)
      by (auto simp: inode_block_def set_inode_block_def)
  qed
  ultimately show ?thesis using assms(2) by (simp add: set_block_def get_block_def)
qed

text \<open>
  A block entered in the double indirect range of an inode whose tables exist is found again
  through the tables on the disk.
\<close>

theorem set_block_get_block:
  assumes "mounted s" and "12 \<le> iblock" and "blocks_per_level s \<noteq> 0" and "blocks_per_level s \<le> ucast (iblock - 12)"
    and "double_path s iblock = (single_index, indirect_offset)" and "ucast single_index < blocks_per_level s"
    and "inode_block ino 13 \<noteq> 0"
    and "t = ucast (inode_block ino 13) * block_size s + ucast (single_index * 4)"
    and "read_u32 s t = Some indirect_block" and "indirect_block \<noteq> 0"
    and "apart t 4 (ucast indirect_block * block_size s + ucast (indirect_offset * 4)) 4"
  shows "\<exists>s'. set_block s ino iblock v = Some (ucast v, ino, s') \<and> get_block s' ino iblock = Some (low_half v)"
proof -
  let ?p = "ucast indirect_block * block_size s + ucast (indirect_offset * 4)"
  obtain s' where s': "write_u32 s ?p v = Some s'" using write_u32_total [OF assms(1)] by blast
  have rd: "read_u32 s' ?p = Some v" "read_u32 s' t = Some indirect_block"
    using read_write_u32 [OF assms(1) s'] read_u32_apart [OF assms(1) s' assms(11)] assms(9) by simp_all
  have same: "block_size s' = block_size s" "blocks_per_level s' = blocks_per_level s"
    using node_write_other(2) node_write_fields(4) s' unfolding write_u32_def by blast+
  have n: "\<not> iblock < 12" "\<not> blocks_per_level s \<le> ucast single_index" using assms(2,6) by simp_all
  have "set_block s ino iblock v = Some (ucast v, ino, s')"
    using n assms(3-10) s'
    by (simp add: set_block_def Let_def double_path_def ensure_root_def ensure_pointer_def)
  moreover have "get_block s' ino iblock = Some (low_half v)"
    using n assms(3-5,8) rd by (simp add: get_block_def Let_def double_path_def same)
  ultimately show ?thesis by blast
qed

theorem set_block_get_block_witness:
  "\<exists>s'. set_block small_fs (set_inode_block 13 20 small_inode) 600 77 = Some (77, set_inode_block 13 20 small_inode, s')
    \<and> get_block s' (set_inode_block 13 20 small_inode) 600 = Some (low_half 77)"
proof -
  let ?ino = "set_inode_block 13 20 small_inode"
  have "double_path small_fs 600 = (1, 76)" "inode_block ?ino 13 = 20" "read_u32 small_fs 20484 = Some 0x07060504"
    "blocks_per_level small_fs = 256"
    by code_simp+
  moreover have "apart 20484 4 0x1c18141130 4" by (rule apartI) simp_all
  ultimately show ?thesis
    using set_block_get_block [of small_fs 600 1 76 ?ino 20484 "0x07060504" 77] by simp
qed

text \<open>
  A block entered in the single indirect range of an inode that has its table is lost: the
  call reports success, and neither the inode nor the disk changes.
\<close>

theorem set_block_single_indirect_lost:
  assumes "12 \<le> iblock" and "ucast (iblock - 12) < blocks_per_level s" and "inode_block ino 12 \<noteq> 0"
  shows "set_block s ino iblock v = Some (ucast v, ino, s)"
  using assms by (auto simp: set_block_def Let_def ensure_root_def)

theorem set_block_single_indirect_lost_witness:
  "set_block small_fs (set_inode_block 12 20 small_inode) 15 77 = Some (77, set_inode_block 12 20 small_inode, small_fs)"
proof -
  have "inode_block (set_inode_block 12 20 small_inode) 12 \<noteq> 0" "ucast (15 - 12 :: u32) < blocks_per_level small_fs"
    by code_simp+
  then show ?thesis
    using set_block_single_indirect_lost [of 15 small_fs "set_inode_block 12 20 small_inode" 77] by simp
qed

end
