(* ===== verification/Path.thy ===== *)
theory Path
  imports KString
begin

text \<open>
  Splitting a path at its separators, the lambda expression that the node constructor and
  \<^verbatim>\<open>search_absolute\<close> of \<^verbatim>\<open>kernel/fs/vfs.cpp\<close> and the directory constructor of
  \<^verbatim>\<open>kernel/fs/ext2/dir.cpp\<close> share, on the string class. \<open>path_tokens\<close> is the same on the value of a
  string; \<open>sub_paths_tokens\<close> shows that the code computes it, and the file system theories use it
  for paths.
\<close>

section \<open>Definitions\<close>

partial_function (option) sub_paths_from :: "kstring \<Rightarrow> size_t \<Rightarrow> kstring list option" where
  "sub_paths_from path start = do {
     e \<leftarrow> find_first path CHR ''/'' start;
     if e \<noteq> npos then do {
       token \<leftarrow> string_substr path start (e - start);
       rest \<leftarrow> sub_paths_from path (e + 1);
       Some (if str_length token = 0 then rest else token # rest)
     } else do {
       token \<leftarrow> string_substr path start e;
       if str_length token = 0 then Some []
       else do { token \<leftarrow> string_substr path start e; Some [token] }
     }
   }"

declare sub_paths_from.simps [code]

definition sub_paths :: "kstring \<Rightarrow> kstring list option" where
  "sub_paths path = sub_paths_from path 0"

text \<open>The components of a path.\<close>

fun tokens_from :: "string \<Rightarrow> string \<Rightarrow> string list" where
  "tokens_from acc [] = (if acc = [] then [] else [acc])"
| "tokens_from acc (c # cs) =
     (if c = CHR ''/'' then (if acc = [] then tokens_from [] cs else acc # tokens_from [] cs)
      else tokens_from (acc @ [c]) cs)"

definition path_tokens :: "string \<Rightarrow> string list" where
  "path_tokens p = tokens_from [] p"

section \<open>The code computes the components\<close>

lemma tokens_from_skip:
  "CHR ''/'' \<notin> set xs \<Longrightarrow> tokens_from acc (xs @ ys) = tokens_from (acc @ xs) ys"
  by (induction xs arbitrary: acc) auto

lemma path_tokens_Nil [simp]: "path_tokens [] = []"
  by (simp add: path_tokens_def)

lemma path_tokens_split:
  "path_tokens p =
    (let t = takeWhile (\<lambda>c. c \<noteq> CHR ''/'') p; r = dropWhile (\<lambda>c. c \<noteq> CHR ''/'') p
     in (if t = [] then [] else [t]) @ (if r = [] then [] else path_tokens (tl r)))"
proof -
  let ?t = "takeWhile (\<lambda>c. c \<noteq> CHR ''/'') p" and ?r = "dropWhile (\<lambda>c. c \<noteq> CHR ''/'') p"
  have "CHR ''/'' \<notin> set ?t" by (auto dest: set_takeWhileD)
  then have *: "path_tokens p = tokens_from ?t ?r"
    unfolding path_tokens_def using tokens_from_skip [of ?t "[]" ?r] by simp
  show ?thesis
  proof (cases ?r)
    case Nil
    show ?thesis unfolding * Let_def Nil by simp
  next
    case (Cons c cs)
    then have "c = CHR ''/''" using hd_dropWhile [of "\<lambda>c. c \<noteq> CHR ''/''" p] by (simp del: dropWhile_eq_Nil_conv)
    then show ?thesis unfolding * Let_def Cons by (simp add: path_tokens_def)
  qed
qed

text \<open>No component has a separator or is empty.\<close>

lemma path_tokens_components: "t \<in> set (path_tokens p) \<Longrightarrow> t \<noteq> [] \<and> CHR ''/'' \<notin> set t"
proof -
  have "t \<in> set (tokens_from acc p) \<Longrightarrow> CHR ''/'' \<notin> set acc \<Longrightarrow> t \<noteq> [] \<and> CHR ''/'' \<notin> set t" for acc
    by (induction p arbitrary: acc) (simp split: if_splits, force split: if_splits)
  then show "t \<in> set (path_tokens p) \<Longrightarrow> t \<noteq> [] \<and> CHR ''/'' \<notin> set t" by (simp add: path_tokens_def)
qed

lemma substr_token:
  assumes "str_ok s" and "unat start + n \<le> unat (str_length s)" and "n \<noteq> 0 \<Longrightarrow> terminator_fits n"
    and "unat (str_length s) < 2 ^ 63" and "sz = of_nat n \<or> sz = npos \<and> unat start + n = unat (str_length s)"
  shows "\<exists>r. string_substr s start sz = Some r \<and> str_ok r \<and> str_val r = take n (drop (unat start) (str_val s))
    \<and> (str_length r = 0 \<longleftrightarrow> n = 0)"
proof -
  have n: "unat (of_nat n :: size_t) = n" using assms(2,4) by (intro unat_of_nat_lt) simp
  have np: "of_nat n \<noteq> npos"
  proof
    assume "of_nat n = npos"
    then have "n = unat npos" using n by metis
    then show False using assms(2,4) by (simp add: npos_def unsigned_minus_1_eq_mask mask_eq_exp_minus_1)
  qed
  have eq: "string_substr s start sz = string_substr s start (of_nat n)"
  proof (cases "sz = npos")
    case True
    have "unat (str_length s - start) = unat (str_length s) - unat start"
      using assms(2) by (intro unat_sub) (simp add: word_le_nat_alt)
    then have "str_length s - start = of_nat n" using assms(5) True np n by (intro word_eq_unatI) auto
    then show ?thesis using True np by (simp add: string_substr_def)
  qed (use assms(5) in auto)
  show ?thesis
  proof (cases "n = 0")
    case True
    have "0 \<noteq> npos" by (simp add: npos_def)
    then show ?thesis unfolding eq using True by (simp add: string_substr_def string_empty_def str_ok_def str_val_def)
  next
    case False
    then have pos: "0 < (of_nat n :: size_t)" using n by (simp add: word_less_nat_alt)
    from string_substr_val [OF assms(1) _ pos np] assms(2,3) n False
    obtain r where r: "string_substr s start (of_nat n) = Some r" "str_ok r"
      "str_val r = take n (drop (unat start) (str_val s))" by auto
    have "unat (str_length r) = length (str_val r)" using r(2) by simp
    also have "\<dots> = n" using r(3) assms(1,2) by simp
    finally have "str_length r \<noteq> 0" using False by auto
    then show ?thesis unfolding eq using r False by blast
  qed
qed

lemma sub_paths_from_tokens:
  assumes "str_ok s" and "unat (str_length s) < 2 ^ 63" and "unat start \<le> unat (str_length s)"
    and "\<And>t. t \<in> set (path_tokens (drop (unat start) (str_val s))) \<Longrightarrow> terminator_fits (length t)"
  shows "\<exists>ts. sub_paths_from s start = Some ts \<and> (\<forall>t \<in> set ts. str_ok t)
    \<and> map str_val ts = path_tokens (drop (unat start) (str_val s))"
  using assms(3,4)
proof (induction "unat (str_length s) - unat start" arbitrary: start rule: less_induct)
  case less
  let ?N = "\<lambda>c. c \<noteq> CHR ''/''"
  define v where "v = drop (unat start) (str_val s)"
  define t where "t = takeWhile ?N v"
  define r where "r = dropWhile ?N v"
  have lv: "length v = unat (str_length s) - unat start" using assms(1) by (simp add: v_def)
  have lt: "length t \<le> length v" unfolding t_def by (rule length_takeWhile_le)
  have take: "take (length t) v = t" by (simp add: t_def flip: takeWhile_eq_take)
  have tok: "path_tokens v = (if t = [] then [] else [t]) @ (if r = [] then [] else path_tokens (tl r))"
    unfolding t_def r_def using path_tokens_split [of v] unfolding Let_def .
  have ff: "find_first s CHR ''/'' start = Some (if CHR ''/'' \<in> set v then of_nat (unat start + length t) else npos)"
    using find_first_loop_val [of s "unat start" "unat (str_length s) - unat start" "CHR ''/''"] assms(1) less(2)
    by (simp add: find_first_def t_def v_def)
  have fits: "terminator_fits (length t)" if "length t \<noteq> 0"
    using less(3) [of t] that tok unfolding v_def by (simp split: if_splits)
  have sub: "\<exists>x. string_substr s start sz = Some x \<and> str_ok x \<and> str_val x = t \<and> (str_length x = 0 \<longleftrightarrow> t = [])"
    if "sz = of_nat (length t) \<or> sz = npos \<and> unat start + length t = unat (str_length s)" for sz
    using substr_token [OF assms(1) _ fits assms(2) that] lt lv less(2) take by (simp add: v_def)
  show ?case
  proof (cases "CHR ''/'' \<in> set v")
    case False
    then have all: "t = v" "r = []" unfolding t_def r_def by auto
    then obtain x where x: "string_substr s start npos = Some x" "str_ok x" "str_val x = t" "str_length x = 0 \<longleftrightarrow> t = []"
      using sub [of npos] lv less(2) by auto
    have "path_tokens v = (if t = [] then [] else [t])" using tok all(2) by simp
    then show ?thesis using ff False x unfolding v_def [symmetric]
      by (cases "t = []") (simp_all add: sub_paths_from.simps [of s start])
  next
    case True
    let ?e = "of_nat (unat start + length t) :: size_t"
    have len: "length t < length v" unfolding t_def using takeWhile_length_less [OF True] by simp
    then have u: "unat ?e = unat start + length t" using lv assms(2) less(2) by (intro unat_of_nat_lt) simp
    have "unat npos = 18446744073709551615" by (simp add: npos_def unsigned_minus_1_eq_mask mask_eq_exp_minus_1)
    then have ne: "?e \<noteq> npos" using u len lv assms(2) by auto
    have d: "?e - start = of_nat (length t)" by simp
    obtain x where x: "string_substr s start (of_nat (length t)) = Some x" "str_ok x" "str_val x = t" "str_length x = 0 \<longleftrightarrow> t = []"
      using sub [of "of_nat (length t)"] by auto
    have e1: "unat (?e + 1) = Suc (unat start + length t)" using u len lv assms(2) less(2) by (subst unat_add_lt) simp_all
    have "r = drop (length t) v" by (simp add: r_def t_def dropWhile_eq_drop)
    then have rest: "drop (unat (?e + 1)) (str_val s) = tl r"
      by (simp only: e1 v_def drop_drop drop_Suc tl_drop) (simp add: drop_Suc tl_drop add.commute)
    have "r \<noteq> []" using True by (auto simp: r_def)
    then have tk: "path_tokens v = (if t = [] then [] else [t]) @ path_tokens (drop (unat (?e + 1)) (str_val s))"
      using tok rest by simp
    have "\<exists>ts. sub_paths_from s (?e + 1) = Some ts \<and> (\<forall>t \<in> set ts. str_ok t)
        \<and> map str_val ts = path_tokens (drop (unat (?e + 1)) (str_val s))"
    proof (rule less(1))
      show "unat (str_length s) - unat (?e + 1) < unat (str_length s) - unat start" "unat (?e + 1) \<le> unat (str_length s)"
        unfolding e1 using len lv by simp_all
      fix y assume "y \<in> set (path_tokens (drop (unat (?e + 1)) (str_val s)))"
      then have "y \<in> set (path_tokens v)" unfolding tk by simp
      then show "terminator_fits (length y)" unfolding v_def by (rule less(3))
    qed
    then obtain ts where ts: "sub_paths_from s (?e + 1) = Some ts" "\<forall>t \<in> set ts. str_ok t"
      "map str_val ts = path_tokens (drop (unat (?e + 1)) (str_val s))" by blast
    have "sub_paths_from s start = Some (if t = [] then ts else x # ts)"
      using ff True ne d x ts(1) by (simp add: sub_paths_from.simps [of s start])
    then show ?thesis unfolding v_def [symmetric] tk using x(2,3) ts(2,3) by (cases "t = []") simp_all
  qed
qed

section \<open>Properties\<close>

text \<open>
  C39. Splitting a path on the string class returns, without a fault, exactly the non-empty
  components of its value, when the string class can hold each of them.
\<close>

theorem sub_paths_tokens:
  assumes "str_ok s" and "unat (str_length s) < 2 ^ 63"
    and "\<And>t. t \<in> set (path_tokens (str_val s)) \<Longrightarrow> terminator_fits (length t)"
  shows "\<exists>ts. sub_paths s = Some ts \<and> map str_val ts = path_tokens (str_val s)"
  using sub_paths_from_tokens [OF assms(1,2), of 0] assms(3) unfolding sub_paths_def by auto

theorem sub_paths_tokens_witness:
  "\<exists>ts. sub_paths (lit ''/dev//sd0-0/'') = Some ts \<and> map str_val ts = [''dev'', ''sd0-0'']"
proof -
  have t: "path_tokens ''/dev//sd0-0/'' = [''dev'', ''sd0-0'']" by (simp add: path_tokens_def)
  have f: "terminator_fits 3" "terminator_fits 5"
    by (simp_all add: terminator_fits_def heap_block_def round_size_def pow2_roundup_def)
  have "length ''dev'' = 3" "length ''sd0-0'' = 5" by simp_all
  then have "terminator_fits (length x)" if "x \<in> set [''dev'', ''sd0-0'']" for x
    using that f by (metis (no_types) empty_iff empty_set set_ConsD)
  then show ?thesis
    using sub_paths_tokens [of "lit ''/dev//sd0-0/''"] lit_val [of "''/dev//sd0-0/''"] t by simp
qed

end
