(* ===== verification/Vfs.thy ===== *)
theory Vfs
  imports Path
begin

text \<open>
  \<^verbatim>\<open>kernel/fs/vfs.cpp\<close> and \<^verbatim>\<open>vfs.hpp\<close>: the tree of nodes. A node is an object in a store indexed by
  pointers, zero being \<open>NULL\<close> and \<open>root_node\<close> the object of that name; \<open>vtop\<close> is the next address
  the heap hands out. Strings are their values, as the string theory describes them. The methods
  of a file system are called through its object: \<open>mount\<close> takes the \<open>refresh\<close> it calls as an
  argument. \<open>None\<close> is a fault: a null or freed pointer is dereferenced.
\<close>

section \<open>Definitions\<close>

type_synonym ptr = nat

record vnode =
  absolute_path :: string
  relative_path :: string
  vname :: string
  vfilesystem :: ptr
  st_size :: "off_t option"
  vparent :: ptr
  vnext :: ptr
  vlast :: ptr
  vchild :: ptr
  ioctl_device :: ptr

record vfs_fs =
  mount_gate :: string
  fs_flags :: size_t

record vfs =
  vnodes :: "ptr \<rightharpoonup> vnode"
  vtop :: ptr
  filesystems :: "ptr \<rightharpoonup> vfs_fs"
  dev_nodes :: "(ptr \<times> ptr) list"

definition nofs_signature :: size_t where "nofs_signature = 0x1"

definition is_mounted :: size_t where "is_mounted = 0x10"

definition root_node :: ptr where "root_node = 1"

text \<open>
  The constructor with all the fields. The file system it makes when it is given none is assigned
  to the parameter of the same name, so the node keeps the null pointer.
\<close>

definition node_fields :: "string \<Rightarrow> string \<Rightarrow> string \<Rightarrow> ptr \<Rightarrow> ptr \<Rightarrow> ptr \<Rightarrow> vnode" where
  "node_fields this_path rel name filesystem ioctl this =
     \<lparr>absolute_path = this_path, relative_path = rel, vname = name, vfilesystem = filesystem, st_size = None,
      vparent = this, vnext = 0, vlast = 0, vchild = 0, ioctl_device = ioctl\<rparr>"

definition vfs_empty :: vfs where
  "vfs_empty = \<lparr>vnodes = [root_node \<mapsto> node_fields ''/'' ''/'' ''/'' 0 0 root_node], vtop = 2,
     filesystems = Map.empty, dev_nodes = []\<rparr>"

definition vnode_write :: "vfs \<Rightarrow> ptr \<Rightarrow> (vnode \<Rightarrow> vnode) \<Rightarrow> vfs option" where
  "vnode_write s p f = do { n \<leftarrow> vnodes s p; Some (s\<lparr>vnodes := (vnodes s)(p \<mapsto> f n)\<rparr>) }"

subsection \<open>Searching\<close>

partial_function (option) search_from :: "(ptr \<rightharpoonup> vnode) \<Rightarrow> ptr \<Rightarrow> string \<Rightarrow> ptr option" where
  "search_from h cur name =
     (if cur = 0 then Some 0
      else do {
        n \<leftarrow> h cur;
        if vname n = name then Some cur else search_from h (vnext n) name
      })"

definition search_relative :: "vfs \<Rightarrow> ptr \<Rightarrow> string \<Rightarrow> ptr option" where
  "search_relative s this name = do {
     n \<leftarrow> vnodes s this;
     p \<leftarrow> vnodes s (vparent n);
     search_from (vnodes s) (vnext p) name
   }"

fun search_walk :: "vfs \<Rightarrow> ptr \<Rightarrow> string list \<Rightarrow> ptr option" where
  "search_walk s cur [] = Some cur"
| "search_walk s cur (t # ts) = do {
     cur \<leftarrow> search_relative s cur t;
     if cur = 0 then Some 0 else search_walk s cur ts
   }"

definition skip_slash :: "string \<Rightarrow> string" where
  "skip_slash path = (if path \<noteq> [] \<and> hd path = CHR ''/'' then tl path else path)"

definition search_absolute :: "vfs \<Rightarrow> string \<Rightarrow> ptr option" where
  "search_absolute s path =
     (if path = ''/'' then Some root_node
      else search_walk s root_node (path_tokens (skip_slash path)))"

subsection \<open>Creating\<close>

partial_function (option) chain_end :: "(ptr \<rightharpoonup> vnode) \<Rightarrow> ptr \<Rightarrow> ptr option" where
  "chain_end h cur = do { n \<leftarrow> h cur; if vnext n = 0 then Some cur else chain_end h (vnext n) }"

declare search_from.simps [code] chain_end.simps [code]

definition relative_of :: "vfs \<Rightarrow> vnode \<Rightarrow> string \<Rightarrow> string option" where
  "relative_of s par path =
     (if vfilesystem par = 0 then Some []
      else do {
        f \<leftarrow> filesystems s (vfilesystem par);
        if fs_flags f AND is_mounted = 0 then Some []
        else if length path < length (mount_gate f) then None
        else Some (drop (length (mount_gate f)) path)
      })"

definition create_node :: "vfs \<Rightarrow> ptr \<Rightarrow> string \<Rightarrow> (ptr \<times> vfs) option" where
  "create_node s par name = do {
     let par = (if par = 0 then root_node else par);
     p \<leftarrow> vnodes s par;
     let path = (if par \<noteq> root_node then absolute_path p @ ''/'' @ name else absolute_path p @ name);
     rel \<leftarrow> relative_of s p path;
     let new = vtop s;
     cur \<leftarrow> chain_end (vnodes s) par;
     let s = s\<lparr>vtop := Suc new, vnodes := (vnodes s)(new \<mapsto>
       \<lparr>absolute_path = path, relative_path = rel, vname = name, vfilesystem = vfilesystem p, st_size = Some 0,
        vparent = par, vnext = 0, vlast = cur, vchild = 0, ioctl_device = 0\<rparr>)\<rparr>;
     s \<leftarrow> vnode_write s cur (vnext_update (\<lambda>_. new));
     Some (new, s)
   }"

fun create_all :: "vfs \<Rightarrow> ptr \<Rightarrow> string list \<Rightarrow> vfs option" where
  "create_all s parent_cur [] = Some s"
| "create_all s parent_cur (t # ts) = do {
     (c, s) \<leftarrow> create_node s parent_cur t;
     s \<leftarrow> vnode_write s parent_cur (vchild_update (\<lambda>_. c));
     create_all s c ts
   }"

fun ctor_walk :: "vfs \<Rightarrow> ptr \<Rightarrow> string list \<Rightarrow> vfs option" where
  "ctor_walk s node_cur [] = Some s"
| "ctor_walk s node_cur (t # ts) = do {
     next \<leftarrow> search_relative s node_cur t;
     if next = 0 then create_all s node_cur (t # ts) else ctor_walk s next ts
   }"

text \<open>The constructor from a path: its effect is on the tree, the object itself is a temporary.\<close>

definition node_ctor :: "vfs \<Rightarrow> string \<Rightarrow> vfs option" where
  "node_ctor s path = ctor_walk s root_node (path_tokens (skip_slash path))"

subsection \<open>Other operations\<close>

definition node_ioctl :: "(ptr \<Rightarrow> 'r \<Rightarrow> 'r option) \<Rightarrow> vfs \<Rightarrow> ptr \<Rightarrow> 'r \<Rightarrow> 'r option" where
  "node_ioctl call s this regs = do {
     n \<leftarrow> vnodes s this;
     if ioctl_device n = 0 then Some regs else call (ioctl_device n) regs
   }"

text \<open>The node is read for its successor after it was deleted.\<close>

partial_function (option) remove_cluster :: "vfs \<Rightarrow> ptr \<Rightarrow> vfs option" where
  "remove_cluster s cur =
     (if cur = 0 then Some s
      else do {
        n \<leftarrow> vnodes s cur;
        s \<leftarrow> (if vchild n \<noteq> 0 then remove_cluster s (vchild n) else Some s);
        n \<leftarrow> vnodes s cur;
        s \<leftarrow> vnode_write s (vlast n) (vnext_update (\<lambda>_. 0));
        let s = s\<lparr>vnodes := (vnodes s)(cur := None)\<rparr>;
        n \<leftarrow> vnodes s cur;
        remove_cluster s (vnext n)
      })"

definition node_remove :: "vfs \<Rightarrow> string \<Rightarrow> vfs option" where
  "node_remove s path = do {
     cur \<leftarrow> search_absolute s path;
     if cur = 0 then Some s else remove_cluster s cur
   }"

text \<open>\<^verbatim>\<open>dev::node\<close> of a node: the file system of the device node that has it.\<close>

definition dev_lookup :: "vfs \<Rightarrow> ptr \<Rightarrow> ptr option" where
  "dev_lookup s p = map_of (dev_nodes s) p"

definition mount :: "(vfs \<Rightarrow> ptr \<Rightarrow> (ssize_t \<times> vfs) option) \<Rightarrow> vfs \<Rightarrow> string \<Rightarrow> string \<Rightarrow> (ssize_t \<times> vfs) option" where
  "mount refresh s source target = do {
     src \<leftarrow> search_absolute s source;
     if src = 0 then Some (-1, s)
     else case dev_lookup s src of None \<Rightarrow> Some (-1, s)
     | Some f \<Rightarrow>
       if f = 0 then Some (-1, s)
       else do {
         t \<leftarrow> search_absolute s target;
         if t = 0 then Some (-1, s)
         else do {
           s \<leftarrow> vnode_write s t (vfilesystem_update (\<lambda>_. f));
           fo \<leftarrow> filesystems s f;
           let s = s\<lparr>filesystems := (filesystems s)(f \<mapsto> fo\<lparr>mount_gate := target, fs_flags := fs_flags fo OR is_mounted\<rparr>)\<rparr>;
           (_, s) \<leftarrow> refresh s t;
           Some (0, s)
         }
       }
   }"

section \<open>The chain of nodes\<close>

text \<open>
  Every node is linked, through \<open>next\<close>, into one list that starts at the root, in the order of
  creation. \<open>chain\<close> relates a pointer to the list of the addresses found from it.
\<close>

primrec chain :: "(ptr \<rightharpoonup> vnode) \<Rightarrow> ptr \<Rightarrow> ptr list \<Rightarrow> bool" where
  "chain h p [] \<longleftrightarrow> p = 0"
| "chain h p (a # as) \<longleftrightarrow> p = a \<and> a \<noteq> 0 \<and> (\<exists>n. h a = Some n \<and> chain h (vnext n) as)"

definition name_of :: "(ptr \<rightharpoonup> vnode) \<Rightarrow> ptr \<Rightarrow> string" where
  "name_of h a = vname (the (h a))"

definition parent_of :: "(ptr \<rightharpoonup> vnode) \<Rightarrow> ptr \<Rightarrow> ptr" where
  "parent_of h a = vparent (the (h a))"

primrec first_named :: "(ptr \<rightharpoonup> vnode) \<Rightarrow> string \<Rightarrow> ptr list \<Rightarrow> ptr" where
  "first_named h name [] = 0"
| "first_named h name (a # as) = (if name_of h a = name then a else first_named h name as)"

lemma chain_Cons_in: "chain h p as \<Longrightarrow> a \<in> set as \<Longrightarrow> a \<noteq> 0 \<and> h a \<noteq> None"
  by (induction as arbitrary: p) auto

lemma search_from_chain: "chain h p as \<Longrightarrow> search_from h p name = Some (first_named h name as)"
proof (induction as arbitrary: p)
  case (Cons a as)
  then obtain n where n: "p = a" "a \<noteq> 0" "h a = Some n" "chain h (vnext n) as" by auto
  show ?case
    using n Cons.IH [OF n(4)] by (subst search_from.simps) (simp add: name_of_def)
qed (simp add: search_from.simps)

lemma chain_end_chain: "chain h p (as @ [a]) \<Longrightarrow> chain_end h p = Some a"
proof (induction as arbitrary: p)
  case Nil
  then show ?case by (subst chain_end.simps) auto
next
  case (Cons b as)
  then obtain n where n: "p = b" "h b = Some n" "chain h (vnext n) (as @ [a])" by auto
  then have "vnext n \<noteq> 0" by (cases as) auto
  then show ?case using n Cons.IH [OF n(3)] by (subst chain_end.simps) simp
qed

lemma chain_drop: "chain h p as \<Longrightarrow> i < length as \<Longrightarrow> chain h (vnext (the (h (as ! i)))) (drop (Suc i) as)"
proof (induction as arbitrary: p i)
  case (Cons a as)
  then show ?case by (cases i) auto
qed simp

lemma chain_cong:
  assumes "\<And>a. a \<in> set as \<Longrightarrow> \<exists>n n'. h a = Some n \<and> h' a = Some n' \<and> vnext n' = vnext n"
  shows "chain h p as \<Longrightarrow> chain h' p as"
  using assms
proof (induction as arbitrary: p)
  case (Cons a as)
  then obtain n where n: "p = a" "a \<noteq> 0" "h a = Some n" "chain h (vnext n) as" by auto
  moreover obtain n' where "h' a = Some n'" "vnext n' = vnext n" using Cons.prems(2) [of a] n by auto
  ultimately show ?case using Cons.IH [OF n(4)] Cons.prems(2) by auto
qed simp

lemma chain_unique: "chain h p as \<Longrightarrow> chain h p bs \<Longrightarrow> as = bs"
proof (induction as arbitrary: p bs)
  case Nil
  then show ?case by (cases bs) auto
next
  case (Cons a as)
  then show ?case by (cases bs) auto
qed

lemma chain_distinct: "chain h p as \<Longrightarrow> distinct as"
proof (induction as arbitrary: p)
  case (Cons a as)
  then obtain n where n: "p = a" "h a = Some n" "chain h (vnext n) as" by auto
  have "a \<notin> set as"
  proof
    assume "a \<in> set as"
    then obtain i where i: "i < length as" "as ! i = a" by (auto simp: in_set_conv_nth)
    have "chain h (vnext n) (drop (Suc i) as)" using chain_drop [OF n(3) i(1)] i(2) n(2) by simp
    from chain_unique [OF n(3) this] have "length as = length (drop (Suc i) as)" by (rule arg_cong)
    then show False using i(1) by simp
  qed
  then show ?case using Cons.IH [OF n(3)] by simp
qed simp

section \<open>The invariant\<close>

text \<open>
  The nodes form one chain from the root, a parent is created before its children, addresses
  above \<open>vtop\<close> are free, and a node below a mount point has a path longer than the mount point's.
\<close>

definition gate_ok :: "vfs \<Rightarrow> vnode \<Rightarrow> bool" where
  "gate_ok s n \<longleftrightarrow> vfilesystem n = 0 \<or> (\<exists>f. filesystems s (vfilesystem n) = Some f
     \<and> (fs_flags f AND is_mounted = 0 \<or> length (mount_gate f) \<le> length (absolute_path n)))"

definition vfs_inv :: "vfs \<Rightarrow> ptr list \<Rightarrow> bool" where
  "vfs_inv s ys \<longleftrightarrow> ys \<noteq> [] \<and> chain (vnodes s) root_node ys \<and> (\<forall>a \<in> dom (vnodes s). a < vtop s)
     \<and> parent_of (vnodes s) root_node = root_node
     \<and> (\<forall>i < length ys. 0 < i \<longrightarrow> (\<exists>j < i. parent_of (vnodes s) (ys ! i) = ys ! j))
     \<and> (\<forall>a \<in> set ys. gate_ok s (the (vnodes s a)))"

lemma vfs_inv_root: "vfs_inv s ys \<Longrightarrow> ys ! 0 = root_node"
  by (cases ys) (auto simp: vfs_inv_def)

lemma vfs_inv_node: "vfs_inv s ys \<Longrightarrow> i < length ys \<Longrightarrow> \<exists>n. vnodes s (ys ! i) = Some n \<and> ys ! i \<noteq> 0 \<and> ys ! i < vtop s"
  using chain_Cons_in [of "vnodes s" root_node ys "ys ! i"] by (auto simp: vfs_inv_def)

lemma vfs_inv_parent:
  assumes "vfs_inv s ys" and "i < length ys"
  shows "\<exists>j \<le> i. parent_of (vnodes s) (ys ! i) = ys ! j"
proof (cases i)
  case 0
  then show ?thesis using assms vfs_inv_root [OF assms(1)] by (auto simp: vfs_inv_def)
next
  case (Suc k)
  then have "\<exists>j < i. parent_of (vnodes s) (ys ! i) = ys ! j" using assms by (simp add: vfs_inv_def)
  then show ?thesis using less_imp_le by blast
qed

text \<open>A search from a node looks at the whole chain behind its parent.\<close>

lemma search_relative_inv:
  assumes "vfs_inv s ys" and "i < length ys" and "j \<le> i" and "parent_of (vnodes s) (ys ! i) = ys ! j"
  shows "search_relative s (ys ! i) t = Some (first_named (vnodes s) t (drop (Suc j) ys))"
proof -
  obtain n p where n: "vnodes s (ys ! i) = Some n" and p: "vnodes s (ys ! j) = Some p"
    using vfs_inv_node [OF assms(1)] assms(2,3) by (meson le_less_trans)
  have "chain (vnodes s) (vnext p) (drop (Suc j) ys)"
    using chain_drop [of "vnodes s" root_node ys j] assms(1-3) p by (auto simp: vfs_inv_def)
  then show ?thesis
    using n p assms(4) by (simp add: search_relative_def parent_of_def search_from_chain)
qed

lemma first_named_nth:
  assumes "name_of h (as ! k) = t" and "k < length as"
  shows "\<exists>i \<le> k. first_named h t as = as ! i \<and> name_of h (as ! i) = t"
  using assms
proof (induction as arbitrary: k)
  case (Cons a as)
  show ?case
  proof (cases "name_of h a = t")
    case False
    then obtain l where l: "k = Suc l" using Cons.prems by (cases k) auto
    then obtain i where "i \<le> l" "first_named h t as = as ! i" "name_of h (as ! i) = t" using Cons by auto
    then show ?thesis using False l by (intro exI [of _ "Suc i"]) simp
  qed auto
qed simp

text \<open>
  Looking up components for which later nodes of the chain have the names, in this order: a node
  with the name of the last is found.
\<close>

lemma search_walk_finds:
  assumes "vfs_inv s ys" and "c \<le> b" and "c < length ys" and "b + length ts < length ys"
    and "\<And>l. l < length ts \<Longrightarrow> name_of (vnodes s) (ys ! (b + 1 + l)) = ts ! l"
  shows "\<exists>r < length ys. search_walk s (ys ! c) ts = Some (ys ! r)
    \<and> (if ts = [] then r = c else name_of (vnodes s) (ys ! r) = last ts)"
  using assms(2-5)
proof (induction ts arbitrary: c b)
  case (Cons t ts)
  obtain j where j: "j \<le> c" "parent_of (vnodes s) (ys ! c) = ys ! j"
    using vfs_inv_parent [OF assms(1) Cons.prems(2)] by blast
  let ?d = "drop (Suc j) ys"
  have k: "b - j < length ?d" "?d ! (b - j) = ys ! (b + 1)" using j(1) Cons.prems by (simp_all add: Suc_diff_le)
  have "name_of (vnodes s) (?d ! (b - j)) = t" using Cons.prems(4) [of 0] k(2) by simp
  from first_named_nth [OF this k(1)] obtain i where i: "i \<le> b - j" "first_named (vnodes s) t ?d = ?d ! i"
    "name_of (vnodes s) (?d ! i) = t" by blast
  let ?c = "Suc (j + i)"
  have c: "?c \<le> b + 1" "?c < length ys" "?d ! i = ys ! ?c" using i(1) j(1) Cons.prems by simp_all
  have s1: "search_relative s (ys ! c) t = Some (ys ! ?c)"
    using search_relative_inv [OF assms(1) Cons.prems(2) j] i(2) c(3) by simp
  have nz: "ys ! ?c \<noteq> 0" using vfs_inv_node [OF assms(1) c(2)] by blast
  have "\<exists>r < length ys. search_walk s (ys ! ?c) ts = Some (ys ! r)
    \<and> (if ts = [] then r = ?c else name_of (vnodes s) (ys ! r) = last ts)"
    using Cons.prems(3,4) c(1,2) by (intro Cons.IH [of ?c "b + 1"]) (simp_all, metis Suc_less_eq add_Suc_right nth_Cons_Suc)
  then obtain r where "r < length ys" "search_walk s (ys ! ?c) ts = Some (ys ! r)"
    "if ts = [] then r = ?c else name_of (vnodes s) (ys ! r) = last ts" by blast
  then show ?case using s1 nz i(3) c(3) by (intro exI [of _ r]) (auto split: if_splits)
qed auto

lemma first_named_append:
  assumes "first_named h t as \<noteq> 0" and "\<And>a. a \<in> set as \<Longrightarrow> name_of h' a = name_of h a"
  shows "first_named h' t (as @ bs) = first_named h t as"
  using assms by (induction as) auto

section \<open>Creating nodes\<close>

text \<open>\<open>grown\<close>: a state with more nodes at the end of the chain and the old ones as they were.\<close>

definition grown :: "vfs \<Rightarrow> ptr list \<Rightarrow> vfs \<Rightarrow> ptr list \<Rightarrow> bool" where
  "grown s ys s' zs \<longleftrightarrow> vfs_inv s' (ys @ zs)
     \<and> (\<forall>a \<in> set ys. name_of (vnodes s') a = name_of (vnodes s) a \<and> parent_of (vnodes s') a = parent_of (vnodes s) a
          \<and> absolute_path (the (vnodes s' a)) = absolute_path (the (vnodes s a)))"

lemma grown_trans: "grown s ys s1 zs \<Longrightarrow> grown s1 (ys @ zs) s2 ws \<Longrightarrow> grown s ys s2 (zs @ ws)"
  by (simp add: grown_def)

lemma vfs_inv_update:
  assumes "vfs_inv s ys" and "a \<in> set ys" and "vnodes s a = Some n" and "vnext n' = vnext n"
    and "vparent n' = vparent n" and "vname n' = vname n" and "vfilesystem n' = vfilesystem n"
    and "absolute_path n' = absolute_path n"
  shows "grown s ys (s\<lparr>vnodes := (vnodes s)(a \<mapsto> n')\<rparr>) []"
proof -
  let ?h = "(vnodes s)(a \<mapsto> n')"
  have node: "\<exists>m m'. vnodes s b = Some m \<and> ?h b = Some m' \<and> vnext m' = vnext m" if "b \<in> set ys" for b
    using assms(1,3,4) that chain_Cons_in [of "vnodes s" root_node ys b] by (auto simp: vfs_inv_def)
  have par: "parent_of ?h b = parent_of (vnodes s) b" for b using assms(3,5) by (simp add: parent_of_def)
  have "name_of ?h b = name_of (vnodes s) b" for b using assms(3,6) by (simp add: name_of_def)
  moreover have "chain ?h root_node ys"
    using assms(1) by (intro chain_cong [OF node]) (auto simp: vfs_inv_def)
  moreover have "\<forall>b \<in> dom ?h. b < vtop s" using assms(1,3) by (auto simp: vfs_inv_def)
  moreover have "gate_ok (s\<lparr>vnodes := ?h\<rparr>) (the (?h b))" if "b \<in> set ys" for b
  proof -
    have "gate_ok s (the (vnodes s b))" using assms(1) that by (simp add: vfs_inv_def)
    then show ?thesis using assms(3,7,8) by (cases "b = a") (simp_all add: gate_ok_def)
  qed
  ultimately show ?thesis using assms par by (auto simp: grown_def vfs_inv_def)
qed

lemma chain_snoc:
  assumes "chain h p (as @ [a])" and "h a = Some n" and "q \<noteq> 0" and "q \<notin> set (as @ [a])" and "vnext m = 0"
  shows "chain (h(q \<mapsto> m, a \<mapsto> n\<lparr>vnext := q\<rparr>)) p (as @ [a, q])"
proof -
  have d: "distinct (as @ [a])" using assms(1) by (rule chain_distinct)
  show ?thesis using assms d
  proof (induction as arbitrary: p)
    case (Cons b as)
    then obtain k where "p = b" "b \<noteq> 0" "h b = Some k" "chain h (vnext k) (as @ [a])" by auto
    then show ?case using Cons by auto
  qed auto
qed

lemma relative_of_total:
  assumes "gate_ok s n" and "length (absolute_path n) \<le> length path"
  shows "\<exists>rel. relative_of s n path = Some rel"
  using assms unfolding gate_ok_def relative_of_def by (cases "vfilesystem n = 0") auto

lemma create_node_inv:
  assumes "vfs_inv s ys" and "i < length ys"
  shows "\<exists>s'. create_node s (ys ! i) t = Some (vtop s, s') \<and> grown s ys s' [vtop s]
    \<and> name_of (vnodes s') (vtop s) = t \<and> parent_of (vnodes s') (vtop s) = ys ! i
    \<and> absolute_path (the (vnodes s' (vtop s)))
        = absolute_path (the (vnodes s (ys ! i))) @ (if ys ! i = root_node then t else ''/'' @ t)"
proof -
  let ?h = "vnodes s" and ?q = "vtop s"
  obtain n where n: "?h (ys ! i) = Some n" "ys ! i \<noteq> 0" "ys ! i < ?q" using vfs_inv_node [OF assms] by blast
  obtain as a where as: "ys = as @ [a]" using assms(1) by (metis vfs_inv_def rev_exhaust)
  have ch: "chain ?h root_node (as @ [a])" using assms(1) as by (simp add: vfs_inv_def)
  have a: "a \<in> set ys" using as by simp
  then obtain m where m: "?h a = Some m" using chain_Cons_in [OF ch] as by auto
  have below: "b \<noteq> ?q" if "b \<in> set ys" for b
    using assms(1) that chain_Cons_in [OF ch, of b] as by (auto simp: vfs_inv_def)
  then have q: "?q \<notin> set (as @ [a])" "?q \<noteq> a" "?q \<noteq> 0" using as a n(3) by auto
  let ?path = "absolute_path n @ (if ys ! i = root_node then t else ''/'' @ t)"
  have "gate_ok s (the (?h (ys ! i)))" using assms nth_mem [OF assms(2)] by (simp add: vfs_inv_def)
  then have gate: "gate_ok s n" using n(1) by simp
  obtain rel where rel: "relative_of s n ?path = Some rel" using relative_of_total [OF gate, of ?path] by auto
  have "chain ?h (ys ! i) (drop i ys)"
  proof (cases i)
    case 0
    then show ?thesis using ch as vfs_inv_root [OF assms(1)] by simp
  next
    case (Suc k)
    have "chain ?h (vnext (the (?h (ys ! k)))) (drop i ys)"
      using chain_drop [OF ch, of k] assms(2) as Suc by simp
    moreover have "drop i ys = ys ! i # drop (Suc i) ys" using assms(2) by (simp add: Cons_nth_drop_Suc)
    ultimately show ?thesis by simp
  qed
  then have "chain_end ?h (ys ! i) = Some a"
    using assms(2) as by (intro chain_end_chain [where as = "drop i as"]) simp
  moreover define new where "new = \<lparr>absolute_path = ?path, relative_path = rel, vname = t, vfilesystem = vfilesystem n,
    st_size = Some 0, vparent = ys ! i, vnext = 0, vlast = a, vchild = 0, ioctl_device = 0\<rparr>"
  define s' where "s' = s\<lparr>vtop := Suc ?q, vnodes := ?h(?q \<mapsto> new, a \<mapsto> m\<lparr>vnext := ?q\<rparr>)\<rparr>"
  ultimately have run: "create_node s (ys ! i) t = Some (?q, s')"
    using n rel m q
    by (cases "ys ! i = root_node") (simp_all add: create_node_def vnode_write_def Let_def s'_def new_def)
  let ?h' = "vnodes s'"
  have h': "?h' b = (if b = ?q then Some new else if b = a then Some (m\<lparr>vnext := ?q\<rparr>) else ?h b)" for b
    using q by (simp add: s'_def)
  have old: "name_of ?h' b = name_of ?h b" "parent_of ?h' b = parent_of ?h b"
    "absolute_path (the (?h' b)) = absolute_path (the (?h b))" "vfilesystem (the (?h' b)) = vfilesystem (the (?h b))"
    if "b \<in> set ys" for b
    using below [OF that] m by (simp_all add: h' name_of_def parent_of_def)
  have "chain ?h' root_node (ys @ [?q])"
    using chain_snoc [OF ch m q(3,1), of new] as by (simp add: s'_def new_def)
  moreover have "\<forall>b \<in> dom ?h'. b < vtop s'"
    using assms(1) m by (auto simp: h' vfs_inv_def s'_def less_Suc_eq split: if_splits)
  moreover have "parent_of ?h' root_node = root_node"
    using assms(1) old(2) [of root_node] vfs_inv_root [OF assms(1)] nth_mem [of 0 ys] assms(2)
    by (auto simp: vfs_inv_def)
  moreover have "\<exists>j < k. parent_of ?h' ((ys @ [?q]) ! k) = (ys @ [?q]) ! j" if k: "k < length (ys @ [?q])" "0 < k" for k
  proof (cases "k < length ys")
    case True
    then obtain j where "j < k" "parent_of ?h (ys ! k) = ys ! j" using assms(1) k(2) by (auto simp: vfs_inv_def)
    then show ?thesis using True old(2) [of "ys ! k"] by (intro exI [of _ j]) (simp add: nth_append)
  next
    case False
    then have "k = length ys" using k(1) by simp
    then show ?thesis using assms(2) by (intro exI [of _ i]) (simp add: nth_append h' new_def parent_of_def)
  qed
  moreover have "gate_ok s' (the (?h' b))" if "b \<in> set (ys @ [?q])" for b
  proof (cases "b = ?q")
    case True
    have "the (?h' b) = new" "filesystems s' = filesystems s" using True h' by (simp_all add: s'_def)
    then show ?thesis using gate by (auto simp: gate_ok_def new_def)
  next
    case False
    then have b: "b \<in> set ys" using that by simp
    then have "gate_ok s (the (?h b))" using assms(1) by (simp add: vfs_inv_def)
    then show ?thesis using old(3,4) [OF b] by (simp add: gate_ok_def s'_def)
  qed
  ultimately have "vfs_inv s' (ys @ [?q])" by (simp add: vfs_inv_def)
  then have "grown s ys s' [?q]" using old by (simp add: grown_def)
  then show ?thesis using run n(1) by (simp add: h' new_def name_of_def parent_of_def)
qed

lemma create_all_inv:
  assumes "vfs_inv s ys" and "i < length ys"
  shows "\<exists>s' zs. create_all s (ys ! i) ts = Some s' \<and> grown s ys s' zs \<and> length zs = length ts
    \<and> map (name_of (vnodes s')) zs = ts"
  using assms
proof (induction ts arbitrary: s ys i)
  case Nil
  then show ?case by (intro exI [of _ s] exI [of _ "[]"]) (simp add: grown_def)
next
  case (Cons t ts)
  let ?q = "vtop s"
  obtain s1 where s1: "create_node s (ys ! i) t = Some (?q, s1)" "grown s ys s1 [?q]" "name_of (vnodes s1) ?q = t"
    using create_node_inv [OF Cons.prems] by blast
  have inv1: "vfs_inv s1 (ys @ [?q])" using s1(2) by (simp add: grown_def)
  obtain n where n: "vnodes s1 (ys ! i) = Some n"
    using vfs_inv_node [OF inv1, of i] Cons.prems(2) by (auto simp: nth_append)
  let ?s2 = "s1\<lparr>vnodes := (vnodes s1)(ys ! i \<mapsto> n\<lparr>vchild := ?q\<rparr>)\<rparr>"
  have w: "vnode_write s1 (ys ! i) (vchild_update (\<lambda>_. ?q)) = Some ?s2" by (simp add: vnode_write_def n)
  have g2: "grown s1 (ys @ [?q]) ?s2 []"
    using Cons.prems(2) by (intro vfs_inv_update [OF inv1 _ n]) simp_all
  then have inv2: "vfs_inv ?s2 (ys @ [?q])" by (simp add: grown_def)
  obtain s' zs where s': "create_all ?s2 ((ys @ [?q]) ! length ys) ts = Some s'" "grown ?s2 (ys @ [?q]) s' zs"
    "length zs = length ts" "map (name_of (vnodes s')) zs = ts"
    using Cons.IH [OF inv2, of "length ys"] by auto
  have "grown s ys s' (?q # zs)"
    using grown_trans [OF s1(2) g2] grown_trans [of s ys ?s2 "[?q]" s' zs] s'(2) by simp
  moreover have "name_of (vnodes s') ?q = t" using s'(2) g2 s1(3) by (simp add: grown_def)
  ultimately show ?case using s1(1) w s' by (intro exI [of _ s'] exI [of _ "?q # zs"]) simp
qed

text \<open>A successful walk is not changed by nodes added at the end.\<close>

lemma search_relative_grown:
  assumes "vfs_inv s ys" and "grown s ys s' zs" and "i < length ys" and "search_relative s (ys ! i) t = Some r" and "r \<noteq> 0"
  shows "search_relative s' (ys ! i) t = Some r \<and> r \<in> set ys \<and> name_of (vnodes s) r = t"
proof -
  obtain j where j: "j \<le> i" "parent_of (vnodes s) (ys ! i) = ys ! j" using vfs_inv_parent [OF assms(1,3)] by blast
  have inv': "vfs_inv s' (ys @ zs)" using assms(2) by (simp add: grown_def)
  have r: "r = first_named (vnodes s) t (drop (Suc j) ys)"
    using search_relative_inv [OF assms(1,3) j] assms(4) by simp
  have "first_named (vnodes s') t (drop (Suc j) ys @ zs) = r"
    unfolding r
  proof (rule first_named_append)
    show "first_named (vnodes s) t (drop (Suc j) ys) \<noteq> 0" using r assms(5) by simp
    show "name_of (vnodes s') a = name_of (vnodes s) a" if "a \<in> set (drop (Suc j) ys)" for a
      using assms(2) in_set_dropD [OF that] by (simp add: grown_def)
  qed
  moreover have "parent_of (vnodes s') ((ys @ zs) ! i) = (ys @ zs) ! j"
    using assms(2,3) j by (simp add: grown_def nth_append)
  ultimately have "search_relative s' (ys ! i) t = Some r"
    using search_relative_inv [OF inv', of i j t] assms(3) j by (simp add: nth_append)
  moreover have "first_named h t as \<noteq> 0 \<Longrightarrow> first_named h t as \<in> set as \<and> name_of h (first_named h t as) = t" for h as
    by (induction as) auto
  then have "r \<in> set (drop (Suc j) ys) \<and> name_of (vnodes s) r = t" using r assms(5) by simp
  ultimately show ?thesis using in_set_dropD by fast
qed

lemma ctor_walk_finds:
  assumes "vfs_inv s ys" and "i < length ys"
  shows "\<exists>s' zs r. ctor_walk s (ys ! i) ts = Some s' \<and> grown s ys s' zs \<and> search_walk s' (ys ! i) ts = Some r
    \<and> r \<in> set (ys @ zs) \<and> (if ts = [] then r = ys ! i else name_of (vnodes s') r = last ts)"
  using assms(2)
proof (induction ts arbitrary: i)
  case Nil
  then show ?case using assms(1) by (intro exI [of _ s] exI [of _ "[]"] exI [of _ "ys ! i"]) (simp add: grown_def)
next
  case (Cons t ts)
  obtain j where "j \<le> i" "parent_of (vnodes s) (ys ! i) = ys ! j" using vfs_inv_parent [OF assms(1) Cons.prems] by blast
  then obtain q where q: "search_relative s (ys ! i) t = Some q" using search_relative_inv [OF assms(1) Cons.prems] by blast
  show ?case
  proof (cases "q = 0")
    case True
    obtain s' zs where s': "create_all s (ys ! i) (t # ts) = Some s'" "grown s ys s' zs" "length zs = length (t # ts)"
      "map (name_of (vnodes s')) zs = t # ts"
      using create_all_inv [OF assms(1) Cons.prems] by blast
    have inv': "vfs_inv s' (ys @ zs)" using s'(2) by (simp add: grown_def)
    have b: "i \<le> length ys - 1" using Cons.prems by simp
    have names: "name_of (vnodes s') ((ys @ zs) ! (length ys - 1 + 1 + l)) = (t # ts) ! l" if "l < length (t # ts)" for l
    proof -
      have "length ys - 1 + 1 = length ys" using Cons.prems by simp
      moreover have "name_of (vnodes s') (zs ! l) = (t # ts) ! l"
        using that s'(3,4) by (metis nth_map)
      ultimately show ?thesis by (simp add: nth_append del: One_nat_def)
    qed
    have "\<exists>r < length (ys @ zs). search_walk s' ((ys @ zs) ! i) (t # ts) = Some ((ys @ zs) ! r)
      \<and> (if t # ts = [] then r = i else name_of (vnodes s') ((ys @ zs) ! r) = last (t # ts))"
    proof (rule search_walk_finds [OF inv' b])
      show "i < length (ys @ zs)" "length ys - 1 + length (t # ts) < length (ys @ zs)"
        using Cons.prems s'(3) by simp_all
    qed (rule names)
    then obtain r where r: "r < length (ys @ zs)" "search_walk s' ((ys @ zs) ! i) (t # ts) = Some ((ys @ zs) ! r)"
      "name_of (vnodes s') ((ys @ zs) ! r) = last (t # ts)" by auto
    have e: "(ys @ zs) ! i = ys ! i" using Cons.prems by (simp add: nth_append)
    show ?thesis
      using q True s'(1,2) r nth_mem [OF r(1)] unfolding e
      by (intro exI [of _ s'] exI [of _ zs] exI [of _ "(ys @ zs) ! r"]) simp
  next
    case False
    have "q \<in> set ys" "name_of (vnodes s) q = t"
      using search_relative_grown [OF assms(1) _ Cons.prems q False, of s "[]"] assms(1) by (simp_all add: grown_def)
    then obtain k where k: "k < length ys" "q = ys ! k" by (auto simp: in_set_conv_nth)
    obtain s' zs r where s': "ctor_walk s q ts = Some s'" "grown s ys s' zs" "search_walk s' q ts = Some r" "r \<in> set (ys @ zs)"
      "if ts = [] then r = q else name_of (vnodes s') r = last ts"
      using Cons.IH [OF k(1)] k(2) by blast
    have g: "search_relative s' (ys ! i) t = Some q \<and> q \<in> set ys \<and> name_of (vnodes s) q = t"
      by (rule search_relative_grown [OF assms(1) s'(2) Cons.prems q False])
    have "name_of (vnodes s') q = t" using s'(2) g by (simp add: grown_def)
    then show ?thesis using q False s' g by (intro exI [of _ s'] exI [of _ zs] exI [of _ r]) (auto split: if_splits)
  qed
qed

lemma path_tokens_skip_slash [simp]: "path_tokens (skip_slash p) = path_tokens p"
  by (cases p) (auto simp: skip_slash_def path_tokens_def)

lemma path_tokens_two:
  assumes "CHR ''/'' \<notin> set d" and "CHR ''/'' \<notin> set x" and "d \<noteq> []" and "x \<noteq> []"
  shows "path_tokens (''/'' @ d @ ''/'' @ x) = [d, x]" and "path_tokens (''/'' @ x) = [x]"
proof -
  have one: "path_tokens (''/'' @ x) = [x]" if "CHR ''/'' \<notin> set x" "x \<noteq> []" for x
    using tokens_from_skip [OF that(1), of "[]" "[]"] that by (simp add: path_tokens_def)
  then show "path_tokens (''/'' @ x) = [x]" using assms by blast
  have "path_tokens (''/'' @ d @ ''/'' @ x) = tokens_from d (''/'' @ x)"
    using tokens_from_skip [OF assms(1), of "[]" "''/'' @ x"] by (simp add: path_tokens_def)
  also have "\<dots> = d # path_tokens (''/'' @ x)" using assms(3) by (simp add: path_tokens_def)
  finally show "path_tokens (''/'' @ d @ ''/'' @ x) = [d, x]" using one assms by simp
qed

lemma search_absolute_tokens: "path \<noteq> ''/'' \<Longrightarrow> search_absolute s path = search_walk s root_node (path_tokens path)"
  by (simp add: search_absolute_def)

lemma vfs_empty_inv: "vfs_inv vfs_empty [root_node]"
  by (simp add: vfs_inv_def vfs_empty_def node_fields_def parent_of_def gate_ok_def root_node_def)

lemma node_ctor_found:
  assumes "vfs_inv s ys" and "path_tokens path \<noteq> []"
  shows "\<exists>s' zs r. node_ctor s path = Some s' \<and> grown s ys s' zs \<and> search_absolute s' path = Some r
    \<and> r \<in> set (ys @ zs) \<and> r \<noteq> 0 \<and> name_of (vnodes s') r = last (path_tokens path)"
proof -
  have pos: "0 < length ys" using assms(1) by (simp add: vfs_inv_def)
  obtain s' zs r where s': "ctor_walk s (ys ! 0) (path_tokens path) = Some s'" "grown s ys s' zs"
    "search_walk s' (ys ! 0) (path_tokens path) = Some r" "r \<in> set (ys @ zs)" "name_of (vnodes s') r = last (path_tokens path)"
    using ctor_walk_finds [OF assms(1) pos, of "path_tokens path"] assms(2) by auto
  have "chain (vnodes s') root_node (ys @ zs)" using s'(2) by (simp add: grown_def vfs_inv_def)
  then have "r \<noteq> 0" using chain_Cons_in s'(4) by blast
  moreover have "path \<noteq> ''/''" using assms(2) by (auto simp: path_tokens_def)
  ultimately show ?thesis
    using s' vfs_inv_root [OF assms(1)] by (auto simp: node_ctor_def search_absolute_tokens)
qed

lemma node_ctor_search_inv:
  assumes "vfs_inv s ys" and "path_tokens path \<noteq> []"
  shows "\<exists>s' zs. node_ctor s path = Some s' \<and> vfs_inv s' (ys @ zs)"
  using node_ctor_found [OF assms] by (auto simp: grown_def)

section \<open>Properties\<close>



text \<open>
  The directory part of a path does not matter: below a directory of the root, a name is looked
  for in the same list as in the root itself.
\<close>

theorem search_ignores_directory:
  assumes "vfs_inv s ys" and "search_absolute s (''/'' @ d) = Some b" and "b \<noteq> 0" and "parent_of (vnodes s) b = root_node"
    and "CHR ''/'' \<notin> set d" and "CHR ''/'' \<notin> set x" and "d \<noteq> []" and "x \<noteq> []"
  shows "search_absolute s (''/'' @ d @ ''/'' @ x) = search_absolute s (''/'' @ x)"
proof -
  note tok = path_tokens_two [OF assms(5-8)] path_tokens_two(2) [OF assms(6,5,8,7)]
  have pos: "0 < length ys" using assms(1) by (simp add: vfs_inv_def)
  have root: "parent_of (vnodes s) (ys ! 0) = ys ! 0" "ys ! 0 = root_node"
    using assms(1) vfs_inv_root [OF assms(1)] by (simp_all add: vfs_inv_def)
  have "search_relative s root_node d = Some b"
    using assms(2,3,7) tok(3)
    by (cases "search_relative s root_node d") (auto simp: search_absolute_tokens split: if_splits)
  moreover from this have "b \<in> set ys"
    using search_relative_grown [OF assms(1) _ pos, of s "[]" d b] root(2) assms(1,3) by (simp add: grown_def)
  then obtain k where k: "k < length ys" "b = ys ! k" by (auto simp: in_set_conv_nth)
  have "search_relative s b x = search_relative s root_node x"
    using search_relative_inv [OF assms(1) k(1), of 0 x] search_relative_inv [OF assms(1) pos, of 0 x] root k assms(4)
    by simp
  ultimately show ?thesis using assms(3,7,8) tok(1,2) by (simp add: search_absolute_tokens)
qed

theorem search_ignores_directory_witness:
  "\<exists>s'. node_ctor vfs_empty ''/a/x'' \<bind> (\<lambda>s. node_ctor s ''/b/x'') = Some s'
    \<and> search_absolute s' ''/b/x'' = search_absolute s' ''/x''
    \<and> map_option absolute_path (search_absolute s' ''/b/x'' \<bind> vnodes s') = Some ''/a/x''"
proof -
  let ?s = "node_ctor vfs_empty ''/a/x'' \<bind> (\<lambda>s. node_ctor s ''/b/x'')"
  have t: "path_tokens ''/a/x'' = [''a'', ''x'']" "path_tokens ''/b/x'' = [''b'', ''x'']" by (simp_all add: path_tokens_def)
  obtain s1 zs1 where s1: "node_ctor vfs_empty ''/a/x'' = Some s1" "vfs_inv s1 ([root_node] @ zs1)"
    using node_ctor_search_inv [OF vfs_empty_inv, of "''/a/x''"] t(1) by auto
  obtain s' zs where s': "node_ctor s1 ''/b/x'' = Some s'" "vfs_inv s' (([root_node] @ zs1) @ zs)"
    using node_ctor_search_inv [OF s1(2), of "''/b/x''"] t(2) by auto
  have run: "?s = Some s'" using s1(1) s'(1) by simp
  have "?s \<bind> (\<lambda>s. search_absolute s ''/b'') = Some 4" "?s \<bind> (\<lambda>s. Some (parent_of (vnodes s) 4)) = Some root_node"
    "?s \<bind> (\<lambda>s. map_option absolute_path (search_absolute s ''/b/x'' \<bind> vnodes s)) = Some ''/a/x''"
    by code_simp+
  then have f: "search_absolute s' (''/'' @ ''b'') = Some 4" "parent_of (vnodes s') 4 = root_node"
    "map_option absolute_path (search_absolute s' ''/b/x'' \<bind> vnodes s') = Some ''/a/x''"
    unfolding run by simp_all
  from search_ignores_directory [OF s'(2) f(1) _ f(2), of "''x''"]
  have "search_absolute s' ''/b/x'' = search_absolute s' ''/x''" by simp
  then show ?thesis using run f(3) by blast
qed

end
