(* ===== verification/Ext2_Dir.thy ===== *)
theory Ext2_Dir
  imports Ext2 Vfs
begin

text \<open>
  \<^verbatim>\<open>kernel/fs/ext2/dir.cpp\<close> and the file operations of \<^verbatim>\<open>ext2.cpp\<close>: directories as sequences of
  packed entries in the contents of an inode, and open, read, write, unlink and refresh of the
  file system. A buffer holds the bytes that were allocated for it, and an access outside it is a
  fault. The member \<^verbatim>\<open>raw\<close> of a directory object, a pointer to an entry, is the inode number found
  there, the only field that is read through it.
\<close>

section \<open>Definitions\<close>

record raw_dir =
  d_inode :: u32
  entry_size :: u16
  name_length :: u8
  d_type :: u8

definition sizeof_raw_dir :: nat where "sizeof_raw_dir = 8"

definition raw_dir_at :: "u8 list \<Rightarrow> nat \<Rightarrow> raw_dir option" where
  "raw_dir_at b i =
     (if i + sizeof_raw_dir \<le> length b
      then Some \<lparr>d_inode = get_u32 i b, entry_size = get_u16 (i + 4) b, name_length = b ! (i + 6), d_type = b ! (i + 7)\<rparr>
      else None)"

definition bytes_of :: "string \<Rightarrow> u8 list" where
  "bytes_of x = map (\<lambda>c. of_nat (of_char c)) x"

definition string_of :: "u8 list \<Rightarrow> string" where
  "string_of bs = map (\<lambda>b. char_of (unat b)) bs"

definition dir_name_at :: "u8 list \<Rightarrow> nat \<Rightarrow> string option" where
  "dir_name_at b i = do {
     d \<leftarrow> raw_dir_at b i;
     if i + sizeof_raw_dir + unat (name_length d) \<le> length b
     then Some (string_of (take (unat (name_length d)) (drop (i + sizeof_raw_dir) b)))
     else None
   }"

definition expected_size :: "raw_dir \<Rightarrow> u32" where
  "expected_size d = ucast (align_up (of_nat sizeof_raw_dir + ucast (name_length d)) 4)"

subsection \<open>Searching a directory\<close>

text \<open>The inode of the entry with the name; \<open>Some None\<close> is the result \<open>-1\<close>.\<close>

partial_function (option) dir_search_from :: "u8 list \<Rightarrow> u32 \<Rightarrow> u32 \<Rightarrow> string \<Rightarrow> u32 option option" where
  "dir_search_from b sz i path =
     (if i < sz then do {
        d \<leftarrow> raw_dir_at b (unat i);
        name \<leftarrow> dir_name_at b (unat i);
        if path = name then Some (if d_inode d = 0 then None else Some (d_inode d))
        else if ucast (entry_size d) \<noteq> expected_size d then Some None
        else dir_search_from b sz (i + ucast (entry_size d)) path
      } else Some None)"

definition read_whole :: "fs \<Rightarrow> inode \<Rightarrow> u8 list option" where
  "read_whole s ino = inode_read s ino 0 (ucast (size32l ino))"

definition dir_search :: "fs \<Rightarrow> inode \<Rightarrow> string \<Rightarrow> u32 option option" where
  "dir_search s parent_inode path = do {
     b \<leftarrow> read_whole s parent_inode;
     dir_search_from b (size32l parent_inode) 0 path
   }"

text \<open>
  The constructor that finds a path. Its parameter \<^verbatim>\<open>parent_inode\<close> hides the member of the same name:
  the loop advances the parameter, while \<^verbatim>\<open>search_relative\<close> reads the member, the inode the
  constructor was given. \<^verbatim>\<open>raw\<close> keeps the entry found last when a later component is missing.
\<close>

record dir =
  dir_raw :: "u32 option"
  dir_exists :: bool

fun find_walk :: "fs \<Rightarrow> inode \<Rightarrow> string list \<Rightarrow> u32 option \<Rightarrow> dir option" where
  "find_walk s parent_inode [] r = Some \<lparr>dir_raw = r, dir_exists = True\<rparr>"
| "find_walk s parent_inode (t # ts) r = do {
     e \<leftarrow> dir_search s parent_inode t;
     case e of None \<Rightarrow> Some \<lparr>dir_raw = r, dir_exists = False\<rparr>
     | Some i \<Rightarrow> do { _ \<leftarrow> inode_ctor s i; find_walk s parent_inode ts (Some i) }
   }"

definition dir_find :: "fs \<Rightarrow> inode \<Rightarrow> string \<Rightarrow> (dir \<times> fs) option" where
  "dir_find s parent_inode path = do {
     (_, s) \<leftarrow> inode_copy s parent_inode;
     d \<leftarrow> find_walk s parent_inode (path_tokens path) None;
     Some (d, s)
   }"

subsection \<open>Changing a directory\<close>

definition write_bytes :: "u8 list \<Rightarrow> nat \<Rightarrow> u8 list \<Rightarrow> u8 list option" where
  "write_bytes b i xs = (if i + length xs \<le> length b then Some (take i b @ xs @ drop (i + length xs) b) else None)"

partial_function (option) dir_delete_from ::
    "fs \<Rightarrow> inode \<Rightarrow> u8 list \<Rightarrow> u32 \<Rightarrow> string \<Rightarrow> (bool \<times> inode \<times> fs) option" where
  "dir_delete_from s parent_inode b i path =
     (if i < size32l parent_inode then do {
        d \<leftarrow> raw_dir_at b (unat i);
        name \<leftarrow> dir_name_at b (unat i);
        if name = path then do {
          b \<leftarrow> write_bytes b (unat i + sizeof_raw_dir) (replicate (unat (name_length d)) 0);
          ino \<leftarrow> inode_ctor s (d_inode d);
          s \<leftarrow> inode_remove s ino;
          b \<leftarrow> write_bytes b (unat i) (le_bytes 4 0);
          (parent_inode, s) \<leftarrow> inode_write s parent_inode 0 (take (unat (size32l parent_inode)) b);
          Some (True, parent_inode, s)
        }
        else if ucast (entry_size d) \<noteq> expected_size d then Some (False, parent_inode, s)
        else dir_delete_from s parent_inode b (i + ucast (entry_size d)) path
      } else Some (False, parent_inode, s))"

definition dir_delete :: "fs \<Rightarrow> inode \<Rightarrow> string \<Rightarrow> (bool \<times> inode \<times> fs) option" where
  "dir_delete s parent_inode path = do {
     b \<leftarrow> read_whole s parent_inode;
     (if path_tokens path = [] then None
      else dir_delete_from s parent_inode b 0 (last (path_tokens path)))
   }"

text \<open>The entry written behind the last one, and the empty header behind it.\<close>

definition put_entry :: "u8 list \<Rightarrow> nat \<Rightarrow> u32 \<Rightarrow> u16 \<Rightarrow> u8 \<Rightarrow> string \<Rightarrow> u8 list option" where
  "put_entry b i new_inode sz type name = do {
     let len = (of_nat (length name) :: u8);
     b \<leftarrow> write_bytes b i (le_bytes 4 (ucast new_inode) @ le_bytes 2 (ucast sz) @ [len, type]);
     b \<leftarrow> write_bytes b (i + sizeof_raw_dir) (bytes_of (take (unat len) name));
     write_bytes b (i + unat sz) (replicate sizeof_raw_dir 0)
   }"

partial_function (option) dir_create_from ::
    "fs \<Rightarrow> inode \<Rightarrow> u8 list \<Rightarrow> u32 \<Rightarrow> bool \<Rightarrow> bool \<Rightarrow> u32 \<Rightarrow> u8 \<Rightarrow> string \<Rightarrow> (bool \<times> inode \<times> fs) option" where
  "dir_create_from s parent_inode b i found exists new_inode type name =
     (if i < size32l parent_inode then do {
        (b, i, exists, parent_inode, s) \<leftarrow>
          (if found then do {
             let sz = (ucast (block_size s - ucast i) :: u16);
             b \<leftarrow> put_entry b (unat i) new_inode sz type name;
             (parent_inode, s) \<leftarrow> inode_write s parent_inode 0 (take (unat (size32l parent_inode)) b);
             Some (b, i + ucast sz, True, parent_inode, s)
           } else Some (b, i, exists, parent_inode, s));
        d \<leftarrow> raw_dir_at b (unat i);
        if ucast (entry_size d) \<noteq> expected_size d then do {
          b \<leftarrow> write_bytes b (unat i + 4) (le_bytes 2 (ucast (expected_size d)));
          dir_create_from s parent_inode b (i + expected_size d) True exists new_inode type name
        }
        else dir_create_from s parent_inode b (i + ucast (entry_size d)) found exists new_inode type name
      } else Some (exists, parent_inode, s))"

definition dir_create :: "fs \<Rightarrow> inode \<Rightarrow> u32 \<Rightarrow> u8 \<Rightarrow> string \<Rightarrow> (bool \<times> inode \<times> fs) option" where
  "dir_create s parent_inode new_inode type name = do {
     b \<leftarrow> read_whole s parent_inode;
     dir_create_from s parent_inode b 0 False False new_inode type name
   }"

declare dir_search_from.simps [code] dir_delete_from.simps [code] dir_create_from.simps [code]

subsection \<open>Operations of the file system\<close>

text \<open>
  The operations take what they read of the node: its size and its paths. Results of type \<^verbatim>\<open>int\<close> are
  words of 32 bits; \<open>read\<close> also returns the bytes it puts into the buffer, and \<open>write\<close> and \<open>open\<close> the
  sz they leave in the node.
\<close>

definition fs_read :: "fs \<Rightarrow> off_t \<Rightarrow> string \<Rightarrow> off_t \<Rightarrow> off_t \<Rightarrow> (32 word \<times> u8 list \<times> fs) option" where
  "fs_read s sz rel off cnt =
     (if sint off > sint sz then Some (-1, [], s)
      else do {
        let cnt = (if sint (off + cnt) > sint sz then sz - off else cnt);
        (d, s) \<leftarrow> dir_find s (root_inode s) rel;
        case dir_raw d of None \<Rightarrow> Some (-1, [], s)
        | Some i \<Rightarrow> do {
            ino \<leftarrow> inode_ctor s i;
            bs \<leftarrow> inode_read s ino off cnt;
            Some (ucast cnt, bs, s)
          }
      })"

definition fs_write :: "fs \<Rightarrow> off_t \<Rightarrow> string \<Rightarrow> off_t \<Rightarrow> u8 list \<Rightarrow> (32 word \<times> off_t \<times> fs) option" where
  "fs_write s sz rel off bs =
     (if sint off > sint sz then Some (-1, sz, s)
      else do {
        (d, s) \<leftarrow> dir_find s (root_inode s) rel;
        case dir_raw d of None \<Rightarrow> Some (-1, sz, s)
        | Some i \<Rightarrow> do {
            ino \<leftarrow> inode_ctor s i;
            (_, s) \<leftarrow> inode_write s ino off bs;
            Some (of_nat (length bs), sz + of_nat (length bs), s)
          }
      })"

definition fs_unlink :: "fs \<Rightarrow> string \<Rightarrow> (32 word \<times> fs) option" where
  "fs_unlink s rel = do {
     (ex, root, s) \<leftarrow> dir_delete s (root_inode s) rel;
     let s = s\<lparr>root_inode := root\<rparr>;
     Some (if ex then 0 else -1, s)
   }"

definition o_creat :: size_t where "o_creat = 0x10"

definition last_component :: "string \<Rightarrow> string" where
  "last_component path = rev (takeWhile (\<lambda>c. c \<noteq> CHR ''/'') (rev path))"

definition fs_create :: "fs \<Rightarrow> string \<Rightarrow> string \<Rightarrow> (32 word \<times> fs) option" where
  "fs_create s parent_rel path = do {
     (p, s) \<leftarrow>
       (if parent_rel = ''/'' then do { (i, s) \<leftarrow> inode_copy s (root_inode s); Some (Some i, s) }
        else do {
          (d, s) \<leftarrow> dir_find s (root_inode s) parent_rel;
          case dir_raw d of None \<Rightarrow> Some (None, s)
          | Some i \<Rightarrow> do { ino \<leftarrow> inode_ctor s i; Some (Some ino, s) }
        });
     case p of None \<Rightarrow> Some (-1, s)
     | Some parent_inode \<Rightarrow> do {
         (i, s) \<leftarrow> alloc_inode s;
         new_inode \<leftarrow> inode_ctor s (ucast i);
         (blk, s) \<leftarrow> alloc_block s;
         (r, new_inode, s) \<leftarrow> set_block s new_inode 0 (ucast blk);
         if r = -1 then Some (-1, s)
         else do {
           sec \<leftarrow> sector_size_of s;
           if sec = 0 then None
           else do {
             let new_inode = set_sector_cnt (ucast (block_size s div sec)) new_inode;
             s \<leftarrow> inode_write_back s new_inode;
             (_, parent_inode, s) \<leftarrow> dir_create s parent_inode (inode_index new_inode) 0 (last_component path);
             let parent_inode = parent_inode\<lparr>inode_raw := set_u16 26 (hard_link_cnt parent_inode + 1) (inode_raw parent_inode)\<rparr>;
             s \<leftarrow> inode_write_back s parent_inode;
             Some (0, s)
           }
         }
       }
   }"

definition fs_open :: "fs \<Rightarrow> off_t \<Rightarrow> string \<Rightarrow> string \<Rightarrow> string \<Rightarrow> u16 \<Rightarrow> (32 word \<times> off_t \<times> fs) option" where
  "fs_open s sz rel parent_rel path flags =
     (if ucast flags AND o_creat \<noteq> 0 then do { (r, s) \<leftarrow> fs_create s parent_rel path; Some (r, sz, s) }
      else do {
        (d, s) \<leftarrow> dir_find s (root_inode s) rel;
        case dir_raw d of None \<Rightarrow> Some (-1, sz, s)
        | Some i \<Rightarrow> do { ino \<leftarrow> inode_ctor s i; Some (0, ucast (size32l ino), s) }
      })"

text \<open>The nodes made for the entries of a directory and, recursively, of its directories.\<close>

partial_function (option) refresh_from ::
    "fs \<Rightarrow> vfs \<Rightarrow> u8 list \<Rightarrow> u32 \<Rightarrow> u32 \<Rightarrow> string \<Rightarrow> (32 word \<times> vfs) option" where
  "refresh_from s v b sz i gate =
     (if i < sz then do {
        d \<leftarrow> raw_dir_at b (unat i);
        name \<leftarrow> dir_name_at b (unat i);
        let path = gate @ name;
        v \<leftarrow>
          (if name = ''.'' \<or> name = ''..'' then node_ctor v path
           else do {
             ino \<leftarrow> inode_ctor s (d_inode d);
             if permissions ino AND 0x4000 \<noteq> 0 then do {
               v \<leftarrow> node_ctor v (path @ ''/'');
               b' \<leftarrow> read_whole s ino;
               (_, v) \<leftarrow> refresh_from s v b' (size32l ino) 0 (path @ ''/'');
               Some v
             } else node_ctor v path
           });
        if ucast (entry_size d) \<noteq> expected_size d then Some (-1, v)
        else refresh_from s v b sz (i + ucast (entry_size d)) gate
      } else Some (0, v))"

definition fs_refresh :: "fs \<Rightarrow> vfs \<Rightarrow> ptr \<Rightarrow> (32 word \<times> vfs) option" where
  "fs_refresh s v p = do {
     n \<leftarrow> vnodes v p;
     b \<leftarrow> read_whole s (root_inode s);
     refresh_from s v b (size32l (root_inode s)) 0 (absolute_path n)
   }"

section \<open>Directory contents\<close>

text \<open>A directory as the list of its entries: inode, type and name; and its bytes.\<close>

type_synonym dirent = "u32 \<times> u8 \<times> string"

definition dirent_len :: "string \<Rightarrow> nat" where
  "dirent_len name = 4 * ((length name + 11) div 4)"

fun enc_dirent :: "dirent \<Rightarrow> u8 list" where
  "enc_dirent (i, ty, name) = le_bytes 4 (ucast i) @ le_bytes 2 (of_nat (dirent_len name))
     @ [of_nat (length name), ty] @ bytes_of name @ replicate (dirent_len name - (8 + length name)) 0"

fun dirent_name :: "dirent \<Rightarrow> string" where
  "dirent_name (i, ty, name) = name"

fun dirent_inode :: "dirent \<Rightarrow> u32" where
  "dirent_inode (i, ty, name) = i"

lemma dirent_len_bounds: "8 + length name \<le> dirent_len name" "dirent_len name \<le> length name + 11" "0 < dirent_len name"
  unfolding dirent_len_def by presburger+

lemma length_enc_dirent [simp]: "length (enc_dirent e) = dirent_len (dirent_name e)"
  using dirent_len_bounds(1) [of "dirent_name e"] by (cases e) (simp add: bytes_of_def)

lemma string_of_bytes_of [simp]: "string_of (bytes_of x) = x"
proof -
  have "char_of (unat (of_nat (of_char c) :: u8)) = c" for c
  proof -
    have "(of_char c :: nat) < 256" by simp
    then have "unat (of_nat (of_char c) :: u8) = of_char c" by (simp add: unat_of_nat take_bit_nat_eq_self)
    then show ?thesis by simp
  qed
  then show ?thesis by (simp add: string_of_def bytes_of_def comp_def)
qed

lemma expected_size_dirent:
  assumes "length name \<le> 255" and "name_length d = of_nat (length name)"
  shows "expected_size d = of_nat (dirent_len name)"
proof -
  have n: "unat (name_length d) = length name" using assms by (simp add: unat_of_nat take_bit_nat_eq_self)
  then have u: "unat (of_nat sizeof_raw_dir + ucast (name_length d) :: u64) = 8 + length name"
    using assms(1) by (subst unat_add_lt) (simp_all add: sizeof_raw_dir_def unsigned_ucast_eq take_bit_nat_eq_self)
  have "unat (align_up (of_nat sizeof_raw_dir + ucast (name_length d)) 4) = dirent_len name"
    using u assms(1) by (subst unat_align_up) (simp_all add: dirent_len_def)
  moreover have "unat (of_nat (dirent_len name) :: u64) = dirent_len name"
    using dirent_len_bounds(2) [of name] assms(1) by (intro unat_of_nat_lt) simp
  ultimately have "align_up (of_nat sizeof_raw_dir + ucast (name_length d)) 4 = of_nat (dirent_len name)"
    by (intro word_eq_unatI) simp
  moreover have "ucast (of_nat (dirent_len name) :: u64) = (of_nat (dirent_len name) :: u32)"
    using dirent_len_bounds(2) [of name] assms(1)
    by (intro word_unat_eq_iff [THEN iffD2]) (simp add: unsigned_ucast_eq unat_of_nat take_bit_nat_eq_self)
  ultimately show ?thesis by (simp add: expected_size_def)
qed

lemma get_field_at:
  assumes "length xs = n"
  shows "get_field n (length pre) (pre @ xs @ post) = le_word xs"
  using assms by (simp add: get_field_def)

lemma raw_dir_at_dirent:
  assumes "length name \<le> 255" and "b = pre @ enc_dirent (i, ty, name) @ post"
  shows "raw_dir_at b (length pre) = Some \<lparr>d_inode = i, entry_size = of_nat (dirent_len name),
    name_length = of_nat (length name), d_type = ty\<rparr>" and "dir_name_at b (length pre) = Some name"
proof -
  let ?hd = "le_bytes 4 (ucast i)" and ?sz = "le_bytes 2 (of_nat (dirent_len name)) :: u8 list"
  let ?rest = "bytes_of name @ replicate (dirent_len name - (8 + length name)) 0 @ post"
  have b: "b = pre @ ?hd @ ?sz @ [of_nat (length name), ty] @ ?rest" using assms(2) by simp
  have len: "length pre + 8 + length name \<le> length b" by (simp add: b bytes_of_def)
  have "get_field 4 (length pre) b = take_bit 32 (ucast i)"
    using get_field_at [of ?hd 4 pre] unfolding b by (simp add: le_word_le_bytes)
  then have f1: "get_u32 (length pre) b = i" by (intro bit_word_eqI) (simp add: get_u32_def bit_simps)
  have "get_field 2 (length pre + 4) b = take_bit 16 (of_nat (dirent_len name))"
    using get_field_at [of ?sz 2 "pre @ ?hd"] unfolding b by (simp add: le_word_le_bytes)
  then have f2: "get_u16 (length pre + 4) b = of_nat (dirent_len name)"
    by (intro bit_word_eqI) (simp add: get_u16_def bit_simps)
  have f3: "b ! (length pre + 6) = of_nat (length name)" "b ! (length pre + 7) = ty"
    unfolding b by (simp_all add: nth_append)
  show r: "raw_dir_at b (length pre) = Some \<lparr>d_inode = i, entry_size = of_nat (dirent_len name),
    name_length = of_nat (length name), d_type = ty\<rparr>"
    using len f1 f2 f3 by (simp add: raw_dir_at_def sizeof_raw_dir_def)
  have n: "unat (of_nat (length name) :: u8) = length name" using assms(1) by (simp add: unat_of_nat take_bit_nat_eq_self)
  have "drop (length pre + 8) b = ?rest" unfolding b by simp
  then have "take (length name) (drop (length pre + 8) b) = bytes_of name" by (simp add: bytes_of_def)
  then show "dir_name_at b (length pre) = Some name"
    using r n len by (simp add: dir_name_at_def sizeof_raw_dir_def)
qed

lemma dir_search_entries:
  assumes "\<And>e. e \<in> set es \<Longrightarrow> length (dirent_name e) \<le> 255" and "b = pre @ concat (map enc_dirent es)" and "length b < 2 ^ 32"
  shows "dir_search_from b (of_nat (length b)) (of_nat (length pre)) path = Some
    (case List.find (\<lambda>e. dirent_name e = path) es of None \<Rightarrow> None
     | Some e \<Rightarrow> if dirent_inode e = 0 then None else Some (dirent_inode e))"
  using assms
proof (induction es arbitrary: pre)
  case Nil
  then show ?case by (simp add: dir_search_from.simps)
next
  case (Cons e es)
  obtain i ty name where e: "e = (i, ty, name)" by (cases e)
  have n: "length name \<le> 255" using Cons.prems(1) [of e] e by simp
  have b: "b = pre @ enc_dirent (i, ty, name) @ concat (map enc_dirent es)" using Cons.prems(2) e by simp
  have len: "length pre + dirent_len name \<le> length b" by (subst b) (simp del: enc_dirent.simps)
  have u: "unat (of_nat (length pre) :: u32) = length pre" "unat (of_nat (length b) :: u32) = length b"
    using Cons.prems(3) len by (simp_all add: unat_of_nat take_bit_nat_eq_self)
  note r = raw_dir_at_dirent [OF n b]
  have lt: "(of_nat (length pre) :: u32) < of_nat (length b)"
    using u len dirent_len_bounds(3) [of name] by (simp add: word_less_nat_alt)
  have sz: "ucast (of_nat (dirent_len name) :: u16) = (of_nat (dirent_len name) :: u32)"
  proof -
    have "dirent_len name < 2 ^ 16" using dirent_len_bounds(2) [of name] n by simp
    then show ?thesis by (intro word_unat_eq_iff [THEN iffD2]) (simp add: unsigned_ucast_eq unat_of_nat take_bit_nat_eq_self)
  qed
  have ex: "expected_size \<lparr>d_inode = i, entry_size = of_nat (dirent_len name), name_length = of_nat (length name), d_type = ty\<rparr>
      = of_nat (dirent_len name)"
    using n by (rule expected_size_dirent) simp
  have ih: "dir_search_from b (of_nat (length b)) (of_nat (length pre + dirent_len name)) path = Some
    (case List.find (\<lambda>e. dirent_name e = path) es of None \<Rightarrow> None
     | Some e \<Rightarrow> if dirent_inode e = 0 then None else Some (dirent_inode e))"
    using Cons.IH [of "pre @ enc_dirent (i, ty, name)"] Cons.prems(1,3) b by (simp del: enc_dirent.simps)
  show ?case
    using lt r u(1) sz ex ih e
    by (subst dir_search_from.simps) (simp add: add.commute del: enc_dirent.simps)
qed

section \<open>Properties\<close>


definition small_dir :: "dirent list" where
  "small_dir = [(2, 2, ''.''), (0, 1, ''gone''), (5, 1, ''hello''), (9, 1, ''hello'')]"

definition dir_inode :: inode where
  "dir_inode = \<lparr>inode_raw = set_u32 4 56 (inode_raw small_inode), inode_index = 2\<rparr>"

definition dir_fs :: fs where
  "dir_fs = small_fs\<lparr>devfs_node := (devfs_node small_fs)\<lparr>device := Some \<lparr>sector_size = 512,
     disk = put_bytes (put_bytes ucast 7168 (concat (map enc_dirent small_dir))) 0x2c28242080 (inode_raw dir_inode)\<rparr>\<rparr>\<rparr>"

lemma small_dir_length: "length (concat (map enc_dirent small_dir)) = 56"
  by (simp add: small_dir_def dirent_len_def length_concat comp_def del: enc_dirent.simps)

lemma dir_fs_read:
  "node_read dir_fs p n = Some (bytes_at
    (put_bytes (put_bytes ucast 7168 (concat (map enc_dirent small_dir))) 0x2c28242080 (inode_raw dir_inode)) p (unat n))"
  by (simp add: node_read_def dev_read_def msd_read_def dir_fs_def small_fs_def)

lemma dir_inode_facts [simp]:
  "length (inode_raw dir_inode) = 116" "size32l dir_inode = 56" "inode_block dir_inode 0 = 7"
  by (simp_all add: dir_inode_def size32l_def inode_block_def get_other_u32 flip: small_fs_facts(4))

lemma dir_fs_other: "inodes_per_group dir_fs = 128" "block_size dir_fs = 1024" "mounted dir_fs" "inode_size dir_fs = inode_size small_fs"
  using small_fs_facts(7) by (simp_all add: dir_fs_def inodes_per_group_def inode_size_def)

lemma dir_fs_inode: "inode_ctor dir_fs 2 = Some dir_inode"
proof -
  have a: "apart 2048 32 0x2c28242080 (length (inode_raw dir_inode))" "apart 2048 32 7168 (length (concat (map enc_dirent small_dir)))"
    unfolding small_dir_length by (rule apartI; simp)+
  have "node_read dir_fs 2048 32 = node_read small_fs 2048 32"
    unfolding dir_fs_read using a
    by (simp add: bytes_at_put_apart node_read_def dev_read_def msd_read_def small_fs_def)
  moreover have "bgd_pos dir_fs 0 = bgd_pos small_fs 0" "bgd_pos small_fs 0 = Some 2048"
    by (simp_all add: bgd_pos_def dir_fs_other sizeof_bgd_def)
  ultimately have "bgd_ctor dir_fs 0 = bgd_ctor small_fs 0" by (simp add: bgd_ctor_def sizeof_bgd_def)
  moreover have "inode_pos small_fs 2 = Some 0x2c28242080" by code_simp
  ultimately have p: "inode_pos dir_fs 2 = Some 0x2c28242080"
    by (simp add: inode_pos_def dir_fs_other)
  have "node_read dir_fs 0x2c28242080 116 = Some (inode_raw dir_inode)"
    unfolding dir_fs_read using put_bytes_at [of "inode_raw dir_inode"] by simp
  then show ?thesis using p by (simp add: inode_ctor_def sizeof_inode_def) (simp add: dir_inode_def)
qed

lemma dir_fs_contents: "read_whole dir_fs dir_inode = Some (concat (map enc_dirent small_dir))"
proof -
  have a: "apart 7168 (unat (56 :: u64)) 0x2c28242080 (length (inode_raw dir_inode))" by (rule apartI; simp)
  have "node_read dir_fs 7168 56 = Some (concat (map enc_dirent small_dir))"
    unfolding dir_fs_read bytes_at_put_apart [OF a]
    using put_bytes_at [of "concat (map enc_dirent small_dir)"] small_dir_length by simp
  moreover have "get_block dir_fs dir_inode 0 = Some 7" by (simp add: get_block_def)
  ultimately show ?thesis
    by (simp add: read_whole_def inode_read_def read_loop.simps dir_fs_other)
qed

lemma dir_fs_searches:
  "dir_search dir_fs dir_inode path = Some (case List.find (\<lambda>e. dirent_name e = path) small_dir of None \<Rightarrow> None
     | Some e \<Rightarrow> if dirent_inode e = 0 then None else Some (dirent_inode e))"
proof -
  have n: "length (dirent_name e) \<le> 255" if "e \<in> set small_dir" for e using that by (auto simp: small_dir_def)
  show ?thesis
    using n dir_search_entries [where es = small_dir and b = "concat (map enc_dirent small_dir)" and pre = "[]" and path = path] dir_fs_contents
    by (simp add: dir_search_def small_dir_length)
qed


lemma find_walk_found:
  assumes "\<forall>t \<in> set us. \<exists>i ino. dir_search s p t = Some (Some i) \<and> inode_ctor s i = Some ino" and "us \<noteq> []"
    and "dir_search s p (last us) = Some (Some i)"
  shows "find_walk s p (us @ vs) r = find_walk s p vs (Some i)"
  using assms
proof (induction us arbitrary: r)
  case (Cons t us)
  then show ?case by (cases "us = []") auto
qed simp

text \<open>
  Every component of a path is looked for in the same directory, the one the search started
  from: the result for a path whose components are all there is the entry of the last of them.
  When a component is missing, the object still points to the entry found before, which is what
  its users test.
\<close>

theorem dir_find_ignores_directories:
  assumes "inode_write_back s p = Some s1" and "path_tokens path = us @ vs" and "us \<noteq> []"
    and "\<forall>t \<in> set us. \<exists>i ino. dir_search s1 p t = Some (Some i) \<and> inode_ctor s1 i = Some ino"
    and "vs = [] \<or> dir_search s1 p (hd vs) = Some None" and "dir_search s1 p (last us) = Some (Some i)"
  shows "dir_find s p path = Some (\<lparr>dir_raw = Some i, dir_exists = (vs = [])\<rparr>, s1)"
proof -
  have "find_walk s1 p (us @ vs) None = find_walk s1 p vs (Some i)" by (rule find_walk_found [OF assms(4,3,6)])
  also have "\<dots> = Some \<lparr>dir_raw = Some i, dir_exists = (vs = [])\<rparr>" using assms(5) by (cases vs) auto
  finally show ?thesis using assms(1,2) by (simp add: dir_find_def inode_copy_def)
qed

theorem dir_find_ignores_directories_witness:
  "\<exists>s1. dir_find dir_fs dir_inode ''/./hello/none'' = Some (\<lparr>dir_raw = Some 5, dir_exists = False\<rparr>, s1)"
proof -
  have s1: "inode_write_back dir_fs dir_inode = Some dir_fs" by (rule inode_write_back_unchanged [OF dir_fs_inode])
  have f: "dir_search dir_fs dir_inode ''.'' = Some (Some 2)" "dir_search dir_fs dir_inode ''hello'' = Some (Some 5)"
    "dir_search dir_fs dir_inode ''none'' = Some None"
    unfolding dir_fs_searches by (simp_all add: small_dir_def)
  have "\<exists>ino. inode_ctor dir_fs i = Some ino" for i by (rule inode_ctor_total) (simp_all add: dir_fs_other)
  then have c: "\<forall>t \<in> set [''.'', ''hello'']. \<exists>i ino. dir_search dir_fs dir_inode t = Some (Some i) \<and> inode_ctor dir_fs i = Some ino"
    using f by auto
  have t: "path_tokens ''/./hello/none'' = [''.'', ''hello''] @ [''none'']" by (simp add: path_tokens_def)
  show ?thesis using dir_find_ignores_directories [OF s1 t _ c] f by auto
qed

end
