(* ===== verification/Task.thy ===== *)
theory Task
  imports Map_Lib
begin

text \<open>
  The state the scheduler and the system calls share: the registers saved on an interrupt
  (\<^verbatim>\<open>struct regs\<close> of \<^verbatim>\<open>kernel/lib/cpu.hpp\<close>), the model-specific registers, the record each processor
  keeps (\<^verbatim>\<open>struct cpu\<close> of \<^verbatim>\<open>kernel/sched/smp.hpp\<close>), threads and tasks (\<^verbatim>\<open>kernel/sched/scheduler.hpp\<close>),
  and the small operations on it from \<^verbatim>\<open>kernel/lib/cpu.cpp\<close> and \<^verbatim>\<open>kernel/sched/smp.cpp\<close>.

  Members a constructor leaves out have whatever value the memory had: the definitions that run a
  constructor take a thread or a task that holds these values. A processor is the number of its
  record; its base register \<^verbatim>\<open>gs\<close> points to that record while the kernel runs.
\<close>

section \<open>Definitions\<close>

subsection \<open>Registers\<close>

record regs =
  r15 :: u64
  r14 :: u64
  r13 :: u64
  r12 :: u64
  r11 :: u64
  r10 :: u64
  r9 :: u64
  r8 :: u64
  rsi :: u64
  rdi :: u64
  rbp :: u64
  rdx :: u64
  rcx :: u64
  rbx :: u64
  rax :: u64
  isr_number :: u64
  err_code :: u64
  rip :: u64
  cs :: u64
  rflags :: u64
  rsp :: u64
  ss :: u64

text \<open>The registers of one processor that outlive the saved ones.\<close>

record core_hw =
  msr :: "u32 \<Rightarrow> u64"
  cr3 :: u64

definition msr_fs_base :: u32 where "msr_fs_base = 0xc0000100"

definition msr_gs_base :: u32 where "msr_gs_base = 0xc0000101"

definition kernel_gs_base :: u32 where "kernel_gs_base = 0xc0000102"

text \<open>The instructions take and return the two halves of the value.\<close>

definition rdmsr :: "core_hw \<Rightarrow> u32 \<Rightarrow> u64" where
  "rdmsr h m =
     (let rax = msr h m AND 0xffffffff; rdx = drop_bit 32 (msr h m)
      in push_bit 32 rdx OR rax)"

definition wrmsr :: "core_hw \<Rightarrow> u32 \<Rightarrow> u64 \<Rightarrow> core_hw" where
  "wrmsr h m v =
     (let rax = v AND 0xffffffff; rdx = drop_bit 32 v
      in h\<lparr>msr := (msr h)(m := push_bit 32 rdx OR rax)\<rparr>)"

definition swapgs :: "core_hw \<Rightarrow> core_hw" where
  "swapgs h = h\<lparr>msr := (msr h)(msr_gs_base := msr h kernel_gs_base, kernel_gs_base := msr h msr_gs_base)\<rparr>"

definition set_kernel_gs :: "core_hw \<Rightarrow> u64 \<Rightarrow> core_hw" where
  "set_kernel_gs h a = wrmsr h msr_gs_base a"

definition get_kernel_gs :: "core_hw \<Rightarrow> u64" where
  "get_kernel_gs h = rdmsr h msr_gs_base"

definition set_user_gs :: "core_hw \<Rightarrow> u64 \<Rightarrow> core_hw" where
  "set_user_gs h a = wrmsr h kernel_gs_base a"

definition set_user_fs :: "core_hw \<Rightarrow> u64 \<Rightarrow> core_hw" where
  "set_user_fs h a = wrmsr h msr_fs_base a"

definition get_user_gs :: "core_hw \<Rightarrow> u64" where
  "get_user_gs h = rdmsr h kernel_gs_base"

definition get_user_fs :: "core_hw \<Rightarrow> u64" where
  "get_user_fs h = rdmsr h msr_fs_base"

subsection \<open>Threads, tasks and processors\<close>

definition task_waiting :: size_t where "task_waiting = 0x2"

definition task_running :: size_t where "task_running = 0x8"

definition thread_stack_size :: size_t where "thread_stack_size = 0x2000"

record thread =
  tid :: tid_t
  t_idle_cnt :: size_t
  t_status :: size_t
  t_user_stack :: size_t
  t_kernel_stack :: size_t
  user_gs_base :: size_t
  user_fs_base :: size_t
  t_user_stack_size :: size_t
  t_kernel_stack_size :: size_t
  t_errno :: size_t
  regs_cur :: regs

definition thread_ctor :: "thread \<Rightarrow> thread" where
  "thread_ctor g = g\<lparr>tid := -1, t_idle_cnt := 0, t_errno := 0\<rparr>"

type_synonym table_ptr = u64

record task =
  pid :: pid_t
  ppid :: pid_t
  idle_cnt :: size_t
  status :: size_t
  threads :: "(ssize_t, thread) kmap"
  fd_bitmap :: bitmap
  fd_bitmap_size :: size_t
  file_descriptor_bitmap_size :: size_t
  page_map :: table_ptr

definition task_ctor :: "task \<Rightarrow> task" where
  "task_ctor g = g\<lparr>pid := -1, ppid := -1, idle_cnt := 0, threads := map_new\<rparr>"

record cpu =
  user_stack :: u64
  kernel_stack :: u64
  errno :: ssize_t
  cpu_pid :: pid_t
  cpu_tid :: tid_t
  cpu_page_map :: table_ptr
  nvme_io_queue :: u64

record sys =
  cpus :: "cpu vector"
  task_list :: "(ssize_t, task) kmap"
  hw :: "nat \<Rightarrow> core_hw"

text \<open>
  \<^verbatim>\<open>core_local\<close> loads the first quadword behind \<^verbatim>\<open>gs\<close> as the number of the processor. The first
  member of the record is \<^verbatim>\<open>user_stack\<close>.
\<close>

definition core_local :: "('z sys_scheme) \<Rightarrow> nat \<Rightarrow> size_t option" where
  "core_local s c = do {
     me \<leftarrow> vector_at (cpus s) (of_nat c);
     let index = (ucast (user_stack me) :: 32 word);
     Some (scast index)
   }"

definition core_read :: "('z sys_scheme) \<Rightarrow> nat \<Rightarrow> cpu option" where
  "core_read s c = do { i \<leftarrow> core_local s c; vector_at (cpus s) i }"

definition core_write :: "('z sys_scheme) \<Rightarrow> nat \<Rightarrow> (cpu \<Rightarrow> cpu) \<Rightarrow> ('z sys_scheme) option" where
  "core_write s c f = do {
     i \<leftarrow> core_local s c;
     x \<leftarrow> vector_at (cpus s) i;
     v \<leftarrow> vector_set (cpus s) i (f x);
     Some (s\<lparr>cpus := v\<rparr>)
   }"

definition set_errno :: "('z sys_scheme) \<Rightarrow> nat \<Rightarrow> size_t \<Rightarrow> ('z sys_scheme) option" where
  "set_errno s c e = core_write s c (errno_update (\<lambda>_. e))"

definition get_errno :: "('z sys_scheme) \<Rightarrow> nat \<Rightarrow> size_t option" where
  "get_errno s c = map_option errno (core_read s c)"

subsection \<open>The lists of tasks and threads\<close>

definition task_types :: "task \<Rightarrow> task map_types" where
  "task_types g = \<lparr>tag_type = \<lparr>sizeof = 8, trivial_dtor = True\<rparr>,
     data_type = \<lparr>sizeof = 112, trivial_dtor = False\<rparr>, default_data = task_ctor g\<rparr>"

definition thread_types :: "thread \<Rightarrow> thread map_types" where
  "thread_types g = \<lparr>tag_type = \<lparr>sizeof = 8, trivial_dtor = True\<rparr>,
     data_type = \<lparr>sizeof = 256, trivial_dtor = True\<rparr>, default_data = thread_ctor g\<rparr>"

record junk =
  junk_task :: task
  junk_thread :: thread
  junk_bytes :: "nat \<Rightarrow> u8"

definition task_get :: "('y junk_scheme) \<Rightarrow> ('z sys_scheme) \<Rightarrow> ssize_t \<Rightarrow> (task \<times> 'z sys_scheme) option" where
  "task_get G s p = do {
     (t, m) \<leftarrow> map_get (task_types (junk_task G)) (task_list s) p;
     Some (t, s\<lparr>task_list := m\<rparr>)
   }"

definition task_put :: "('y junk_scheme) \<Rightarrow> ('z sys_scheme) \<Rightarrow> ssize_t \<Rightarrow> task \<Rightarrow> ('z sys_scheme) option" where
  "task_put G s p t = do {
     m \<leftarrow> map_put (task_types (junk_task G)) (task_list s) p t;
     Some (s\<lparr>task_list := m\<rparr>)
   }"

definition thread_get :: "('y junk_scheme) \<Rightarrow> task \<Rightarrow> ssize_t \<Rightarrow> (thread \<times> task) option" where
  "thread_get G t i = do {
     (x, m) \<leftarrow> map_get (thread_types (junk_thread G)) (threads t) i;
     Some (x, t\<lparr>threads := m\<rparr>)
   }"

definition thread_put :: "('y junk_scheme) \<Rightarrow> task \<Rightarrow> ssize_t \<Rightarrow> thread \<Rightarrow> task option" where
  "thread_put G t i x = do {
     m \<leftarrow> map_put (thread_types (junk_thread G)) (threads t) i x;
     Some (t\<lparr>threads := m\<rparr>)
   }"

text \<open>
  A block of the heap as the code that owns it sees it; the empty list stands for \<open>NULL\<close>. \<^verbatim>\<open>recalloc\<close>
  copies as many bytes as the new block has, whatever the size of the old one: the bytes behind the
  old block, \<open>junk_bytes\<close>, come along. The copy to \<open>NULL\<close> when there is no block so large faults.
\<close>

definition calloc_block :: "size_t \<Rightarrow> u8 list" where
  "calloc_block cnt = (if heap_block (unat cnt) = 0 then [] else replicate (unat cnt) 0)"

definition recalloc_block :: "('y junk_scheme) \<Rightarrow> u8 list \<Rightarrow> size_t \<Rightarrow> u8 list option" where
  "recalloc_block G b cnt =
     (if b = [] then Some []
      else if heap_block (unat cnt) = 0 then None
      else Some (take (unat cnt) b @ map (junk_bytes G) [length b..<unat cnt]))"

text \<open>Updating a member of the thread of a task through the two references.\<close>

definition thread_update :: "('y junk_scheme) \<Rightarrow> ('z sys_scheme) \<Rightarrow> ssize_t \<Rightarrow> ssize_t \<Rightarrow> (thread \<Rightarrow> thread) \<Rightarrow> ('z sys_scheme) option" where
  "thread_update G s p i f = do {
     (t, s) \<leftarrow> task_get G s p;
     (x, t) \<leftarrow> thread_get G t i;
     t \<leftarrow> thread_put G t i (f x);
     task_put G s p t
   }"

definition task_update :: "('y junk_scheme) \<Rightarrow> ('z sys_scheme) \<Rightarrow> ssize_t \<Rightarrow> (task \<Rightarrow> task) \<Rightarrow> ('z sys_scheme) option" where
  "task_update G s p f = do {
     (t, s) \<leftarrow> task_get G s p;
     task_put G s p (f t)
   }"

subsection \<open>The system calls for the base registers\<close>

definition syscall_set_fs_base :: "('y junk_scheme) \<Rightarrow> ('z sys_scheme) \<Rightarrow> nat \<Rightarrow> regs \<Rightarrow> ('z sys_scheme) option" where
  "syscall_set_fs_base G s c r = do {
     core \<leftarrow> core_read s c;
     let s = s\<lparr>hw := (hw s)(c := set_user_fs (hw s c) (rdi r))\<rparr>;
     thread_update G s (cpu_pid core) (cpu_tid core) (user_fs_base_update (\<lambda>_. rdi r))
   }"

definition syscall_set_gs_base :: "('y junk_scheme) \<Rightarrow> ('z sys_scheme) \<Rightarrow> nat \<Rightarrow> regs \<Rightarrow> ('z sys_scheme) option" where
  "syscall_set_gs_base G s c r = do {
     core \<leftarrow> core_read s c;
     let s = s\<lparr>hw := (hw s)(c := set_user_gs (hw s c) (rdi r))\<rparr>;
     thread_update G s (cpu_pid core) (cpu_tid core) (user_gs_base_update (\<lambda>_. rdi r))
   }"

definition syscall_get_fs_base :: "('z sys_scheme) \<Rightarrow> nat \<Rightarrow> regs \<Rightarrow> regs" where
  "syscall_get_fs_base s c r = r\<lparr>rax := get_user_fs (hw s c)\<rparr>"

definition syscall_get_gs_base :: "('z sys_scheme) \<Rightarrow> nat \<Rightarrow> regs \<Rightarrow> regs" where
  "syscall_get_gs_base s c r = r\<lparr>rax := get_user_gs (hw s c)\<rparr>"

section \<open>Facts\<close>

lemma msr_halves: "push_bit 32 (drop_bit 32 v) OR (v AND 0xffffffff) = (v :: u64)"
proof -
  have m: "(0xffffffff :: u64) = mask 32" by (simp add: mask_eq_exp_minus_1)
  show ?thesis
    unfolding m by (rule bit_eqI) (auto simp: bit_simps)
qed

lemma rdmsr_eq [simp]: "rdmsr h m = msr h m"
  by (simp add: rdmsr_def msr_halves)

lemma wrmsr_eq: "wrmsr h m v = h\<lparr>msr := (msr h)(m := v)\<rparr>"
  by (simp add: wrmsr_def msr_halves)

lemma swapgs_swapgs [simp]: "swapgs (swapgs h) = h"
  by (simp add: swapgs_def fun_upd_twist kernel_gs_base_def msr_gs_base_def fun_upd_idem)

subsection \<open>The record of the processor\<close>

definition core_ok :: "('z sys_scheme) \<Rightarrow> nat \<Rightarrow> bool" where
  "core_ok s c \<longleftrightarrow> vec_ok (cpus s) \<and> c < unat (buf_size (cpus s)) \<and> (\<exists>i. core_local s c = Some i \<and> i < buf_size (cpus s))"

lemma core_read_ok: "core_ok s c \<Longrightarrow> \<exists>x. core_read s c = Some x"
  by (auto simp: core_ok_def core_read_def vector_at_list)

text \<open>A write that keeps \<^verbatim>\<open>user_stack\<close> is read back and changes no other record.\<close>

lemma core_write_ok:
  assumes "core_ok s c" and "core_read s c = Some x" and "\<And>y. user_stack (f y) = user_stack y"
  shows "\<exists>v. core_write s c f = Some (s\<lparr>cpus := v\<rparr>) \<and> core_ok (s\<lparr>cpus := v\<rparr>) c
    \<and> core_read (s\<lparr>cpus := v\<rparr>) c = Some (f x) \<and> buf_size v = buf_size (cpus s)
    \<and> (\<exists>i. core_local s c = Some i \<and> vec_list v = (vec_list (cpus s))[unat i := f x])"
proof -
  obtain i where i: "core_local s c = Some i" "i < buf_size (cpus s)" and ok: "vec_ok (cpus s)"
    and c: "c < unat (buf_size (cpus s))"
    using assms(1) by (auto simp: core_ok_def)
  have x: "x = vec_list (cpus s) ! unat i" "vector_at (cpus s) i = Some x"
    using assms(2) i vector_at_list [OF ok i(2)] by (simp_all add: core_read_def)
  obtain v where v: "vector_set (cpus s) i (f x) = Some v" "vec_ok v" "vec_list v = (vec_list (cpus s))[unat i := f x]"
    "buf_size v = buf_size (cpus s)"
    using vector_set_list [OF ok i(2)] by blast
  have w: "core_write s c f = Some (s\<lparr>cpus := v\<rparr>)" using i(1) x(2) v(1) by (simp add: core_write_def)
  have cc: "unat (of_nat c :: size_t) = c" by (rule unat_of_nat_lt [OF lt_unat_2p64 [OF c]])
  then have lt: "(of_nat c :: size_t) < buf_size (cpus s)" using c by (simp add: word_less_nat_alt)
  have li: "unat i < length (vec_list (cpus s))" using i(2) ok by (simp add: word_less_nat_alt)
  have "user_stack (vec_list v ! c) = user_stack (vec_list (cpus s) ! c)"
    using assms(3) li unfolding v(3) x(1) by (cases "c = unat i") simp_all
  then have loc: "core_local (s\<lparr>cpus := v\<rparr>) c = Some i"
    using i(1) vector_at_list [OF ok lt] vector_at_list [OF v(2), of "of_nat c"] lt cc v(4)
    by (simp add: core_local_def)
  then have "core_read (s\<lparr>cpus := v\<rparr>) c = Some (f x)"
    using v i(2) li by (simp add: core_read_def vector_at_list)
  then show ?thesis using w loc v i c by (auto simp: core_ok_def)
qed

lemma set_errno_ok:
  assumes "core_ok s c"
  shows "\<exists>v. set_errno s c e = Some (s\<lparr>cpus := v\<rparr>) \<and> core_ok (s\<lparr>cpus := v\<rparr>) c \<and> get_errno (s\<lparr>cpus := v\<rparr>) c = Some e"
proof -
  obtain x where x: "core_read s c = Some x" using core_read_ok [OF assms] by blast
  show ?thesis
    using core_write_ok [OF assms x, of "errno_update (\<lambda>_. e)"] by (auto simp: set_errno_def get_errno_def)
qed

lemma core_ok_cong: "core_ok s c \<Longrightarrow> cpus s' = cpus s \<Longrightarrow> core_ok s' c"
  by (simp add: core_ok_def core_local_def)

text \<open>A single key of the lists, as the reference to it is used.\<close>

lemma task_get_present: "map_inv (task_list s) \<Longrightarrow> map_abs (task_list s) p = Some t \<Longrightarrow> task_get G s p = Some (t, s)"
  by (simp add: task_get_def kmap.get_present)

lemma thread_get_present: "map_inv (threads t) \<Longrightarrow> map_abs (threads t) i = Some x \<Longrightarrow> thread_get G t i = Some (x, t)"
  by (simp add: thread_get_def kmap.get_present)

subsection \<open>Small states\<close>

definition zero_regs :: regs where
  "zero_regs = \<lparr>r15 = 0, r14 = 0, r13 = 0, r12 = 0, r11 = 0, r10 = 0, r9 = 0, r8 = 0, rsi = 0, rdi = 0, rbp = 0,
     rdx = 0, rcx = 0, rbx = 0, rax = 0, isr_number = 0, err_code = 0, rip = 0, cs = 0, rflags = 0, rsp = 0, ss = 0\<rparr>"

definition zero_thread :: thread where
  "zero_thread = \<lparr>tid = 0, t_idle_cnt = 0, t_status = 0, t_user_stack = 0, t_kernel_stack = 0, user_gs_base = 0,
     user_fs_base = 0, t_user_stack_size = 0, t_kernel_stack_size = 0, t_errno = 0, regs_cur = zero_regs\<rparr>"

definition zero_task :: task where
  "zero_task = \<lparr>pid = 0, ppid = 0, idle_cnt = 0, status = 0, threads = map_new, fd_bitmap = [], fd_bitmap_size = 0, file_descriptor_bitmap_size = 0,
     page_map = 0\<rparr>"

definition zero_cpu :: cpu where
  "zero_cpu = \<lparr>user_stack = 0, kernel_stack = 0, errno = 0, cpu_pid = 0, cpu_tid = 0, cpu_page_map = 0, nvme_io_queue = 0\<rparr>"

definition zero_hw :: core_hw where
  "zero_hw = \<lparr>msr = (\<lambda>m. 0), cr3 = 0\<rparr>"

lemma zero_cpu_core:
  assumes "cpus s = vec_of [x]" and "user_stack x = 0"
  shows "core_ok s 0" and "core_read s 0 = Some x"
proof -
  have v: "vec_ok (vec_of [x])" "vec_list (vec_of [x]) = [x]" "buf_size (vec_of [x]) = 1"
    using vec_of_list [of "[x]"] by (simp_all add: vec_of_def)
  then have a: "vector_at (cpus s) 0 = Some x" using assms(1) vector_at_list [of "vec_of [x]" 0] by simp
  then have "core_local s 0 = Some 0" using assms(2) by (simp add: core_local_def)
  then show "core_ok s 0" "core_read s 0 = Some x" using a v assms(1) by (simp_all add: core_ok_def core_read_def)
qed

end
