(* ===== verification/Fd.thy ===== *)
theory Fd
  imports Task Vfs
begin

text \<open>
  \<^verbatim>\<open>kernel/fs/fd.cpp\<close> and \<^verbatim>\<open>fd.hpp\<close>: file descriptors and their system calls. The offset and the flags of
  an open file are cells of the heap that copies of a descriptor share. The methods of a file
  system are reached through the file system pointer of a node; they may change the tree of nodes,
  the memory and what the file system keeps. Every system call returns the registers it leaves.

  \<open>umem\<close> holds the bytes at virtual addresses: below the kernel's half for every value of the page
  table register, above it once for all.
\<close>

section \<open>Definitions\<close>

record fd =
  fd_status :: "32 word"
  backing_fd :: "32 word"
  loc :: ptr
  flags :: ptr
  vfs_node :: ptr

record 'd fs_env =
  tree :: vfs
  view :: "u64 \<Rightarrow> u8"
  fsdata :: 'd

record 'd fs_ops =
  op_read :: "ptr \<Rightarrow> off_t \<Rightarrow> off_t \<Rightarrow> u64 \<Rightarrow> 'd fs_env \<Rightarrow> (32 word \<times> 'd fs_env) option"
  op_write :: "ptr \<Rightarrow> off_t \<Rightarrow> off_t \<Rightarrow> u64 \<Rightarrow> 'd fs_env \<Rightarrow> (32 word \<times> 'd fs_env) option"
  op_mkdir :: "ptr \<Rightarrow> 'd fs_env \<Rightarrow> (32 word \<times> 'd fs_env) option"
  op_refresh :: "ptr \<Rightarrow> 'd fs_env \<Rightarrow> (32 word \<times> 'd fs_env) option"
  op_open :: "ptr \<Rightarrow> u16 \<Rightarrow> 'd fs_env \<Rightarrow> (32 word \<times> 'd fs_env) option"
  op_unlink :: "ptr \<Rightarrow> 'd fs_env \<Rightarrow> (32 word \<times> 'd fs_env) option"

text \<open>The methods of the base class, which a file system inherits where it defines none: all fail.\<close>

definition fs_default :: "'d fs_ops" where
  "fs_default = \<lparr>op_read = (\<lambda>n off cnt b e. Some (-1, e)), op_write = (\<lambda>n off cnt b e. Some (-1, e)),
     op_mkdir = (\<lambda>n e. Some (-1, e)), op_refresh = (\<lambda>n e. Some (-1, e)),
     op_open = (\<lambda>n st e. Some (-1, e)), op_unlink = (\<lambda>n e. Some (-1, e))\<rparr>"

record 'd fd_sys = sys +
  fd_list :: "(ssize_t, fd) kmap"
  fd_cells :: "ptr \<rightharpoonup> size_t"
  fd_top :: ptr
  vtree :: vfs
  umem :: "u64 \<Rightarrow> u64 \<Rightarrow> u8"
  disks :: 'd

record fd_junk = junk +
  junk_fd :: fd

definition fd_default :: "fd \<Rightarrow> fd" where
  "fd_default g = g\<lparr>fd_status := 0, backing_fd := -1\<rparr>"

definition fd_types :: "fd \<Rightarrow> fd map_types" where
  "fd_types g = \<lparr>tag_type = \<lparr>sizeof = 8, trivial_dtor = True\<rparr>,
     data_type = \<lparr>sizeof = 32, trivial_dtor = True\<rparr>, default_data = fd_default g\<rparr>"

definition ebadf :: size_t where "ebadf = 1008"

definition enoent :: size_t where "enoent = 1043"

definition einval :: size_t where "einval = 1026"

definition seek_cur :: "32 word" where "seek_cur = 1"

definition seek_end :: "32 word" where "seek_end = 2"

definition seek_set :: "32 word" where "seek_set = 3"

definition o_creat_flag :: "32 word" where "o_creat_flag = 0x10"

subsection \<open>Calling a file system\<close>

definition space :: "('d, 'z) fd_sys_scheme \<Rightarrow> nat \<Rightarrow> u64 \<Rightarrow> u64" where
  "space s c va = (if bit va 63 then 0 else cr3 (hw s c))"

definition env_of :: "('d, 'z) fd_sys_scheme \<Rightarrow> nat \<Rightarrow> 'd fs_env" where
  "env_of s c = \<lparr>tree = vtree s, view = (\<lambda>va. umem s (space s c va) va), fsdata = disks s\<rparr>"

definition env_put :: "('d, 'z) fd_sys_scheme \<Rightarrow> nat \<Rightarrow> 'd fs_env \<Rightarrow> ('d, 'z) fd_sys_scheme" where
  "env_put s c e = s\<lparr>vtree := tree e, disks := fsdata e,
     umem := (\<lambda>k va. if k = space s c va then view e va else umem s k va)\<rparr>"

definition fs_call :: "(ptr \<Rightarrow> 'd fs_ops option) \<Rightarrow> ('d, 'z) fd_sys_scheme \<Rightarrow> nat \<Rightarrow> ptr
    \<Rightarrow> ('d fs_ops \<Rightarrow> 'd fs_env \<Rightarrow> (32 word \<times> 'd fs_env) option) \<Rightarrow> (32 word \<times> ('d, 'z) fd_sys_scheme) option" where
  "fs_call F s c n f = do {
     nd \<leftarrow> vnodes (vtree s) n;
     ops \<leftarrow> (if vfilesystem nd = 0 then None else F (vfilesystem nd));
     (r, e) \<leftarrow> f ops (env_of s c);
     Some (r, env_put s c e)
   }"

subsection \<open>Opening\<close>

definition fd_open :: "(ptr \<Rightarrow> 'd fs_ops option) \<Rightarrow> ('d, 'z) fd_sys_scheme \<Rightarrow> nat \<Rightarrow> string \<Rightarrow> 32 word
    \<Rightarrow> (32 word \<times> ptr \<times> ('d, 'z) fd_sys_scheme) option" where
  "fd_open F s c path fl = do {
     n \<leftarrow> search_absolute (vtree s) path;
     (n, s) \<leftarrow> (if n = 0 \<and> fl AND o_creat_flag \<noteq> 0 then do {
         v \<leftarrow> node_ctor (vtree s) path;
         n \<leftarrow> search_absolute v path;
         Some (n, s\<lparr>vtree := v\<rparr>)
       } else Some (n, s));
     if n = 0 then do { s \<leftarrow> set_errno s c enoent; Some (-1, n, s) }
     else do {
       (ret, s) \<leftarrow> fs_call F s c n (\<lambda>ops. op_open ops n (ucast fl));
       s \<leftarrow> (if ret = -1 then do { v \<leftarrow> node_remove (vtree s) path; Some (s\<lparr>vtree := v\<rparr>) } else Some s);
       Some (ret, n, s)
     }
   }"

text \<open>A cell from \<^verbatim>\<open>kmm::calloc\<close>.\<close>

definition new_cell :: "('d, 'z) fd_sys_scheme \<Rightarrow> ptr \<times> ('d, 'z) fd_sys_scheme" where
  "new_cell s = (fd_top s, s\<lparr>fd_top := Suc (fd_top s), fd_cells := (fd_cells s)(fd_top s \<mapsto> 0)\<rparr>)"

definition fd_ctor :: "('y fd_junk_scheme) \<Rightarrow> (ptr \<Rightarrow> 'd fs_ops option) \<Rightarrow> ('d, 'z) fd_sys_scheme \<Rightarrow> nat \<Rightarrow> string
    \<Rightarrow> 32 word \<Rightarrow> 32 word \<Rightarrow> (fd \<times> ('d, 'z) fd_sys_scheme) option" where
  "fd_ctor G F s c path fl backing = do {
     (ret, n, s) \<leftarrow> fd_open F s c path fl;
     let f = (junk_fd G)\<lparr>fd_status := 0, backing_fd := backing, vfs_node := n\<rparr>;
     if ret = -1 then Some (f, s)
     else do {
       let (l, s) = new_cell s;
       let (g, s) = new_cell s;
       Some (f\<lparr>loc := l, flags := g, fd_status := 1\<rparr>, s)
     }
   }"

fun find_clear :: "bitmap \<Rightarrow> nat \<Rightarrow> nat \<Rightarrow> nat option option" where
  "find_clear bm i 0 = Some None"
| "find_clear bm i (Suc n) = do {
     b \<leftarrow> bm_test bm i;
     if b then find_clear bm (Suc i) n else Some (Some i)
   }"

partial_function (option) find_index :: "('y junk_scheme) \<Rightarrow> bitmap \<Rightarrow> size_t \<Rightarrow> (size_t \<times> bitmap \<times> size_t) option" where
  "find_index G bm n = do {
     r \<leftarrow> find_clear bm 0 (unat n);
     case r of
       Some i \<Rightarrow> do { bm \<leftarrow> bm_set bm i; Some (of_nat i, bm, n) }
     | None \<Rightarrow> do {
         bm \<leftarrow> recalloc_block G bm (n + 0x1000);
         find_index G bm (n + 0x1000)
       }
   }"

declare find_index.simps [code]

definition alloc_fd :: "('y fd_junk_scheme) \<Rightarrow> (ptr \<Rightarrow> 'd fs_ops option) \<Rightarrow> ('d, 'z) fd_sys_scheme \<Rightarrow> nat \<Rightarrow> string
    \<Rightarrow> 32 word \<Rightarrow> (fd \<times> ('d, 'z) fd_sys_scheme) option" where
  "alloc_fd G F s c path fl = do {
     core \<leftarrow> core_read s c;
     (t, s) \<leftarrow> task_get G s (cpu_pid core);
     (i, bm, n) \<leftarrow> find_index G (fd_bitmap t) (fd_bitmap_size t);
     s \<leftarrow> task_put G s (cpu_pid core) (t\<lparr>fd_bitmap := bm, fd_bitmap_size := n\<rparr>);
     (f, s) \<leftarrow> fd_ctor G F s c path fl (ucast i);
     m \<leftarrow> map_put (fd_types (junk_fd G)) (fd_list s) i f;
     Some (f, s\<lparr>fd_list := m\<rparr>)
   }"

text \<open>\<^verbatim>\<open>translate\<close> answers \<open>None\<close> for the pair whose first component is \<open>-1\<close>, else the descriptor.\<close>

definition translate :: "('y fd_junk_scheme) \<Rightarrow> ('d, 'z) fd_sys_scheme \<Rightarrow> 32 word \<Rightarrow> (fd option \<times> ('d, 'z) fd_sys_scheme) option" where
  "translate G s i = do {
     (f, m) \<leftarrow> map_get (fd_types (junk_fd G)) (fd_list s) (scast i);
     let s = s\<lparr>fd_list := m\<rparr>;
     if backing_fd f = -1 \<or> fd_status f = 0 then Some (None, s) else Some (Some f, s)
   }"

subsection \<open>Reading, writing and seeking\<close>

definition cell_write :: "('d, 'z) fd_sys_scheme \<Rightarrow> ptr \<Rightarrow> size_t \<Rightarrow> ('d, 'z) fd_sys_scheme" where
  "cell_write s p v = s\<lparr>fd_cells := (fd_cells s)(p \<mapsto> v)\<rparr>"

definition fd_read :: "(ptr \<Rightarrow> 'd fs_ops option) \<Rightarrow> ('d, 'z) fd_sys_scheme \<Rightarrow> nat \<Rightarrow> fd \<Rightarrow> u64 \<Rightarrow> size_t
    \<Rightarrow> (32 word \<times> ('d, 'z) fd_sys_scheme) option" where
  "fd_read F s c f b cnt =
     (if vfs_node f = 0 then do { s \<leftarrow> set_errno s c enoent; Some (-1, s) }
      else do {
        l \<leftarrow> fd_cells s (loc f);
        (ret, s) \<leftarrow> fs_call F s c (vfs_node f) (\<lambda>ops. op_read ops (vfs_node f) l cnt b);
        if ret = -1 then Some (-1, s)
        else do { l \<leftarrow> fd_cells s (loc f); Some (ret, cell_write s (loc f) (l + cnt)) }
      })"

definition fd_write :: "(ptr \<Rightarrow> 'd fs_ops option) \<Rightarrow> ('d, 'z) fd_sys_scheme \<Rightarrow> nat \<Rightarrow> fd \<Rightarrow> u64 \<Rightarrow> size_t
    \<Rightarrow> (32 word \<times> ('d, 'z) fd_sys_scheme) option" where
  "fd_write F s c f b cnt =
     (if vfs_node f = 0 then do { s \<leftarrow> set_errno s c enoent; Some (-1, s) }
      else do {
        l \<leftarrow> fd_cells s (loc f);
        (ret, s) \<leftarrow> fs_call F s c (vfs_node f) (\<lambda>ops. op_write ops (vfs_node f) l cnt b);
        if ret = -1 then Some (-1, s)
        else do { l \<leftarrow> fd_cells s (loc f); Some (ret, cell_write s (loc f) (l + cnt)) }
      })"

definition fd_seek :: "('d, 'z) fd_sys_scheme \<Rightarrow> nat \<Rightarrow> fd \<Rightarrow> off_t \<Rightarrow> 32 word \<Rightarrow> (32 word \<times> ('d, 'z) fd_sys_scheme) option" where
  "fd_seek s c f off whence =
     (if vfs_node f = 0 then do { s \<leftarrow> set_errno s c enoent; Some (-1, s) }
      else if whence = seek_set then do {
        _ \<leftarrow> fd_cells s (loc f);
        Some (ucast off, cell_write s (loc f) off)
      }
      else if whence = seek_cur then do {
        l \<leftarrow> fd_cells s (loc f);
        Some (ucast (l + off), cell_write s (loc f) (l + off))
      }
      else if whence = seek_end then do {
        n \<leftarrow> vnodes (vtree s) (vfs_node f);
        sz \<leftarrow> st_size n;
        _ \<leftarrow> fd_cells s (loc f);
        Some (ucast (sz + off), cell_write s (loc f) (sz + off))
      }
      else do { s \<leftarrow> set_errno s c einval; Some (-1, s) })"

subsection \<open>System calls\<close>

text \<open>What \<^verbatim>\<open>SYSCALL_FD_TRANSLATE\<close> expands to: the body runs with the descriptor.\<close>

definition with_fd :: "('y fd_junk_scheme) \<Rightarrow> ('d, 'z) fd_sys_scheme \<Rightarrow> nat \<Rightarrow> regs
    \<Rightarrow> (fd \<Rightarrow> ('d, 'z) fd_sys_scheme \<Rightarrow> (regs \<times> ('d, 'z) fd_sys_scheme) option) \<Rightarrow> (regs \<times> ('d, 'z) fd_sys_scheme) option" where
  "with_fd G s c r body = do {
     (f, s) \<leftarrow> translate G s (ucast (rdi r));
     case f of
       None \<Rightarrow> do { s \<leftarrow> set_errno s c ebadf; Some (r\<lparr>rax := -1\<rparr>, s) }
     | Some f \<Rightarrow> body f s
   }"

text \<open>The string constructor reads the path byte by byte up to the terminator.\<close>

partial_function (option) cstring_at :: "(u64 \<Rightarrow> u8) \<Rightarrow> u64 \<Rightarrow> string option" where
  "cstring_at m a = (if m a = 0 then Some []
     else do { t \<leftarrow> cstring_at m (a + 1); Some (char_of (unat (m a)) # t) })"

declare cstring_at.simps [code]

definition syscall_open :: "('y fd_junk_scheme) \<Rightarrow> (ptr \<Rightarrow> 'd fs_ops option) \<Rightarrow> ('d, 'z) fd_sys_scheme \<Rightarrow> nat \<Rightarrow> regs
    \<Rightarrow> (regs \<times> ('d, 'z) fd_sys_scheme) option" where
  "syscall_open G F s c r = do {
     path \<leftarrow> cstring_at (view (env_of s c)) (rdi r);
     (f, s) \<leftarrow> alloc_fd G F s c path (ucast (rsi r));
     if fd_status f = 0 then Some (r\<lparr>rax := -1\<rparr>, s)
     else Some (r\<lparr>rax := scast (backing_fd f)\<rparr>, s)
   }"

definition syscall_close :: "('y fd_junk_scheme) \<Rightarrow> ('d, 'z) fd_sys_scheme \<Rightarrow> nat \<Rightarrow> regs \<Rightarrow> (regs \<times> ('d, 'z) fd_sys_scheme) option" where
  "syscall_close G s c r = with_fd G s c r (\<lambda>f s. do {
     m \<leftarrow> map_remove (fd_types (junk_fd G)) (fd_list s) (rdi r);
     Some (r\<lparr>rax := 0\<rparr>, s\<lparr>fd_list := m\<rparr>)
   })"

definition syscall_read :: "('y fd_junk_scheme) \<Rightarrow> (ptr \<Rightarrow> 'd fs_ops option) \<Rightarrow> ('d, 'z) fd_sys_scheme \<Rightarrow> nat \<Rightarrow> regs
    \<Rightarrow> (regs \<times> ('d, 'z) fd_sys_scheme) option" where
  "syscall_read G F s c r = with_fd G s c r (\<lambda>f s. do {
     (ret, s) \<leftarrow> fd_read F s c f (rsi r) (rdx r);
     Some (r\<lparr>rax := scast ret\<rparr>, s)
   })"

definition syscall_write :: "('y fd_junk_scheme) \<Rightarrow> (ptr \<Rightarrow> 'd fs_ops option) \<Rightarrow> ('d, 'z) fd_sys_scheme \<Rightarrow> nat \<Rightarrow> regs
    \<Rightarrow> (regs \<times> ('d, 'z) fd_sys_scheme) option" where
  "syscall_write G F s c r = with_fd G s c r (\<lambda>f s. do {
     (ret, s) \<leftarrow> fd_write F s c f (rsi r) (rdx r);
     Some (r\<lparr>rax := scast ret\<rparr>, s)
   })"

text \<open>The code calls \<^verbatim>\<open>write\<close> here too.\<close>

definition syscall_seek :: "('y fd_junk_scheme) \<Rightarrow> (ptr \<Rightarrow> 'd fs_ops option) \<Rightarrow> ('d, 'z) fd_sys_scheme \<Rightarrow> nat \<Rightarrow> regs
    \<Rightarrow> (regs \<times> ('d, 'z) fd_sys_scheme) option" where
  "syscall_seek G F s c r = with_fd G s c r (\<lambda>f s. do {
     (ret, s) \<leftarrow> fd_write F s c f (rsi r) (rdx r);
     Some (r\<lparr>rax := scast ret\<rparr>, s)
   })"

definition syscall_dup :: "('y fd_junk_scheme) \<Rightarrow> (ptr \<Rightarrow> 'd fs_ops option) \<Rightarrow> ('d, 'z) fd_sys_scheme \<Rightarrow> nat \<Rightarrow> regs
    \<Rightarrow> (regs \<times> ('d, 'z) fd_sys_scheme) option" where
  "syscall_dup G F s c r = with_fd G s c r (\<lambda>f s. do {
     n \<leftarrow> vnodes (vtree s) (vfs_node f);
     fl \<leftarrow> fd_cells s (flags f);
     (g, s) \<leftarrow> alloc_fd G F s c (absolute_path n) (ucast fl);
     Some (r\<lparr>rax := scast (backing_fd g)\<rparr>, s)
   })"

definition syscall_dup2 :: "('y fd_junk_scheme) \<Rightarrow> ('d, 'z) fd_sys_scheme \<Rightarrow> nat \<Rightarrow> regs \<Rightarrow> (regs \<times> ('d, 'z) fd_sys_scheme) option" where
  "syscall_dup2 G s c r =
     (if rdi r = rsi r then Some (r, s)
      else with_fd G s c r (\<lambda>f s. do {
        (g, s) \<leftarrow> translate G s (ucast (rsi r));
        m \<leftarrow> (if g \<noteq> None then map_remove (fd_types (junk_fd G)) (fd_list s) (rsi r) else Some (fd_list s));
        m \<leftarrow> map_put (fd_types (junk_fd G)) m (rsi r) f;
        Some (r, s\<lparr>fd_list := m\<rparr>)
      }))"

section \<open>Facts\<close>

definition fd_open_ok :: "fd \<Rightarrow> bool" where
  "fd_open_ok f \<longleftrightarrow> backing_fd f \<noteq> -1 \<and> fd_status f \<noteq> 0"

definition fd_room :: "(ssize_t, fd) kmap \<Rightarrow> bool" where
  "fd_room m \<longleftrightarrow> 64 * (unat (map_size m) + 1) \<le> 2 ^ 18"

lemma fd_room_types: "fd_room m \<longleftrightarrow> map_room (fd_types g) (unat (map_size m))"
  by (auto simp: fd_room_def map_room_def seq_room_def fd_types_def)

lemma fd_types_default [simp]: "default_data (fd_types g) = fd_default g"
  by (simp add: fd_types_def)

lemma translate_open:
  assumes "map_inv (fd_list s)" and "map_abs (fd_list s) (scast i) = Some f" and "fd_open_ok f"
  shows "translate G s i = Some (Some f, s)"
  using assms by (simp add: translate_def kmap.get_present fd_open_ok_def)

text \<open>A number that is not in the list, or in it for a file that is not open, gives no descriptor.\<close>

lemma translate_closed:
  assumes "map_inv (fd_list s)" and "fd_room (fd_list s)"
    and "\<And>f. map_abs (fd_list s) (scast i) = Some f \<Longrightarrow> \<not> fd_open_ok f"
  shows "\<exists>m. translate G s i = Some (None, s\<lparr>fd_list := m\<rparr>) \<and> map_inv m \<and> map_abs m (scast i) \<noteq> None
    \<and> (\<forall>k. k \<noteq> scast i \<longrightarrow> map_abs m k = map_abs (fd_list s) k) \<and> (\<forall>f. map_abs m (scast i) = Some f \<longrightarrow> \<not> fd_open_ok f)"
proof (cases "map_abs (fd_list s) (scast i)")
  case None
  obtain m where "map_get (fd_types (junk_fd G)) (fd_list s) (scast i) = Some (fd_default (junk_fd G), m)" "map_inv m"
    "map_abs m = (map_abs (fd_list s))(scast i \<mapsto> fd_default (junk_fd G))"
    using kmap.get_absent [OF assms(1) _ None, of "fd_types (junk_fd G)"] assms(2)
    unfolding fd_room_types [of _ "junk_fd G"] fd_types_default by blast
  then show ?thesis
    by (intro exI [of _ m]) (simp add: translate_def fd_default_def fd_open_ok_def)
next
  case (Some f)
  then have "translate G s i = Some (None, s\<lparr>fd_list := fd_list s\<rparr>)"
    using assms(3) [OF Some] by (auto simp: translate_def kmap.get_present [OF assms(1) Some] fd_open_ok_def)
  then show ?thesis using assms(1,3) Some by (intro exI [of _ "fd_list s"]) simp
qed

subsection \<open>The scan for a free number\<close>

lemma find_clear_hit:
  assumes "i \<le> k" and "k < i + n" and "k < 8 * length bm" and "\<And>j. i \<le> j \<Longrightarrow> j < k \<Longrightarrow> bm_test bm j = Some True"
    and "bm_test bm k = Some False"
  shows "find_clear bm i n = Some (Some k)"
  using assms
proof (induction n arbitrary: i)
  case (Suc n)
  show ?case
  proof (cases "i = k")
    case False
    then have "bm_test bm i = Some True" using Suc.prems by simp
    then show ?thesis using Suc.IH [of "Suc i"] Suc.prems False by simp
  qed (use Suc.prems in simp)
qed simp

lemma find_index_lowest:
  assumes "k < unat n" and "k < 8 * length bm" and "\<And>j. j < k \<Longrightarrow> bm_test bm j = Some True" and "bm_test bm k = Some False"
  shows "\<exists>bm'. find_index G bm n = Some (of_nat k, bm', n) \<and> bm_set bm k = Some bm'"
proof -
  have "find_clear bm 0 (unat n) = Some (Some k)" using assms by (intro find_clear_hit) simp_all
  moreover obtain bm' where "bm_set bm k = Some bm'" using bm.mark_total [OF assms(2)] by blast
  ultimately show ?thesis by (subst find_index.simps) simp
qed

subsection \<open>Descriptor numbers as keys\<close>

lemma fd_key:
  assumes "x < (0x80000000 :: u64)"
  shows "scast (ucast x :: 32 word) = x"
proof -
  have "unat x < 2 ^ 31" using assms by (simp add: word_less_nat_alt)
  then have "unat (take_bit 31 x) = unat x" by (simp add: unsigned_take_bit_eq take_bit_nat_eq_self del: unat_lt_2p64)
  then have "take_bit 31 x = x" by (rule word_eq_unatI)
  then have x: "bit x n \<longleftrightarrow> n < 31 \<and> bit x n" for n by (metis bit_take_bit_iff)
  show ?thesis
  proof (rule bit_word_eqI)
    fix n assume "n < LENGTH(64)"
    have "bit (scast (ucast x :: 32 word) :: u64) n \<longleftrightarrow> n < 64 \<and> bit x (min n 31)"
      by (simp add: bit_simps min_def)
    also have "\<dots> \<longleftrightarrow> bit x n" using x [of "min n 31"] x [of n] by (auto simp: min_def)
    finally show "bit (scast (ucast x :: 32 word) :: u64) n \<longleftrightarrow> bit x n" .
  qed
qed

lemma env_of_fd_list [simp]: "env_of (s\<lparr>fd_list := m\<rparr>) c = env_of s c"
  by (auto simp: env_of_def space_def)

text \<open>A call that succeeds, seen from the caller.\<close>

definition fs_ready :: "(ptr \<Rightarrow> 'd fs_ops option) \<Rightarrow> ('d, 'z) fd_sys_scheme \<Rightarrow> ptr \<Rightarrow> 'd fs_ops \<Rightarrow> bool" where
  "fs_ready F s n ops \<longleftrightarrow> n \<noteq> 0 \<and> (\<exists>nd. vnodes (vtree s) n = Some nd \<and> vfilesystem nd \<noteq> 0 \<and> F (vfilesystem nd) = Some ops)"

lemma fs_call_ready: "fs_ready F s n ops \<Longrightarrow> f ops (env_of s c) = Some (ret, e) \<Longrightarrow> fs_call F s c n f = Some (ret, env_put s c e)"
  by (auto simp: fs_ready_def fs_call_def)

lemma fd_read_advances:
  assumes "fs_ready F s (vfs_node f) ops" and "fd_cells s (loc f) = Some l"
    and "op_read ops (vfs_node f) l cnt b (env_of s c) = Some (ret, e)" and "ret \<noteq> -1"
  shows "fd_read F s c f b cnt = Some (ret, cell_write (env_put s c e) (loc f) (l + cnt))"
proof -
  have "fs_call F s c (vfs_node f) (\<lambda>ops. op_read ops (vfs_node f) l cnt b) = Some (ret, env_put s c e)"
    by (rule fs_call_ready [OF assms(1)]) (rule assms(3))
  then show ?thesis using assms by (simp add: fd_read_def fs_ready_def env_put_def)
qed

section \<open>Properties\<close>

text \<open>
  C11. A number that is not an open descriptor makes every system call that takes one return \<open>-1\<close>
  with the error \<open>EBADF\<close>; the files, the memory, the tasks and all open descriptors stay as they are.
\<close>

theorem bad_descriptor:
  assumes "map_inv (fd_list s)" and "fd_room (fd_list s)" and "core_ok s c"
    and "\<And>f. map_abs (fd_list s) (scast (ucast (rdi r) :: 32 word)) = Some f \<Longrightarrow> \<not> fd_open_ok f"
    and "call \<in> {syscall_read G F, syscall_write G F, syscall_seek G F, syscall_dup G F, syscall_close G}"
  shows "\<exists>m v. call s c r = Some (r\<lparr>rax := -1\<rparr>, s\<lparr>fd_list := m, cpus := v\<rparr>)
    \<and> get_errno (s\<lparr>fd_list := m, cpus := v\<rparr>) c = Some ebadf
    \<and> (\<forall>k f. fd_open_ok f \<longrightarrow> (map_abs m k = Some f \<longleftrightarrow> map_abs (fd_list s) k = Some f))"
proof -
  obtain m where m: "translate G s (ucast (rdi r)) = Some (None, s\<lparr>fd_list := m\<rparr>)"
    "\<forall>k. k \<noteq> scast (ucast (rdi r) :: 32 word) \<longrightarrow> map_abs m k = map_abs (fd_list s) k"
    "\<forall>f. map_abs m (scast (ucast (rdi r) :: 32 word)) = Some f \<longrightarrow> \<not> fd_open_ok f"
    using translate_closed [OF assms(1,2,4)] by blast
  have "core_ok (s\<lparr>fd_list := m\<rparr>) c" by (rule core_ok_cong [OF assms(3)]) simp
  then obtain v where v: "set_errno (s\<lparr>fd_list := m\<rparr>) c ebadf = Some (s\<lparr>fd_list := m, cpus := v\<rparr>)"
    "get_errno (s\<lparr>fd_list := m, cpus := v\<rparr>) c = Some ebadf"
    using set_errno_ok by blast
  have "with_fd G s c r body = Some (r\<lparr>rax := -1\<rparr>, s\<lparr>fd_list := m, cpus := v\<rparr>)" for body
    using m(1) v(1) by (simp add: with_fd_def)
  then have "call s c r = Some (r\<lparr>rax := -1\<rparr>, s\<lparr>fd_list := m, cpus := v\<rparr>)"
    using assms(5) by (auto simp: syscall_read_def syscall_write_def syscall_seek_def syscall_dup_def syscall_close_def)
  moreover have "map_abs m k = Some f \<longleftrightarrow> map_abs (fd_list s) k = Some f" if "fd_open_ok f" for k f
    using m(2,3) assms(4) that by (cases "k = scast (ucast (rdi r) :: 32 word)") auto
  ultimately show ?thesis using v(2) by blast
qed

text \<open>
  \<^verbatim>\<open>dup2\<close> onto a number that is not open makes it a descriptor of the same file that shares the
  offset: after a successful read through the new number both see the offset moved by the number of
  bytes asked for.
\<close>

theorem dup2_shares_offset:
  assumes "map_inv (fd_list s)" and "fd_room (fd_list s)"
    and "rdi r < 0x80000000" and "rsi r < 0x80000000" and "rdi r \<noteq> rsi r"
    and "map_abs (fd_list s) (rdi r) = Some f" and "fd_open_ok f"
    and "\<And>g. map_abs (fd_list s) (rsi r) = Some g \<Longrightarrow> \<not> fd_open_ok g"
    and "rdi r2 = rsi r" and "fs_ready F s (vfs_node f) ops" and "fd_cells s (loc f) = Some l"
    and "op_read ops (vfs_node f) l (rdx r2) (rsi r2) (env_of s c) = Some (ret, e)" and "ret \<noteq> -1"
  shows "\<exists>s1 s2. syscall_dup2 G s c r = Some (r, s1) \<and> syscall_read G F s1 c r2 = Some (r2\<lparr>rax := scast ret\<rparr>, s2)
    \<and> translate G s2 (ucast (rdi r)) = Some (Some f, s2) \<and> translate G s2 (ucast (rsi r)) = Some (Some f, s2)
    \<and> fd_cells s2 (loc f) = Some (l + rdx r2)"
proof -
  have a: "translate G s (ucast (rdi r)) = Some (Some f, s)"
    using assms(1,3,6,7) by (intro translate_open) (simp_all add: fd_key)
  obtain m where m: "translate G s (ucast (rsi r)) = Some (None, s\<lparr>fd_list := m\<rparr>)" "map_inv m"
    "map_abs m (rdi r) = Some f" and present: "map_abs m (rsi r) \<noteq> None"
    using translate_closed [OF assms(1,2), of "ucast (rsi r)" G] assms(4,5,6,8) by (auto simp: fd_key)
  obtain n where n: "map_put (fd_types (junk_fd G)) m (rsi r) f = Some n" "map_inv n" "map_abs n = (map_abs m)(rsi r \<mapsto> f)"
    using present map_abs_obtain [OF m(2)] map_put_present [OF m(2)] by (metis not_None_eq)
  define s1 where "s1 = s\<lparr>fd_list := n\<rparr>"
  have d: "syscall_dup2 G s c r = Some (r, s1)"
    using assms(5) a m(1) n(1) by (simp add: syscall_dup2_def with_fd_def s1_def)
  have keys: "map_abs (fd_list s1) (rdi r) = Some f" "map_abs (fd_list s1) (rsi r) = Some f" "map_inv (fd_list s1)"
    using n m(3) assms(5) by (simp_all add: s1_def)
  have t: "translate G s1 (ucast (rsi r)) = Some (Some f, s1)"
    using keys assms(4,7) by (intro translate_open) (simp_all add: fd_key)
  have "fs_ready F s1 (vfs_node f) ops" using assms(10) by (simp add: fs_ready_def s1_def)
  then have rd: "fd_read F s1 c f (rsi r2) (rdx r2) = Some (ret, cell_write (env_put s1 c e) (loc f) (l + rdx r2))"
    using assms(11-13) by (intro fd_read_advances) (simp_all add: s1_def)
  define s2 where "s2 = cell_write (env_put s1 c e) (loc f) (l + rdx r2)"
  have "syscall_read G F s1 c r2 = Some (r2\<lparr>rax := scast ret\<rparr>, s2)"
    using t rd assms(9) by (simp add: syscall_read_def with_fd_def s2_def)
  moreover have l2: "fd_list s2 = fd_list s1" "fd_cells s2 (loc f) = Some (l + rdx r2)"
    by (simp_all add: s2_def cell_write_def env_put_def)
  moreover have "translate G s2 (ucast k) = Some (Some f, s2)" if "k \<in> {rdi r, rsi r}" for k
    using keys assms(3,4,7) l2(1) that by (intro translate_open) (auto simp: fd_key)
  ultimately show ?thesis using d by blast
qed

text \<open>
  Opening a file that exists takes the lowest number whose bit is clear in the bitmap of the
  calling task, sets this bit and returns the number; it is then a descriptor of the file at offset
  zero.
\<close>

theorem open_lowest_number:
  assumes "core_read s c = Some core" and "map_inv (task_list s)" and "map_abs (task_list s) (cpu_pid core) = Some t"
    and "k < unat (fd_bitmap_size t)" and "k < 2 ^ 31" and "\<And>j. j < k \<Longrightarrow> bm_test (fd_bitmap t) j = Some True"
    and "bm_test (fd_bitmap t) k = Some False" and "map_inv (fd_list s)" and "fd_room (fd_list s)"
    and "cstring_at (view (env_of s c)) (rdi r) = Some path" and "search_absolute (vtree s) path = Some n"
    and "fs_ready F s n ops" and "op_open ops n (ucast (ucast (rsi r) :: 32 word)) (env_of s c) = Some (ret, e)"
    and "ret \<noteq> -1"
  shows "\<exists>s' f t'. syscall_open G F s c r = Some (r\<lparr>rax := of_nat k\<rparr>, s') \<and> translate G s' (of_nat k) = Some (Some f, s')
    \<and> vfs_node f = n \<and> fd_cells s' (loc f) = Some 0 \<and> map_abs (task_list s') (cpu_pid core) = Some t'
    \<and> bm_set (fd_bitmap t) k = Some (fd_bitmap t')"
proof -
  have k8: "k < 8 * length (fd_bitmap t)" using assms(7) bm.test_None_iff [of "fd_bitmap t" k] by (simp add: not_le)
  obtain bm' where bm': "find_index G (fd_bitmap t) (fd_bitmap_size t) = Some (of_nat k, bm', fd_bitmap_size t)"
    "bm_set (fd_bitmap t) k = Some bm'"
    using find_index_lowest [OF assms(4) k8 assms(6,7)] by blast
  let ?t = "t\<lparr>fd_bitmap := bm', fd_bitmap_size := fd_bitmap_size t\<rparr>"
  obtain tl where tl: "map_put (task_types (junk_task G)) (task_list s) (cpu_pid core) ?t = Some tl"
    "map_abs tl (cpu_pid core) = Some ?t"
    using map_abs_obtain [OF assms(2,3)] map_put_present [OF assms(2)] by (metis fun_upd_same)
  define s1 where "s1 = s\<lparr>task_list := tl\<rparr>"
  have env: "env_of s1 c = env_of s c" by (auto simp: s1_def env_of_def space_def)
  have rdy: "fs_ready F s1 n ops" using assms(12) by (simp add: s1_def fs_ready_def)
  then have nz: "n \<noteq> 0" by (simp add: fs_ready_def)
  have call: "fs_call F s1 c n (\<lambda>ops. op_open ops n (ucast (ucast (rsi r) :: 32 word))) = Some (ret, env_put s1 c e)"
    by (rule fs_call_ready [OF rdy]) (simp add: env assms(13))
  have opened: "fd_open F s1 c path (ucast (rsi r)) = Some (ret, n, env_put s1 c e)"
    using assms(11,14) nz call by (simp add: fd_open_def s1_def)
  let ?b = "ucast (of_nat k :: size_t) :: 32 word"
  define f where "f = (junk_fd G)\<lparr>fd_status := 1, backing_fd := ?b, vfs_node := n, loc := fd_top s, flags := Suc (fd_top s)\<rparr>"
  obtain s2 where s2: "fd_ctor G F s1 c path (ucast (rsi r)) ?b = Some (f, s2)" "fd_list s2 = fd_list s"
    "fd_cells s2 (fd_top s) = Some 0" "task_list s2 = tl"
    using opened assms(14) by (auto simp: fd_ctor_def new_cell_def f_def env_put_def s1_def Let_def)
  obtain m where m: "map_put (fd_types (junk_fd G)) (fd_list s) (of_nat k) f = Some m" "map_inv m"
    "map_abs m = (map_abs (fd_list s))(of_nat k \<mapsto> f)"
    using kmap.put [OF assms(8)] assms(9) fd_room_types by blast
  define s3 where "s3 = s2\<lparr>fd_list := m\<rparr>"
  have uk: "unat (of_nat k :: size_t) = k" using assms(5) by (intro unat_of_nat_lt) simp
  have small: "(of_nat k :: u64) < 0x80000000" using assms(5) uk by (simp add: word_less_nat_alt)
  have key: "scast ?b = (of_nat k :: u64)" by (rule fd_key [OF small])
  have ok: "fd_open_ok f"
  proof -
    have "?b \<noteq> -1"
    proof
      assume "?b = -1"
      then have "(of_nat k :: u64) = -1" using key by simp
      then show False using small by simp
    qed
    then show ?thesis by (simp add: fd_open_ok_def f_def)
  qed
  have "alloc_fd G F s c path (ucast (rsi r)) = Some (f, s3)"
    using assms(1-3) bm'(1) tl(1) s2 m(1)
    by (simp add: alloc_fd_def task_get_present task_put_def s1_def [symmetric] s3_def)
  then have "syscall_open G F s c r = Some (r\<lparr>rax := of_nat k\<rparr>, s3)"
    using assms(10) key by (simp add: syscall_open_def f_def)
  moreover have "(of_nat k :: 32 word) = ?b" by (subst of_nat_unat [symmetric]) (simp add: uk)
  then have "translate G s3 (of_nat k) = Some (Some f, s3)"
    using m ok key by (intro translate_open) (simp_all add: s3_def)
  ultimately show ?thesis using s2 tl(2) bm'(2)
    by (intro exI [of _ s3] exI [of _ f] exI [of _ ?t]) (simp add: s3_def f_def)
qed

text \<open>
  Closing a descriptor makes its number a bad one and leaves every other descriptor, but the bit
  of the number stays set: the task never gets the number again.
\<close>

theorem close_keeps_number:
  assumes "map_inv (fd_list s)" and "map_fits (fd_types (junk_fd G)) (unat (map_size (fd_list s)))"
    and "rdi r < 0x80000000" and "map_abs (fd_list s) (rdi r) = Some f" and "fd_open_ok f"
  shows "\<exists>s'. syscall_close G s c r = Some (r\<lparr>rax := 0\<rparr>, s') \<and> map_abs (fd_list s') = (map_abs (fd_list s))(rdi r := None)
    \<and> task_list s' = task_list s"
proof -
  have "translate G s (ucast (rdi r)) = Some (Some f, s)"
    using assms(1,3-5) by (intro translate_open) (simp_all add: fd_key)
  moreover have "map_ok (fd_list s)" using assms(1) by (simp add: map_inv_def)
  then obtain m where "map_remove (fd_types (junk_fd G)) (fd_list s) (rdi r) = Some m"
    "map_abs m = (map_abs (fd_list s))(rdi r := None)"
    using map_remove_from_correct [of "fd_list s" "fd_types (junk_fd G)" 0 "rdi r"] assms(2)
    by (auto simp: map_remove_def map_size_def)
  ultimately show ?thesis by (simp add: syscall_close_def with_fd_def)
qed

text \<open>A small system: one processor, one task, one open file on a file system that reads and opens.\<close>

definition small_ops :: "unit fs_ops" where
  "small_ops = fs_default\<lparr>op_read := (\<lambda>n off cnt b e. Some (ucast cnt, e)), op_open := (\<lambda>n st e. Some (0, e))\<rparr>"

definition small_fses :: "ptr \<Rightarrow> unit fs_ops option" where
  "small_fses p = (if p = 7 then Some small_ops else None)"

definition small_fd :: fd where
  "small_fd = \<lparr>fd_status = 1, backing_fd = 3, loc = 1, flags = 2, vfs_node = 2\<rparr>"

definition small_junk :: fd_junk where
  "small_junk = \<lparr>junk_task = zero_task, junk_thread = zero_thread, junk_bytes = (\<lambda>i. 0), junk_fd = small_fd\<rparr>"

definition small_tree :: vfs where
  "small_tree = vfs_empty\<lparr>vnodes := [1 \<mapsto> (node_fields ''/'' ''/'' ''/'' 0 0 1)\<lparr>vnext := 2\<rparr>,
     2 \<mapsto> node_fields ''/a'' ''/a'' ''a'' 7 0 1], vtop := 3\<rparr>"

definition small_fd_sys :: "unit fd_sys" where
  "small_fd_sys = \<lparr>cpus = vec_of [zero_cpu], task_list = kmap_of [(0, zero_task\<lparr>fd_bitmap := [0x9], fd_bitmap_size := 8\<rparr>)],
     hw = (\<lambda>c. zero_hw), fd_list = kmap_of [(3, small_fd)], fd_cells = [1 \<mapsto> 0x64, 2 \<mapsto> 0], fd_top = 3, vtree = small_tree,
     umem = (\<lambda>k va. if va = 0x1000 then 0x2f else if va = 0x1001 then 0x61 else 0), disks = ()\<rparr>"

lemma small_fd_list:
  "map_inv (fd_list small_fd_sys)" "map_abs (fd_list small_fd_sys) = [3 \<mapsto> small_fd]" "fd_room (fd_list small_fd_sys)"
  "map_fits (fd_types (junk_fd small_junk)) (unat (map_size (fd_list small_fd_sys)))"
  using kmap_of_inv [of "[(3 :: ssize_t, small_fd)]"]
  by (simp_all add: small_fd_sys_def fd_room_def map_fits_def fd_types_def)

lemma small_fd_open: "fd_open_ok small_fd"
  by (simp add: fd_open_ok_def small_fd_def)

lemma small_fs_ready: "fs_ready small_fses small_fd_sys 2 small_ops"
  by (simp add: fs_ready_def small_fses_def small_fd_sys_def small_tree_def node_fields_def)

theorem bad_descriptor_witness:
  "\<exists>m v. syscall_read small_junk small_fses small_fd_sys 0 (zero_regs\<lparr>rdi := 5\<rparr>)
      = Some (zero_regs\<lparr>rdi := 5, rax := -1\<rparr>, small_fd_sys\<lparr>fd_list := m, cpus := v\<rparr>)
    \<and> get_errno (small_fd_sys\<lparr>fd_list := m, cpus := v\<rparr>) 0 = Some ebadf"
proof -
  have "core_ok small_fd_sys 0" by (rule zero_cpu_core [of _ zero_cpu]) (simp_all add: small_fd_sys_def zero_cpu_def)
  then show ?thesis
    using bad_descriptor [OF small_fd_list(1,3), of 0 "zero_regs\<lparr>rdi := 5\<rparr>" "syscall_read small_junk small_fses" small_junk
        small_fses] by (auto simp: small_fd_list)
qed

theorem dup2_shares_offset_witness:
  "\<exists>s1 s2. syscall_dup2 small_junk small_fd_sys 0 (zero_regs\<lparr>rdi := 3, rsi := 6\<rparr>) = Some (zero_regs\<lparr>rdi := 3, rsi := 6\<rparr>, s1)
    \<and> syscall_read small_junk small_fses s1 0 (zero_regs\<lparr>rdi := 6, rdx := 0x10\<rparr>)
      = Some (zero_regs\<lparr>rdi := 6, rdx := 0x10, rax := 0x10\<rparr>, s2) \<and> fd_cells s2 1 = Some 0x74"
proof -
  have "op_read small_ops 2 0x64 0x10 0 (env_of small_fd_sys 0) = Some (0x10, env_of small_fd_sys 0)"
    by (simp add: small_ops_def)
  moreover have "fd_cells small_fd_sys 1 = Some 0x64" by (simp add: small_fd_sys_def)
  moreover have "vfs_node small_fd = 2" "loc small_fd = 1" by (simp_all add: small_fd_def)
  moreover have "rsi (zero_regs\<lparr>rdi := 6, rdx := 0x10\<rparr>) = 0" by (simp add: zero_regs_def)
  ultimately show ?thesis
    using dup2_shares_offset [OF small_fd_list(1,3), of "zero_regs\<lparr>rdi := 3, rsi := 6\<rparr>" small_fd
        "zero_regs\<lparr>rdi := 6, rdx := 0x10\<rparr>" small_fses small_ops "0x64" 0 "0x10" "env_of small_fd_sys 0" small_junk]
      small_fd_open small_fs_ready
    by (auto simp: small_fd_list)
qed

theorem open_lowest_number_witness:
  "\<exists>s' f. syscall_open small_junk small_fses small_fd_sys 0 (zero_regs\<lparr>rdi := 0x1000\<rparr>)
      = Some (zero_regs\<lparr>rdi := 0x1000, rax := 1\<rparr>, s') \<and> translate small_junk s' 1 = Some (Some f, s') \<and> vfs_node f = 2"
proof -
  let ?t = "zero_task\<lparr>fd_bitmap := [0x9], fd_bitmap_size := 8\<rparr>" and ?r = "zero_regs\<lparr>rdi := 0x1000\<rparr>"
  have core: "core_read small_fd_sys 0 = Some zero_cpu"
    by (rule zero_cpu_core) (simp_all add: small_fd_sys_def zero_cpu_def)
  have tl: "map_inv (task_list small_fd_sys)" "map_abs (task_list small_fd_sys) (cpu_pid zero_cpu) = Some ?t"
    using kmap_of_inv [of "[(0 :: ssize_t, ?t)]"] by (simp_all add: small_fd_sys_def zero_cpu_def)
  have bits: "bm_test [0x9] 0 = Some True" "bm_test [0x9] 1 = Some False" by code_simp+
  have path: "cstring_at (view (env_of small_fd_sys 0)) 0x1000 = Some ''/a''" by code_simp
  have found: "search_absolute (vtree small_fd_sys) ''/a'' = Some 2" by code_simp
  have op: "op_open small_ops 2 (ucast (ucast (rsi ?r) :: 32 word)) (env_of small_fd_sys 0) = Some (0, env_of small_fd_sys 0)"
    by (simp add: small_ops_def)
  from open_lowest_number [OF core tl _ _ _ _ small_fd_list(1,3) _ found small_fs_ready op, where k = 1 and G = small_junk]
  show ?thesis using bits path by auto
qed

theorem close_keeps_number_witness:
  "\<exists>s'. syscall_close small_junk small_fd_sys 0 (zero_regs\<lparr>rdi := 3\<rparr>) = Some (zero_regs\<lparr>rdi := 3, rax := 0\<rparr>, s')
    \<and> map_abs (fd_list s') = Map.empty \<and> task_list s' = task_list small_fd_sys"
  using close_keeps_number [OF small_fd_list(1,4), of "zero_regs\<lparr>rdi := 3\<rparr>" small_fd 0] small_fd_open
  by (auto simp: small_fd_list)

end
