(* ===== verification/Mmap.thy ===== *)
theory Mmap
  imports Fd Vmm
begin

text \<open>
  \<^verbatim>\<open>kernel/mm/mmap.cpp\<close> and \<^verbatim>\<open>mmap.hpp\<close>: the bitmap of the pages of an address space above
  \<^verbatim>\<open>mmap_min_addr\<close>, mapping and unmapping, and their system calls. A page table object is found by its
  pointer; it holds the table itself, the bitmap (empty for \<open>NULL\<close>) and \<^verbatim>\<open>bm_size\<close>, which the code uses
  both as a number of bytes and as a number of bits. The arguments \<^verbatim>\<open>prot\<close>, \<^verbatim>\<open>flags\<close> and \<^verbatim>\<open>fd\<close> are
  32-bit integers.
\<close>

section \<open>Definitions\<close>

record mm_table =
  mtable :: pmlx_table
  mbitmap :: bitmap
  bm_size :: size_t

record 'd mm_sys = "'d fd_sys" +
  mtables :: "table_ptr \<rightharpoonup> mm_table"
  memory :: vmm
  five_level :: bool
  kernel_mapping :: table_ptr

definition map_fixed :: "32 word" where "map_fixed = 0x4"

definition map_anonymous :: "32 word" where "map_anonymous = 0x8"

definition mmap_min_addr :: u64 where "mmap_min_addr = 0x10000"

definition bm_index :: "u64 \<Rightarrow> size_t" where
  "bm_index address = (address - mmap_min_addr) div page_size"

text \<open>The loop \<^verbatim>\<open>for(i = index; i < index + cnt; i++)\<close>, the sum being a 64-bit one.\<close>

definition over_pages :: "(nat \<Rightarrow> 's \<Rightarrow> 's option) \<Rightarrow> size_t \<Rightarrow> size_t \<Rightarrow> 's \<Rightarrow> 's option" where
  "over_pages f index cnt = for_range f (unat index) (unat (index + cnt) - unat index)"

definition mmap_bitmap :: "mm_table \<Rightarrow> mm_table" where
  "mmap_bitmap t = (if mbitmap t = [] then t\<lparr>bm_size := 0x1000, mbitmap := calloc_block 0x1000\<rparr> else t)"

text \<open>
  The search for a run of pages: \<open>offset\<close> is the page the run starts at and \<open>cnt\<close> its length so far.
  A page in use restarts the run behind it, and is then counted.
\<close>

fun mmap_scan :: "bitmap \<Rightarrow> size_t \<Rightarrow> nat \<Rightarrow> nat \<Rightarrow> size_t \<Rightarrow> size_t \<Rightarrow> size_t option option" where
  "mmap_scan bm npages i 0 cnt offset = Some None"
| "mmap_scan bm npages i (Suc n) cnt offset = do {
     used \<leftarrow> bm_test bm i;
     let (offset, cnt) = (if used then (offset + (cnt + 1), 0) else (offset, cnt));
     let cnt = cnt + 1;
     if cnt = npages then Some (Some offset)
     else mmap_scan bm npages (Suc i) n cnt offset
   }"

partial_function (option) mmap_alloc :: "('y junk_scheme) \<Rightarrow> mm_table \<Rightarrow> u64 \<Rightarrow> size_t \<Rightarrow> 32 word \<Rightarrow> (u64 \<times> mm_table) option" where
  "mmap_alloc G t addr len fl = do {
     let npages = div_roundup len page_size;
     let t = mmap_bitmap t;
     if fl AND map_fixed \<noteq> 0 then do {
       bm \<leftarrow> over_pages (\<lambda>i b. bm_set b i) (bm_index addr) npages (mbitmap t);
       Some (addr, t\<lparr>mbitmap := bm\<rparr>)
     } else do {
       r \<leftarrow> mmap_scan (mbitmap t) npages 0 (unat (bm_size t)) 0 0;
       case r of
         Some offset \<Rightarrow> do {
           let addr = offset * page_size + mmap_min_addr;
           bm \<leftarrow> over_pages (\<lambda>i b. bm_set b i) (bm_index addr) npages (mbitmap t);
           Some (addr, t\<lparr>mbitmap := bm\<rparr>)
         }
       | None \<Rightarrow> do {
           bm \<leftarrow> recalloc_block G (mbitmap t) (bm_size t + 0x1000);
           mmap_alloc G (t\<lparr>bm_size := bm_size t + 0x1000, mbitmap := bm\<rparr>) addr len fl
         }
     }
   }"

declare mmap_alloc.simps [code]

fun any_used :: "bitmap \<Rightarrow> nat \<Rightarrow> nat \<Rightarrow> bool option" where
  "any_used bm i 0 = Some False"
| "any_used bm i (Suc n) = do { used \<leftarrow> bm_test bm i; if used then Some True else any_used bm (Suc i) n }"

definition check_mmap_addr :: "mm_table \<Rightarrow> u64 \<Rightarrow> size_t \<Rightarrow> 32 word \<Rightarrow> (ssize_t \<times> mm_table) option" where
  "check_mmap_addr t addr len fl =
     (if addr = 0 then Some (-1, t)
      else if fl = map_fixed then Some (0, t)
      else do {
        let t = mmap_bitmap t;
        let index = bm_index addr;
        let npages = div_roundup len page_size;
        used \<leftarrow> any_used (mbitmap t) (unat index) (unat (index + npages) - unat index);
        Some (if used then -1 else 0, t)
      })"

definition map_range :: "bool \<Rightarrow> vmm \<Rightarrow> pmlx_table \<Rightarrow> u64 \<Rightarrow> size_t \<Rightarrow> u64 \<Rightarrow> ssize_t \<Rightarrow> (vmm \<times> pmlx_table) option" where
  "map_range five = (if five then pml5_map_range else pml4_map_range)"

definition unmap_range :: "bool \<Rightarrow> u64 \<Rightarrow> vmm \<Rightarrow> pmlx_table \<Rightarrow> u64 \<Rightarrow> size_t \<Rightarrow> (vmm \<times> pmlx_table) option" where
  "unmap_range five = (if five then pml5_unmap_range else pml4_unmap_range)"

text \<open>\<^verbatim>\<open>page_map->map_range\<close> with the protection as both its flags and its page attribute.\<close>

definition table_map_range :: "('d, 'z) mm_sys_scheme \<Rightarrow> mm_table \<Rightarrow> u64 \<Rightarrow> size_t \<Rightarrow> 32 word
    \<Rightarrow> (mm_table \<times> ('d, 'z) mm_sys_scheme) option" where
  "table_map_range s t addr cnt prot = do {
     (v, p) \<leftarrow> map_range (five_level s) (memory s) (mtable t) addr cnt (scast prot) (scast prot);
     Some (t\<lparr>mtable := p\<rparr>, s\<lparr>memory := v\<rparr>)
   }"

definition mmap_anon :: "('y junk_scheme) \<Rightarrow> ('d, 'z) mm_sys_scheme \<Rightarrow> mm_table \<Rightarrow> u64 \<Rightarrow> size_t \<Rightarrow> 32 word \<Rightarrow> 32 word
    \<Rightarrow> (u64 \<times> mm_table \<times> ('d, 'z) mm_sys_scheme) option" where
  "mmap_anon G s t addr len prot fl = do {
     (ok, t) \<leftarrow> check_mmap_addr t addr len fl;
     (addr, t) \<leftarrow> (if ok = -1 then mmap_alloc G t addr len fl else Some (addr, t));
     (t, s) \<leftarrow> table_map_range s t addr (div_roundup len page_size) prot;
     Some (addr, t, s)
   }"

text \<open>The file behind a fixed mapping; the descriptor is looked up by its number in the list.\<close>

definition mmap_file :: "('y fd_junk_scheme) \<Rightarrow> (ptr \<Rightarrow> 'd fs_ops option) \<Rightarrow> ('d, 'z) mm_sys_scheme \<Rightarrow> nat \<Rightarrow> u64 \<Rightarrow> size_t
    \<Rightarrow> 32 word \<Rightarrow> ('d, 'z) mm_sys_scheme option" where
  "mmap_file G F s c addr len fd = do {
     (f, m) \<leftarrow> map_get (fd_types (junk_fd G)) (fd_list s) (scast fd);
     let s = s\<lparr>fd_list := m\<rparr>;
     if backing_fd f \<noteq> -1 \<or> fd_status f \<noteq> 0
     then do { (_, s) \<leftarrow> fd_read F s c f addr len; Some s }
     else do { m \<leftarrow> map_remove (fd_types (junk_fd G)) (fd_list s) (scast fd); Some (s\<lparr>fd_list := m\<rparr>) }
   }"

definition mmap :: "('y fd_junk_scheme) \<Rightarrow> (ptr \<Rightarrow> 'd fs_ops option) \<Rightarrow> ('d, 'z) mm_sys_scheme \<Rightarrow> nat \<Rightarrow> table_ptr \<Rightarrow> u64
    \<Rightarrow> size_t \<Rightarrow> 32 word \<Rightarrow> 32 word \<Rightarrow> 32 word \<Rightarrow> (u64 \<times> ('d, 'z) mm_sys_scheme) option" where
  "mmap G F s c p addr len prot fl fd = do {
     t \<leftarrow> mtables s p;
     (addr, t, s) \<leftarrow> (if fl = map_anonymous then mmap_anon G s t addr len prot fl else Some (addr, t, s));
     if fl AND map_fixed \<noteq> 0 then do {
       (t, s) \<leftarrow> table_map_range s t addr (div_roundup len page_size) prot;
       (_, t) \<leftarrow> mmap_alloc G t addr len fl;
       let s = s\<lparr>mtables := (mtables s)(p \<mapsto> t)\<rparr>;
       s \<leftarrow> (if fl AND map_anonymous = 0 then mmap_file G F s c addr len fd else Some s);
       Some (addr, s)
     } else Some (addr, s\<lparr>mtables := (mtables s)(p \<mapsto> t)\<rparr>)
   }"

definition munmap :: "u64 \<Rightarrow> ('d, 'z) mm_sys_scheme \<Rightarrow> table_ptr \<Rightarrow> u64 \<Rightarrow> size_t \<Rightarrow> (ssize_t \<times> ('d, 'z) mm_sys_scheme) option" where
  "munmap page_length s p addr len = do {
     t \<leftarrow> mtables s p;
     let index = bm_index addr;
     let npages = div_roundup len page_size;
     if bm_size t \<le> index then Some (-1, s)
     else do {
       let npages = (if bm_size t < index + npages then bm_size t - index else npages);
       bm \<leftarrow> over_pages (\<lambda>i b. bm_clear b i) index npages (mbitmap t);
       (v, q) \<leftarrow> unmap_range (five_level s) page_length (memory s) (mtable t) addr npages;
       Some (0, s\<lparr>memory := v, mtables := (mtables s)(p \<mapsto> t\<lparr>mbitmap := bm, mtable := q\<rparr>)\<rparr>)
     }
   }"

definition syscall_mmap :: "('y fd_junk_scheme) \<Rightarrow> (ptr \<Rightarrow> 'd fs_ops option) \<Rightarrow> ('d, 'z) mm_sys_scheme \<Rightarrow> nat \<Rightarrow> regs
    \<Rightarrow> (regs \<times> ('d, 'z) mm_sys_scheme) option" where
  "syscall_mmap G F s c r = do {
     core \<leftarrow> core_read s c;
     (a, s) \<leftarrow> mmap G F s c (cpu_page_map core) (rdi r) (rsi r) (ucast (rdx r) OR 0x4) (ucast (r10 r)) (ucast (r8 r));
     Some (r\<lparr>rax := a\<rparr>, s)
   }"

definition syscall_munmap :: "u64 \<Rightarrow> ('d, 'z) mm_sys_scheme \<Rightarrow> nat \<Rightarrow> regs \<Rightarrow> (regs \<times> ('d, 'z) mm_sys_scheme) option" where
  "syscall_munmap page_length s c r = do {
     core \<leftarrow> core_read s c;
     (a, s) \<leftarrow> munmap page_length s (cpu_page_map core) (rdi r) (rsi r);
     Some (r\<lparr>rax := a\<rparr>, s)
   }"

section \<open>The search\<close>

definition used_before :: "bitmap \<Rightarrow> nat \<Rightarrow> nat" where
  "used_before bm i = length (filter (\<lambda>j. bm_test bm j = Some True) [0..<i])"

lemma used_before_Suc: "used_before bm (Suc i) = used_before bm i + (if bm_test bm i = Some True then 1 else 0)"
  by (simp add: used_before_def)

lemma used_before_le: "used_before bm i \<le> i"
  unfolding used_before_def using length_filter_le [of _ "[0..<i]"] by (metis diff_zero length_upt)

lemma unat_Suc_word: "unat (x :: 64 word) < 18446744073709551615 \<Longrightarrow> unat (x + 1) = Suc (unat x)"
  by (subst unat_add_lt) simp_all

text \<open>One round of the loop moves the sum of \<open>offset\<close> and \<open>cnt\<close> by one, and by two at a page in use.\<close>

lemma scan_round:
  assumes "unat off + unat cnt = i + used_before bm i" and "bm_test bm i = Some used" and "i < 2 ^ 62"
    and "(off', cnt') = (if used then (off + (cnt + 1), 0) else (off, cnt :: size_t))"
  shows "unat off' + unat (cnt' + 1) = Suc i + used_before bm (Suc i)"
proof -
  have le: "unat off + unat cnt < 2 ^ 63" using assms(1,3) used_before_le [of bm i] by simp
  then have c1: "unat (cnt + 1) = Suc (unat cnt)" by (intro unat_Suc_word) simp
  have "unat (off + (cnt + 1)) = unat off + unat (cnt + 1)" by (rule unat_add_lt) (use le c1 in simp)
  then show ?thesis using assms c1 by (cases used) (simp_all add: used_before_Suc)
qed

lemma mmap_scan_end:
  assumes "mmap_scan bm n i m cnt off = Some (Some p)" and "unat off + unat cnt = i + used_before bm i" and "i + m \<le> 2 ^ 62"
  shows "\<exists>e. i \<le> e \<and> e < i + m \<and> unat p + unat n = Suc e + used_before bm (Suc e)"
  using assms
proof (induction m arbitrary: i cnt off)
  case (Suc m)
  obtain used where u: "bm_test bm i = Some used" using Suc.prems(1) by (auto simp: bind_eq_Some_conv)
  obtain off' cnt' where oc: "(off', cnt') = (if used then (off + (cnt + 1), 0) else (off, cnt))" by metis
  have r: "unat off' + unat (cnt' + 1) = Suc i + used_before bm (Suc i)"
    by (rule scan_round [OF Suc.prems(2) u _ oc]) (use Suc.prems(3) in simp)
  show ?case
  proof (cases "cnt' + 1 = n")
    case True
    then have "p = off'" using Suc.prems(1) u oc [symmetric] by simp
    then show ?thesis using True r by (intro exI [of _ i]) simp
  next
    case False
    then have "mmap_scan bm n (Suc i) m (cnt' + 1) off' = Some (Some p)" using Suc.prems(1) u oc [symmetric] by simp
    from Suc.IH [OF this r] Suc.prems(3) obtain e where "Suc i \<le> e" "e < Suc i + m" "unat p + unat n = Suc e + used_before bm (Suc e)"
      by auto
    then show ?thesis by (intro exI [of _ e]) simp
  qed
qed simp

text \<open>A run of free pages ends the loop.\<close>

lemma mmap_scan_finds:
  assumes "unat cnt < unat n" and "i - a \<le> unat cnt" and "a + unat n \<le> i + m" and "i + m \<le> 8 * length bm"
    and "\<And>j. a \<le> j \<Longrightarrow> j < a + unat n \<Longrightarrow> bm_test bm j = Some False"
  shows "\<exists>p. mmap_scan bm n i m cnt off = Some (Some p)"
  using assms
proof (induction m arbitrary: i cnt off)
  case (Suc m)
  obtain used where u: "bm_test bm i = Some used" using Suc.prems(4) bm.test_total [of i bm] by auto
  obtain off' cnt' where oc: "(off', cnt') = (if used then (off + (cnt + 1), 0) else (off, cnt))" by metis
  have free: "\<not> used" if "a \<le> i"
    using Suc.prems(1,2) Suc.prems(5) [of i] that u by simp
  have c': "unat cnt' < unat n" using oc Suc.prems(1) by (cases used) auto
  then have c1: "unat (cnt' + 1) = Suc (unat cnt')" by (rule unat_plus_1 [of cnt' n, unfolded word_less_nat_alt])
  show ?case
  proof (cases "cnt' + 1 = n")
    case True
    then show ?thesis using u oc [symmetric] by simp
  next
    case False
    have "unat (cnt' + 1) \<noteq> unat n" using False by (simp add: word_unat_eq_iff)
    then have "unat (cnt' + 1) < unat n" using c' c1 by simp
    moreover have "Suc i - a \<le> unat (cnt' + 1)" using free oc Suc.prems(2) c1 by (cases "a \<le> i"; cases used) auto
    ultimately have "\<exists>p. mmap_scan bm n (Suc i) m (cnt' + 1) off' = Some (Some p)"
      using Suc.prems(3-5) by (intro Suc.IH) simp_all
    then show ?thesis using False u oc [symmetric] by simp
  qed
qed simp

lemma mmap_scan_total: "i + m \<le> 8 * length bm \<Longrightarrow> \<exists>r. mmap_scan bm n i m cnt off = Some r"
proof (induction m arbitrary: i cnt off)
  case (Suc m)
  then obtain used where "bm_test bm i = Some used" using bm.test_total [of i bm] by auto
  then show ?case using Suc by (auto simp: Let_def split: prod.splits)
qed simp

lemma bm_index_offset:
  assumes "unat p < 2 ^ 52"
  shows "bm_index (p * page_size + mmap_min_addr) = p"
proof -
  have "unat (p * page_size) = unat p * 4096" using assms by (subst unat_mult_lt) (simp_all add: page_size_def)
  then have "unat (p * page_size div page_size) = unat p" by (simp add: unat_div page_size_def)
  then show ?thesis by (simp add: bm_index_def word_unat_eq_iff)
qed

lemma over_pages_set:
  assumes "unat index + unat cnt \<le> 8 * length bm" and "unat index + unat cnt < 2 ^ 64"
  shows "\<exists>bm'. over_pages (\<lambda>i b. bm_set b i) index cnt bm = Some bm' \<and> length bm' = length bm
    \<and> (\<forall>j. bm_test bm' j = (if unat index \<le> j \<and> j < unat index + unat cnt then Some True else bm_test bm j))"
proof -
  have "unat (index + cnt) - unat index = unat cnt" using assms(2) by (simp add: unat_add_lt)
  then show ?thesis using bm.mark_region [OF assms(1)] by (auto simp: over_pages_def)
qed

lemma over_pages_clear:
  assumes "unat index + unat cnt \<le> 8 * length bm" and "unat index + unat cnt < 2 ^ 64"
  shows "\<exists>bm'. over_pages (\<lambda>i b. bm_clear b i) index cnt bm = Some bm' \<and> length bm' = length bm
    \<and> (\<forall>j. bm_test bm' j = (if unat index \<le> j \<and> j < unat index + unat cnt then Some False else bm_test bm j))"
proof -
  have "unat (index + cnt) - unat index = unat cnt" using assms(2) by (simp add: unat_add_lt)
  then show ?thesis using bm.unmark_region [OF assms(1)] by (auto simp: over_pages_def)
qed

lemma pages_of_len:
  assumes "0 < unat len" and "unat len \<le> 4096 * k" and "k \<le> 2 ^ 40"
  shows "0 < unat (div_roundup len page_size)" and "unat (div_roundup len page_size) \<le> k"
proof -
  have "unat (div_roundup len page_size) = (unat len + 4095) div 4096"
    using assms by (subst unat_div_roundup) (simp_all add: page_size_def)
  then show "0 < unat (div_roundup len page_size)" "unat (div_roundup len page_size) \<le> k"
    using assms by simp_all
qed

text \<open>Once the search succeeds the pages it answers are marked.\<close>

lemma mmap_alloc_found:
  assumes "mbitmap t \<noteq> []" and "fl AND map_fixed = 0"
    and "mmap_scan (mbitmap t) (div_roundup len page_size) 0 (unat (bm_size t)) 0 0 = Some (Some p)"
    and "unat p + unat (div_roundup len page_size) \<le> 8 * length (mbitmap t)" and "8 * length (mbitmap t) < 2 ^ 52"
  shows "\<exists>bm. mmap_alloc G t addr len fl = Some (p * page_size + mmap_min_addr, t\<lparr>mbitmap := bm\<rparr>)
    \<and> (\<forall>j. bm_test bm j = (if unat p \<le> j \<and> j < unat p + unat (div_roundup len page_size) then Some True else bm_test (mbitmap t) j))"
proof -
  have idx: "bm_index (p * page_size + mmap_min_addr) = p" by (rule bm_index_offset) (use assms(4,5) in simp)
  obtain bm where "over_pages (\<lambda>i b. bm_set b i) p (div_roundup len page_size) (mbitmap t) = Some bm"
    "\<forall>j. bm_test bm j = (if unat p \<le> j \<and> j < unat p + unat (div_roundup len page_size) then Some True else bm_test (mbitmap t) j)"
    using over_pages_set [OF assms(4)] assms(4,5) by auto
  moreover from this(1) have "mmap_alloc G t addr len fl = Some (p * page_size + mmap_min_addr, t\<lparr>mbitmap := bm\<rparr>)"
    using assms(1-3) idx by (subst mmap_alloc.simps) (simp add: mmap_bitmap_def)
  ultimately show ?thesis by blast
qed

section \<open>Properties\<close>

text \<open>
  The run of pages the search answers ends behind the last page it looked at by as many pages as
  it saw in use: these pages are handed out without having been looked at.
\<close>

theorem mmap_scan_drift:
  assumes "mmap_scan bm n 0 m 0 0 = Some (Some p)" and "m \<le> 2 ^ 62"
  shows "\<exists>e < m. unat p + unat n = Suc e + used_before bm (Suc e)"
  using mmap_scan_end [OF assms(1)] assms(2) by (auto simp: used_before_def)

text \<open>
  Once the first page is in use every request for one page is answered with the second page,
  whether that page is in use or not.
\<close>

theorem mmap_one_page_overlaps:
  assumes "bm_test (mbitmap t) 0 = Some True" and "0 < bm_size t" and "8 * length (mbitmap t) < 2 ^ 52"
    and "fl AND map_fixed = 0" and "0 < len" and "len \<le> page_size"
  shows "\<exists>bm. mmap_alloc G t addr len fl = Some (mmap_min_addr + page_size, t\<lparr>mbitmap := bm\<rparr>)
    \<and> bm_test bm 0 = Some True \<and> bm_test bm 1 = Some True"
proof -
  have l: "0 < length (mbitmap t)" using assms(1) bm.test_None_iff [of "mbitmap t" 0] by (cases "mbitmap t") simp_all
  have "unat (div_roundup len page_size) = 1"
    using pages_of_len [of len 1] assms(5,6) by (simp add: word_less_nat_alt word_le_nat_alt page_size_def)
  then have one: "div_roundup len page_size = 1" by (simp add: word_unat_eq_iff)
  obtain m where m: "unat (bm_size t) = Suc m" using assms(2) by (cases "unat (bm_size t)") (simp_all add: word_less_nat_alt)
  have "mmap_scan (mbitmap t) 1 0 (unat (bm_size t)) 0 0 = Some (Some 1)" using assms(1) by (simp add: m)
  moreover have "mbitmap t \<noteq> []" "unat (1 :: size_t) + unat (div_roundup len page_size) \<le> 8 * length (mbitmap t)"
    using l one by simp_all (cases "mbitmap t"; simp)
  ultimately obtain bm where bm: "mmap_alloc G t addr len fl = Some (1 * page_size + mmap_min_addr, t\<lparr>mbitmap := bm\<rparr>)"
    "\<forall>j. bm_test bm j = (if unat (1 :: size_t) \<le> j \<and> j < unat (1 :: size_t) + unat (div_roundup len page_size)
       then Some True else bm_test (mbitmap t) j)"
    using mmap_alloc_found [of t fl len 1 G addr] assms(3,4) one by metis
  have "bm_test bm 0 = Some True" "bm_test bm 1 = Some True" using bm(2) assms(1) one by simp_all
  then show ?thesis using bm(1) by (intro exI [of _ bm]) (simp add: add.commute)
qed



text \<open>An address space whose first two pages are in use.\<close>

definition small_mm :: mm_table where
  "small_mm = \<lparr>mtable = \<lparr>highest_raw = high_vma, plock = False\<rparr>, mbitmap = 0x3 # replicate 1023 0, bm_size = 0x400\<rparr>"

definition small_mm_sys :: "unit mm_sys" where
  "small_mm_sys = fd_sys.extend small_fd_sys (mm_sys.fields [1 \<mapsto> small_mm] \<lparr>tabs = (\<lambda>t i. 0), vframes = one_chunk [] 0\<rparr> False 1)"

lemma small_mm_bit: "j < 8192 \<Longrightarrow> bm_test (mbitmap small_mm) j = Some (j < 2)"
proof -
  assume j: "j < 8192"
  have "bit (3 :: u8) i \<longleftrightarrow> i < 2" if "i < 8" for i
  proof -
    have "i \<in> {0, 1, 2, 3, 4, 5, 6, 7}" using that by auto
    then show ?thesis by (auto simp: bit_iff_odd)
  qed
  then show ?thesis using j by (auto simp: small_mm_def bm_test_eq nth_Cons' div_less_iff_less_mult)
qed

theorem mmap_scan_drift_witness:
  "mmap_scan [0x3] 2 0 8 0 0 = Some (Some 3) \<and> (\<exists>e < 8. unat (3 :: size_t) + unat (2 :: size_t) = Suc e + used_before [0x3] (Suc e))"
proof -
  have run: "mmap_scan [0x3] 2 0 8 0 0 = Some (Some 3)" by code_simp
  then show ?thesis using mmap_scan_drift [OF run] by simp
qed

theorem mmap_one_page_overlaps_witness:
  "\<exists>bm. mmap_alloc small_junk small_mm 0 0x1000 map_anonymous = Some (0x11000, small_mm\<lparr>mbitmap := bm\<rparr>)
    \<and> bm_test (mbitmap small_mm) 1 = Some True"
  using mmap_one_page_overlaps [where t = small_mm and fl = map_anonymous and len = "0x1000" and G = small_junk and addr = 0] small_mm_bit [of 0] small_mm_bit [of 1]
  by (simp add: map_anonymous_def map_fixed_def page_size_def mmap_min_addr_def small_mm_def) blast



end
