(* ===== verification/Elf.thy ===== *)
theory Elf
  imports Mmap Devfs
begin

text \<open>
  \<^verbatim>\<open>kernel/lib/elf.cpp\<close> and \<^verbatim>\<open>elf.hpp\<close>: loading the program headers of an executable into an address
  space. The header, the program headers and the path of the interpreter are read into buffers of
  the kernel whose addresses are arguments; what the reads of the file return is not looked at.
\<close>

section \<open>Definitions\<close>

definition elf_signature :: u32 where "elf_signature = 0x464C457F"

definition elf64 :: u8 where "elf64 = 0x2"

definition ei_class :: nat where "ei_class = 0x4"

definition ei_data :: nat where "ei_data = 0x5"

definition ei_osabi :: nat where "ei_osabi = 0x7"

definition abi_system_v :: u8 where "abi_system_v = 0x0"

definition abi_linux :: u8 where "abi_linux = 0x3"

definition little_endian :: u8 where "little_endian = 0x1"

definition mach_x86_64 :: u16 where "mach_x86_64 = 0x3e"

definition pt_load :: u32 where "pt_load = 0x1"

definition pt_interp :: u32 where "pt_interp = 0x3"

definition pt_phdr :: u32 where "pt_phdr = 0x6"

record elf_aux =
  at_entry :: u64
  at_phdr :: u64
  at_phent :: u64
  at_phnum :: u64

record elf64_phdr =
  p_type :: u32
  p_flags :: u32
  p_offset :: u64
  p_vaddr :: u64
  p_paddr :: u64
  p_filesz :: u64
  p_memsz :: u64
  p_align :: u64

record elf_hdr =
  ident :: "u8 list"
  e_type :: u16
  machine :: u16
  version :: u32
  entry :: u64
  phoff :: u64
  shoff :: u64
  e_flags :: u32
  hdr_size :: u16
  phdr_size :: u16
  ph_num :: u16
  shdr_size :: u16
  sh_num :: u16
  shstrndx :: u16

definition sizeof_hdr :: size_t where "sizeof_hdr = 64"

definition sizeof_phdr :: size_t where "sizeof_phdr = 56"

definition hdr_of :: "u8 list \<Rightarrow> elf_hdr" where
  "hdr_of b = \<lparr>ident = take 16 b, e_type = get_u16 16 b, machine = get_u16 18 b, version = get_u32 20 b,
     entry = get_field 8 24 b, phoff = get_field 8 32 b, shoff = get_field 8 40 b, e_flags = get_u32 48 b,
     hdr_size = get_u16 52 b, phdr_size = get_u16 54 b, ph_num = get_u16 56 b, shdr_size = get_u16 58 b,
     sh_num = get_u16 60 b, shstrndx = get_u16 62 b\<rparr>"

definition phdr_of :: "u8 list \<Rightarrow> elf64_phdr" where
  "phdr_of b = \<lparr>p_type = get_u32 0 b, p_flags = get_u32 4 b, p_offset = get_field 8 8 b, p_vaddr = get_field 8 16 b,
     p_paddr = get_field 8 24 b, p_filesz = get_field 8 32 b, p_memsz = get_field 8 40 b, p_align = get_field 8 48 b\<rparr>"

definition elf_ok :: "elf_hdr \<Rightarrow> bool" where
  "elf_ok h \<longleftrightarrow> get_u32 0 (ident h) = elf_signature
     \<and> (ident h ! ei_osabi = abi_system_v \<or> ident h ! ei_osabi = abi_linux)
     \<and> ident h ! ei_data = little_endian \<and> ident h ! ei_class = elf64
     \<and> (machine h = mach_x86_64 \<or> machine h = 0)"

text \<open>The bytes at a virtual address, and \<^verbatim>\<open>calloc\<close> of a buffer at the given address.\<close>

definition mem_at :: "('d, 'z) fd_sys_scheme \<Rightarrow> nat \<Rightarrow> u64 \<Rightarrow> nat \<Rightarrow> u8 list" where
  "mem_at s c a n = bytes_at (view (env_of s c)) a n"

definition clear_mem :: "('d, 'z) fd_sys_scheme \<Rightarrow> nat \<Rightarrow> u64 \<Rightarrow> nat \<Rightarrow> ('d, 'z) fd_sys_scheme" where
  "clear_mem s c a n = env_put s c ((env_of s c)\<lparr>view := put_bytes (view (env_of s c)) a (replicate n 0)\<rparr>)"

text \<open>The addresses of the header object, of the program header array and of the path buffer.\<close>

record elf_buffers =
  hdr_addr :: u64
  phdr_addr :: u64
  path_addr :: u64

definition elf_read_at :: "(ptr \<Rightarrow> 'd fs_ops option) \<Rightarrow> ('d, 'z) fd_sys_scheme \<Rightarrow> nat \<Rightarrow> fd \<Rightarrow> u64 \<Rightarrow> u64 \<Rightarrow> size_t
    \<Rightarrow> ('d, 'z) fd_sys_scheme option" where
  "elf_read_at F s c f off b cnt = do {
     (_, s) \<leftarrow> fd_seek s c f off seek_set;
     (_, s) \<leftarrow> fd_read F s c f b cnt;
     Some s
   }"

definition segment_pages :: "elf64_phdr \<Rightarrow> size_t" where
  "segment_pages p = div_roundup ((p_vaddr p AND (page_size - 1)) + p_memsz p) page_size"

text \<open>One round of the loop over the program headers.\<close>

definition load_phdr :: "('y fd_junk_scheme) \<Rightarrow> (ptr \<Rightarrow> 'd fs_ops option) \<Rightarrow> elf_buffers \<Rightarrow> table_ptr \<Rightarrow> nat \<Rightarrow> fd \<Rightarrow> u64 \<Rightarrow> bool
    \<Rightarrow> elf64_phdr \<Rightarrow> elf_aux \<times> string option \<times> ('d, 'z) mm_sys_scheme \<Rightarrow> (elf_aux \<times> string option \<times> ('d, 'z) mm_sys_scheme) option" where
  "load_phdr G F B pm c f base want_ld p = (\<lambda>(aux, ld, s).
     if p_type p = pt_interp then
       if \<not> want_ld then Some (aux, ld, s)
       else do {
         let s = clear_mem s c (path_addr B) (unat (p_filesz p + 1));
         s \<leftarrow> elf_read_at F s c f (p_offset p) (path_addr B) (p_filesz p);
         path \<leftarrow> cstring_at (view (env_of s c)) (path_addr B);
         Some (aux, Some path, s)
       }
     else if p_type p = pt_phdr then Some (aux\<lparr>at_phdr := base + p_vaddr p\<rparr>, ld, s)
     else if p_type p \<noteq> pt_load then Some (aux, ld, s)
     else do {
       (_, s) \<leftarrow> mmap G F s c pm (p_vaddr p + base) (segment_pages p * page_size) (0x3 OR 0x4) (map_anonymous OR map_fixed) 0;
       s \<leftarrow> elf_read_at F s c f (p_offset p) (p_vaddr p + base) (p_filesz p);
       Some (aux, ld, s)
     })"

definition phdr_at :: "('d, 'z) fd_sys_scheme \<Rightarrow> nat \<Rightarrow> elf_buffers \<Rightarrow> nat \<Rightarrow> elf64_phdr" where
  "phdr_at s c B i = phdr_of (mem_at s c (phdr_addr B + sizeof_phdr * of_nat i) 56)"

definition elf_file :: "('y fd_junk_scheme) \<Rightarrow> (ptr \<Rightarrow> 'd fs_ops option) \<Rightarrow> elf_buffers \<Rightarrow> ('d, 'z) mm_sys_scheme \<Rightarrow> nat \<Rightarrow> table_ptr
    \<Rightarrow> elf_aux \<Rightarrow> fd \<Rightarrow> u64 \<Rightarrow> bool \<Rightarrow> (elf_aux \<times> string option \<times> ('d, 'z) mm_sys_scheme) option" where
  "elf_file G F B s c pm aux f base want_ld = do {
     (_, s) \<leftarrow> fd_read F s c f (hdr_addr B) sizeof_hdr;
     let h = hdr_of (mem_at s c (hdr_addr B) 64);
     if \<not> elf_ok h then Some (aux, None, s)
     else do {
       s \<leftarrow> elf_read_at F s c f (phoff h) (phdr_addr B) (sizeof_phdr * ucast (ph_num h));
       let aux = aux\<lparr>at_phdr := 0, at_phent := sizeof_phdr, at_phnum := ucast (ph_num h)\<rparr>;
       (aux, ld, s) \<leftarrow> for_range (\<lambda>i (aux, ld, s). load_phdr G F B pm c f base want_ld (phdr_at s c B i) (aux, ld, s))
         0 (unat (ph_num h)) (aux, None, s);
       Some (aux\<lparr>at_entry := base + entry h\<rparr>, ld, s)
     }
   }"

section \<open>Properties\<close>

lemma page_mask: "x AND (page_size - 1) = x mod page_size"
proof -
  have m: "page_size - 1 = mask 12" "page_size = 2 ^ 12" by (simp_all add: page_size_def mask_eq_exp_minus_1)
  show ?thesis unfolding m(1) unfolding m(2) by (simp add: take_bit_eq_mask [symmetric] take_bit_eq_mod)
qed

text \<open>
  The pages mapped for a segment are exactly those it touches: they start at the page of its
  address, reach to its end and stop in the page of its last byte.
\<close>

theorem segment_pages_cover:
  assumes "unat (p_memsz p) < 2 ^ 62"
  shows "unat (p_vaddr p mod page_size) + unat (p_memsz p) \<le> unat (segment_pages p) * 4096
    \<and> unat (segment_pages p) * 4096 < unat (p_vaddr p mod page_size) + unat (p_memsz p) + 4096"
proof -
  let ?m = "p_vaddr p mod page_size"
  have m: "unat ?m < 4096" using mod_less_divisor [of 4096 "unat (p_vaddr p)"] by (simp add: unat_mod page_size_def)
  have s: "unat (?m + p_memsz p) = unat ?m + unat (p_memsz p)" by (rule unat_add_lt) (use m assms in simp)
  have "unat (segment_pages p) = (unat ?m + unat (p_memsz p) + 4095) div 4096"
    unfolding segment_pages_def page_mask
    by (subst unat_div_roundup) (use m assms s in \<open>simp_all add: page_size_def\<close>)
  then show ?thesis
    using div_mult_mod_eq [of "unat ?m + unat (p_memsz p) + 4095" 4096]
      mod_less_divisor [of 4096 "unat ?m + unat (p_memsz p) + 4095"] by linarith
qed

theorem segment_pages_cover_witness:
  "unat (segment_pages \<lparr>p_type = pt_load, p_flags = 5, p_offset = 0, p_vaddr = 0x400ff0, p_paddr = 0, p_filesz = 0x20,
     p_memsz = 0x20, p_align = 0x1000\<rparr>) = 2"
  using segment_pages_cover [of "\<lparr>p_type = pt_load, p_flags = 5, p_offset = 0, p_vaddr = 0x400ff0, p_paddr = 0,
     p_filesz = 0x20, p_memsz = 0x20, p_align = 0x1000\<rparr>"] by (simp add: page_size_def)



end
