(* ===== verification/Scheduler.thy ===== *)
theory Scheduler
  imports Elf
begin

text \<open>
  \<^verbatim>\<open>kernel/sched/scheduler.cpp\<close> and \<^verbatim>\<open>scheduler.hpp\<close>: creating tasks and threads, building the stack
  of a new program, and the scheduler the timer interrupt runs. References into the lists of tasks
  and threads are used through their keys. A call of \<open>reschedule\<close> either returns to the interrupted
  code or leaves through \<^verbatim>\<open>switch_task\<close> with the registers it loads; everything between taking and
  releasing the scheduler lock is one step.
\<close>

section \<open>Definitions\<close>

record 'd sched = "'d mm_sys" +
  scheduler_lock :: bool
  thread_cnt :: size_t
  task_cnt :: size_t
  eoi_log :: "nat list"
  int_enabled :: "nat \<Rightarrow> bool"

definition on_hw :: "('z sys_scheme) \<Rightarrow> nat \<Rightarrow> (core_hw \<Rightarrow> core_hw) \<Rightarrow> ('z sys_scheme)" where
  "on_hw s c f = s\<lparr>hw := (hw s)(c := f (hw s c))\<rparr>"

text \<open>\<^verbatim>\<open>pmlx_table::init\<close>: loading the table.\<close>

definition load_table :: "('d, 'z) mm_sys_scheme \<Rightarrow> nat \<Rightarrow> table_ptr \<Rightarrow> ('d, 'z) mm_sys_scheme option" where
  "load_table s c p = do {
     t \<leftarrow> mtables s p;
     Some (on_hw s c (cr3_update (\<lambda>_. highest_raw (mtable t) - high_vma_of (five_level s))))
   }"

subsection \<open>Creating tasks\<close>

definition create_task :: "('y junk_scheme) \<Rightarrow> ('d, 'z) sched_scheme \<Rightarrow> ssize_t \<Rightarrow> table_ptr \<Rightarrow> (ssize_t \<times> ('d, 'z) sched_scheme) option" where
  "create_task G s parent_pid pm = do {
     (_, s) \<leftarrow> task_get G s parent_pid;
     let p = task_cnt s;
     let t = (task_ctor (junk_task G))\<lparr>ppid := parent_pid, status := task_waiting,
       page_map := (if pm \<noteq> 0 then pm else kernel_mapping s), pid := p\<rparr>;
     s \<leftarrow> task_put G (s\<lparr>task_cnt := p + 1\<rparr>) p t;
     Some (p, s)
   }"

subsection \<open>The stack of a program\<close>

definition c_bytes :: "string \<Rightarrow> u8 list" where
  "c_bytes x = map (\<lambda>c. of_nat (of_char c)) x @ [0]"

text \<open>Copying the strings: the address goes down by the length and up by one for each.\<close>

fun push_strings :: "(u64 \<Rightarrow> u8) \<times> u64 \<Rightarrow> string list \<Rightarrow> (u64 \<Rightarrow> u8) \<times> u64" where
  "push_strings (m, stack) [] = (m, stack)"
| "push_strings (m, stack) (x # xs) =
     (let stack = stack - of_nat (length x) + 1
      in push_strings (put_bytes m stack (c_bytes x), stack) xs)"

definition store64 :: "(u64 \<Rightarrow> u8) \<Rightarrow> u64 \<Rightarrow> u64 \<Rightarrow> (u64 \<Rightarrow> u8)" where
  "store64 m a v = put_bytes m a (le_bytes 8 v)"

fun store_words :: "(u64 \<Rightarrow> u8) \<Rightarrow> u64 \<Rightarrow> u64 list \<Rightarrow> (u64 \<Rightarrow> u8)" where
  "store_words m a [] = m"
| "store_words m a (v # vs) = store_words (store64 m a v) (a + 8) vs"

text \<open>The pointers to the strings, each below the one before it.\<close>

fun string_ptrs :: "u64 \<Rightarrow> string list \<Rightarrow> u64 list \<times> u64" where
  "string_ptrs save [] = ([], save)"
| "string_ptrs save (x # xs) =
     (let save = save - (of_nat (length x) + 1); (ps, last) = string_ptrs save xs in (save # ps, last))"

definition aux_words :: "elf_aux \<Rightarrow> u64 list" where
  "aux_words a = [22, at_phnum a, 21, at_phent a, 20, at_phdr a, 10, at_entry a, 0, 0]"

definition build_stack :: "(u64 \<Rightarrow> u8) \<Rightarrow> u64 \<Rightarrow> elf_aux \<Rightarrow> string list \<Rightarrow> string list \<Rightarrow> (u64 \<Rightarrow> u8) \<times> u64" where
  "build_stack m tos aux argv envp =
     (let envp_cnt = of_nat (length envp); argv_cnt = of_nat (length argv);
          (m, stack) = push_strings (push_strings (m, tos) envp) argv;
          stack = stack - (stack AND 0xf);
          stack = (if (argv_cnt + envp_cnt + 1) AND 1 \<noteq> 0 then stack - 8 else stack);
          stack = stack - 80;
          m = store_words m stack (aux_words aux);
          stack = stack - 8;
          m = store64 m stack 0;
          stack = stack - 8 * envp_cnt;
          (eps, save) = string_ptrs tos envp;
          m = store_words m stack eps;
          stack = stack - 8;
          m = store64 m stack 0;
          stack = stack - 8 * argv_cnt;
          (aps, save) = string_ptrs save argv;
          m = store_words m stack aps;
          stack = stack - 8;
          m = store64 m stack argv_cnt
      in (m, stack))"

subsection \<open>Creating threads\<close>

definition new_kernel_stack :: "('d, 'z) mm_sys_scheme \<Rightarrow> (u64 \<times> ('d, 'z) mm_sys_scheme) option" where
  "new_kernel_stack s = do {
     (a, fr) \<leftarrow> pmm_alloc (vframes (memory s)) 2 1;
     Some (a, s\<lparr>memory := (memory s)\<lparr>vframes := fr\<rparr>\<rparr>)
   }"

definition user_thread :: "('y fd_junk_scheme) \<Rightarrow> (ptr \<Rightarrow> 'd fs_ops option) \<Rightarrow> ('d, 'z) mm_sys_scheme \<Rightarrow> nat \<Rightarrow> table_ptr \<Rightarrow> elf_aux
    \<Rightarrow> string list \<Rightarrow> string list \<Rightarrow> thread \<Rightarrow> (thread \<times> ('d, 'z) mm_sys_scheme) option" where
  "user_thread G F s c pm aux argv envp x = do {
     (a, s) \<leftarrow> mmap G F s c pm 0 (thread_stack_size + 0x1000) (0x3 OR 0x4) map_anonymous 0;
     let tos = a + thread_stack_size;
     let (m, stack) = build_stack (view (env_of s c)) tos aux argv envp;
     let s = env_put s c ((env_of s c)\<lparr>view := m\<rparr>);
     Some (x\<lparr>t_user_stack := tos, regs_cur := (regs_cur x)\<lparr>ss := cs (regs_cur x) - 8, rsp := stack\<rparr>\<rparr>, s)
   }"

definition create_thread :: "('y fd_junk_scheme) \<Rightarrow> (ptr \<Rightarrow> 'd fs_ops option) \<Rightarrow> ('d, 'z) sched_scheme \<Rightarrow> nat \<Rightarrow> ssize_t \<Rightarrow> u64 \<Rightarrow> u16
    \<Rightarrow> elf_aux \<Rightarrow> string list \<Rightarrow> string list \<Rightarrow> (ssize_t \<times> ('d, 'z) sched_scheme) option" where
  "create_thread G F s c p entry_rip sel aux argv envp = do {
     (t, s) \<leftarrow> task_get G s p;
     if pid t = -1 then Some (-1, s)
     else do {
       (ks, s) \<leftarrow> new_kernel_stack s;
       let x = (thread_ctor (junk_thread G))\<lparr>t_status := task_waiting, t_kernel_stack := ks, user_gs_base := 0,
         user_fs_base := 0, t_user_stack := 0,
         regs_cur := (regs_cur (junk_thread G))\<lparr>rip := entry_rip, cs := ucast sel, rflags := 0x202\<rparr>\<rparr>;
       (x, s) \<leftarrow> (if sel AND 0x3 \<noteq> 0 then user_thread G F s c (page_map t) aux argv envp x
         else Some (x\<lparr>regs_cur := (regs_cur x)\<lparr>ss := ucast sel + 8, rsp := ks + high_vma_of (five_level s)\<rparr>\<rparr>, s));
       let i = thread_cnt s;
       let s = s\<lparr>thread_cnt := i + 1\<rparr>;
       (t, s) \<leftarrow> task_get G s p;
       t \<leftarrow> thread_put G t i (x\<lparr>tid := i\<rparr>);
       s \<leftarrow> task_put G s p t;
       Some (i, s)
     }
   }"

subsection \<open>Choosing\<close>

fun next_pid_loop :: "('y junk_scheme) \<Rightarrow> ('z sys_scheme) \<Rightarrow> nat \<Rightarrow> nat \<Rightarrow> size_t \<Rightarrow> ssize_t \<Rightarrow> (ssize_t \<times> 'z sys_scheme) option" where
  "next_pid_loop G s i 0 cnt ret = Some (ret, s)"
| "next_pid_loop G s i (Suc n) cnt ret = do {
     tag \<leftarrow> map_get_tag (task_list s) (of_nat i);
     (t, s) \<leftarrow> task_get G s tag;
     let t = t\<lparr>idle_cnt := idle_cnt t + 1\<rparr>;
     s \<leftarrow> task_put G s tag t;
     if status t = task_waiting \<and> cnt < idle_cnt t then next_pid_loop G s (Suc i) n (idle_cnt t) (pid t)
     else next_pid_loop G s (Suc i) n cnt ret
   }"

fun next_tid_loop :: "('y junk_scheme) \<Rightarrow> task \<Rightarrow> nat \<Rightarrow> nat \<Rightarrow> size_t \<Rightarrow> ssize_t \<Rightarrow> (ssize_t \<times> task) option" where
  "next_tid_loop G t i 0 cnt ret = Some (ret, t)"
| "next_tid_loop G t i (Suc n) cnt ret = do {
     tag \<leftarrow> map_get_tag (threads t) (of_nat i);
     (x, t) \<leftarrow> thread_get G t tag;
     let x = x\<lparr>t_idle_cnt := t_idle_cnt x + 1\<rparr>;
     t \<leftarrow> thread_put G t tag x;
     if t_status x = task_waiting \<and> cnt < t_idle_cnt x then next_tid_loop G t (Suc i) n (t_idle_cnt x) (tid x)
     else next_tid_loop G t (Suc i) n cnt ret
   }"

subsection \<open>Switching\<close>

definition from_user :: "regs \<Rightarrow> bool" where
  "from_user r \<longleftrightarrow> cs r AND 0x3 \<noteq> 0"

definition swap_if :: "bool \<Rightarrow> ('z sys_scheme) \<Rightarrow> nat \<Rightarrow> 'z sys_scheme" where
  "swap_if b s c = (if b then on_hw s c swapgs else s)"

definition leave_sched :: "('d, 'z) sched_scheme \<Rightarrow> nat \<Rightarrow> regs \<Rightarrow> ('d, 'z) sched_scheme" where
  "leave_sched s c r = (swap_if (from_user r) s c)\<lparr>scheduler_lock := False\<rparr>"

text \<open>Saving the thread the processor was running.\<close>

definition save_last :: "('y junk_scheme) \<Rightarrow> ('d, 'z) sched_scheme \<Rightarrow> nat \<Rightarrow> regs \<Rightarrow> cpu \<Rightarrow> ('d, 'z) sched_scheme option" where
  "save_last G s c r core =
     (if cpu_tid core \<noteq> -1 \<and> cpu_pid core \<noteq> -1 then do {
        s \<leftarrow> thread_update G s (cpu_pid core) (cpu_tid core) (\<lambda>x. x\<lparr>t_status := task_waiting, regs_cur := r,
          user_fs_base := get_user_fs (hw s c), user_gs_base := get_user_gs (hw s c)\<rparr>);
        task_update G s (cpu_pid core) (status_update (\<lambda>_. task_waiting))
      } else Some s)"

definition switch_to :: "('y junk_scheme) \<Rightarrow> ('d, 'z) sched_scheme \<Rightarrow> nat \<Rightarrow> ssize_t \<Rightarrow> ssize_t \<Rightarrow> (regs \<times> ('d, 'z) sched_scheme) option" where
  "switch_to G s c p i = do {
     (t, s) \<leftarrow> task_get G s p;
     (x, t) \<leftarrow> thread_get G t i;
     s \<leftarrow> core_write s c (\<lambda>k. k\<lparr>cpu_pid := p, cpu_tid := i, errno := t_errno x, cpu_page_map := page_map t\<rparr>);
     s \<leftarrow> load_table s c (page_map t);
     s \<leftarrow> thread_update G s p i (\<lambda>x. x\<lparr>t_idle_cnt := 0, t_status := task_running\<rparr>);
     s \<leftarrow> task_update G s p (\<lambda>t. t\<lparr>idle_cnt := 0, status := task_running\<rparr>);
     let s = on_hw s c (\<lambda>h. set_user_gs (set_user_fs h (user_fs_base x)) (user_gs_base x));
     let s = swap_if (from_user (regs_cur x)) s c;
     let s = s\<lparr>eoi_log := c # eoi_log s, scheduler_lock := False\<rparr>;
     (t, s) \<leftarrow> task_get G s p;
     (x, _) \<leftarrow> thread_get G t i;
     Some (regs_cur x, s)
   }"

definition reschedule :: "('y junk_scheme) \<Rightarrow> ('d, 'z) sched_scheme \<Rightarrow> nat \<Rightarrow> regs \<Rightarrow> (regs option \<times> ('d, 'z) sched_scheme) option" where
  "reschedule G s c r = do {
     l \<leftarrow> spin_lock (scheduler_lock s);
     let s = swap_if (from_user r) (s\<lparr>scheduler_lock := l\<rparr>) c;
     (next_pid, s) \<leftarrow> next_pid_loop G s 0 (unat (map_size (task_list s))) 0 (-1);
     core \<leftarrow> core_read s c;
     if next_pid = -1 \<and> cpu_pid core = -1 then Some (None, leave_sched s c r)
     else do {
       let next_pid = (if next_pid = -1 then cpu_pid core else next_pid);
       (t, s) \<leftarrow> task_get G s next_pid;
       (next_tid, t) \<leftarrow> next_tid_loop G t 0 (unat (map_size (threads t))) 0 (-1);
       s \<leftarrow> task_put G s next_pid t;
       if next_tid = -1 then Some (None, leave_sched s c r)
       else do {
         s \<leftarrow> save_last G s c r core;
         (regs_next, s) \<leftarrow> switch_to G s c next_pid next_tid;
         Some (Some regs_next, s)
       }
     }
   }"

subsection \<open>Starting a program\<close>

text \<open>
  \<open>obj\<close> is the address of the new table object and \<open>fresh\<close> what its constructor leaves in it, \<open>B\<close> and
  \<open>B2\<close> the buffers of the two loads.
\<close>

definition new_space :: "('d, 'z) mm_sys_scheme \<Rightarrow> nat \<Rightarrow> table_ptr \<Rightarrow> mm_table \<Rightarrow> ('d, 'z) mm_sys_scheme option" where
  "new_space s c obj fresh = do {
     k \<leftarrow> mtables s (kernel_mapping s);
     (p, v) \<leftarrow> create_generic (high_vma_of (five_level s)) (memory s) (mtable k);
     load_table (s\<lparr>memory := v, mtables := (mtables s)(obj \<mapsto> fresh\<lparr>mtable := p\<rparr>)\<rparr>) c obj
   }"

definition sched_task :: "('y fd_junk_scheme) \<Rightarrow> (ptr \<Rightarrow> 'd fs_ops option) \<Rightarrow> elf_buffers \<Rightarrow> elf_buffers \<Rightarrow> table_ptr \<Rightarrow> mm_table
    \<Rightarrow> elf_aux \<Rightarrow> elf_aux \<Rightarrow> ('d, 'z) sched_scheme \<Rightarrow> nat \<Rightarrow> string \<Rightarrow> u16 \<Rightarrow> string list \<Rightarrow> string list
    \<Rightarrow> (ssize_t \<times> ('d, 'z) sched_scheme) option" where
  "sched_task G F B B2 obj fresh aux aux2 s c path sel argv envp = do {
     (f, s) \<leftarrow> fd_ctor G F s c path 0 0;
     if fd_status f = 0 then Some (-1, s)
     else do {
       core \<leftarrow> core_read s c;
       let s = s\<lparr>int_enabled := (int_enabled s)(c := False)\<rparr>;
       s \<leftarrow> new_space s c obj fresh;
       (aux, ld, s) \<leftarrow> elf_file G F B s c obj aux f 0 True;
       r \<leftarrow> (case ld of
           None \<Rightarrow> Some (Some (at_entry aux), s)
         | Some ld_path \<Rightarrow> do {
             (g, s) \<leftarrow> fd_ctor G F s c ld_path 0 0;
             if fd_status g = 0 then Some (None, s)
             else do {
               (ld_aux, _, s) \<leftarrow> elf_file G F B2 s c obj aux2 g 0x40000000 False;
               Some (Some (at_entry ld_aux), s)
             }
           });
       case r of
         (None, s) \<Rightarrow> Some (-1, s)
       | (Some entry_point, s) \<Rightarrow> do {
           (p, s) \<leftarrow> create_task G s (cpu_pid core) obj;
           (_, s) \<leftarrow> create_thread G F s c p entry_point sel aux argv envp;
           core \<leftarrow> core_read s c;
           s \<leftarrow> load_table s c (cpu_page_map core);
           Some (0, s\<lparr>int_enabled := (int_enabled s)(c := True)\<rparr>)
         }
     }
   }"

section \<open>The choice\<close>

text \<open>
  Both loops choose in the same way: the entry that is waiting and has the largest idle count, the
  first of them when there are several. \<open>pick w n k\<close> is this choice on the list of the entries, with
  \<open>w\<close> whether an entry waits, \<open>n\<close> its count and \<open>k\<close> its number.
\<close>

fun pick :: "('a \<Rightarrow> bool) \<Rightarrow> ('a \<Rightarrow> size_t) \<Rightarrow> ('a \<Rightarrow> ssize_t) \<Rightarrow> 'a list \<Rightarrow> size_t \<Rightarrow> ssize_t \<Rightarrow> ssize_t" where
  "pick w n k [] cnt ret = ret"
| "pick w n k (x # xs) cnt ret = (if w x \<and> cnt < n x then pick w n k xs (n x) (k x) else pick w n k xs cnt ret)"

lemma pick_none: "(\<And>x. x \<in> set xs \<Longrightarrow> w x \<Longrightarrow> n x \<le> cnt) \<Longrightarrow> pick w n k xs cnt ret = ret"
proof (induction xs)
  case (Cons a xs)
  moreover from Cons have "\<not> (w a \<and> cnt < n a)" by (auto simp: not_less)
  ultimately show ?case by (simp only: pick.simps if_False) simp
qed simp

lemma pick_some:
  assumes "x \<in> set xs" and "w x" and "cnt < n x"
  shows "\<exists>y \<in> set xs. w y \<and> cnt < n y \<and> pick w n k xs cnt ret = k y \<and> (\<forall>z \<in> set xs. w z \<longrightarrow> n z \<le> n y)"
  using assms
proof (induction xs arbitrary: x cnt ret)
  case (Cons a xs)
  show ?case
  proof (cases "w a \<and> cnt < n a")
    case True
    show ?thesis
    proof (cases "\<exists>z \<in> set xs. w z \<and> n a < n z")
      case ex: True
      then obtain z where z: "z \<in> set xs" "w z" "n a < n z" by blast
      obtain y where "y \<in> set xs" "w y" "n a < n y" "pick w n k xs (n a) (k a) = k y" "\<forall>z \<in> set xs. w z \<longrightarrow> n z \<le> n y"
        using Cons.IH [OF z] by blast
      then show ?thesis using True by (intro bexI [of _ y]) auto
    next
      case False
      then have "pick w n k xs (n a) (k a) = k a" by (intro pick_none) (auto simp: not_less)
      then show ?thesis using True False by (intro bexI [of _ a]) (auto simp: not_less)
    qed
  next
    case False
    then have "x \<in> set xs" using Cons.prems by auto
    from Cons.IH [OF this Cons.prems(2,3), of ret] obtain y where y: "y \<in> set xs" "w y" "cnt < n y"
      "pick w n k xs cnt ret = k y" "\<forall>z \<in> set xs. w z \<longrightarrow> n z \<le> n y" by blast
    moreover have "w a \<longrightarrow> n a \<le> n y" using False y(3) by (auto simp: not_less)
    ultimately show ?thesis using False by (intro bexI [of _ y]) auto
  qed
qed simp

definition age :: "task \<Rightarrow> task" where
  "age t = t\<lparr>idle_cnt := idle_cnt t + 1\<rparr>"

definition t_age :: "thread \<Rightarrow> thread" where
  "t_age x = x\<lparr>t_idle_cnt := t_idle_cnt x + 1\<rparr>"

abbreviation pick_pid :: "task list \<Rightarrow> ssize_t" where
  "pick_pid ts \<equiv> pick (\<lambda>t. status t = task_waiting) idle_cnt pid (map age ts) 0 (-1)"

abbreviation pick_tid :: "thread list \<Rightarrow> ssize_t" where
  "pick_tid xs \<equiv> pick (\<lambda>x. t_status x = task_waiting) t_idle_cnt tid (map t_age xs) 0 (-1)"

text \<open>The number of a position is read from the tags.\<close>

lemma map_get_tag_nth:
  assumes "map_inv m" and "i < length (vec_list (tags m))"
  shows "map_get_tag m (of_nat i) = Some (vec_list (tags m) ! i)"
proof -
  have b: "unat (buf_size (tags m)) = length (vec_list (tags m))" by (rule map_inv_lengths(4) [OF assms(1)])
  then have "i < unat (buf_size (tags m))" using assms(2) by simp
  then have u: "unat (of_nat i :: size_t) = i" by (intro unat_of_nat_lt lt_unat_2p64)
  moreover have "(of_nat i :: size_t) < buf_size (tags m)" using u b assms(2) by (simp add: word_less_nat_alt)
  moreover have "vec_ok (tags m)" using assms(1) by (simp add: map_inv_def map_ok_def)
  ultimately show ?thesis by (simp add: map_get_tag_def vector_at_list)
qed

lemma next_pid_loop_pick:
  assumes "map_inv (task_list s)" and "i + n = length (vec_list (tags (task_list s)))"
  shows "\<exists>m. next_pid_loop G s i n cnt ret
      = Some (pick (\<lambda>t. status t = task_waiting) idle_cnt pid (map age (drop i (vec_list (data (task_list s))))) cnt ret,
          s\<lparr>task_list := m\<rparr>)
    \<and> map_inv m \<and> tags m = tags (task_list s)
    \<and> vec_list (data m) = take i (vec_list (data (task_list s))) @ map age (drop i (vec_list (data (task_list s))))"
  using assms
proof (induction n arbitrary: s i cnt ret)
  case 0
  then show ?case using map_inv_lengths(1) [OF 0(1)] by (intro exI [of _ "task_list s"]) simp
next
  case (Suc n)
  let ?m = "task_list s" and ?ds = "vec_list (data (task_list s))"
  have i: "i < length (vec_list (tags ?m))" "i < length ?ds" using Suc.prems map_inv_lengths(1) [OF Suc.prems(1)] by simp_all
  let ?tag = "vec_list (tags ?m) ! i" and ?t = "age (?ds ! i)"
  have get: "map_get_tag ?m (of_nat i) = Some ?tag" by (rule map_get_tag_nth [OF Suc.prems(1) i(1)])
  have tg: "task_get G s ?tag = Some (?ds ! i, s)"
    by (rule task_get_present [OF Suc.prems(1) map_abs_nth [OF Suc.prems(1) i(1)]])
  obtain m1 where m1: "map_put (task_types (junk_task G)) ?m ?tag ?t = Some m1" "map_inv m1" "tags m1 = tags ?m"
    "vec_list (data m1) = ?ds[i := ?t]"
    using map_put_present [OF Suc.prems(1) i(1) refl] by blast
  let ?s1 = "s\<lparr>task_list := m1\<rparr>"
  have put: "task_put G s ?tag ?t = Some ?s1" using m1(1) by (simp add: task_put_def)
  have d1: "drop (Suc i) (vec_list (data m1)) = drop (Suc i) ?ds" "take (Suc i) (vec_list (data m1)) = take i ?ds @ [?t]"
    using i m1(4) by (simp_all add: take_Suc_update)
  have split: "drop i ?ds = ?ds ! i # drop (Suc i) ?ds" using i by (simp add: Cons_nth_drop_Suc)
  let ?go = "status ?t = task_waiting \<and> cnt < idle_cnt ?t"
  obtain m where m: "next_pid_loop G ?s1 (Suc i) n (if ?go then idle_cnt ?t else cnt) (if ?go then pid ?t else ret)
      = Some (pick (\<lambda>t. status t = task_waiting) idle_cnt pid (map age (drop (Suc i) ?ds))
          (if ?go then idle_cnt ?t else cnt) (if ?go then pid ?t else ret), ?s1\<lparr>task_list := m\<rparr>)"
    "map_inv m" "tags m = tags ?m" "vec_list (data m) = (take i ?ds @ [?t]) @ map age (drop (Suc i) ?ds)"
    using Suc.IH [of ?s1 "Suc i"] Suc.prems(2) m1(2,3) d1 by fastforce
  then show ?case
    using get tg put split by (intro exI [of _ m]) (auto simp: age_def [symmetric] Let_def)
qed

lemma next_tid_loop_pick:
  assumes "map_inv (threads t)" and "i + n = length (vec_list (tags (threads t)))"
  shows "\<exists>m. next_tid_loop G t i n cnt ret
      = Some (pick (\<lambda>x. t_status x = task_waiting) t_idle_cnt tid (map t_age (drop i (vec_list (data (threads t))))) cnt ret,
          t\<lparr>threads := m\<rparr>)
    \<and> map_inv m \<and> tags m = tags (threads t)
    \<and> vec_list (data m) = take i (vec_list (data (threads t))) @ map t_age (drop i (vec_list (data (threads t))))"
  using assms
proof (induction n arbitrary: t i cnt ret)
  case 0
  then show ?case using map_inv_lengths(1) [OF 0(1)] by (intro exI [of _ "threads t"]) simp
next
  case (Suc n)
  let ?m = "threads t" and ?ds = "vec_list (data (threads t))"
  have i: "i < length (vec_list (tags ?m))" "i < length ?ds" using Suc.prems map_inv_lengths(1) [OF Suc.prems(1)] by simp_all
  let ?tag = "vec_list (tags ?m) ! i" and ?x = "t_age (?ds ! i)"
  have get: "map_get_tag ?m (of_nat i) = Some ?tag" by (rule map_get_tag_nth [OF Suc.prems(1) i(1)])
  have tg: "thread_get G t ?tag = Some (?ds ! i, t)"
    by (rule thread_get_present [OF Suc.prems(1) map_abs_nth [OF Suc.prems(1) i(1)]])
  obtain m1 where m1: "map_put (thread_types (junk_thread G)) ?m ?tag ?x = Some m1" "map_inv m1" "tags m1 = tags ?m"
    "vec_list (data m1) = ?ds[i := ?x]"
    using map_put_present [OF Suc.prems(1) i(1) refl] by blast
  let ?t1 = "t\<lparr>threads := m1\<rparr>"
  have put: "thread_put G t ?tag ?x = Some ?t1" using m1(1) by (simp add: thread_put_def)
  have d1: "drop (Suc i) (vec_list (data m1)) = drop (Suc i) ?ds" "take (Suc i) (vec_list (data m1)) = take i ?ds @ [?x]"
    using i m1(4) by (simp_all add: take_Suc_update)
  have split: "drop i ?ds = ?ds ! i # drop (Suc i) ?ds" using i by (simp add: Cons_nth_drop_Suc)
  let ?go = "t_status ?x = task_waiting \<and> cnt < t_idle_cnt ?x"
  obtain m where m: "next_tid_loop G ?t1 (Suc i) n (if ?go then t_idle_cnt ?x else cnt) (if ?go then tid ?x else ret)
      = Some (pick (\<lambda>x. t_status x = task_waiting) t_idle_cnt tid (map t_age (drop (Suc i) ?ds))
          (if ?go then t_idle_cnt ?x else cnt) (if ?go then tid ?x else ret), ?t1\<lparr>threads := m\<rparr>)"
    "map_inv m" "tags m = tags ?m" "vec_list (data m) = (take i ?ds @ [?x]) @ map t_age (drop (Suc i) ?ds)"
    using Suc.IH [of ?t1 "Suc i"] Suc.prems(2) m1(2,3) d1 by fastforce
  then show ?case
    using get tg put split by (intro exI [of _ m]) (auto simp: t_age_def [symmetric] Let_def)
qed

section \<open>The lists as functions\<close>

abbreviation tasks :: "('z sys_scheme) \<Rightarrow> ssize_t \<rightharpoonup> task" where
  "tasks s \<equiv> map_abs (task_list s)"

abbreviation thr :: "task \<Rightarrow> ssize_t \<rightharpoonup> thread" where
  "thr t \<equiv> map_abs (threads t)"

lemma map_of_zip_map: "map_of (zip ks (map f vs)) = map_option f \<circ> map_of (zip ks vs)"
  by (simp add: zip_map2 map_of_map [symmetric] case_prod_unfold)

lemma ran_map_abs: "map_inv m \<Longrightarrow> ran (map_abs m) = set (vec_list (data m))"
  using map_inv_lengths [of m] by (simp add: map_abs_def ran_map_of_zip)

lemma next_pid_step:
  assumes "map_inv (task_list s)"
  shows "\<exists>m. next_pid_loop G s 0 (unat (map_size (task_list s))) 0 (-1) = Some (pick_pid (vec_list (data (task_list s))), s\<lparr>task_list := m\<rparr>)
    \<and> map_inv m \<and> tags m = tags (task_list s) \<and> map_abs m = map_option age \<circ> tasks s"
proof -
  obtain m where m: "next_pid_loop G s 0 (unat (map_size (task_list s))) 0 (-1)
      = Some (pick_pid (vec_list (data (task_list s))), s\<lparr>task_list := m\<rparr>)" "map_inv m" "tags m = tags (task_list s)"
    "vec_list (data m) = map age (vec_list (data (task_list s)))"
    using next_pid_loop_pick [OF assms, of 0 "unat (map_size (task_list s))" G 0 "-1"] map_inv_lengths(2) [OF assms] by auto
  then show ?thesis by (intro exI [of _ m]) (simp add: map_abs_def map_of_zip_map)
qed

lemma next_tid_step:
  assumes "map_inv (threads t)"
  shows "\<exists>m. next_tid_loop G t 0 (unat (map_size (threads t))) 0 (-1) = Some (pick_tid (vec_list (data (threads t))), t\<lparr>threads := m\<rparr>)
    \<and> map_inv m \<and> tags m = tags (threads t) \<and> map_abs m = map_option t_age \<circ> thr t"
proof -
  obtain m where m: "next_tid_loop G t 0 (unat (map_size (threads t))) 0 (-1)
      = Some (pick_tid (vec_list (data (threads t))), t\<lparr>threads := m\<rparr>)" "map_inv m" "tags m = tags (threads t)"
    "vec_list (data m) = map t_age (vec_list (data (threads t)))"
    using next_tid_loop_pick [OF assms, of 0 "unat (map_size (threads t))" G 0 "-1"] map_inv_lengths(2) [OF assms] by auto
  then show ?thesis by (intro exI [of _ m]) (simp add: map_abs_def map_of_zip_map)
qed

text \<open>The chosen number names a waiting entry; none is chosen when none waits and no count wraps.\<close>

lemma pick_pid_waiting:
  assumes "map_inv (task_list s)" and "pick_pid (vec_list (data (task_list s))) \<noteq> -1"
  shows "\<exists>t \<in> ran (tasks s). status t = task_waiting \<and> pick_pid (vec_list (data (task_list s))) = pid t
    \<and> (\<forall>u \<in> ran (tasks s). status u = task_waiting \<longrightarrow> idle_cnt u + 1 \<le> idle_cnt t + 1)"
proof -
  let ?ts = "map age (vec_list (data (task_list s)))"
  have "\<exists>x \<in> set ?ts. status x = task_waiting \<and> 0 < idle_cnt x"
  proof (rule ccontr)
    assume "\<not> ?thesis"
    then have "pick_pid (vec_list (data (task_list s))) = -1" by (intro pick_none) (auto simp: not_less)
    then show False using assms(2) by simp
  qed
  then obtain y where "y \<in> set ?ts" "status y = task_waiting" "pick_pid (vec_list (data (task_list s))) = pid y"
    "\<forall>z \<in> set ?ts. status z = task_waiting \<longrightarrow> idle_cnt z \<le> idle_cnt y"
    using pick_some [of _ ?ts "\<lambda>t. status t = task_waiting" 0 idle_cnt pid "-1"] by blast
  then show ?thesis unfolding ran_map_abs [OF assms(1)] by (auto simp: age_def)
qed

lemma pick_tid_waiting:
  assumes "map_inv (threads t)" and "pick_tid (vec_list (data (threads t))) \<noteq> -1"
  shows "\<exists>x \<in> ran (thr t). t_status x = task_waiting \<and> pick_tid (vec_list (data (threads t))) = tid x"
proof -
  let ?xs = "map t_age (vec_list (data (threads t)))"
  have "\<exists>x \<in> set ?xs. t_status x = task_waiting \<and> 0 < t_idle_cnt x"
  proof (rule ccontr)
    assume "\<not> ?thesis"
    then have "pick_tid (vec_list (data (threads t))) = -1" by (intro pick_none) (auto simp: not_less)
    then show False using assms(2) by simp
  qed
  then obtain y where "y \<in> set ?xs" "t_status y = task_waiting" "pick_tid (vec_list (data (threads t))) = tid y"
    using pick_some [of _ ?xs "\<lambda>x. t_status x = task_waiting" 0 t_idle_cnt tid "-1"] by blast
  then show ?thesis unfolding ran_map_abs [OF assms(1)] by (auto simp: t_age_def)
qed

subsection \<open>Updating an entry\<close>

lemma task_put_present:
  assumes "map_inv (task_list s)" and "tasks s p \<noteq> None"
  shows "\<exists>m. task_put G s p t = Some (s\<lparr>task_list := m\<rparr>) \<and> map_inv m \<and> tags m = tags (task_list s) \<and> map_abs m = (tasks s)(p \<mapsto> t)"
proof -
  obtain i where "i < length (vec_list (tags (task_list s)))" "vec_list (tags (task_list s)) ! i = p"
    using map_abs_obtain [OF assms(1)] assms(2) by blast
  then show ?thesis using map_put_present [OF assms(1), of i p "task_types (junk_task G)" t] by (auto simp: task_put_def)
qed

lemma thread_put_present:
  assumes "map_inv (threads t)" and "thr t i \<noteq> None"
  shows "\<exists>m. thread_put G t i x = Some (t\<lparr>threads := m\<rparr>) \<and> map_inv m \<and> tags m = tags (threads t) \<and> map_abs m = (thr t)(i \<mapsto> x)"
proof -
  obtain j where "j < length (vec_list (tags (threads t)))" "vec_list (tags (threads t)) ! j = i"
    using map_abs_obtain [OF assms(1)] assms(2) by blast
  then show ?thesis using map_put_present [OF assms(1), of j i "thread_types (junk_thread G)" x] by (auto simp: thread_put_def)
qed

lemma task_update_present:
  assumes "map_inv (task_list s)" and "tasks s p = Some t"
  shows "\<exists>m. task_update G s p f = Some (s\<lparr>task_list := m\<rparr>) \<and> map_inv m \<and> tags m = tags (task_list s) \<and> map_abs m = (tasks s)(p \<mapsto> f t)"
  using task_put_present [OF assms(1), of p G "f t"] task_get_present [OF assms, of G] assms(2) by (simp add: task_update_def)

lemma thread_update_present:
  assumes "map_inv (task_list s)" and "tasks s p = Some t" and "map_inv (threads t)" and "thr t i = Some x"
  shows "\<exists>m n. thread_update G s p i f = Some (s\<lparr>task_list := m\<rparr>) \<and> map_inv m \<and> tags m = tags (task_list s)
    \<and> map_abs m = (tasks s)(p \<mapsto> t\<lparr>threads := n\<rparr>) \<and> map_inv n \<and> tags n = tags (threads t) \<and> map_abs n = (thr t)(i \<mapsto> f x)"
proof -
  obtain n where n: "thread_put G t i (f x) = Some (t\<lparr>threads := n\<rparr>)" "map_inv n" "tags n = tags (threads t)" "map_abs n = (thr t)(i \<mapsto> f x)"
    using thread_put_present [OF assms(3), of i G "f x"] assms(4) by auto
  obtain m where "task_put G s p (t\<lparr>threads := n\<rparr>) = Some (s\<lparr>task_list := m\<rparr>)" "map_inv m" "tags m = tags (task_list s)"
    "map_abs m = (tasks s)(p \<mapsto> t\<lparr>threads := n\<rparr>)"
    using task_put_present [OF assms(1), of p G "t\<lparr>threads := n\<rparr>"] assms(2) by auto
  then show ?thesis
    using n task_get_present [OF assms(1,2), of G] thread_get_present [OF assms(3,4), of G]
    by (intro exI [of _ m] exI [of _ n]) (simp add: thread_update_def)
qed

lemma mark_thread:
  assumes "map_inv (task_list s)" and "tasks s p = Some t" and "map_inv (threads t)" and "thr t i = Some x"
  shows "\<exists>m n. (thread_update G s p i f \<bind> (\<lambda>s. task_update G s p h)) = Some (s\<lparr>task_list := m\<rparr>) \<and> map_inv m
    \<and> tags m = tags (task_list s) \<and> map_abs m = (tasks s)(p \<mapsto> h (t\<lparr>threads := n\<rparr>))
    \<and> map_inv n \<and> tags n = tags (threads t) \<and> map_abs n = (thr t)(i \<mapsto> f x)"
proof -
  obtain m n where m: "thread_update G s p i f = Some (s\<lparr>task_list := m\<rparr>)" "map_inv m" "tags m = tags (task_list s)"
    "map_abs m = (tasks s)(p \<mapsto> t\<lparr>threads := n\<rparr>)" "map_inv n" "tags n = tags (threads t)" "map_abs n = (thr t)(i \<mapsto> f x)"
    using thread_update_present [OF assms] by blast
  obtain m' where "task_update G (s\<lparr>task_list := m\<rparr>) p h = Some (s\<lparr>task_list := m'\<rparr>)" "map_inv m'" "tags m' = tags m"
    "map_abs m' = (tasks s)(p \<mapsto> h (t\<lparr>threads := n\<rparr>))"
    using task_update_present [of "s\<lparr>task_list := m\<rparr>" p "t\<lparr>threads := n\<rparr>" G h] m(2,4) by auto
  then show ?thesis using m by (intro exI [of _ m'] exI [of _ n]) simp
qed

lemma core_ok_task_list [simp]: "core_ok (s\<lparr>task_list := m\<rparr>) c = core_ok s c" "core_read (s\<lparr>task_list := m\<rparr>) c = core_read s c"
  by (simp_all add: core_ok_def core_local_def core_read_def)

text \<open>What switching does: the processor's record, the registers and the two statuses.\<close>

lemma switch_to_effect:
  fixes s :: "('d, 'z) sched_scheme"
  assumes "map_inv (task_list s)" and "tasks s p = Some t" and "map_inv (threads t)" and "thr t i = Some x"
    and "core_ok s c" and "core_read s c = Some k" and "mtables s (page_map t) = Some tb"
  shows "\<exists>m n v h j. switch_to G s c p i = Some (regs_cur x,
        s\<lparr>cpus := v, task_list := m, hw := h, eoi_log := c # eoi_log s, scheduler_lock := False\<rparr>)
    \<and> map_inv m \<and> tags m = tags (task_list s)
    \<and> map_abs m = (tasks s)(p \<mapsto> t\<lparr>threads := n, idle_cnt := 0, status := task_running\<rparr>)
    \<and> map_inv n \<and> tags n = tags (threads t) \<and> map_abs n = (thr t)(i \<mapsto> x\<lparr>t_idle_cnt := 0, t_status := task_running\<rparr>)
    \<and> core_local s c = Some j \<and> core_ok (s\<lparr>cpus := v\<rparr>) c \<and> buf_size v = buf_size (cpus s)
    \<and> vec_list v = (vec_list (cpus s))[unat j := k\<lparr>cpu_pid := p, cpu_tid := i, errno := t_errno x, cpu_page_map := page_map t\<rparr>]"
proof -
  let ?k = "\<lambda>k. k\<lparr>cpu_pid := p, cpu_tid := i, errno := t_errno x, cpu_page_map := page_map t\<rparr>"
  obtain v j where v: "core_write s c ?k = Some (s\<lparr>cpus := v\<rparr>)" "core_ok (s\<lparr>cpus := v\<rparr>) c" "buf_size v = buf_size (cpus s)"
    "core_local s c = Some j" "vec_list v = (vec_list (cpus s))[unat j := ?k k]"
    using core_write_ok [OF assms(5,6), of ?k] by auto
  let ?s1 = "on_hw (s\<lparr>cpus := v\<rparr>) c (cr3_update (\<lambda>_. highest_raw (mtable tb) - high_vma_of (five_level s)))"
  have ld: "load_table (s\<lparr>cpus := v\<rparr>) c (page_map t) = Some ?s1" using assms(7) by (simp add: load_table_def)
  have tl: "task_list ?s1 = task_list s" by (simp add: on_hw_def)
  obtain m n where m: "(thread_update G ?s1 p i (\<lambda>x. x\<lparr>t_idle_cnt := 0, t_status := task_running\<rparr>)
      \<bind> (\<lambda>s. task_update G s p (\<lambda>t. t\<lparr>idle_cnt := 0, status := task_running\<rparr>))) = Some (?s1\<lparr>task_list := m\<rparr>)"
    "map_inv m" "tags m = tags (task_list s)" "map_abs m = (tasks s)(p \<mapsto> t\<lparr>threads := n, idle_cnt := 0, status := task_running\<rparr>)"
    "map_inv n" "tags n = tags (threads t)" "map_abs n = (thr t)(i \<mapsto> x\<lparr>t_idle_cnt := 0, t_status := task_running\<rparr>)"
    using mark_thread [of ?s1 p t i x G "\<lambda>x. x\<lparr>t_idle_cnt := 0, t_status := task_running\<rparr>"
        "\<lambda>t. t\<lparr>idle_cnt := 0, status := task_running\<rparr>"] assms(1-4) unfolding tl by auto
  let ?t = "t\<lparr>threads := n, idle_cnt := 0, status := task_running\<rparr>"
  have fin: "task_get G u p = Some (?t, u)" if "task_list u = m" for u :: "('d, 'z) sched_scheme"
    using that m(2,4) by (intro task_get_present) simp_all
  have thf: "thread_get G ?t i = Some (x\<lparr>t_idle_cnt := 0, t_status := task_running\<rparr>, ?t)"
    using m(5,7) by (intro thread_get_present) simp_all
  have st: "(thread_update G ?s1 p i (\<lambda>x. x\<lparr>t_idle_cnt := 0, t_status := task_running\<rparr>)
      \<bind> (\<lambda>s. task_update G s p (\<lambda>t. t\<lparr>idle_cnt := 0, status := task_running\<rparr>) \<bind> K))
      = K (?s1\<lparr>task_list := m\<rparr>)" for K :: "('d, 'z) sched_scheme \<Rightarrow> (regs \<times> ('d, 'z) sched_scheme) option"
    using m(1) by (cases "thread_update G ?s1 p i (\<lambda>x. x\<lparr>t_idle_cnt := 0, t_status := task_running\<rparr>)") simp_all
  define h where "h = (hw ?s1)(c := (if from_user (regs_cur x) then swapgs else id)
    (set_user_gs (set_user_fs (hw ?s1 c) (user_fs_base x)) (user_gs_base x)))"
  have "switch_to G s c p i = Some (regs_cur x,
        s\<lparr>cpus := v, task_list := m, hw := h, eoi_log := c # eoi_log s, scheduler_lock := False\<rparr>)"
    using task_get_present [OF assms(1,2), of G] thread_get_present [OF assms(3,4), of G] v(1) ld
    by (simp add: switch_to_def st fin thf Let_def h_def) (simp add: swap_if_def on_hw_def fin thf)
  then show ?thesis using m v by blast
qed

end
