(* ===== verification/Sched_Inv.thy ===== *)
theory Sched_Inv
  imports Scheduler
begin

text \<open>
  What the scheduler keeps and guarantees. The abstract view of the lists forgets everything but
  the numbers, the address space and the statuses of the tasks and their threads; on it a switch is
  one function, \<open>dispatch\<close>. The invariant says that at most one thread is marked as running and that it
  is the one the processor record names. \<open>sched_step\<close> collects the operations of the scheduler.
\<close>

section \<open>The abstract view\<close>

type_synonym thread_sig = "tid_t \<times> size_t"
type_synonym task_sig = "pid_t \<times> table_ptr \<times> size_t \<times> (ssize_t \<rightharpoonup> thread_sig)"

definition tsig :: "thread \<Rightarrow> thread_sig" where
  "tsig x = (tid x, t_status x)"

definition sig :: "task \<Rightarrow> task_sig" where
  "sig t = (pid t, page_map t, status t, (\<lambda>i. map_option tsig (thr t i)))"

definition sigs :: "('z sys_scheme) \<Rightarrow> ssize_t \<rightharpoonup> task_sig" where
  "sigs s = (\<lambda>p. map_option sig (tasks s p))"

definition idles :: "('z sys_scheme) \<Rightarrow> ssize_t \<rightharpoonup> size_t" where
  "idles s = (\<lambda>p. map_option idle_cnt (tasks s p))"

definition tidles :: "('z sys_scheme) \<Rightarrow> ssize_t \<Rightarrow> ssize_t \<Rightarrow> size_t option" where
  "tidles s p i = (case tasks s p of None \<Rightarrow> None | Some t \<Rightarrow> map_option t_idle_cnt (thr t i))"

text \<open>No thread's count grows by more than one.\<close>

definition tids_step :: "('y sys_scheme) \<Rightarrow> ('z sys_scheme) \<Rightarrow> bool" where
  "tids_step s s' \<longleftrightarrow> (\<forall>p i n. tidles s' p i = Some n \<longrightarrow> (\<exists>k. tidles s p i = Some k \<and> unat n \<le> Suc (unat k)))"

text \<open>Giving a task and one of its threads a status.\<close>

definition mark :: "(ssize_t \<rightharpoonup> task_sig) \<Rightarrow> ssize_t \<Rightarrow> ssize_t \<Rightarrow> size_t \<Rightarrow> ssize_t \<rightharpoonup> task_sig" where
  "mark S p i st = S(p := (case S p of None \<Rightarrow> None
     | Some (q, pm, _, th) \<Rightarrow> Some (q, pm, st, th(i := map_option (\<lambda>(j, _). (j, st)) (th i)))))"

definition dispatch :: "(ssize_t \<rightharpoonup> task_sig) \<Rightarrow> ssize_t \<Rightarrow> ssize_t \<Rightarrow> ssize_t \<Rightarrow> ssize_t \<Rightarrow> ssize_t \<rightharpoonup> task_sig" where
  "dispatch S kp kt p i = mark (if kt \<noteq> -1 \<and> kp \<noteq> -1 then mark S kp kt task_waiting else S) p i task_running"

definition thread_at :: "(ssize_t \<rightharpoonup> task_sig) \<Rightarrow> ssize_t \<Rightarrow> ssize_t \<Rightarrow> size_t option" where
  "thread_at S p i = (case S p of None \<Rightarrow> None | Some (_, _, _, th) \<Rightarrow> map_option snd (th i))"

definition task_at :: "(ssize_t \<rightharpoonup> task_sig) \<Rightarrow> ssize_t \<Rightarrow> size_t option" where
  "task_at S p = map_option (\<lambda>(_, _, st, _). st) (S p)"

lemma thread_at_mark: "thread_at (mark S p i st) q j = (if q = p \<and> j = i then map_option (\<lambda>_. st) (thread_at S p i) else thread_at S q j)"
  by (auto simp: mark_def thread_at_def option.map_comp comp_def case_prod_unfold split: option.splits)

lemma task_at_mark: "task_at (mark S p i st) q = (if q = p then map_option (\<lambda>_. st) (task_at S p) else task_at S q)"
  by (auto simp: mark_def task_at_def split: option.splits)

definition wf_thread :: "ssize_t \<Rightarrow> thread_sig \<Rightarrow> bool" where
  "wf_thread i x \<longleftrightarrow> fst x = i \<and> i \<noteq> -1 \<and> (snd x = task_waiting \<or> snd x = task_running)"

text \<open>The entry of the number \<open>-1\<close>, which looking up the parent of the first task creates, is no task.\<close>

definition wf_sig :: "table_ptr set \<Rightarrow> ssize_t \<Rightarrow> task_sig \<Rightarrow> bool" where
  "wf_sig M p = (\<lambda>(q, pm, st, th). q = p \<and> (\<forall>i x. th i = Some x \<longrightarrow> wf_thread i x)
     \<and> (if p = -1 then st \<noteq> task_waiting \<and> th = Map.empty
        else (st = task_waiting \<or> st = task_running) \<and> pm \<in> M))"

definition wf_sigs :: "table_ptr set \<Rightarrow> (ssize_t \<rightharpoonup> task_sig) \<Rightarrow> bool" where
  "wf_sigs M S \<longleftrightarrow> (\<forall>p t. S p = Some t \<longrightarrow> wf_sig M p t)"

text \<open>\<open>kp\<close> and \<open>kt\<close> are the numbers in the record of the processor.\<close>

definition one_running :: "(ssize_t \<rightharpoonup> task_sig) \<Rightarrow> ssize_t \<Rightarrow> ssize_t \<Rightarrow> bool" where
  "one_running S kp kt \<longleftrightarrow> (kp = -1 \<longleftrightarrow> kt = -1)
     \<and> (kp \<noteq> -1 \<longrightarrow> task_at S kp = Some task_running \<and> thread_at S kp kt = Some task_running)
     \<and> (\<forall>p. p \<noteq> -1 \<and> task_at S p = Some task_running \<longrightarrow> p = kp)
     \<and> (\<forall>p i. thread_at S p i = Some task_running \<longrightarrow> p = kp \<and> i = kt)"

lemma status_distinct [simp]: "task_waiting \<noteq> task_running" "task_running \<noteq> task_waiting"
  by (simp_all add: task_waiting_def task_running_def)

lemma wf_sigs_mark:
  assumes "wf_sigs M S" and "p \<noteq> -1" and "st = task_waiting \<or> st = task_running"
  shows "wf_sigs M (mark S p i st)"
  unfolding wf_sigs_def
proof (intro allI impI)
  fix q t
  assume t: "mark S p i st q = Some t"
  show "wf_sig M q t"
  proof (cases "q = p")
    case False
    then show ?thesis using t assms(1) by (cases t) (simp add: mark_def wf_sigs_def)
  next
    case True
    then obtain q' pm u th where u: "S p = Some (q', pm, u, th)"
      "t = (q', pm, st, th(i := map_option (\<lambda>(j, _). (j, st)) (th i)))"
      using t by (cases "S p") (auto simp: mark_def)
    then have w: "wf_sig M p (q', pm, u, th)" using assms(1) by (simp add: wf_sigs_def)
    have "wf_thread j x" if pr: "(th(i := map_option (\<lambda>(j, _). (j, st)) (th i))) j = Some x" for j x
    proof (cases "j = i")
      case True
      then obtain y where "th i = Some y" "x = (fst y, st)" using pr by (cases "th i") (auto simp: case_prod_unfold)
      moreover from this(1) have "wf_thread i y" using w by (cases y) (simp add: wf_sig_def)
      ultimately show ?thesis using assms(3) True by (simp add: wf_thread_def)
    next
      case False
      then show ?thesis using pr w by (cases x) (simp add: wf_sig_def)
    qed
    then show ?thesis using w u(2) True assms(2,3) by (simp add: wf_sig_def)
  qed
qed

lemma wf_thread_at: "wf_sigs M S \<Longrightarrow> thread_at S p i = Some st \<Longrightarrow> p \<noteq> -1 \<and> i \<noteq> -1"
proof -
  assume wf: "wf_sigs M S" and th: "thread_at S p i = Some st"
  from th obtain q pm u h x where S: "S p = Some (q, pm, u, h)" "h i = Some x"
    by (cases "S p") (auto simp: thread_at_def)
  then have "wf_sig M p (q, pm, u, h)" using wf by (simp add: wf_sigs_def)
  then have "wf_thread i x" "p \<noteq> -1 \<or> h = Map.empty" using S(2) by (cases x; auto simp: wf_sig_def split: if_splits)+
  then show ?thesis using S(2) by (auto simp: wf_thread_def)
qed

lemma dispatch_one_running:
  assumes "one_running S kp kt" and "wf_sigs M S" and "thread_at S p i = Some task_waiting" and "p \<noteq> -1" and "i \<noteq> -1"
    and "task_at S p = Some task_waiting \<or> p = kp"
  shows "one_running (dispatch S kp kt p i) p i \<and> wf_sigs M (dispatch S kp kt p i)"
proof -
  have kp: "kp = -1 \<longleftrightarrow> kt = -1" "kp \<noteq> -1 \<Longrightarrow> thread_at S kp kt = Some task_running"
    "\<And>q. q \<noteq> -1 \<Longrightarrow> task_at S q = Some task_running \<Longrightarrow> q = kp"
    "\<And>q j. thread_at S q j = Some task_running \<Longrightarrow> q = kp \<and> j = kt"
    using assms(1) unfolding one_running_def by blast+
  have ne: "p = kp \<Longrightarrow> i \<noteq> kt" using kp(2) assms(3,4) by auto
  have tp: "task_at S p \<noteq> None" using assms(3) by (auto simp: thread_at_def task_at_def split: option.splits)
  have "wf_sigs M (dispatch S kp kt p i)" using assms(2,4) by (simp add: dispatch_def wf_sigs_mark)
  moreover have "task_at (dispatch S kp kt p i) p = Some task_running" "thread_at (dispatch S kp kt p i) p i = Some task_running"
    using tp assms(3) ne by (auto simp: dispatch_def thread_at_mark task_at_mark)
  moreover have "q = p" if "q \<noteq> -1" "task_at (dispatch S kp kt p i) q = Some task_running" for q
  proof (rule ccontr)
    assume "q \<noteq> p"
    moreover from this have "task_at S q = Some task_running" "\<not> (kt \<noteq> -1 \<and> kp \<noteq> -1 \<and> q = kp)"
      using that(2) by (auto simp: dispatch_def task_at_mark split: if_splits)
    ultimately show False using that(1) kp(1) kp(3) [of q] by metis
  qed
  moreover have "q = p \<and> j = i" if "thread_at (dispatch S kp kt p i) q j = Some task_running" for q j
  proof (rule ccontr)
    assume n: "\<not> (q = p \<and> j = i)"
    then have "thread_at S q j = Some task_running" "\<not> (kt \<noteq> -1 \<and> kp \<noteq> -1 \<and> q = kp \<and> j = kt)"
      using that by (auto simp: dispatch_def thread_at_mark split: if_splits)
    moreover from this(1) have "q = kp" "j = kt" using kp(4) by blast+
    ultimately show False using kp(1) wf_thread_at [OF assms(2), of q j] by metis
  qed
  ultimately have "one_running (dispatch S kp kt p i) p i \<and> wf_sigs M (dispatch S kp kt p i)"
    unfolding one_running_def using assms(4,5) by blast
  then show ?thesis .
qed

section \<open>The invariant\<close>

definition cur :: "('z sys_scheme) \<Rightarrow> cpu" where
  "cur s = vec_list (cpus s) ! 0"

definition cpus_ok :: "('z sys_scheme) \<Rightarrow> bool" where
  "cpus_ok s \<longleftrightarrow> vec_ok (cpus s) \<and> 0 < buf_size (cpus s) \<and> (\<forall>k \<in> set (vec_list (cpus s)). user_stack k = 0)"

definition sched_inv :: "('d, 'z) sched_scheme \<Rightarrow> bool" where
  "sched_inv s \<longleftrightarrow> map_inv (task_list s) \<and> (\<forall>p t. tasks s p = Some t \<longrightarrow> map_inv (threads t))
     \<and> wf_sigs (dom (mtables s)) (sigs s) \<and> cpus_ok s \<and> \<not> scheduler_lock s
     \<and> one_running (sigs s) (cpu_pid (cur s)) (cpu_tid (cur s))"

text \<open>The record \<^verbatim>\<open>core_local\<close> finds is the first one on every processor.\<close>

lemma sched_core:
  assumes "cpus_ok s" and "c < unat (buf_size (cpus s))"
  shows "core_ok s c" and "core_local s c = Some 0" and "core_read s c = Some (cur s)"
proof -
  have ok: "vec_ok (cpus s)" using assms(1) by (simp add: cpus_ok_def)
  have u: "unat (of_nat c :: size_t) = c" by (rule unat_of_nat_lt [OF lt_unat_2p64 [OF assms(2)]])
  have at: "vector_at (cpus s) (of_nat c) = Some (vec_list (cpus s) ! c)"
    using vector_at_list [OF ok, of "of_nat c"] u assms(2) by (simp add: word_less_nat_alt)
  have "c < length (vec_list (cpus s))" using assms(2) ok by simp
  then have "user_stack (vec_list (cpus s) ! c) = 0" using assms(1) nth_mem by (auto simp: cpus_ok_def)
  then show loc: "core_local s c = Some 0" using at by (simp add: core_local_def)
  then show "core_ok s c" using assms ok by (simp add: core_ok_def cpus_ok_def)
  show "core_read s c = Some (cur s)"
    using loc vector_at_list [OF ok, of 0] assms(1) by (simp add: core_read_def cur_def cpus_ok_def)
qed

subsection \<open>Signatures under the updates\<close>

lemma sig_age [simp]: "sig (age t) = sig t"
  by (simp add: sig_def age_def)

lemma tsig_t_age [simp]: "tsig (t_age x) = tsig x"
  by (simp add: tsig_def t_age_def)

lemma sig_threads_aged: "map_abs n = map_option t_age \<circ> thr t \<Longrightarrow> sig (t\<lparr>threads := n\<rparr>) = sig t"
  by (simp add: sig_def option.map_comp comp_def)

lemma sigs_mark:
  assumes "tasks s p = Some t" and "thr t i = Some x" and "map_abs m = (tasks s)(p \<mapsto> t')"
    and "pid t' = pid t" and "page_map t' = page_map t" and "status t' = st"
    and "thr t' = (thr t)(i \<mapsto> x')" and "tid x' = tid x" and "t_status x' = st"
  shows "sigs (s\<lparr>task_list := m\<rparr>) = mark (sigs s) p i st"
  using assms by (auto simp: sigs_def mark_def sig_def tsig_def fun_eq_iff)

lemma sigs_cong: "task_list s' = task_list s \<Longrightarrow> sigs s' = sigs s"
  by (simp add: sigs_def)

lemma thread_at_sigs: "thread_at (sigs s) p i = (case tasks s p of None \<Rightarrow> None | Some t \<Rightarrow> map_option t_status (thr t i))"
  by (simp add: thread_at_def sigs_def sig_def tsig_def option.map_comp comp_def split: option.splits)

lemma task_at_sigs: "task_at (sigs s) p = map_option status (tasks s p)"
  by (simp add: task_at_def sigs_def sig_def option.map_comp comp_def)

lemma wf_pid:
  assumes "wf_sigs M (sigs s)" and "tasks s p = Some t"
  shows "pid t = p" and "p = -1 \<Longrightarrow> status t \<noteq> task_waiting" and "p \<noteq> -1 \<Longrightarrow> page_map t \<in> M"
    and "thr t i = Some x \<Longrightarrow> tid x = i" and "thr t i = Some x \<Longrightarrow> i \<noteq> -1"
proof -
  have w: "wf_sig M p (sig t)" using assms by (simp add: wf_sigs_def sigs_def del: split_paired_All)
  then show "pid t = p" "p = -1 \<Longrightarrow> status t \<noteq> task_waiting" "p \<noteq> -1 \<Longrightarrow> page_map t \<in> M"
    by (simp_all add: wf_sig_def sig_def)
  assume x: "thr t i = Some x"
  then have "wf_thread i (tsig x)"
    using w by (cases "tsig x") (auto simp: wf_sig_def sig_def)
  then show "tid x = i" "i \<noteq> -1" by (simp_all add: wf_thread_def tsig_def)
qed

section \<open>One call of the scheduler\<close>

definition candidate :: "('z sys_scheme) \<Rightarrow> (ssize_t \<times> ssize_t) option" where
  "candidate s =
     (let p = pick_pid (vec_list (data (task_list s))); p = (if p = -1 then cpu_pid (cur s) else p)
      in if p = -1 then None
         else let i = pick_tid (vec_list (data (threads (the (tasks s p)))))
              in if i = -1 then None else Some (p, i))"

text \<open>The candidate is a waiting thread, of a waiting task with the largest count or of the current task.\<close>

lemma candidate_waiting:
  assumes "sched_inv s" and "candidate s = Some (p, i)"
  obtains t x where "tasks s p = Some t" "thr t i = Some x" "t_status x = task_waiting" "p \<noteq> -1" "i \<noteq> -1"
    "status t = task_waiting \<and> (\<forall>q u. tasks s q = Some u \<and> status u = task_waiting \<longrightarrow> idle_cnt u + 1 \<le> idle_cnt t + 1)
     \<or> p = cpu_pid (cur s) \<and> pick_pid (vec_list (data (task_list s))) = -1"
proof -
  let ?pick = "pick_pid (vec_list (data (task_list s)))"
  have inv: "map_inv (task_list s)" "wf_sigs (dom (mtables s)) (sigs s)" "one_running (sigs s) (cpu_pid (cur s)) (cpu_tid (cur s))"
    using assms(1) by (simp_all add: sched_inv_def)
  have p: "p = (if ?pick = -1 then cpu_pid (cur s) else ?pick)" "p \<noteq> -1"
    and i: "i = pick_tid (vec_list (data (threads (the (tasks s p)))))" "i \<noteq> -1"
    using assms(2) by (auto simp: candidate_def Let_def split: if_splits)
  have "\<exists>t. tasks s p = Some t \<and> (status t = task_waiting \<and> (\<forall>q u. tasks s q = Some u \<and> status u = task_waiting \<longrightarrow> idle_cnt u + 1 \<le> idle_cnt t + 1)
     \<or> p = cpu_pid (cur s) \<and> ?pick = -1)"
  proof (cases "?pick = -1")
    case True
    then have "task_at (sigs s) p = Some task_running" using inv(3) p by (simp add: one_running_def)
    then show ?thesis using True p by (auto simp: task_at_sigs)
  next
    case False
    obtain t where t: "t \<in> ran (tasks s)" "status t = task_waiting" "?pick = pid t"
      "\<forall>u \<in> ran (tasks s). status u = task_waiting \<longrightarrow> idle_cnt u + 1 \<le> idle_cnt t + 1"
      using pick_pid_waiting [OF inv(1) False] by blast
    then obtain q where q: "tasks s q = Some t" by (auto simp: ran_def)
    then have "pid t = q" by (rule wf_pid(1) [OF inv(2)])
    then show ?thesis using q t False p(1) by (auto simp: ran_def)
  qed
  then obtain t where t: "tasks s p = Some t" "status t = task_waiting \<and> (\<forall>q u. tasks s q = Some u \<and> status u = task_waiting \<longrightarrow> idle_cnt u + 1 \<le> idle_cnt t + 1)
     \<or> p = cpu_pid (cur s) \<and> ?pick = -1" by blast
  have "map_inv (threads t)" using assms(1) t(1) by (auto simp: sched_inv_def)
  then obtain x where x: "x \<in> ran (thr t)" "t_status x = task_waiting" "i = tid x"
    using pick_tid_waiting [of t] i t(1) by auto
  then obtain j where j: "thr t j = Some x" by (auto simp: ran_def)
  then have "tid x = j" by (rule wf_pid(4) [OF inv(2) t(1)])
  then show thesis using that t x j p(2) i(2) by blast
qed

text \<open>
  The two outcomes: the lists only age, or the processor switches to the thread \<open>x\<close>, the \<open>i\<close>-th of the
  task \<open>p\<close>.
\<close>

definition aged :: "('d, 'z) sched_scheme \<Rightarrow> ('d, 'z) sched_scheme \<Rightarrow> bool" where
  "aged s s' \<longleftrightarrow> sigs s' = sigs s \<and> idles s' = (\<lambda>q. map_option (\<lambda>n. n + 1) (idles s q)) \<and> cpus s' = cpus s"

definition switched :: "('d, 'z) sched_scheme \<Rightarrow> ssize_t \<Rightarrow> ssize_t \<Rightarrow> ('d, 'z) sched_scheme \<Rightarrow> bool" where
  "switched s p i s' \<longleftrightarrow> sigs s' = dispatch (sigs s) (cpu_pid (cur s)) (cpu_tid (cur s)) p i
     \<and> idles s' = (\<lambda>q. map_option (\<lambda>n. n + 1) (idles s q))(p \<mapsto> 0)
     \<and> cpu_pid (cur s') = p \<and> cpu_tid (cur s') = i \<and> unat (buf_size (cpus s')) = unat (buf_size (cpus s))"

text \<open>What every call leaves as it was.\<close>

definition same_frame :: "('d, 'z) sched_scheme \<Rightarrow> ('d, 'z) sched_scheme \<Rightarrow> bool" where
  "same_frame s s' \<longleftrightarrow> mtables s' = mtables s \<and> memory s' = memory s \<and> task_cnt s' = task_cnt s \<and> thread_cnt s' = thread_cnt s
     \<and> tags (task_list s') = tags (task_list s) \<and> kernel_mapping s' = kernel_mapping s
     \<and> buf_size (cpus s') = buf_size (cpus s) \<and> tids_step s s'"

lemma save_last_effect:
  assumes "map_inv (task_list s)" and "tasks s (cpu_pid k) = Some t" and "map_inv (threads t)" and "thr t (cpu_tid k) = Some x"
    and "cpu_pid k \<noteq> -1" and "cpu_tid k \<noteq> -1"
  shows "\<exists>m t'. save_last G s c r k = Some (s\<lparr>task_list := m\<rparr>) \<and> map_inv m \<and> tags m = tags (task_list s)
    \<and> map_abs m = (tasks s)(cpu_pid k \<mapsto> t') \<and> map_inv (threads t') \<and> idle_cnt t' = idle_cnt t \<and> page_map t' = page_map t
    \<and> (\<forall>j. j \<noteq> cpu_tid k \<longrightarrow> thr t' j = thr t j) \<and> tidles (s\<lparr>task_list := m\<rparr>) = tidles s
    \<and> sigs (s\<lparr>task_list := m\<rparr>) = mark (sigs s) (cpu_pid k) (cpu_tid k) task_waiting"
proof -
  let ?f = "\<lambda>x. x\<lparr>t_status := task_waiting, regs_cur := r, user_fs_base := get_user_fs (hw s c), user_gs_base := get_user_gs (hw s c)\<rparr>"
  let ?h = "status_update (\<lambda>_. task_waiting)"
  obtain m n where m: "(thread_update G s (cpu_pid k) (cpu_tid k) ?f \<bind> (\<lambda>s. task_update G s (cpu_pid k) ?h)) = Some (s\<lparr>task_list := m\<rparr>)"
    "map_inv m" "tags m = tags (task_list s)" "map_abs m = (tasks s)(cpu_pid k \<mapsto> ?h (t\<lparr>threads := n\<rparr>))"
    "map_inv n" "map_abs n = (thr t)(cpu_tid k \<mapsto> ?f x)"
    using mark_thread [OF assms(1-4), of G ?f ?h] by blast
  have "sigs (s\<lparr>task_list := m\<rparr>) = mark (sigs s) (cpu_pid k) (cpu_tid k) task_waiting"
    by (rule sigs_mark [OF assms(2,4) m(4), where x' = "?f x"]) (simp_all add: m(6))
  moreover have "tidles (s\<lparr>task_list := m\<rparr>) = tidles s"
    using m(4,6) assms(2,4) by (auto simp: tidles_def fun_eq_iff)
  ultimately show ?thesis
    using m assms(5,6) by (intro exI [of _ m] exI [of _ "?h (t\<lparr>threads := n\<rparr>)"]) (simp add: save_last_def)
qed

lemma idles_upd: "map_abs m = (tasks s)(p \<mapsto> t') \<Longrightarrow> idles (s\<lparr>task_list := m\<rparr>) = (idles s)(p \<mapsto> idle_cnt t')"
  by (auto simp: idles_def)

lemma chosen_task:
  assumes "sched_inv s" and "p = (if pick_pid (vec_list (data (task_list s))) = -1 then cpu_pid (cur s)
    else pick_pid (vec_list (data (task_list s))))" and "p \<noteq> -1"
  shows "\<exists>t. tasks s p = Some t"
proof (cases "pick_pid (vec_list (data (task_list s))) = -1")
  case True
  then have "task_at (sigs s) p = Some task_running" using assms by (simp add: sched_inv_def one_running_def)
  then show ?thesis by (auto simp: task_at_sigs)
next
  case False
  have inv: "map_inv (task_list s)" "wf_sigs (dom (mtables s)) (sigs s)" using assms(1) by (simp_all add: sched_inv_def)
  obtain t where t: "t \<in> ran (tasks s)" "pick_pid (vec_list (data (task_list s))) = pid t"
    using pick_pid_waiting [OF inv(1) False] by blast
  then obtain q where q: "tasks s q = Some t" by (auto simp: ran_def)
  then have "pid t = q" by (rule wf_pid(1) [OF inv(2)])
  then show ?thesis using q t False assms(2) by auto
qed

text \<open>The lists after both loops: everything is as it was but for the counts.\<close>

definition aged_list :: "('z sys_scheme) \<Rightarrow> (ssize_t, task) kmap \<Rightarrow> bool" where
  "aged_list s m \<longleftrightarrow> map_inv m \<and> tags m = tags (task_list s) \<and> (\<forall>p t. map_abs m p = Some t \<longrightarrow> map_inv (threads t))
     \<and> sigs (s\<lparr>task_list := m\<rparr>) = sigs s \<and> idles (s\<lparr>task_list := m\<rparr>) = (\<lambda>q. map_option (\<lambda>n. n + 1) (idles s q))
     \<and> (\<forall>p t i x. tasks s p = Some t \<and> thr t i = Some x \<longrightarrow> (\<exists>t' x'. map_abs m p = Some t' \<and> thr t' i = Some x' \<and> regs_cur x' = regs_cur x))
     \<and> tids_step s (s\<lparr>task_list := m\<rparr>)"

lemma unat_Suc_le: "unat (x + 1 :: size_t) \<le> Suc (unat x)"
  by (simp add: unat_word_ariths)

lemma aged_list_tasks:
  assumes "map_inv m" and "tags m = tags (task_list s)" and "\<forall>p t. tasks s p = Some t \<longrightarrow> map_inv (threads t)"
    and "map_abs m = map_option age \<circ> tasks s"
  shows "aged_list s m"
proof -
  have "sigs (s\<lparr>task_list := m\<rparr>) = sigs s" using assms(4) by (simp add: sigs_def option.map_comp comp_def)
  moreover have "idles (s\<lparr>task_list := m\<rparr>) = (\<lambda>q. map_option (\<lambda>n. n + 1) (idles s q))"
    using assms(4) by (simp add: idles_def option.map_comp comp_def age_def)
  moreover have "\<forall>p t. map_abs m p = Some t \<longrightarrow> map_inv (threads t)" using assms(3,4) by (auto simp: age_def)
  moreover have "\<exists>t' x'. map_abs m p = Some t' \<and> thr t' i = Some x' \<and> regs_cur x' = regs_cur x"
    if "tasks s p = Some t" "thr t i = Some x" for p t i x
    using that assms(4) by (intro exI [of _ "age t"] exI [of _ x]) (simp add: age_def)
  moreover have "tidles (s\<lparr>task_list := m\<rparr>) p i = tidles s p i" for p i
    using assms(4) by (cases "tasks s p") (simp_all add: tidles_def age_def)
  then have "tids_step s (s\<lparr>task_list := m\<rparr>)" by (simp add: tids_step_def)
  ultimately show ?thesis using assms(1,2) unfolding aged_list_def by blast
qed

lemma aged_list_threads:
  assumes "aged_list s m" and "map_abs m p = Some t" and "map_inv n" and "map_abs n = map_option t_age \<circ> thr t"
    and "map_inv m'" and "tags m' = tags m" and "map_abs m' = (map_abs m)(p \<mapsto> t\<lparr>threads := n\<rparr>)"
    and "\<And>q i. tidles s q i = tidles (s\<lparr>task_list := m\<rparr>) q i"
  shows "aged_list s m'"
proof -
  have "sigs (s\<lparr>task_list := m'\<rparr>) = sigs (s\<lparr>task_list := m\<rparr>)"
    using assms(2,7) sig_threads_aged [OF assms(4)] by (auto simp: sigs_def)
  moreover have "idles (s\<lparr>task_list := m'\<rparr>) = idles (s\<lparr>task_list := m\<rparr>)" using assms(2,7) by (auto simp: idles_def)
  moreover have "\<exists>t' x'. map_abs m' q = Some t' \<and> thr t' i = Some x' \<and> regs_cur x' = regs_cur x"
    if old: "tasks s q = Some u" "thr u i = Some x" for q u i x
  proof -
    obtain t' x' where t': "map_abs m q = Some t'" "thr t' i = Some x'" "regs_cur x' = regs_cur x"
      using assms(1) old unfolding aged_list_def by metis
    show ?thesis
    proof (cases "q = p")
      case True
      then show ?thesis using t' assms(2,4,7)
        by (intro exI [of _ "t\<lparr>threads := n\<rparr>"] exI [of _ "t_age x'"]) (simp add: t_age_def)
    qed (use t' assms(7) in auto)
  qed
  moreover have "tids_step s (s\<lparr>task_list := m'\<rparr>)"
  proof -
    have old: "tidles s q i = tidles (s\<lparr>task_list := m\<rparr>) q i" for q i
      using assms(8) by simp
    show ?thesis
      unfolding tids_step_def old
    proof (intro allI impI)
      fix q i k
      assume k: "tidles (s\<lparr>task_list := m'\<rparr>) q i = Some k"
      show "\<exists>k'. tidles (s\<lparr>task_list := m\<rparr>) q i = Some k' \<and> unat k \<le> Suc (unat k')"
      proof (cases "q = p")
        case True
        then obtain x where "thr t i = Some x" "k = t_idle_cnt x + 1"
          using k assms(4,7) by (auto simp: tidles_def t_age_def)
        then show ?thesis using True assms(2) unat_Suc_le by (simp add: tidles_def)
      qed (use k assms(7) in \<open>simp add: tidles_def\<close>)
    qed
  qed
  ultimately show ?thesis using assms(1,3,5-7) unfolding aged_list_def by auto
qed

lemma reschedule_prefix:
  fixes s :: "('d, 'z) sched_scheme"
  assumes inv: "sched_inv s" and c: "c < unat (buf_size (cpus s))"
  shows "\<exists>h m. aged_list s m \<and> (let u = s\<lparr>scheduler_lock := True, hw := h, task_list := m\<rparr> in
      reschedule G s c r = (case candidate s of None \<Rightarrow> Some (None, leave_sched u c r)
        | Some (p, i) \<Rightarrow> do { u \<leftarrow> save_last G u c r (cur s); (rn, u) \<leftarrow> switch_to G u c p i; Some (Some rn, u) }))"
proof -
  define h where "h = (if from_user r then (hw s)(c := swapgs (hw s c)) else hw s)"
  have I: "map_inv (task_list s)" "\<forall>p t. tasks s p = Some t \<longrightarrow> map_inv (threads t)" "cpus_ok s" "\<not> scheduler_lock s"
    using inv by (auto simp: sched_inv_def)
  let ?s0 = "s\<lparr>scheduler_lock := True, hw := h\<rparr>" and ?pick = "pick_pid (vec_list (data (task_list s)))"
  have s0: "spin_lock (scheduler_lock s) = Some True" "swap_if (from_user r) (s\<lparr>scheduler_lock := True\<rparr>) c = ?s0"
    using I(4) by (simp_all add: spin_lock_def swap_if_def on_hw_def h_def)
  obtain m1 where m1: "next_pid_loop G ?s0 0 (unat (map_size (task_list ?s0))) 0 (-1) = Some (?pick, ?s0\<lparr>task_list := m1\<rparr>)"
    "map_inv m1" "tags m1 = tags (task_list s)" "map_abs m1 = map_option age \<circ> tasks s"
    using next_pid_step [of ?s0 G] I(1) by auto
  have a1: "aged_list s m1" by (rule aged_list_tasks [OF m1(2,3) I(2) m1(4)])
  let ?s1 = "s\<lparr>scheduler_lock := True, hw := h, task_list := m1\<rparr>"
  have core: "core_read ?s1 c = Some (cur s)" using sched_core(3) [OF I(3) c] by (simp add: core_read_def core_local_def)
  define p where "p = (if ?pick = -1 then cpu_pid (cur s) else ?pick)"
  show ?thesis
  proof (cases "p = -1")
    case True
    then have "reschedule G s c r = Some (None, leave_sched ?s1 c r)" "candidate s = None"
      using s0 m1(1) core by (auto simp: reschedule_def candidate_def Let_def p_def split: if_splits)
    then show ?thesis using a1 by (intro exI [of _ h] exI [of _ m1]) simp
  next
    case False
    obtain t where t: "tasks s p = Some t" using chosen_task [OF inv p_def False] by blast
    then have t1: "map_abs m1 p = Some (age t)" using m1(4) by simp
    have th: "map_inv (threads (age t))" "threads (age t) = threads t" using I(2) t by (simp_all add: age_def)
    let ?tid = "pick_tid (vec_list (data (threads t)))"
    obtain n where n: "next_tid_loop G (age t) 0 (unat (map_size (threads (age t)))) 0 (-1) = Some (?tid, (age t)\<lparr>threads := n\<rparr>)"
      "map_inv n" "map_abs n = map_option t_age \<circ> thr (age t)"
      using next_tid_step [OF th(1), of G] unfolding th(2) by blast
    obtain m where m: "task_put G ?s1 p ((age t)\<lparr>threads := n\<rparr>) = Some (?s1\<lparr>task_list := m\<rparr>)" "map_inv m" "tags m = tags m1"
      "map_abs m = (map_abs m1)(p \<mapsto> (age t)\<lparr>threads := n\<rparr>)"
      using task_put_present [of ?s1 p G "(age t)\<lparr>threads := n\<rparr>"] m1(2) t1 by auto
    have "tidles s q i = tidles (s\<lparr>task_list := m1\<rparr>) q i" for q i
      using m1(4) by (cases "tasks s q") (simp_all add: tidles_def age_def)
    then have a2: "aged_list s m" by (rule aged_list_threads [OF a1 t1 n(2,3) m(2-4)])
    have g: "task_get G ?s1 p = Some (age t, ?s1)" by (rule task_get_present) (simp_all add: m1(2) t1)
    let ?u = "s\<lparr>scheduler_lock := True, hw := h, task_list := m\<rparr>"
    have "reschedule G s c r = (if ?tid = -1 then Some (None, leave_sched ?u c r)
        else do { u \<leftarrow> save_last G ?u c r (cur s); (rn, u) \<leftarrow> switch_to G u c p ?tid; Some (Some rn, u) })"
      using s0 m1(1) core False g n(1) m(1) th(2) by (simp add: reschedule_def Let_def p_def [symmetric]) (auto simp: p_def)
    moreover have "candidate s = (if ?tid = -1 then None else Some (p, ?tid))"
      using False t by (simp add: candidate_def Let_def p_def [symmetric])
    ultimately show ?thesis using a2 by (intro exI [of _ h] exI [of _ m]) simp
  qed
qed

lemma save_last_prefix:
  fixes u :: "('d, 'z) sched_scheme"
  assumes "map_inv (task_list u)" and "\<forall>p t. tasks u p = Some t \<longrightarrow> map_inv (threads t)"
    and "one_running (sigs u) (cpu_pid k) (cpu_tid k)"
    and "tasks u p = Some t" and "thr t i = Some x" and "t_status x = task_waiting"
  shows "\<exists>m t' x'. save_last G u c r k = Some (u\<lparr>task_list := m\<rparr>) \<and> map_inv m \<and> tags m = tags (task_list u)
    \<and> (\<forall>p t. map_abs m p = Some t \<longrightarrow> map_inv (threads t)) \<and> idles (u\<lparr>task_list := m\<rparr>) = idles u
    \<and> tidles (u\<lparr>task_list := m\<rparr>) = tidles u
    \<and> sigs (u\<lparr>task_list := m\<rparr>) = (if cpu_tid k \<noteq> -1 \<and> cpu_pid k \<noteq> -1 then mark (sigs u) (cpu_pid k) (cpu_tid k) task_waiting else sigs u)
    \<and> map_abs m p = Some t' \<and> thr t' i = Some x' \<and> regs_cur x' = regs_cur x"
proof (cases "cpu_tid k \<noteq> -1 \<and> cpu_pid k \<noteq> -1")
  case False
  then show ?thesis using assms by (intro exI [of _ "task_list u"] exI [of _ t] exI [of _ x]) (auto simp: save_last_def)
next
  case True
  then have "thread_at (sigs u) (cpu_pid k) (cpu_tid k) = Some task_running" using assms(3) by (simp add: one_running_def)
  then obtain tk xk where k: "tasks u (cpu_pid k) = Some tk" "thr tk (cpu_tid k) = Some xk" "t_status xk = task_running"
    by (cases "tasks u (cpu_pid k)") (auto simp: thread_at_sigs)
  have "map_inv (threads tk)" using assms(2) k(1) by blast
  then obtain m t' where m: "save_last G u c r k = Some (u\<lparr>task_list := m\<rparr>)" "map_inv m" "tags m = tags (task_list u)"
    "map_abs m = (tasks u)(cpu_pid k \<mapsto> t')" "map_inv (threads t')" "idle_cnt t' = idle_cnt tk"
    "\<forall>j. j \<noteq> cpu_tid k \<longrightarrow> thr t' j = thr tk j" "tidles (u\<lparr>task_list := m\<rparr>) = tidles u"
    "sigs (u\<lparr>task_list := m\<rparr>) = mark (sigs u) (cpu_pid k) (cpu_tid k) task_waiting"
    using save_last_effect [OF assms(1) k(1) _ k(2)] True by blast
  have "idles (u\<lparr>task_list := m\<rparr>) = idles u" using idles_upd [OF m(4)] m(6) k(1) by (auto simp: idles_def)
  moreover have "\<exists>t' x'. map_abs m p = Some t' \<and> thr t' i = Some x' \<and> regs_cur x' = regs_cur x"
  proof (cases "p = cpu_pid k")
    case True
    then have "t = tk" using assms(4) k(1) by simp
    moreover from this have "i \<noteq> cpu_tid k" using assms(5,6) k(2,3) by auto
    ultimately show ?thesis using m(4,7) True assms(5) by auto
  qed (use m(4) assms(4,5) in auto)
  moreover have "\<forall>p t. map_abs m p = Some t \<longrightarrow> map_inv (threads t)" using m(4,5) assms(2) by auto
  ultimately show ?thesis using m(1-3,8,9) True by auto
qed

lemma sched_core_list:
  assumes "cpus_ok s" and "core_ok (s\<lparr>cpus := v\<rparr>) c" and "buf_size v = buf_size (cpus s)" and "vec_list v = (vec_list (cpus s))[0 := k]"
    and "user_stack k = 0"
  shows "cpus_ok (s'\<lparr>cpus := v\<rparr>)" and "cur (s'\<lparr>cpus := v\<rparr>) = k"
proof -
  have ok: "vec_ok (cpus s)" "vec_ok v" using assms(1,2) by (simp_all add: cpus_ok_def core_ok_def)
  have "0 < length (vec_list (cpus s))" using assms(1) ok by (simp add: cpus_ok_def word_less_nat_alt)
  then show "cur (s'\<lparr>cpus := v\<rparr>) = k" using assms(4) by (simp add: cur_def)
  show "cpus_ok (s'\<lparr>cpus := v\<rparr>)"
    using ok(2) assms(1,3,4,5) set_update_subset_insert [of "vec_list (cpus s)" 0 k] by (auto simp: cpus_ok_def)
qed

text \<open>The state after the loops and before the decision.\<close>

definition prepared :: "('d, 'z) sched_scheme \<Rightarrow> ('d, 'z) sched_scheme \<Rightarrow> bool" where
  "prepared s u \<longleftrightarrow> aged_list s (task_list u) \<and> cpus u = cpus s \<and> mtables u = mtables s \<and> memory u = memory s
     \<and> task_cnt u = task_cnt s \<and> thread_cnt u = thread_cnt s \<and> kernel_mapping u = kernel_mapping s"

lemma prepared_facts:
  assumes "prepared s u"
  shows "sigs u = sigs s" and "idles u = (\<lambda>q. map_option (\<lambda>n. n + 1) (idles s q))" and "map_inv (task_list u)"
    and "\<forall>p t. tasks u p = Some t \<longrightarrow> map_inv (threads t)" and "tags (task_list u) = tags (task_list s)"
    and "cpus u = cpus s" and "mtables u = mtables s" and "memory u = memory s" and "task_cnt u = task_cnt s"
    and "thread_cnt u = thread_cnt s" and "kernel_mapping u = kernel_mapping s" and "aged_list s (task_list u)"
proof -
  show a: "aged_list s (task_list u)" using assms by (simp add: prepared_def)
  show "cpus u = cpus s" "mtables u = mtables s" "memory u = memory s" "task_cnt u = task_cnt s"
    "thread_cnt u = thread_cnt s" "kernel_mapping u = kernel_mapping s"
    using assms by (simp_all add: prepared_def)
  have "sigs u = sigs (s\<lparr>task_list := task_list u\<rparr>)" "idles u = idles (s\<lparr>task_list := task_list u\<rparr>)"
    by (simp_all add: sigs_def idles_def)
  then show "sigs u = sigs s" "idles u = (\<lambda>q. map_option (\<lambda>n. n + 1) (idles s q))" "map_inv (task_list u)"
    "\<forall>p t. tasks u p = Some t \<longrightarrow> map_inv (threads t)" "tags (task_list u) = tags (task_list s)"
    using a unfolding aged_list_def by metis+
qed

lemma leave_effect:
  fixes s :: "('d, 'z) sched_scheme"
  assumes inv: "sched_inv s" and u: "prepared s u"
  shows "sched_inv (leave_sched u c r) \<and> same_frame s (leave_sched u c r) \<and> aged s (leave_sched u c r)"
proof -
  note fu = prepared_facts [OF u]
  have f: "cpus (leave_sched u c r) = cpus u" "mtables (leave_sched u c r) = mtables u" "task_list (leave_sched u c r) = task_list u"
    "memory (leave_sched u c r) = memory u" "task_cnt (leave_sched u c r) = task_cnt u" "thread_cnt (leave_sched u c r) = thread_cnt u"
    "kernel_mapping (leave_sched u c r) = kernel_mapping u" "\<not> scheduler_lock (leave_sched u c r)"
    by (simp_all add: leave_sched_def swap_if_def on_hw_def)
  then have "sigs (leave_sched u c r) = sigs u" "idles (leave_sched u c r) = idles u" "cur (leave_sched u c r) = cur u"
    by (simp_all add: sigs_def idles_def cur_def)
  moreover have "tids_step s (leave_sched u c r)" using fu(12) f(3) by (simp add: aged_list_def tids_step_def tidles_def)
  ultimately show ?thesis
    using inv f fu by (auto simp: sched_inv_def same_frame_def aged_def cpus_ok_def cur_def)
qed

lemma switch_effect:
  fixes s :: "('d, 'z) sched_scheme"
  assumes inv: "sched_inv s" and c: "c < unat (buf_size (cpus s))" and u: "prepared s u" and cand: "candidate s = Some (p, i)"
  shows "\<exists>s' t x. (save_last G u c r (cur s) \<bind> (\<lambda>u. switch_to G u c p i)) = Some (regs_cur x, s') \<and> tasks s p = Some t \<and> thr t i = Some x
    \<and> sched_inv s' \<and> same_frame s s' \<and> switched s p i s'"
proof -
  note su = prepared_facts [OF u]
  have I: "wf_sigs (dom (mtables s)) (sigs s)" "cpus_ok s" "one_running (sigs s) (cpu_pid (cur s)) (cpu_tid (cur s))"
    using inv by (auto simp: sched_inv_def)
  obtain t x where t: "tasks s p = Some t" "thr t i = Some x" "t_status x = task_waiting" "p \<noteq> -1" "i \<noteq> -1"
    and why: "status t = task_waiting \<or> p = cpu_pid (cur s)"
    using candidate_waiting [OF inv cand] by metis
  obtain t1 x1 where t1: "tasks u p = Some t1" "thr t1 i = Some x1" "regs_cur x1 = regs_cur x"
    using su(12) t(1,2) unfolding aged_list_def by metis
  have w: "thread_at (sigs s) p i = Some task_waiting" using t by (simp add: thread_at_sigs)
  then have "t_status x1 = task_waiting" using t1 su(1) thread_at_sigs [of u p i] by simp
  then obtain m2 t2 x2 where s2: "save_last G u c r (cur s) = Some (u\<lparr>task_list := m2\<rparr>)" "map_inv m2" "tags m2 = tags (task_list u)"
    "\<forall>p t. map_abs m2 p = Some t \<longrightarrow> map_inv (threads t)" "idles (u\<lparr>task_list := m2\<rparr>) = idles u"
    "tidles (u\<lparr>task_list := m2\<rparr>) = tidles u" "sigs (u\<lparr>task_list := m2\<rparr>) = (if cpu_tid (cur s) \<noteq> -1 \<and> cpu_pid (cur s) \<noteq> -1
       then mark (sigs u) (cpu_pid (cur s)) (cpu_tid (cur s)) task_waiting else sigs u)"
    "map_abs m2 p = Some t2" "thr t2 i = Some x2" "regs_cur x2 = regs_cur x1"
    using save_last_prefix [OF su(3,4) _ t1(1,2), of "cur s" G c r] I(3) su(1) by auto
  let ?u2 = "u\<lparr>task_list := m2\<rparr>"
  have wf2: "wf_sigs (dom (mtables s)) (sigs ?u2)" using s2(7) su(1) I(1) by (simp add: wf_sigs_mark)
  obtain tb where tb: "mtables ?u2 (page_map t2) = Some tb"
    using wf_pid(3) [OF wf2, of p t2] s2(8) t(4) su(7) by auto
  have cu: "core_ok ?u2 c" "core_local ?u2 c = Some 0" "core_read ?u2 c = Some (cur s)" "cpus_ok ?u2"
    using sched_core [OF I(2) c] I(2) su(6) by (simp_all add: core_ok_def core_local_def core_read_def cpus_ok_def)
  obtain m3 n v h' j where s3: "switch_to G ?u2 c p i = Some (regs_cur x2,
      ?u2\<lparr>cpus := v, task_list := m3, hw := h', eoi_log := c # eoi_log ?u2, scheduler_lock := False\<rparr>)"
    "map_inv m3" "tags m3 = tags m2" "map_abs m3 = (tasks ?u2)(p \<mapsto> t2\<lparr>threads := n, idle_cnt := 0, status := task_running\<rparr>)"
    "map_inv n" "map_abs n = (thr t2)(i \<mapsto> x2\<lparr>t_idle_cnt := 0, t_status := task_running\<rparr>)"
    "core_local ?u2 c = Some j" "core_ok (?u2\<lparr>cpus := v\<rparr>) c" "buf_size v = buf_size (cpus s)"
    "vec_list v = (vec_list (cpus s))[unat j := (cur s)\<lparr>cpu_pid := p, cpu_tid := i, errno := t_errno x2, cpu_page_map := page_map t2\<rparr>]"
    using switch_to_effect [of ?u2 p t2 i x2 c "cur s" tb G] s2 cu tb su(6) by auto
  define s' where "s' = ?u2\<lparr>cpus := v, task_list := m3, hw := h', eoi_log := c # eoi_log ?u2, scheduler_lock := False\<rparr>"
  have "sigs (?u2\<lparr>task_list := m3\<rparr>) = mark (sigs ?u2) p i task_running"
    by (rule sigs_mark [where t = t2 and t' = "t2\<lparr>threads := n, idle_cnt := 0, status := task_running\<rparr>" and x = x2 and x' = "x2\<lparr>t_idle_cnt := 0, t_status := task_running\<rparr>"])
      (use s2(8,9) s3(4,6) in simp_all)
  then have sg: "sigs s' = dispatch (sigs s) (cpu_pid (cur s)) (cpu_tid (cur s)) p i"
    using s2(7) su(1) by (simp add: dispatch_def s'_def sigs_def)
  have id: "idles s' = (\<lambda>q. map_option (\<lambda>n. n + 1) (idles s q))(p \<mapsto> 0)"
    using idles_upd [OF s3(4)] s2(5) su(2) by (simp add: s'_def idles_def)
  have "user_stack (cur s) = 0"
    using I(2) by (simp add: cpus_ok_def cur_def word_less_nat_alt)
  then have cpu: "cpus_ok s'" "cur s' = (cur s)\<lparr>cpu_pid := p, cpu_tid := i, errno := t_errno x2, cpu_page_map := page_map t2\<rparr>"
    using sched_core_list [OF cu(4) s3(8), of "(cur s)\<lparr>cpu_pid := p, cpu_tid := i, errno := t_errno x2, cpu_page_map := page_map t2\<rparr>"
        "?u2\<lparr>task_list := m3, hw := h', eoi_log := c # eoi_log ?u2, scheduler_lock := False\<rparr>"] s3(7,9,10) cu(2) su(6)
    by (simp_all add: s'_def cur_def cpus_ok_def)
  have "one_running (sigs s') p i \<and> wf_sigs (dom (mtables s)) (sigs s')"
    unfolding sg using dispatch_one_running [OF I(3,1) w t(4,5)] why t(1) by (auto simp: task_at_sigs)
  moreover have "\<forall>q u. tasks s' q = Some u \<longrightarrow> map_inv (threads u)" using s2(4) s3(4,5) by (auto simp: s'_def)
  ultimately have "sched_inv s'" using s3(2) cpu su(7) by (simp add: sched_inv_def s'_def)
  moreover have "tids_step s s'"
  proof -
    have "tids_step s u" using su(12) by (simp add: aged_list_def tids_step_def tidles_def)
    moreover have "tidles s' q j = Some n' \<Longrightarrow> n' = 0 \<and> tidles u q j \<noteq> None \<or> tidles u q j = Some n'" for q j n'
      unfolding s2(6) [symmetric] using s2(8,9) s3(4,6) by (auto simp: s'_def tidles_def split: if_splits option.splits)
    ultimately show ?thesis by (fastforce simp: tids_step_def)
  qed
  then have "same_frame s s'" using su s2(3) s3(3,9) by (simp add: same_frame_def s'_def)
  moreover have "switched s p i s'" using sg id cpu(2) s3(9) by (simp add: switched_def) (simp add: s'_def)
  moreover have "(save_last G u c r (cur s) \<bind> (\<lambda>u. switch_to G u c p i)) = Some (regs_cur x, s')"
    using s2(1,10) s3(1) t1(3) by (simp add: s'_def)
  ultimately show ?thesis using t(1,2) by blast
qed

lemma reschedule_effect:
  fixes s :: "('d, 'z) sched_scheme"
  assumes inv: "sched_inv s" and c: "c < unat (buf_size (cpus s))"
  shows "\<exists>out s'. reschedule G s c r = Some (out, s') \<and> sched_inv s' \<and> same_frame s s'
    \<and> (case candidate s of None \<Rightarrow> out = None \<and> aged s s'
       | Some (p, i) \<Rightarrow> switched s p i s' \<and> (\<exists>t x. tasks s p = Some t \<and> thr t i = Some x \<and> out = Some (regs_cur x)))"
proof -
  obtain h m where m: "aged_list s m" and run: "let u = s\<lparr>scheduler_lock := True, hw := h, task_list := m\<rparr> in
      reschedule G s c r = (case candidate s of None \<Rightarrow> Some (None, leave_sched u c r)
        | Some (p, i) \<Rightarrow> do { u \<leftarrow> save_last G u c r (cur s); (rn, u) \<leftarrow> switch_to G u c p i; Some (Some rn, u) })"
    using reschedule_prefix [OF inv c] by blast
  define u where "u = s\<lparr>scheduler_lock := True, hw := h, task_list := m\<rparr>"
  have u: "prepared s u" using m by (simp add: prepared_def u_def)
  show ?thesis
  proof (cases "candidate s")
    case None
    then show ?thesis using run leave_effect [OF inv u] by (simp add: u_def [symmetric] Let_def)
  next
    case (Some pi)
    obtain p i where pi: "pi = (p, i)" by (cases pi)
    obtain s' t x where s': "(save_last G u c r (cur s) \<bind> (\<lambda>u. switch_to G u c p i)) = Some (regs_cur x, s')"
      "tasks s p = Some t" "thr t i = Some x" "sched_inv s'" "same_frame s s'" "switched s p i s'"
      using switch_effect [OF inv c u] Some pi by blast
    from s'(1) obtain w where "save_last G u c r (cur s) = Some w" "switch_to G w c p i = Some (regs_cur x, s')"
      by (auto simp: bind_eq_Some_conv)
    then have "reschedule G s c r = Some (Some (regs_cur x), s')" using run Some pi by (simp add: u_def [symmetric] Let_def)
    then show ?thesis using s' Some pi by auto
  qed
qed

section \<open>Creating tasks and threads\<close>

text \<open>Numbers are handed out in order.\<close>

definition counts_ok :: "('d, 'z) sched_scheme \<Rightarrow> bool" where
  "counts_ok s \<longleftrightarrow> (\<forall>p. tasks s p \<noteq> None \<longrightarrow> p = -1 \<or> unat p < unat (task_cnt s))
     \<and> (\<forall>p i. tidles s p i \<noteq> None \<longrightarrow> unat i < unat (thread_cnt s))"

definition task_room :: "('z sys_scheme) \<Rightarrow> bool" where
  "task_room s \<longleftrightarrow> 224 * (unat (map_size (task_list s)) + 2) \<le> 2 ^ 18"

definition thread_room :: "task \<Rightarrow> bool" where
  "thread_room t \<longleftrightarrow> 512 * (unat (map_size (threads t)) + 1) \<le> 2 ^ 18"

lemma task_room_types: "task_room s \<Longrightarrow> n \<le> Suc (unat (map_size (task_list s))) \<Longrightarrow> map_room (task_types g) n"
  by (simp add: task_room_def map_room_def seq_room_def task_types_def)

lemma thread_room_types: "thread_room t \<Longrightarrow> map_room (thread_types g) (unat (map_size (threads t)))"
  by (simp add: thread_room_def map_room_def seq_room_def thread_types_def)

lemma map_new_inv [simp]: "map_inv (map_new :: ('f, 't) kmap)" "map_abs (map_new :: ('f, 't) kmap) = Map.empty"
  by (simp_all add: map_inv_def map_ok_def map_abs_def map_new_def)

text \<open>Looking up the parent inserts an entry for a number that is not there.\<close>

lemma task_get_parent:
  assumes "map_inv (task_list s)" and "task_room s"
  shows "\<exists>t m. task_get G s p = Some (t, s\<lparr>task_list := m\<rparr>) \<and> map_inv m \<and> unat (map_size m) \<le> Suc (unat (map_size (task_list s)))
    \<and> map_abs m = (if tasks s p = None then (tasks s)(p \<mapsto> task_ctor (junk_task G)) else tasks s)"
proof (cases "tasks s p")
  case None
  let ?T = "task_types (junk_task G)"
  have room: "map_room ?T (unat (map_size (task_list s)))" using task_room_types [OF assms(2)] by simp
  obtain i m where m: "map_index ?T (task_list s) p = Some (i, m)" "map_inv m"
    "vec_list (tags m) = vec_list (tags (task_list s)) @ [p]"
    using map_index_absent [OF assms(1) None room] by blast
  have d: "default_data ?T = task_ctor (junk_task G)" by (simp add: task_types_def)
  obtain m' where m': "map_get ?T (task_list s) p = Some (task_ctor (junk_task G), m')" "map_abs m' = (tasks s)(p \<mapsto> task_ctor (junk_task G))"
    using kmap.get_absent [OF assms(1) room None] unfolding d by blast
  then have "m' = m" using m(1) by (auto simp: map_get_def bind_eq_Some_conv)
  moreover have "unat (map_size m) = Suc (unat (map_size (task_list s)))"
    using map_inv_lengths(2) [OF m(2)] map_inv_lengths(2) [OF assms(1)] m(3) by simp
  ultimately show ?thesis using m' m(2) None by (intro exI [of _ "task_ctor (junk_task G)"] exI [of _ m]) (simp add: task_get_def)
next
  case (Some t)
  then have "task_get G s p = Some (t, s\<lparr>task_list := task_list s\<rparr>)" using task_get_present [OF assms(1) Some] by simp
  then show ?thesis using Some assms(1) by (intro exI [of _ t] exI [of _ "task_list s"]) simp
qed

lemma small_not_m1: "unat x < 2 ^ 63 \<Longrightarrow> x \<noteq> (-1 :: 64 word)"
proof
  assume "unat x < 2 ^ 63" and "x = -1"
  moreover have "(-1 :: 64 word) = 18446744073709551615" by simp
  ultimately show False by simp
qed

lemma create_task_effect:
  fixes s :: "('d, 'z) sched_scheme"
  assumes inv: "sched_inv s" and cnt: "counts_ok s" and room: "task_room s" and pp: "pp = -1 \<or> tasks s pp \<noteq> None"
    and pm: "(if pm \<noteq> 0 then pm else kernel_mapping s) \<in> dom (mtables s)" and few: "unat (task_cnt s) < 2 ^ 63"
    and junk: "status (junk_task G) \<noteq> task_waiting"
  shows "\<exists>s' t. create_task G s pp pm = Some (task_cnt s, s') \<and> sched_inv s' \<and> counts_ok s' \<and> mtables s' = mtables s
    \<and> kernel_mapping s' = kernel_mapping s \<and> tasks s' (task_cnt s) = Some t \<and> status t = task_waiting \<and> thr t = Map.empty"
proof -
  have I: "map_inv (task_list s)" using inv by (simp add: sched_inv_def)
  obtain t0 m where m: "task_get G s pp = Some (t0, s\<lparr>task_list := m\<rparr>)" "map_inv m"
    "unat (map_size m) \<le> Suc (unat (map_size (task_list s)))"
    "map_abs m = (if tasks s pp = None then (tasks s)(pp \<mapsto> task_ctor (junk_task G)) else tasks s)"
    using task_get_parent [OF I room, of G pp] by blast
  let ?p = "task_cnt s"
  define t where "t = (task_ctor (junk_task G))\<lparr>ppid := pp, status := task_waiting,
     page_map := (if pm \<noteq> 0 then pm else kernel_mapping s), pid := ?p\<rparr>"
  have tf: "status t = task_waiting" "thr t = Map.empty" "map_inv (threads t)" "pid t = ?p"
    "page_map t = (if pm \<noteq> 0 then pm else kernel_mapping s)"
    by (simp_all add: t_def task_ctor_def)
  have pne: "?p \<noteq> -1" by (rule small_not_m1 [OF few])
  have fresh: "map_abs m ?p = None" using cnt pne pp m(4) by (auto simp: counts_ok_def)
  have "map_room (task_types (junk_task G)) (unat (map_size m))" by (rule task_room_types [OF room m(3)])
  then obtain m' where m': "map_put (task_types (junk_task G)) m ?p t = Some m'" "map_inv m'" "map_abs m' = (map_abs m)(?p \<mapsto> t)"
    using map_put_absent [OF m(2) fresh] by blast
  define s' where "s' = s\<lparr>task_cnt := ?p + 1, task_list := m'\<rparr>"
  have run: "create_task G s pp pm = Some (?p, s')"
    using m(1) m'(1) by (cases "pm = 0") (simp_all add: create_task_def Let_def t_def task_put_def s'_def)
  have T: "tasks s' = (if tasks s pp = None then (tasks s)(pp \<mapsto> task_ctor (junk_task G)) else tasks s)(?p \<mapsto> t)"
    using m'(3) m(4) by (simp add: s'_def)
  have j: "thr (task_ctor (junk_task G)) = Map.empty" "pid (task_ctor (junk_task G)) = -1" "map_inv (threads (task_ctor (junk_task G)))"
    "status (task_ctor (junk_task G)) \<noteq> task_waiting"
    using junk by (simp_all add: task_ctor_def)
  have wf: "wf_sigs (dom (mtables s)) (sigs s')"
    unfolding wf_sigs_def
  proof (intro allI impI)
    fix q x
    assume "sigs s' q = Some x"
    then obtain u where u: "tasks s' q = Some u" "x = sig u" by (auto simp: sigs_def)
    show "wf_sig (dom (mtables s)) q x"
    proof (cases "tasks s q = Some u \<and> q \<noteq> ?p")
      case True
      then have "sigs s q = Some x" using u(2) by (simp add: sigs_def)
      then show ?thesis using inv unfolding sched_inv_def wf_sigs_def by blast
    next
      case False
      then have "q = ?p \<and> u = t \<or> q = -1 \<and> u = task_ctor (junk_task G)" using u(1) T pp by (auto split: if_splits)
      then show ?thesis using u(2) tf j pm pne by (auto simp: wf_sig_def sig_def)
    qed
  qed
  have th: "thread_at (sigs s') q i = thread_at (sigs s) q i" for q i
    using T tf(2) j(1) fresh m(4) by (auto simp: thread_at_sigs split: if_splits option.splits)
  have tk: "task_at (sigs s') q = task_at (sigs s) q" if "q \<noteq> -1" "q \<noteq> ?p" for q
    using T that pp by (auto simp: task_at_sigs)
  have nop: "tasks s ?p = None" using cnt pne by (auto simp: counts_ok_def)
  have "task_at (sigs s') ?p = Some task_waiting" using T tf(1) by (simp add: task_at_sigs)
  moreover have "task_at (sigs s) ?p = None" using nop by (simp add: task_at_sigs)
  moreover have one: "one_running (sigs s) (cpu_pid (cur s)) (cpu_tid (cur s))" using inv by (simp add: sched_inv_def)
  ultimately have "one_running (sigs s') (cpu_pid (cur s)) (cpu_tid (cur s))"
    unfolding one_running_def th using tk status_distinct by (metis option.distinct(1) option.inject)
  moreover have "cpus_ok s'" "\<not> scheduler_lock s'" "cur s' = cur s" "mtables s' = mtables s" "kernel_mapping s' = kernel_mapping s"
    using inv by (simp_all add: sched_inv_def cpus_ok_def s'_def cur_def)
  moreover have "map_inv (task_list s')" using m'(2) by (simp add: s'_def)
  moreover have "\<forall>q u. tasks s' q = Some u \<longrightarrow> map_inv (threads u)" using inv T tf(3) j(3) by (auto simp: sched_inv_def split: if_splits)
  ultimately have "sched_inv s'" using wf by (simp add: sched_inv_def)
  moreover have "counts_ok s'"
  proof -
    have c1: "unat (task_cnt s') = Suc (unat ?p)" using few by (simp add: s'_def) (subst unat_add_lt; simp)
    have "q = -1 \<or> unat q < unat (task_cnt s')" if "tasks s' q \<noteq> None" for q
    proof (cases "q = ?p \<or> q = -1")
      case False
      then have "tasks s q \<noteq> None" using that T pp by (auto split: if_splits)
      then show ?thesis using cnt False c1 by (auto simp: counts_ok_def)
    qed (use c1 in auto)
    moreover have "tidles s' q i = tidles s q i" for q i
      using T tf(2) j(1) nop by (auto simp: tidles_def split: if_splits option.splits)
    ultimately show ?thesis using cnt by (auto simp: counts_ok_def s'_def)
  qed
  ultimately show ?thesis using run T tf by (intro exI [of _ s'] exI [of _ t]) (simp add: s'_def)
qed

text \<open>What creating a thread leaves alone.\<close>

definition quiet :: "('d, 'z) sched_scheme \<Rightarrow> ('d, 'z) sched_scheme \<Rightarrow> bool" where
  "quiet s s' \<longleftrightarrow> task_list s' = task_list s \<and> cpus s' = cpus s \<and> scheduler_lock s' = scheduler_lock s
     \<and> thread_cnt s' = thread_cnt s \<and> task_cnt s' = task_cnt s \<and> kernel_mapping s' = kernel_mapping s
     \<and> dom (mtables s') = dom (mtables s)"

lemma mmap_anonymous_frame:
  assumes "mmap G F s c p addr len prot map_anonymous fd = Some (a, s')"
  shows "\<exists>v t. s' = s\<lparr>memory := v, mtables := (mtables s)(p \<mapsto> t)\<rparr> \<and> p \<in> dom (mtables s)"
proof -
  have "map_anonymous AND map_fixed = 0" by (simp add: map_anonymous_def map_fixed_def)
  then show ?thesis
    using assms by (auto simp: mmap_def mmap_anon_def table_map_range_def bind_eq_Some_conv) blast
qed

lemma user_thread_quiet:
  assumes "user_thread G F s c pm aux argv envp x = Some (x', s')"
  shows "quiet s s' \<and> t_status x' = t_status x"
proof -
  obtain a s1 where s1: "mmap G F s c pm 0 (thread_stack_size + 0x1000) (0x3 OR 0x4) map_anonymous 0 = Some (a, s1)"
    and r: "(let (m, stack) = build_stack (view (env_of s1 c)) (a + thread_stack_size) aux argv envp;
       s = env_put s1 c ((env_of s1 c)\<lparr>view := m\<rparr>)
       in Some (x\<lparr>t_user_stack := a + thread_stack_size, regs_cur := (regs_cur x)\<lparr>ss := cs (regs_cur x) - 8, rsp := stack\<rparr>\<rparr>, s)) = Some (x', s')"
    using assms by (auto simp: user_thread_def bind_eq_Some_conv Let_def)
  obtain v t where v: "s1 = s\<lparr>memory := v, mtables := (mtables s)(pm \<mapsto> t)\<rparr>" "pm \<in> dom (mtables s)"
    using mmap_anonymous_frame [OF s1] by blast
  obtain m stack where "build_stack (view (env_of s1 c)) (a + thread_stack_size) aux argv envp = (m, stack)" by fastforce
  then have "s' = env_put s1 c ((env_of s1 c)\<lparr>view := m\<rparr>)" "t_status x' = t_status x" using r by auto
  then show ?thesis using v by (auto simp: quiet_def env_put_def)
qed

lemma sched_inv_quiet:
  assumes "quiet s s'"
  shows "sched_inv s' \<longleftrightarrow> sched_inv s" and "counts_ok s' \<longleftrightarrow> counts_ok s"
  using assms by (simp_all add: quiet_def sched_inv_def counts_ok_def sigs_def cpus_ok_def cur_def tidles_def)

lemma fresh_thread:
  assumes "counts_ok s" and "tasks s p = Some t"
  shows "thr t (thread_cnt s) = None"
proof (cases "thr t (thread_cnt s)")
  case (Some x)
  then have "tidles s p (thread_cnt s) \<noteq> None" using assms(2) by (simp add: tidles_def)
  then show ?thesis using assms(1) unfolding counts_ok_def by blast
qed

text \<open>Adding a waiting thread to a task.\<close>

lemma add_thread_inv:
  fixes s :: "('d, 'z) sched_scheme"
  assumes inv: "sched_inv s" and cnt: "counts_ok s" and t: "tasks s p = Some t" and p: "p \<noteq> -1"
    and few: "unat (thread_cnt s) < 2 ^ 63" and x: "tid x = thread_cnt s" "t_status x = task_waiting"
    and n: "map_inv n" "map_abs n = (thr t)(thread_cnt s \<mapsto> x)" and m: "map_inv m" "map_abs m = (tasks s)(p \<mapsto> t\<lparr>threads := n\<rparr>)"
  shows "sched_inv (s\<lparr>thread_cnt := thread_cnt s + 1, task_list := m\<rparr>) \<and> counts_ok (s\<lparr>thread_cnt := thread_cnt s + 1, task_list := m\<rparr>)"
proof -
  let ?i = "thread_cnt s" and ?s = "s\<lparr>thread_cnt := thread_cnt s + 1, task_list := m\<rparr>"
  have new: "thr t ?i = None" by (rule fresh_thread [OF cnt t])
  have ne: "?i \<noteq> -1" by (rule small_not_m1 [OF few])
  have S: "sigs ?s = (sigs s)(p \<mapsto> sig (t\<lparr>threads := n\<rparr>))" using m(2) by (auto simp: sigs_def)
  have sg: "sig (t\<lparr>threads := n\<rparr>) = (pid t, page_map t, status t, (\<lambda>j. map_option tsig (thr t j))(?i \<mapsto> (?i, task_waiting)))"
    using n(2) x by (auto simp: sig_def tsig_def)
  have W: "wf_sigs (dom (mtables s)) (sigs s)" using inv by (simp add: sched_inv_def)
  have "sigs s p = Some (sig t)" using t by (simp add: sigs_def)
  then have "wf_sig (dom (mtables s)) p (sig t)" using W unfolding wf_sigs_def by blast
  then have "wf_sig (dom (mtables s)) p (sig (t\<lparr>threads := n\<rparr>))"
    unfolding sg using p ne by (auto simp: wf_sig_def sig_def wf_thread_def)
  then have wf: "wf_sigs (dom (mtables s)) (sigs ?s)" using W by (auto simp: S wf_sigs_def)
  have th: "thread_at (sigs ?s) q j = (if q = p \<and> j = ?i then Some task_waiting else thread_at (sigs s) q j)" for q j
    using m(2) n(2) x(2) t by (auto simp: thread_at_sigs)
  have tk: "task_at (sigs ?s) q = task_at (sigs s) q" for q using m(2) t by (auto simp: task_at_sigs)
  have one: "one_running (sigs s) (cpu_pid (cur s)) (cpu_tid (cur s))" using inv by (simp add: sched_inv_def)
  have "thread_at (sigs s) p ?i = None" using new t by (simp add: thread_at_sigs)
  then have "thread_at (sigs ?s) q j = Some task_running \<longleftrightarrow> thread_at (sigs s) q j = Some task_running" for q j
    unfolding th by auto
  then have "one_running (sigs ?s) (cpu_pid (cur s)) (cpu_tid (cur s))"
    using one unfolding one_running_def tk by blast
  moreover have "cur ?s = cur s" by (simp add: cur_def)
  moreover have "\<forall>q u. tasks ?s q = Some u \<longrightarrow> map_inv (threads u)" using inv n(1) m(2) by (auto simp: sched_inv_def)
  ultimately have "sched_inv ?s" using wf inv m(1) by (simp add: sched_inv_def cpus_ok_def)
  moreover have "counts_ok ?s"
  proof -
    have c1: "unat (?i + 1) = Suc (unat ?i)" using few by (subst unat_add_lt) simp_all
    have "unat j < Suc (unat ?i)" if "tidles ?s q j \<noteq> None" for q j
    proof -
      have "tidles s q j \<noteq> None \<or> j = ?i"
        using that m(2) n(2) t by (auto simp: tidles_def split: if_splits option.splits)
      then show ?thesis using cnt less_SucI unfolding counts_ok_def by blast
    qed
    moreover have "tasks s q \<noteq> None" if "tasks ?s q \<noteq> None" for q using that m(2) t by (auto split: if_splits)
    ultimately show ?thesis using cnt c1 by (auto simp: counts_ok_def)
  qed
  ultimately show ?thesis ..
qed

text \<open>The thread is built first, without a change to the lists, and stored then.\<close>

lemma create_thread_cases:
  fixes s :: "('d, 'z) sched_scheme"
  assumes get: "task_get G s p = Some (t, s)" and run: "create_thread G F s c p ent sel aux argv envp = Some (i, s')"
    and "pid t \<noteq> -1"
  obtains x s2 where "quiet s s2" "t_status x = task_waiting" "(do {
       (t, s) \<leftarrow> task_get G (s2\<lparr>thread_cnt := thread_cnt s2 + 1\<rparr>) p;
       t \<leftarrow> thread_put G t (thread_cnt s2) (x\<lparr>tid := thread_cnt s2\<rparr>);
       s \<leftarrow> task_put G s p t;
       Some (thread_cnt s2, s)
     }) = Some (i, s')"
proof -
  obtain ks s1 where s1: "new_kernel_stack s = Some (ks, s1)"
    using run get assms(3) by (auto simp: create_thread_def bind_eq_Some_conv)
  then have q1: "quiet s s1" by (auto simp: new_kernel_stack_def quiet_def bind_eq_Some_conv)
  define y where "y = (thread_ctor (junk_thread G))\<lparr>t_status := task_waiting, t_kernel_stack := ks, user_gs_base := 0,
         user_fs_base := 0, t_user_stack := 0,
         regs_cur := (regs_cur (junk_thread G))\<lparr>rip := ent, cs := ucast sel, rflags := 0x202\<rparr>\<rparr>"
  let ?k = "y\<lparr>regs_cur := (regs_cur y)\<lparr>ss := ucast sel + 8, rsp := ks + high_vma_of (five_level s1)\<rparr>\<rparr>"
  have "((if sel AND 0x3 \<noteq> 0 then user_thread G F s1 c (page_map t) aux argv envp y else Some (?k, s1)) \<bind> (\<lambda>(x, s2). do {
       (t, s) \<leftarrow> task_get G (s2\<lparr>thread_cnt := thread_cnt s2 + 1\<rparr>) p;
       t \<leftarrow> thread_put G t (thread_cnt s2) (x\<lparr>tid := thread_cnt s2\<rparr>);
       s \<leftarrow> task_put G s p t;
       Some (thread_cnt s2, s)
     })) = Some (i, s')"
    using run assms(3) by (simp only: create_thread_def get s1 Option.bind.simps prod.case if_False Let_def y_def)
  then obtain xs where xs: "(if sel AND 0x3 \<noteq> 0 then user_thread G F s1 c (page_map t) aux argv envp y else Some (?k, s1)) = Some xs"
    and tl: "(case xs of (x, s2) \<Rightarrow> do {
       (t, s) \<leftarrow> task_get G (s2\<lparr>thread_cnt := thread_cnt s2 + 1\<rparr>) p;
       t \<leftarrow> thread_put G t (thread_cnt s2) (x\<lparr>tid := thread_cnt s2\<rparr>);
       s \<leftarrow> task_put G s p t;
       Some (thread_cnt s2, s)
     }) = Some (i, s')"
    unfolding bind_eq_Some_conv [of "if sel AND 0x3 \<noteq> 0 then _ else _"] by blast
  obtain x s2 where xe: "xs = (x, s2)" by (cases xs)
  note x = xs [unfolded xe] and rest = tl [unfolded xe prod.case]
  have w: "t_status y = task_waiting" "t_status ?k = task_waiting" by (simp_all add: y_def)
  have "quiet s1 s2 \<and> t_status x = task_waiting"
  proof (cases "sel AND 0x3 \<noteq> 0")
    case True
    then show ?thesis using x user_thread_quiet w by fastforce
  next
    case False
    have "Some (?k, s1) = Some (x, s2)" using x unfolding if_not_P [OF False] .
    then have "?k = x \<and> s1 = s2" by blast
    then show ?thesis using w unfolding quiet_def by metis
  qed
  moreover from this q1 have "quiet s s2" by (simp add: quiet_def)
  ultimately show thesis using that rest by blast
qed

lemma create_thread_effect:
  fixes s :: "('d, 'z) sched_scheme"
  assumes inv: "sched_inv s" and cnt: "counts_ok s" and t: "tasks s p = Some t" and p: "p \<noteq> -1"
    and room: "thread_room t" and few: "unat (thread_cnt s) < 2 ^ 63"
    and run: "create_thread G F s c p ent sel aux argv envp = Some (i, s')"
  shows "i = thread_cnt s \<and> sched_inv s' \<and> counts_ok s' \<and> dom (mtables s') = dom (mtables s) \<and> kernel_mapping s' = kernel_mapping s"
proof -
  have I: "map_inv (task_list s)" "map_inv (threads t)" "wf_sigs (dom (mtables s)) (sigs s)" using inv t by (auto simp: sched_inv_def)
  have "pid t \<noteq> -1" using wf_pid(1) [OF I(3) t] p by simp
  then obtain x s2 where q: "quiet s s2" "t_status x = task_waiting" and rest: "(do {
       (t, s) \<leftarrow> task_get G (s2\<lparr>thread_cnt := thread_cnt s2 + 1\<rparr>) p;
       t \<leftarrow> thread_put G t (thread_cnt s2) (x\<lparr>tid := thread_cnt s2\<rparr>);
       s \<leftarrow> task_put G s p t;
       Some (thread_cnt s2, s)
     }) = Some (i, s')"
    using create_thread_cases [OF task_get_present [OF I(1) t] run] by blast
  let ?i = "thread_cnt s" and ?x = "x\<lparr>tid := thread_cnt s\<rparr>"
  have e: "thread_cnt s2 = ?i" "task_list s2 = task_list s" using q(1) by (simp_all add: quiet_def)
  have new: "thr t ?i = None" by (rule fresh_thread [OF cnt t])
  obtain n where n: "thread_put G t ?i ?x = Some (t\<lparr>threads := n\<rparr>)" "map_inv n" "map_abs n = (thr t)(?i \<mapsto> ?x)"
  proof -
    obtain n where "map_put (thread_types (junk_thread G)) (threads t) ?i ?x = Some n" "map_inv n" "map_abs n = (thr t)(?i \<mapsto> ?x)"
      using map_put_absent [OF I(2) new thread_room_types [OF room], of "junk_thread G" ?x] by blast
    then show thesis using that by (simp add: thread_put_def)
  qed
  let ?s3 = "s2\<lparr>thread_cnt := ?i + 1\<rparr>"
  obtain m where m: "task_put G ?s3 p (t\<lparr>threads := n\<rparr>) = Some (?s3\<lparr>task_list := m\<rparr>)" "map_inv m" "map_abs m = (tasks s)(p \<mapsto> t\<lparr>threads := n\<rparr>)"
    using task_put_present [of ?s3 p G "t\<lparr>threads := n\<rparr>"] I(1) t e(2) by auto
  have "task_get G ?s3 p = Some (t, ?s3)" by (rule task_get_present) (use I(1) t e(2) in simp_all)
  then have r: "i = ?i" "s' = s2\<lparr>thread_cnt := thread_cnt s2 + 1, task_list := m\<rparr>" using rest n(1) m(1) e(1) by auto
  have "sched_inv s' \<and> counts_ok s'"
    unfolding r(2)
    by (rule add_thread_inv [where p = p and t = t and x = ?x and n = n])
      (use inv cnt t p few q sched_inv_quiet [OF q(1)] n m e in simp_all)
  then show ?thesis using r q(1) by (simp add: quiet_def)
qed

end
