(* ===== verification/Sched_Steps.thy ===== *)
theory Sched_Steps
  imports Sched_Inv
begin

text \<open>
  The scheduler as a transition system: every call of \<^verbatim>\<open>reschedule\<close> on a processor, every new task and
  every new thread is a step. The invariant holds in every state that is reached from boot; a task
  that waits gets the processor after at most as many timer interrupts as there are tasks.
\<close>

section \<open>Steps\<close>

text \<open>
  A new task has an existing parent, or the number \<open>-1\<close> of a processor that runs no task, and an existing
  page table; a new thread goes to an existing task. The guards on the sizes keep the lists inside the
  blocks of the heap and the numbers away from \<open>-1\<close>.
\<close>

inductive sched_step :: "('y fd_junk_scheme) \<Rightarrow> (ptr \<Rightarrow> 'd fs_ops option) \<Rightarrow> ('d, 'z) sched_scheme \<Rightarrow> ('d, 'z) sched_scheme \<Rightarrow> bool"
  for G F where
  tick: "c < unat (buf_size (cpus s)) \<Longrightarrow> reschedule G s c r = Some (out, s') \<Longrightarrow> sched_step G F s s'"
| new_task: "pp = -1 \<or> tasks s pp \<noteq> None \<Longrightarrow> (if pm \<noteq> 0 then pm else kernel_mapping s) \<in> dom (mtables s)
    \<Longrightarrow> task_room s \<Longrightarrow> unat (task_cnt s) < 2 ^ 63 \<Longrightarrow> create_task G s pp pm = Some (p, s') \<Longrightarrow> sched_step G F s s'"
| new_thread: "tasks s p = Some t \<Longrightarrow> p \<noteq> -1 \<Longrightarrow> thread_room t \<Longrightarrow> unat (thread_cnt s) < 2 ^ 63
    \<Longrightarrow> create_thread G F s c p ent sel aux argv envp = Some (i, s') \<Longrightarrow> sched_step G F s s'"

inductive_cases sched_stepE [elim]: "sched_step G F s s'"

text \<open>After the boot no task exists and the processor records name none.\<close>

definition sched_boot :: "('d, 'z) sched_scheme \<Rightarrow> bool" where
  "sched_boot s \<longleftrightarrow> task_list s = map_new \<and> cpus_ok s \<and> \<not> scheduler_lock s \<and> cpu_pid (cur s) = -1 \<and> cpu_tid (cur s) = -1"

inductive sched_reach :: "('y fd_junk_scheme) \<Rightarrow> (ptr \<Rightarrow> 'd fs_ops option) \<Rightarrow> ('d, 'z) sched_scheme \<Rightarrow> bool" for G F where
  boot: "sched_boot s \<Longrightarrow> sched_reach G F s"
| step: "sched_reach G F s \<Longrightarrow> sched_step G F s s' \<Longrightarrow> sched_reach G F s'"

lemma sched_boot_inv: "sched_boot s \<Longrightarrow> sched_inv s \<and> counts_ok s"
  by (auto simp: sched_boot_def sched_inv_def counts_ok_def wf_sigs_def sigs_def one_running_def thread_at_def task_at_def tidles_def)

lemma tick_counts:
  assumes "counts_ok s" and "same_frame s s'" and "dom (tasks s') = dom (tasks s)"
  shows "counts_ok s'"
  unfolding counts_ok_def
proof (intro conjI allI impI)
  fix p assume "tasks s' p \<noteq> None"
  then have "tasks s p \<noteq> None" using assms(3) by auto
  then show "p = -1 \<or> unat p < unat (task_cnt s')" using assms(1,2) by (auto simp: counts_ok_def same_frame_def)
next
  fix p i assume "tidles s' p i \<noteq> None"
  then have "tidles s p i \<noteq> None" using assms(2) by (fastforce simp: same_frame_def tids_step_def)
  then show "unat i < unat (thread_cnt s')" using assms(1,2) unfolding counts_ok_def same_frame_def by metis
qed

lemma same_frame_dom:
  assumes "sched_inv s" and "sched_inv s'" and "same_frame s s'"
  shows "dom (tasks s') = dom (tasks s)"
  using map_abs_dom [of "task_list s"] map_abs_dom [of "task_list s'"] assms by (simp add: sched_inv_def same_frame_def)

lemma sched_step_inv:
  assumes "sched_step G F s s'" and inv: "sched_inv s" and cnt: "counts_ok s" and junk: "status (junk_task G) \<noteq> task_waiting"
  shows "sched_inv s' \<and> counts_ok s'"
  using assms(1)
proof cases
  case (tick c r out)
  then obtain "sched_inv s'" "same_frame s s'" using reschedule_effect [OF inv tick(1), of G r] by auto
  then show ?thesis using tick_counts [OF cnt] same_frame_dom [OF inv] by blast
next
  case (new_task pp pm p)
  then show ?thesis using create_task_effect [OF inv cnt new_task(3,1,2,4) junk] by auto
next
  case (new_thread p t c ent sel aux argv envp i)
  then show ?thesis using create_thread_effect [OF inv cnt new_thread] by blast
qed

lemma sched_reach_inv:
  assumes "sched_reach G F s" and "status (junk_task G) \<noteq> task_waiting"
  shows "sched_inv s \<and> counts_ok s"
  using assms(1)
proof (induction rule: sched_reach.induct)
  case (boot s)
  then show ?case by (rule sched_boot_inv)
next
  case (step s s')
  then show ?case using sched_step_inv assms(2) by blast
qed

section \<open>Waiting tasks\<close>

definition populated :: "('z sys_scheme) \<Rightarrow> bool" where
  "populated s \<longleftrightarrow> (\<forall>q. q \<noteq> -1 \<and> task_at (sigs s) q \<noteq> None \<longrightarrow> (\<exists>i. thread_at (sigs s) q i \<noteq> None))"

text \<open>\<open>n\<close> more interrupts do not make a count wrap around.\<close>

definition no_wrap :: "('z sys_scheme) \<Rightarrow> nat \<Rightarrow> bool" where
  "no_wrap s n \<longleftrightarrow> (\<forall>q k. idles s q = Some k \<longrightarrow> unat k + n < 2 ^ 64) \<and> (\<forall>q i k. tidles s q i = Some k \<longrightarrow> unat k + n < 2 ^ 64)"

text \<open>The tasks that have not waited less than \<open>p\<close>.\<close>

definition ahead :: "('z sys_scheme) \<Rightarrow> ssize_t \<Rightarrow> ssize_t set" where
  "ahead s p = {q. q \<noteq> p \<and> (\<exists>k m. idles s q = Some k \<and> idles s p = Some m \<and> m \<le> k)}"

lemma no_wrap_mono:
  assumes "no_wrap s n" and "m \<le> n"
  shows "no_wrap s m"
proof -
  have "k + m < 2 ^ 64" if "k + n < 2 ^ 64" for k :: nat using that assms(2) by simp
  then show ?thesis using assms(1) unfolding no_wrap_def by blast
qed

lemma suc_no_wrap: "unat (k :: size_t) + Suc n < 2 ^ 64 \<Longrightarrow> unat (k + 1) = Suc (unat k)"
  by (subst unat_add_lt) simp_all

lemma pick_pid_present:
  assumes "map_inv (task_list s)" and "tasks s p = Some t" and "status t = task_waiting" and "unat (idle_cnt t) + 1 < 2 ^ 64"
  obtains q u where "tasks s q = Some u" "status u = task_waiting" "pick_pid (vec_list (data (task_list s))) = pid u"
    "idle_cnt t + 1 \<le> idle_cnt u + 1"
proof -
  let ?ts = "map age (vec_list (data (task_list s)))"
  have "t \<in> ran (tasks s)" using assms(2) by (auto simp: ran_def)
  then have "age t \<in> set ?ts" unfolding ran_map_abs [OF assms(1)] by simp
  moreover have "0 < idle_cnt (age t)" using suc_no_wrap [of "idle_cnt t" 0] assms(4) by (simp add: age_def word_less_nat_alt)
  moreover have "status (age t) = task_waiting" using assms(3) by (simp add: age_def)
  ultimately obtain y where y: "y \<in> set ?ts" "status y = task_waiting" "pick_pid (vec_list (data (task_list s))) = pid y"
    "\<forall>z \<in> set ?ts. status z = task_waiting \<longrightarrow> idle_cnt z \<le> idle_cnt y"
    using pick_some [of "age t" ?ts "\<lambda>t. status t = task_waiting" 0 idle_cnt pid "-1"] by blast
  from y(1) obtain u where u: "u \<in> ran (tasks s)" "y = age u" unfolding ran_map_abs [OF assms(1)] by auto
  then obtain q where "tasks s q = Some u" by (auto simp: ran_def)
  moreover have "idle_cnt (age t) \<le> idle_cnt y" using y(4) \<open>age t \<in> set ?ts\<close> \<open>status (age t) = task_waiting\<close> by blast
  ultimately show thesis using that y(2,3) u(2) by (simp add: age_def)
qed

lemma pick_tid_present:
  assumes "map_inv (threads t)" and "thr t i = Some x" and "t_status x = task_waiting" and "unat (t_idle_cnt x) + 1 < 2 ^ 64"
  shows "\<exists>j y. thr t j = Some y \<and> pick_tid (vec_list (data (threads t))) = tid y"
proof -
  let ?xs = "map t_age (vec_list (data (threads t)))"
  have "x \<in> ran (thr t)" using assms(2) by (auto simp: ran_def)
  then have "t_age x \<in> set ?xs" unfolding ran_map_abs [OF assms(1)] by simp
  moreover have "0 < t_idle_cnt (t_age x)" using suc_no_wrap [of "t_idle_cnt x" 0] assms(4) by (simp add: t_age_def word_less_nat_alt)
  moreover have "t_status (t_age x) = task_waiting" using assms(3) by (simp add: t_age_def)
  ultimately obtain y where y: "y \<in> set ?xs" "pick_tid (vec_list (data (threads t))) = tid y"
    using pick_some [of "t_age x" ?xs "\<lambda>x. t_status x = task_waiting" 0 t_idle_cnt tid "-1"] by blast
  from y(1) obtain u where "u \<in> ran (thr t)" "y = t_age u" unfolding ran_map_abs [OF assms(1)] by auto
  then show ?thesis using y(2) by (auto simp: ran_def t_age_def)
qed

text \<open>While a task waits there is a candidate, a waiting task that has not waited less.\<close>

lemma waiting_candidate:
  fixes s :: "('d, 'z) sched_scheme"
  assumes inv: "sched_inv s" and pop: "populated s" and nw: "no_wrap s 1" and w: "task_at (sigs s) p = Some task_waiting"
  shows "\<exists>q i k m. candidate s = Some (q, i) \<and> idles s q = Some k \<and> idles s p = Some m \<and> m \<le> k"
proof -
  have I: "map_inv (task_list s)" "wf_sigs (dom (mtables s)) (sigs s)" "one_running (sigs s) (cpu_pid (cur s)) (cpu_tid (cur s))"
    using inv by (simp_all add: sched_inv_def)
  obtain t where t: "tasks s p = Some t" "status t = task_waiting" using w by (auto simp: task_at_sigs)
  have n1: "unat (idle_cnt u) + 1 < 2 ^ 64" if "tasks s q = Some u" for q u
  proof -
    have "idles s q = Some (idle_cnt u)" using that by (simp add: idles_def)
    then show ?thesis using nw unfolding no_wrap_def by blast
  qed
  obtain q u where u: "tasks s q = Some u" "status u = task_waiting" "pick_pid (vec_list (data (task_list s))) = pid u"
    "idle_cnt t + 1 \<le> idle_cnt u + 1"
    using pick_pid_present [OF I(1) t n1 [OF t(1)]] .
  have q: "pid u = q" "q \<noteq> -1" using wf_pid(1,2) [OF I(2) u(1)] u(2) by auto
  have "task_at (sigs s) q \<noteq> None" using u(1) by (simp add: task_at_sigs)
  then obtain i where "thread_at (sigs s) q i \<noteq> None" using pop q(2) unfolding populated_def by blast
  then obtain x where x: "thr u i = Some x" using u(1) by (auto simp: thread_at_sigs)
  have "q \<noteq> cpu_pid (cur s)"
  proof
    assume "q = cpu_pid (cur s)"
    then have "task_at (sigs s) q = Some task_running" using I(3) q(2) unfolding one_running_def by blast
    then show False using u(1,2) by (simp add: task_at_sigs)
  qed
  then have "thread_at (sigs s) q i \<noteq> Some task_running" using I(3) unfolding one_running_def by blast
  then have nr: "t_status x \<noteq> task_running" using u(1) x by (simp add: thread_at_sigs)
  have "wf_sig (dom (mtables s)) q (sig u)" using I(2) u(1) by (simp add: wf_sigs_def sigs_def del: split_paired_All)
  then have "wf_thread i (tsig x)" using x by (cases "tsig x") (auto simp: wf_sig_def sig_def)
  then have xw: "t_status x = task_waiting" using nr by (simp add: wf_thread_def tsig_def)
  have "tidles s q i = Some (t_idle_cnt x)" using u(1) x by (simp add: tidles_def)
  then have "unat (t_idle_cnt x) + 1 < 2 ^ 64" using nw unfolding no_wrap_def by blast
  moreover have "map_inv (threads u)" using inv u(1) by (auto simp: sched_inv_def)
  ultimately obtain j y where y: "thr u j = Some y" "pick_tid (vec_list (data (threads u))) = tid y"
    using pick_tid_present [OF _ x xw] by blast
  have "tid y \<noteq> -1" using wf_pid(4,5) [OF I(2) u(1) y(1)] by simp
  then have "candidate s = Some (q, tid y)" using u(1,3) q y(2) by (simp add: candidate_def)
  moreover have "idle_cnt t \<le> idle_cnt u"
    using u(4) suc_no_wrap [of "idle_cnt t" 0] suc_no_wrap [of "idle_cnt u" 0] n1 [OF t(1)] n1 [OF u(1)] by (simp add: word_le_nat_alt)
  ultimately show ?thesis using u(1) t(1) by (simp add: idles_def)
qed

subsection \<open>One interrupt\<close>

lemma no_wrapI:
  assumes nw: "no_wrap s (Suc n)" and ts: "tids_step s s'"
    and id: "\<And>q k. idles s' q = Some k \<Longrightarrow> k = 0 \<and> n < 2 ^ 64 \<or> (\<exists>g. idles s q = Some g \<and> k = g + 1)"
  shows "no_wrap s' n"
  unfolding no_wrap_def
proof (intro conjI allI impI)
  fix q k assume "idles s' q = Some k"
  then consider "k = 0" "n < 2 ^ 64" | g where "idles s q = Some g" "k = g + 1" using id by blast
  then show "unat k + n < 2 ^ 64"
  proof cases
    case 2
    then have "unat g + Suc n < 2 ^ 64" using nw unfolding no_wrap_def by blast
    then show ?thesis using suc_no_wrap [of g n] 2(2) by simp
  qed simp
next
  fix q i k assume "tidles s' q i = Some k"
  then obtain g where g: "tidles s q i = Some g" "unat k \<le> Suc (unat g)" using ts unfolding tids_step_def by blast
  then have "unat g + Suc n < 2 ^ 64" using nw unfolding no_wrap_def by blast
  then show "unat k + n < 2 ^ 64" using g(2) by linarith
qed

lemma no_wrap_aged:
  assumes "no_wrap s (Suc n)" and "tids_step s s'" and "idles s' = (\<lambda>q. map_option (\<lambda>k. k + 1) (idles s q))"
  shows "no_wrap s' n"
  by (rule no_wrapI [OF assms(1,2)]) (auto simp: assms(3))

lemma no_wrap_step:
  assumes nw: "no_wrap s (Suc n)" and "tids_step s s'" and "idles s' = (\<lambda>q. map_option (\<lambda>k. k + 1) (idles s q))(p \<mapsto> 0)"
    and p: "idles s p = Some h"
  shows "no_wrap s' n"
proof -
  have "unat h + Suc n < 2 ^ 64" using nw p unfolding no_wrap_def by blast
  then have "n < 2 ^ 64" by linarith
  then show ?thesis by (intro no_wrapI [OF assms(1,2)]) (auto simp: assms(3) split: if_splits)
qed

lemma dispatch_present [simp]:
  "thread_at (dispatch S kp kt p i) q j = None \<longleftrightarrow> thread_at S q j = None"
  "task_at (dispatch S kp kt p i) q = None \<longleftrightarrow> task_at S q = None"
  by (auto simp: dispatch_def thread_at_mark task_at_mark)

lemma ahead_step:
  assumes nw: "no_wrap s 1" and id: "idles s' = (\<lambda>q. map_option (\<lambda>k. k + 1) (idles s q))(q \<mapsto> 0)" and "q \<noteq> p"
    and q: "idles s q = Some k" and p: "idles s p = Some m" and le: "m \<le> k"
  shows "ahead s' p \<subset> ahead s p"
proof -
  have suc: "unat (g + 1) = Suc (unat g)" if "idles s r = Some g" for r g
    using suc_no_wrap [of g 0] nw that unfolding no_wrap_def One_nat_def by blast
  have p': "idles s' p = Some (m + 1)" "0 < m + 1" using id p assms(3) suc [OF p] by (simp_all add: word_less_nat_alt)
  have "x \<in> ahead s p" if "x \<in> ahead s' p" for x
  proof -
    from that obtain g where x: "x \<noteq> p" "idles s' x = Some g" "m + 1 \<le> g" using p'(1) by (auto simp: ahead_def)
    then have "x \<noteq> q" using id p'(2) by auto
    then obtain h where h: "idles s x = Some h" "g = h + 1" using x(2) id by auto
    then have "m \<le> h" using x(3) suc [OF p] suc [OF h(1)] by (simp add: word_le_nat_alt)
    then show ?thesis using x(1) h(1) p by (auto simp: ahead_def)
  qed
  moreover have "q \<in> ahead s p" using assms(3) q p le by (auto simp: ahead_def)
  moreover have "q \<notin> ahead s' p" using id p' by (auto simp: ahead_def)
  ultimately show ?thesis by blast
qed

lemma tick_progress:
  fixes s :: "('d, 'z) sched_scheme"
  assumes inv: "sched_inv s" and c: "c < unat (buf_size (cpus s))" and pop: "populated s" and nw: "no_wrap s (Suc n)"
    and w: "task_at (sigs s) p = Some task_waiting"
  shows "\<exists>out s'. reschedule G s c r = Some (out, s') \<and> sched_inv s' \<and> buf_size (cpus s') = buf_size (cpus s)
    \<and> populated s' \<and> no_wrap s' n
    \<and> (cpu_pid (cur s') = p \<or> task_at (sigs s') p = Some task_waiting \<and> ahead s' p \<subset> ahead s p)"
proof -
  have nw1: "no_wrap s 1" by (rule no_wrap_mono [OF nw]) simp
  obtain q i k m where cd: "candidate s = Some (q, i)" "idles s q = Some k" "idles s p = Some m" "m \<le> k"
    using waiting_candidate [OF inv pop nw1 w] by blast
  obtain out s' where s': "reschedule G s c r = Some (out, s')" "sched_inv s'" "same_frame s s'" "switched s q i s'"
    using reschedule_effect [OF inv c, of G r] cd(1) by auto
  have S: "sigs s' = dispatch (sigs s) (cpu_pid (cur s)) (cpu_tid (cur s)) q i"
    "idles s' = (\<lambda>q. map_option (\<lambda>n. n + 1) (idles s q))(q \<mapsto> 0)" "cpu_pid (cur s') = q" "buf_size (cpus s') = buf_size (cpus s)"
    "tids_step s s'"
    using s'(3,4) by (simp_all add: switched_def same_frame_def)
  have "populated s'" using pop unfolding populated_def S(1) dispatch_present .
  moreover have "no_wrap s' n" by (rule no_wrap_step [OF nw S(5,2) cd(2)])
  moreover have "task_at (sigs s') p = Some task_waiting \<and> ahead s' p \<subset> ahead s p" if "q \<noteq> p"
    using ahead_step [OF nw1 S(2) that cd(2-4)] that w by (auto simp: S(1) dispatch_def task_at_mark)
  ultimately show ?thesis using s' S by blast
qed

text \<open>A sequence of timer interrupts, each on some processor with the registers it interrupted.\<close>

fun run_ticks :: "('y junk_scheme) \<Rightarrow> ('d, 'z) sched_scheme \<Rightarrow> (nat \<times> regs) list \<Rightarrow> ('d, 'z) sched_scheme option" where
  "run_ticks G s [] = Some s"
| "run_ticks G s ((c, r) # xs) = do { (_, s) \<leftarrow> reschedule G s c r; run_ticks G s xs }"

lemma run_ticks_until:
  fixes s :: "('d, 'z) sched_scheme"
  assumes "sched_inv s" and "populated s" and "no_wrap s (length xs)" and "task_at (sigs s) p = Some task_waiting"
    and "\<forall>(c, r) \<in> set xs. c < unat (buf_size (cpus s))" and "card (ahead s p) < length xs" and "finite (ahead s p)"
  shows "\<exists>n s'. 0 < n \<and> n \<le> length xs \<and> run_ticks G s (take n xs) = Some s' \<and> sched_inv s' \<and> cpu_pid (cur s') = p"
  using assms
proof (induction xs arbitrary: s)
  case (Cons x xs)
  obtain c r where x: "x = (c, r)" by (cases x)
  have c: "c < unat (buf_size (cpus s))" using Cons.prems(5) x by simp
  obtain out s' where s': "reschedule G s c r = Some (out, s')" "sched_inv s'" "buf_size (cpus s') = buf_size (cpus s)"
    "populated s'" "no_wrap s' (length xs)"
    "cpu_pid (cur s') = p \<or> task_at (sigs s') p = Some task_waiting \<and> ahead s' p \<subset> ahead s p"
    using tick_progress [OF Cons.prems(1) c Cons.prems(2) Cons.prems(3) [unfolded list.size(4) add_Suc_right add_0_right] Cons.prems(4), of G r] by blast
  show ?case
  proof (cases "cpu_pid (cur s') = p")
    case True
    then show ?thesis using s'(1,2) x by (intro exI [of _ 1] exI [of _ s']) simp
  next
    case False
    then have a: "task_at (sigs s') p = Some task_waiting" "ahead s' p \<subset> ahead s p" using s'(6) by auto
    have "card (ahead s' p) < card (ahead s p)" by (rule psubset_card_mono [OF Cons.prems(7) a(2)])
    then have "card (ahead s' p) < length xs" using Cons.prems(6) by simp
    moreover have "finite (ahead s' p)" using a(2) Cons.prems(7) finite_subset by blast
    moreover have "\<forall>(c, r) \<in> set xs. c < unat (buf_size (cpus s'))" using Cons.prems(5) s'(3) by simp
    ultimately obtain n t where "n \<le> length xs" "run_ticks G s' (take n xs) = Some t" "sched_inv t" "cpu_pid (cur t) = p"
      using Cons.IH [OF s'(2,4,5) a(1)] by blast
    then show ?thesis using s'(1) x by (intro exI [of _ "Suc n"] exI [of _ t]) simp
  qed
qed simp

section \<open>Properties\<close>

lemma ahead_bound:
  assumes "idles s p = Some m" and "finite (dom (tasks s))"
  shows "finite (ahead s p)" and "card (ahead s p) < card (dom (tasks s))"
proof -
  have sub: "ahead s p \<subseteq> dom (tasks s) - {p}" by (auto simp: ahead_def idles_def)
  then show f: "finite (ahead s p)" using assms(2) finite_subset by blast
  have "p \<in> dom (tasks s)" using assms(1) by (auto simp: idles_def)
  then show "card (ahead s p) < card (dom (tasks s))"
    using sub by (intro psubset_card_mono [OF assms(2)]) blast
qed

lemma finite_tasks: "map_inv (task_list s) \<Longrightarrow> finite (dom (tasks s))"
  by (simp add: map_abs_dom)

text \<open>
  C7. In every state reached from the boot by timer interrupts on any processors, new tasks and new
  threads, no two threads are marked as running, and the one that is, if any, is the one the
  processor record names, in the task it names; the scheduler lock is free and the lists are intact.
\<close>

theorem reachable_one_running:
  assumes "sched_reach G F s" and "status (junk_task G) \<noteq> task_waiting"
  shows "sched_inv s
    \<and> (\<forall>p i t x. tasks s p = Some t \<and> thr t i = Some x \<and> t_status x = task_running
        \<longrightarrow> p = cpu_pid (cur s) \<and> i = cpu_tid (cur s) \<and> status t = task_running)"
proof -
  have inv: "sched_inv s" using sched_reach_inv [OF assms] ..
  have "p = cpu_pid (cur s) \<and> i = cpu_tid (cur s) \<and> status t = task_running"
    if "tasks s p = Some t" "thr t i = Some x" "t_status x = task_running" for p i t x
  proof -
    have one: "one_running (sigs s) (cpu_pid (cur s)) (cpu_tid (cur s))" and wf: "wf_sigs (dom (mtables s)) (sigs s)"
      using inv by (simp_all add: sched_inv_def)
    have "thread_at (sigs s) p i = Some task_running" using that by (simp add: thread_at_sigs)
    then have eq: "p = cpu_pid (cur s)" "i = cpu_tid (cur s)" using one unfolding one_running_def by blast+
    moreover have "i \<noteq> -1" by (rule wf_pid(5) [OF wf that(1,2)])
    ultimately have "task_at (sigs s) p = Some task_running" using one unfolding one_running_def by blast
    then show ?thesis using eq that(1) by (simp add: task_at_sigs)
  qed
  then show ?thesis using inv by blast
qed

text \<open>
  C8. A call of the scheduler always returns and refines one abstract step. When there is no candidate
  it returns to the interrupted code and only the counts change; otherwise the statuses change as
  \<open>dispatch\<close> says, the processor continues with the saved registers of the chosen thread, and the record
  of the processor names this thread.
\<close>

theorem reschedule_refines:
  fixes s :: "('d, 'z) sched_scheme"
  assumes "sched_inv s" and "c < unat (buf_size (cpus s))"
  shows "\<exists>out s'. reschedule G s c r = Some (out, s') \<and> sched_inv s'
    \<and> (case candidate s of None \<Rightarrow> out = None \<and> sigs s' = sigs s \<and> cpus s' = cpus s
       | Some (p, i) \<Rightarrow> sigs s' = dispatch (sigs s) (cpu_pid (cur s)) (cpu_tid (cur s)) p i
           \<and> cpu_pid (cur s') = p \<and> cpu_tid (cur s') = i
           \<and> (\<exists>t x. tasks s p = Some t \<and> thr t i = Some x \<and> t_status x = task_waiting \<and> out = Some (regs_cur x)))"
proof -
  obtain out s' where s': "reschedule G s c r = Some (out, s')" "sched_inv s'"
    "case candidate s of None \<Rightarrow> out = None \<and> aged s s'
       | Some (p, i) \<Rightarrow> switched s p i s' \<and> (\<exists>t x. tasks s p = Some t \<and> thr t i = Some x \<and> out = Some (regs_cur x))"
    using reschedule_effect [OF assms, of G r] by blast
  show ?thesis
  proof (cases "candidate s")
    case None
    then show ?thesis using s' by (auto simp: aged_def)
  next
    case (Some pi)
    obtain p i where pi: "pi = (p, i)" by (cases pi)
    obtain t x where "tasks s p = Some t" "thr t i = Some x" "t_status x = task_waiting"
      using candidate_waiting [OF assms(1)] Some pi by metis
    then show ?thesis using s' Some pi by (auto simp: switched_def)
  qed
qed

text \<open>
  C9. No task starves: when every task has a thread and no count is near its limit, a task that waits
  is running after at most as many timer interrupts as there are entries in the list of tasks,
  whatever processors take them.
\<close>

theorem waiting_task_runs:
  fixes s :: "('d, 'z) sched_scheme"
  assumes "sched_inv s" and "populated s" and "tasks s p = Some t" and "status t = task_waiting"
    and "length xs = card (dom (tasks s))" and "no_wrap s (length xs)" and "\<forall>(c, r) \<in> set xs. c < unat (buf_size (cpus s))"
  shows "\<exists>n s' t'. 0 < n \<and> n \<le> length xs \<and> run_ticks G s (take n xs) = Some s'
    \<and> cpu_pid (cur s') = p \<and> tasks s' p = Some t' \<and> status t' = task_running"
proof -
  have f: "finite (dom (tasks s))" using assms(1) finite_tasks by (auto simp: sched_inv_def)
  have w: "task_at (sigs s) p = Some task_waiting" using assms(3,4) by (simp add: task_at_sigs)
  have "idles s p = Some (idle_cnt t)" using assms(3) by (simp add: idles_def)
  note a = ahead_bound [OF this f]
  obtain n s' where s': "0 < n" "n \<le> length xs" "run_ticks G s (take n xs) = Some s'" "sched_inv s'" "cpu_pid (cur s') = p"
    using run_ticks_until [OF assms(1,2,6) w assms(7), of G] a assms(5) by auto
  have "p \<noteq> -1" using wf_pid(2) [of "dom (mtables s)" s p t] assms(1,3,4) by (auto simp: sched_inv_def)
  then have "task_at (sigs s') p = Some task_running" using s'(4,5) by (auto simp: sched_inv_def one_running_def)
  then show ?thesis using s' by (auto simp: task_at_sigs)
qed

text \<open>A task without threads that has waited longest is chosen, and no thread of it can be.\<close>

definition blocked :: "('d, 'z) sched_scheme \<Rightarrow> ssize_t \<Rightarrow> bool" where
  "blocked s p \<longleftrightarrow> (\<exists>t. tasks s p = Some t \<and> status t = task_waiting \<and> thr t = Map.empty
     \<and> (\<forall>q u. tasks s q = Some u \<and> status u = task_waiting \<and> q \<noteq> p \<longrightarrow> idle_cnt u < idle_cnt t))"

lemma blocked_candidate:
  fixes s :: "('d, 'z) sched_scheme"
  assumes inv: "sched_inv s" and b: "blocked s p" and nw: "no_wrap s 1"
  shows "candidate s = None"
proof -
  have I: "map_inv (task_list s)" "wf_sigs (dom (mtables s)) (sigs s)" using inv by (simp_all add: sched_inv_def)
  obtain t where t: "tasks s p = Some t" "status t = task_waiting" "thr t = Map.empty"
    and most: "\<And>q u. tasks s q = Some u \<Longrightarrow> status u = task_waiting \<Longrightarrow> q \<noteq> p \<Longrightarrow> idle_cnt u < idle_cnt t"
    using b by (auto simp: blocked_def)
  have n1: "unat (idle_cnt u) + 1 < 2 ^ 64" if "tasks s q = Some u" for q u
  proof -
    have "idles s q = Some (idle_cnt u)" using that by (simp add: idles_def)
    then show ?thesis using nw unfolding no_wrap_def by blast
  qed
  obtain q u where u: "tasks s q = Some u" "status u = task_waiting" "pick_pid (vec_list (data (task_list s))) = pid u"
    "idle_cnt t + 1 \<le> idle_cnt u + 1"
    using pick_pid_present [OF I(1) t(1,2) n1 [OF t(1)]] .
  have "idle_cnt t \<le> idle_cnt u"
    using u(4) suc_no_wrap [of "idle_cnt t" 0] suc_no_wrap [of "idle_cnt u" 0] n1 [OF t(1)] n1 [OF u(1)] by (simp add: word_le_nat_alt)
  then have q: "q = p" using most [OF u(1,2)] by (meson leD)
  have "pid u = p" using wf_pid(1) [OF I(2) u(1)] q by simp
  moreover have "map_inv (threads t)" using inv t(1) by (auto simp: sched_inv_def)
  then have "set (vec_list (data (threads t))) = {}" using ran_map_abs [of "threads t"] t(3) by simp
  then have "pick_tid (vec_list (data (threads t))) = -1" by simp
  moreover have "p \<noteq> -1" using wf_pid(2) [OF I(2) t(1)] t(2) by auto
  ultimately show ?thesis using u(3) t(1) by (simp add: candidate_def Let_def)
qed

lemma blocked_aged:
  assumes "aged s s'" and "blocked s p" and nw: "no_wrap s 1"
  shows "blocked s' p"
proof -
  obtain t where t: "tasks s p = Some t" "status t = task_waiting" "thr t = Map.empty"
    and most: "\<And>q u. tasks s q = Some u \<Longrightarrow> status u = task_waiting \<Longrightarrow> q \<noteq> p \<Longrightarrow> idle_cnt u < idle_cnt t"
    using assms(2) by (auto simp: blocked_def)
  have prev: "\<exists>u. tasks s q = Some u \<and> sig u = sig v \<and> unat (idle_cnt v) = Suc (unat (idle_cnt u))" if "tasks s' q = Some v" for q v
  proof -
    have "sigs s' q = Some (sig v)" "idles s' q = Some (idle_cnt v)" using that by (simp_all add: sigs_def idles_def)
    then have "sigs s q = Some (sig v)" "map_option (\<lambda>n. n + 1) (idles s q) = Some (idle_cnt v)"
      using assms(1) unfolding aged_def by simp_all
    then obtain u where u: "tasks s q = Some u" "sig u = sig v" "idle_cnt v = idle_cnt u + 1" by (auto simp: sigs_def idles_def)
    then have "idles s q = Some (idle_cnt u)" by (simp add: idles_def)
    then have "unat (idle_cnt u) + 1 < 2 ^ 64" using nw unfolding no_wrap_def by blast
    then show ?thesis using u suc_no_wrap [of "idle_cnt u" 0] by auto
  qed
  have "tasks s' p \<noteq> None"
  proof -
    have "sigs s' p \<noteq> None" using assms(1) t(1) by (simp add: aged_def sigs_def)
    then show ?thesis by (simp add: sigs_def)
  qed
  then obtain v where v: "tasks s' p = Some v" by auto
  obtain u where "tasks s p = Some u" "sig u = sig v" "unat (idle_cnt v) = Suc (unat (idle_cnt u))" using prev [OF v] by blast
  then have v': "status v = task_waiting" "(\<lambda>i. map_option tsig (thr v i)) = Map.empty" "unat (idle_cnt v) = Suc (unat (idle_cnt t))"
    using t by (auto simp: sig_def)
  then have "thr v i = None" for i using fun_cong [OF v'(2), of i] by simp
  then have "thr v = Map.empty" by auto
  moreover have "idle_cnt w < idle_cnt v" if w: "tasks s' q = Some w" "status w = task_waiting" "q \<noteq> p" for q w
  proof -
    obtain u where "tasks s q = Some u" "sig u = sig w" "unat (idle_cnt w) = Suc (unat (idle_cnt u))" using prev [OF w(1)] by blast
    then show ?thesis using most [of q u] w v'(3) by (auto simp: sig_def word_less_nat_alt)
  qed
  ultimately show ?thesis using v v'(1) by (auto simp: blocked_def)
qed

text \<open>
  A task is created waiting and without threads. When such a task has waited longer than any other,
  every timer interrupt chooses it, finds no thread and returns to the interrupted code: no other
  thread gets the processor, however long one waits.
\<close>

theorem empty_task_blocks:
  fixes s :: "('d, 'z) sched_scheme"
  assumes "sched_inv s" and "blocked s p" and "no_wrap s (length xs)" and "\<forall>(c, r) \<in> set xs. c < unat (buf_size (cpus s))"
  shows "\<exists>s'. run_ticks G s xs = Some s' \<and> sigs s' = sigs s \<and> cpus s' = cpus s"
  using assms
proof (induction xs arbitrary: s)
  case (Cons x xs)
  obtain c r where x: "x = (c, r)" by (cases x)
  have c: "c < unat (buf_size (cpus s))" using Cons.prems(4) x by simp
  have nw1: "no_wrap s 1" by (rule no_wrap_mono [OF Cons.prems(3)]) simp
  obtain s' where s': "reschedule G s c r = Some (None, s')" "sched_inv s'" "same_frame s s'" "aged s s'"
    using reschedule_effect [OF Cons.prems(1) c, of G r] blocked_candidate [OF Cons.prems(1,2) nw1] by auto
  have "no_wrap s (Suc (length xs))" "tids_step s s'" "idles s' = (\<lambda>q. map_option (\<lambda>k. k + 1) (idles s q))"
    using Cons.prems(3) s'(3,4) by (simp_all add: same_frame_def aged_def)
  then have "no_wrap s' (length xs)" by (rule no_wrap_aged)
  moreover have "\<forall>(c, r) \<in> set xs. c < unat (buf_size (cpus s'))" using Cons.prems(4) s'(3) by (simp add: same_frame_def)
  ultimately obtain t where "run_ticks G s' xs = Some t" "sigs t = sigs s'" "cpus t = cpus s'"
    using Cons.IH [OF s'(2) blocked_aged [OF s'(4) Cons.prems(2) nw1]] by blast
  then show ?case using s' x by (simp add: aged_def)
qed simp

section \<open>A small system\<close>

text \<open>One idle processor, and waiting tasks with waiting threads.\<close>

definition small_thread :: "tid_t \<Rightarrow> thread" where
  "small_thread i = zero_thread\<lparr>tid := i, t_status := task_waiting\<rparr>"

definition small_task :: "pid_t \<Rightarrow> size_t \<Rightarrow> (ssize_t \<times> thread) list \<Rightarrow> task" where
  "small_task p n xs = zero_task\<lparr>pid := p, status := task_waiting, idle_cnt := n, threads := kmap_of xs, page_map := 1\<rparr>"

definition small_sched :: "(ssize_t \<times> task) list \<Rightarrow> unit sched" where
  "small_sched ts = mm_sys.extend (small_mm_sys\<lparr>cpus := vec_of [zero_cpu\<lparr>cpu_pid := -1, cpu_tid := -1\<rparr>], task_list := kmap_of ts\<rparr>)
     (sched.fields False 2 3 [] (\<lambda>c. True))"

lemma small_sched_sel:
  "cpus (small_sched ts) = vec_of [zero_cpu\<lparr>cpu_pid := -1, cpu_tid := -1\<rparr>]" "task_list (small_sched ts) = kmap_of ts"
  "mtables (small_sched ts) = [1 \<mapsto> small_mm]" "\<not> scheduler_lock (small_sched ts)"
  by (simp_all add: small_sched_def mm_sys.defs sched.defs small_mm_sys_def fd_sys.defs)

lemma small_cpus: "cpus_ok (small_sched ts)" "cur (small_sched ts) = zero_cpu\<lparr>cpu_pid := -1, cpu_tid := -1\<rparr>"
  "buf_size (cpus (small_sched ts)) = 1"
proof -
  let ?k = "zero_cpu\<lparr>cpu_pid := -1, cpu_tid := -1\<rparr>"
  have v: "vec_ok (vec_of [?k])" "vec_list (vec_of [?k]) = [?k]" "buf_size (vec_of [?k]) = 1"
    using vec_of_list [of "[?k]"] by (simp_all add: vec_of_def)
  then show "cpus_ok (small_sched ts)" "cur (small_sched ts) = ?k" "buf_size (cpus (small_sched ts)) = 1"
    by (simp_all add: cpus_ok_def cur_def small_sched_sel) (simp add: zero_cpu_def)
qed

lemma small_thr:
  assumes "distinct is" and "length is < 2 ^ 64"
  shows "map_inv (threads (small_task p n (map (\<lambda>i. (i, small_thread i)) is)))"
    and "thr (small_task p n (map (\<lambda>i. (i, small_thread i)) is)) = (\<lambda>i. if i \<in> set is then Some (small_thread i) else None)"
proof -
  let ?xs = "map (\<lambda>i. (i, small_thread i)) is"
  have "map fst ?xs = is" by (simp add: comp_def)
  then have k: "map_inv (kmap_of ?xs)" "map_abs (kmap_of ?xs) = map_of ?xs"
    using kmap_of_inv [of ?xs] assms by simp_all
  moreover have "map_of ?xs = (\<lambda>i. if i \<in> set is then Some (small_thread i) else None)"
    by (induction "is") auto
  ultimately show "map_inv (threads (small_task p n ?xs))"
    "thr (small_task p n ?xs) = (\<lambda>i. if i \<in> set is then Some (small_thread i) else None)"
    by (simp_all add: small_task_def)
qed

definition small_list :: "(ssize_t \<times> size_t \<times> ssize_t list) list \<Rightarrow> (ssize_t \<times> task) list" where
  "small_list = map (\<lambda>(p, n, is). (p, small_task p n (map (\<lambda>i. (i, small_thread i)) is)))"

lemma small_sched_inv:
  assumes "distinct (map fst L)" and "length L < 2 ^ 64" and "\<forall>(p, n, is) \<in> set L. p \<noteq> -1 \<and> distinct is \<and> -1 \<notin> set is \<and> length is < 2 ^ 64"
  shows "sched_inv (small_sched (small_list L))"
    and "tasks (small_sched (small_list L)) = map_of (small_list L)"
proof -
  let ?s = "small_sched (small_list L)"
  have "map fst (small_list L) = map fst L" "length (small_list L) = length L" by (auto simp: small_list_def)
  then have k: "map_inv (task_list ?s)" "tasks ?s = map_of (small_list L)"
    using kmap_of_inv [of "small_list L"] assms(1,2) by (simp_all add: small_sched_sel)
  have el: "\<exists>n is. t = small_task p n (map (\<lambda>i. (i, small_thread i)) is) \<and> p \<noteq> -1 \<and> distinct is \<and> -1 \<notin> set is \<and> length is < 2 ^ 64"
    if "tasks ?s p = Some t" for p t
  proof -
    have "(p, t) \<in> set (small_list L)" using that k(2) by (simp add: map_of_SomeD)
    then obtain n "is" where L: "(p, n, is) \<in> set L" "t = small_task p n (map (\<lambda>i. (i, small_thread i)) is)"
      by (auto simp: small_list_def)
    moreover have "p \<noteq> -1 \<and> distinct is \<and> -1 \<notin> set is \<and> length is < 2 ^ 64" using assms(3) L(1) by blast
    ultimately show ?thesis by blast
  qed
  have "wf_sig (dom (mtables ?s)) p (sig t) \<and> map_inv (threads t) \<and> status t = task_waiting \<and> (\<forall>i x. thr t i = Some x \<longrightarrow> t_status x = task_waiting)"
    if tp: "tasks ?s p = Some t" for p t
  proof -
    obtain n "is" where t: "t = small_task p n (map (\<lambda>i. (i, small_thread i)) is)" "p \<noteq> -1" "distinct is" "-1 \<notin> set is" "length is < 2 ^ 64"
      using el [OF tp] by blast
    note th = small_thr [OF t(3,5), of p n]
    have f: "pid t = p" "page_map t = 1" "status t = task_waiting" using t(1) by (simp_all add: small_task_def)
    have sg: "sig t = (p, 1, task_waiting, \<lambda>i. if i \<in> set is then Some (i, task_waiting) else None)"
      unfolding sig_def f using th(2) unfolding t(1) [symmetric] by (auto simp: tsig_def small_thread_def)
    have "wf_sig (dom (mtables ?s)) p (sig t)"
      unfolding sg using t(2,4) by (auto simp: wf_sig_def wf_thread_def small_sched_sel)
    then show ?thesis using th f t(1) by (auto simp: small_thread_def split: if_splits)
  qed
  note all = this
  have "wf_sigs (dom (mtables ?s)) (sigs ?s)"
    unfolding wf_sigs_def
  proof (intro allI impI)
    fix p x assume "sigs ?s p = Some x"
    then obtain t where "tasks ?s p = Some t" "x = sig t" by (auto simp: sigs_def)
    then show "wf_sig (dom (mtables ?s)) p x" using all by blast
  qed
  moreover have "one_running (sigs ?s) (cpu_pid (cur ?s)) (cpu_tid (cur ?s))"
    using all by (auto simp: one_running_def small_cpus task_at_sigs thread_at_sigs split: option.splits)
  ultimately show "sched_inv ?s" using all k small_cpus(1) [of "small_list L"] small_sched_sel(4) [of "small_list L"] unfolding sched_inv_def by blast
  show "tasks ?s = map_of (small_list L)" by (rule k(2))
qed

lemma small_counts:
  assumes "distinct (map fst L)" and "length L < 2 ^ 64" and "\<forall>(p, n, is) \<in> set L. p \<noteq> -1 \<and> distinct is \<and> -1 \<notin> set is \<and> length is < 2 ^ 64"
    and "\<forall>(p, n, is) \<in> set L. unat n + k < 2 ^ 64" and "k < 2 ^ 64"
  shows "no_wrap (small_sched (small_list L)) k"
proof -
  let ?s = "small_sched (small_list L)"
  have el: "\<exists>n is. t = small_task p n (map (\<lambda>i. (i, small_thread i)) is) \<and> distinct is \<and> length is < 2 ^ 64 \<and> unat n + k < 2 ^ 64"
    if "tasks ?s p = Some t" for p t
  proof -
    have "(p, t) \<in> set (small_list L)" using that small_sched_inv(2) [OF assms(1-3)] by (simp add: map_of_SomeD)
    then obtain n "is" where L: "(p, n, is) \<in> set L" "t = small_task p n (map (\<lambda>i. (i, small_thread i)) is)"
      by (auto simp: small_list_def)
    moreover have "distinct is \<and> length is < 2 ^ 64" "unat n + k < 2 ^ 64" using assms(3,4) L(1) by blast+
    ultimately show ?thesis by blast
  qed
  have "unat h + k < 2 ^ 64" if h: "idles ?s p = Some h" for p h
  proof -
    obtain t where t: "tasks ?s p = Some t" "h = idle_cnt t" using h by (auto simp: idles_def)
    then show ?thesis using el [OF t(1)] by (auto simp: small_task_def)
  qed
  moreover have "unat h + k < 2 ^ 64" if h: "tidles ?s p i = Some h" for p i h
  proof -
    obtain t x where t: "tasks ?s p = Some t" "thr t i = Some x" "h = t_idle_cnt x"
      using h by (auto simp: tidles_def split: option.splits)
    obtain n "is" where "t = small_task p n (map (\<lambda>i. (i, small_thread i)) is)" "distinct is" "length is < 2 ^ 64"
      using el [OF t(1)] by blast
    then have "x = small_thread i" using small_thr(2) [of "is" p n] t(2) by (auto split: if_splits)
    then show ?thesis using t(3) assms(5) by (simp add: small_thread_def zero_thread_def)
  qed
  ultimately show ?thesis unfolding no_wrap_def by blast
qed

lemma small_task_sel [simp]: "status (small_task p n xs) = task_waiting" "idle_cnt (small_task p n xs) = n"
  by (simp_all add: small_task_def)

theorem reschedule_refines_witness:
  "\<exists>out s'. reschedule small_junk (small_sched (small_list [(0, 7, [0]), (1, 2, [1])])) 0 zero_regs = Some (out, s') \<and> sched_inv s'"
proof -
  let ?s = "small_sched (small_list [(0, 7, [0]), (1, 2, [1])])"
  have "sched_inv ?s" by (rule small_sched_inv) auto
  then show ?thesis using reschedule_refines [of ?s 0 small_junk zero_regs] small_cpus(3) by auto
qed

theorem waiting_task_runs_witness:
  "\<exists>n s' t'. n \<le> 2 \<and> run_ticks small_junk (small_sched (small_list [(0, 7, [0]), (1, 2, [1])])) (take n [(0, zero_regs), (0, zero_regs)]) = Some s'
    \<and> cpu_pid (cur s') = 1 \<and> tasks s' 1 = Some t' \<and> status t' = task_running"
proof -
  let ?L = "[(0, 7, [0]), (1, 2, [1])] :: (ssize_t \<times> size_t \<times> ssize_t list) list"
  let ?s = "small_sched (small_list ?L)"
  have i: "sched_inv ?s" "tasks ?s = map_of (small_list ?L)" by (rule small_sched_inv; auto)+
  have nw: "no_wrap ?s 2" by (rule small_counts) auto
  have t: "tasks ?s 0 = Some (small_task 0 7 [(0, small_thread 0)])" "tasks ?s 1 = Some (small_task 1 2 [(1, small_thread 1)])"
    "dom (tasks ?s) = {0, 1}"
    unfolding i(2) by (auto simp: small_list_def)
  have th: "thr (small_task 0 7 [(0, small_thread 0)]) 0 \<noteq> None" "thr (small_task 1 2 [(1, small_thread 1)]) 1 \<noteq> None"
    using small_thr(2) [of "[0]" 0 7] small_thr(2) [of "[1]" 1 2] by simp_all
  have "populated ?s"
    unfolding populated_def
  proof (intro allI impI)
    fix q assume "q \<noteq> -1 \<and> task_at (sigs ?s) q \<noteq> None"
    then have "q \<in> dom (tasks ?s)" by (auto simp: task_at_sigs)
    then have "q = 0 \<or> q = 1" using t(3) by simp
    then show "\<exists>i. thread_at (sigs ?s) q i \<noteq> None"
    proof
      assume "q = 0"
      then show ?thesis using t(1) th(1) by (intro exI [of _ 0]) (simp add: thread_at_sigs)
    next
      assume "q = 1"
      then show ?thesis using t(2) th(2) by (intro exI [of _ 1]) (simp add: thread_at_sigs)
    qed
  qed
  then show ?thesis
    using waiting_task_runs [OF i(1) _ t(2), of "[(0, zero_regs), (0, zero_regs)]" small_junk]
      nw [unfolded numeral_2_eq_2] t(3) small_cpus(3) by (auto simp: numeral_2_eq_2)
qed

theorem empty_task_blocks_witness:
  "\<exists>s'. run_ticks small_junk (small_sched (small_list [(0, 7, [0]), (1, 9, [])])) (replicate 1000 (0, zero_regs)) = Some s'
    \<and> cpu_pid (cur s') = -1"
proof -
  let ?L = "[(0, 7, [0]), (1, 9, [])] :: (ssize_t \<times> size_t \<times> ssize_t list) list"
  let ?s = "small_sched (small_list ?L)"
  have i: "sched_inv ?s" "tasks ?s = map_of (small_list ?L)" by (rule small_sched_inv; auto)+
  have nw: "no_wrap ?s 1000" by (rule small_counts) auto
  have t: "tasks ?s 0 = Some (small_task 0 7 [(0, small_thread 0)])" "tasks ?s 1 = Some (small_task 1 9 [])"
    "dom (tasks ?s) = {0, 1}"
    unfolding i(2) by (auto simp: small_list_def)
  have "idle_cnt u < 9" if "tasks ?s q = Some u" "q \<noteq> 1" for q u
  proof -
    have "q \<in> dom (tasks ?s)" using that by auto
    then have "q = 0" using t(3) that(2) by simp
    then show ?thesis using that(1) t(1) by auto
  qed
  then have "blocked ?s 1"
    unfolding blocked_def using t(2) small_thr(2) [of "[]" 1 9] by (intro exI [of _ "small_task 1 9 []"]) auto
  then show ?thesis
    using empty_task_blocks [OF i(1), of 1 "replicate 1000 (0, zero_regs)" small_junk] nw small_cpus(2,3)
    by (auto simp: cur_def)
qed

theorem reachable_one_running_witness:
  "\<exists>(s :: unit sched) t. sched_reach small_junk small_fses s \<and> tasks s 3 = Some t \<and> status t = task_waiting \<and> sched_inv s"
proof -
  let ?s = "(small_sched [])\<lparr>task_list := map_new\<rparr>"
  have f: "cpus ?s = cpus (small_sched [])" "mtables ?s = [1 \<mapsto> small_mm]" "task_cnt ?s = 3" "\<not> scheduler_lock ?s"
    using small_sched_sel [of "[]"] by (simp_all add: small_sched_def mm_sys.defs sched.defs)
  have boot: "sched_boot ?s"
    using small_cpus [of "[]"] f(4) by (simp add: sched_boot_def cpus_ok_def cur_def)
  have room: "task_room ?s" by (simp add: task_room_def map_size_def map_new_def vector_new_def)
  have junk: "status (junk_task small_junk) \<noteq> task_waiting"
    by (simp add: small_junk_def zero_task_def task_waiting_def)
  obtain s' t where s': "create_task small_junk ?s (-1) 1 = Some (3, s')" "tasks s' 3 = Some t" "status t = task_waiting"
    using create_task_effect [of ?s "-1" 1 small_junk] sched_boot_inv [OF boot] room f junk by auto
  have "sched_step small_junk small_fses ?s s'"
    by (rule sched_step.new_task [of "-1" ?s 1 small_junk 3]) (use room f s' in simp_all)
  then have "sched_reach small_junk small_fses s'" using sched_reach.boot [OF boot] sched_reach.step by blast
  then show ?thesis using reachable_one_running [OF _ junk] s' by blast
qed

end
