(* ===== verification/Stack_Layout.thy ===== *)
theory Stack_Layout
  imports Scheduler
begin

text \<open>
  The initial stack of a program: the words between the strings and the stack pointer, the alignment
  the calling convention asks for, and the distance between the pointers and the strings.
\<close>

section \<open>Consecutive writes\<close>

text \<open>Writing two adjacent ranges, in either order, is one write.\<close>

lemma put_bytes_split:
  assumes "length xs + length ys \<le> 2 ^ 64"
  shows "put_bytes d a (xs @ ys) x = (if unat (x - a) < length xs then xs ! unat (x - a)
    else if unat (x - (a + of_nat (length xs))) < length ys then ys ! unat (x - (a + of_nat (length xs))) else d x)"
    and "unat (x - a) < length xs \<Longrightarrow> \<not> unat (x - (a + of_nat (length xs))) < length ys"
proof -
  have up: "unat (x - (a + of_nat (length xs))) = unat (x - a) - length xs" if "\<not> unat (x - a) < length xs"
  proof -
    have l: "unat (of_nat (length xs) :: u64) = length xs"
    proof (rule unat_of_nat_lt)
      have "unat (x - a) < 2 ^ 64" using unsigned_less [of "x - a"] by simp
      then show "length xs < 2 ^ 64" using that by linarith
    qed
    then have "of_nat (length xs) \<le> x - a" using that by (simp add: word_le_nat_alt)
    then show ?thesis using l by (simp add: unat_sub diff_diff_eq [symmetric])
  qed
  then show "put_bytes d a (xs @ ys) x = (if unat (x - a) < length xs then xs ! unat (x - a)
    else if unat (x - (a + of_nat (length xs))) < length ys then ys ! unat (x - (a + of_nat (length xs))) else d x)"
    by (auto simp: put_bytes_def nth_append)
  assume lt: "unat (x - a) < length xs"
  show "\<not> unat (x - (a + of_nat (length xs))) < length ys"
  proof
    assume y: "unat (x - (a + of_nat (length xs))) < length ys"
    let ?k = "unat (x - (a + of_nat (length xs)))"
    have "x - a = of_nat (?k + length xs)" by simp
    moreover have "?k + length xs < 2 ^ 64" using y assms by simp
    ultimately have "unat (x - a) = ?k + length xs" using unat_of_nat_lt by metis
    then show False using lt by simp
  qed
qed

lemma put_bytes_above:
  "length xs + length ys \<le> 2 ^ 64 \<Longrightarrow> put_bytes (put_bytes d a xs) (a + of_nat (length xs)) ys = put_bytes d a (xs @ ys)"
  using put_bytes_split [of xs ys] by (auto simp: fun_eq_iff put_bytes_def)

lemma put_bytes_below:
  "length xs + length ys \<le> 2 ^ 64 \<Longrightarrow> put_bytes (put_bytes d (a + of_nat (length xs)) ys) a xs = put_bytes d a (xs @ ys)"
  using put_bytes_split [of xs ys] by (auto simp: fun_eq_iff put_bytes_def)

definition words_bytes :: "u64 list \<Rightarrow> u8 list" where
  "words_bytes ws = concat (map (le_bytes 8) ws)"

lemma length_words_bytes [simp]: "length (words_bytes ws) = 8 * length ws"
  by (induction ws) (simp_all add: words_bytes_def)

lemma words_bytes_simps [simp]: "words_bytes [] = []" "words_bytes (v # ws) = le_bytes 8 v @ words_bytes ws"
  "words_bytes (vs @ ws) = words_bytes vs @ words_bytes ws"
  by (simp_all add: words_bytes_def)

lemma store_words_bytes: "8 * length ws \<le> 2 ^ 64 \<Longrightarrow> store_words m a ws = put_bytes m a (words_bytes ws)"
proof (induction ws arbitrary: m a)
  case Nil
  then show ?case by (simp add: put_bytes_def)
next
  case (Cons v ws)
  then show ?case using put_bytes_above [of "le_bytes 8 v" "words_bytes ws" m a] by (simp add: store64_def)
qed

section \<open>The words above the stack pointer\<close>

lemma aligned_below:
  fixes x w :: u64
  shows "(x - (x AND 0xf) - 16 * w) AND 0xf = 0"
proof -
  have m: "(a mod 18446744073709551616) mod 16 = a mod 16" for a :: int
    by (rule mod_mod_cancel) simp
  have low: "uint (y AND 0xf) = uint y mod 16" for y :: u64
  proof -
    have "y AND 0xf = take_bit 4 y" by (simp add: take_bit_eq_mask mask_eq_exp_minus_1)
    then have "y AND 0xf = y mod 16" by (simp add: take_bit_eq_mod)
    then show ?thesis by (simp add: uint_mod)
  qed
  have "uint (x - (x AND 0xf) - 16 * w) mod 16 = (uint x - uint x mod 16 - 16 * uint w) mod 16"
    by (simp add: uint_word_ariths m low mod_simps)
  also have "\<dots> = 0" by (simp add: minus_mod_eq_mult_div mod_diff_left_eq [symmetric])
  finally show ?thesis using low [of "x - (x AND 0xf) - 16 * w"] by (simp add: word_uint_eq_iff)
qed

text \<open>The words a program finds at its stack pointer.\<close>

definition start_words :: "u64 \<Rightarrow> elf_aux \<Rightarrow> string list \<Rightarrow> string list \<Rightarrow> u64 list" where
  "start_words tos aux argv envp = of_nat (length argv) # fst (string_ptrs (snd (string_ptrs tos envp)) argv) @ 0
     # fst (string_ptrs tos envp) @ 0 # aux_words aux"

lemma length_string_ptrs [simp]: "length (fst (string_ptrs a xs)) = length xs"
  by (induction xs arbitrary: a) (simp_all add: Let_def case_prod_unfold)

lemma store_words_below:
  assumes "8 * (length vs + length ws) \<le> 2 ^ 64" and "n = length vs"
  shows "store_words (put_bytes m a (words_bytes ws)) (a - 8 * of_nat n) vs = put_bytes m (a - 8 * of_nat n) (words_bytes (vs @ ws))"
  using put_bytes_below [of "words_bytes vs" "words_bytes ws" m "a - 8 * of_nat n"] assms by (simp add: store_words_bytes)

lemma store64_below:
  assumes "8 * Suc (length ws) \<le> 2 ^ 64"
  shows "store64 (put_bytes m a (words_bytes ws)) (a - 8) v = put_bytes m (a - 8) (words_bytes (v # ws))"
  using store_words_below [of "[v]" ws 1 m a] assms by simp

section \<open>Properties\<close>



lemma push_strings_addr:
  "snd (push_strings (m, a) xs) = a - of_nat (length (concat xs)) + of_nat (length xs)"
  by (induction xs arbitrary: m a) (simp_all add: Let_def algebra_simps)

lemma string_ptrs_addr:
  "k < length xs \<Longrightarrow> fst (string_ptrs a xs) ! k = a - of_nat (length (concat (take (Suc k) xs))) - of_nat (Suc k)"
proof (induction xs arbitrary: a k)
  case (Cons x xs)
  show ?case
  proof (cases k)
    case (Suc j)
    have "fst (string_ptrs a (x # xs)) ! k = fst (string_ptrs (a - (of_nat (length x) + 1)) xs) ! j"
      by (simp add: Suc Let_def case_prod_unfold)
    also have "\<dots> = a - (of_nat (length x) + 1) - of_nat (length (concat (take (Suc j) xs))) - of_nat (Suc j)"
      using Cons Suc by simp
    finally show ?thesis by (simp add: Suc)
  qed (simp add: Let_def case_prod_unfold)
qed simp

text \<open>
  The pointer stored for a string is not the address it was copied to: it is too low by two bytes
  for every string copied so far, because the copy moves the address up by one for each string where
  the pointers move down by one.
\<close>

theorem string_pointer_off:
  assumes "k < length xs"
  shows "fst (string_ptrs a xs) ! k = snd (push_strings (m, a) (take (Suc k) xs)) - 2 * of_nat (Suc k)"
proof -
  have "snd (push_strings (m, a) (take (Suc k) xs)) = a - of_nat (length (concat (take (Suc k) xs))) + of_nat (Suc k)"
    unfolding push_strings_addr using assms by simp
  then show ?thesis unfolding string_ptrs_addr [OF assms] by (simp add: algebra_simps)
qed

theorem string_pointer_off_witness:
  "fst (string_ptrs 0x12000 [''HOME=/'', ''A=1'']) ! 1 = 0x11ff5 \<and> snd (push_strings (\<lambda>a. 0, 0x12000) [''HOME=/'', ''A=1'']) = 0x11ff9"
  using string_pointer_off [of 1 "[''HOME=/'', ''A=1'']" "0x12000" "\<lambda>a. 0"] by simp

end
