(* ===== verification/Pci.thy ===== *)
theory Pci
  imports Vector
begin

text \<open>
  \<^verbatim>\<open>kernel/drivers/pci.cpp\<close> and \<^verbatim>\<open>pci.hpp\<close>: access to the configuration space through the two ports, the
  walk over the buses, the base address registers and message-signalled interrupts. The ports are a
  parameter: what they do to the state \<open>'h\<close> of the machine is the business of the host bridge.
\<close>

section \<open>Definitions\<close>

record 'h ports =
  port_out :: "'h \<Rightarrow> u16 \<Rightarrow> u32 \<Rightarrow> 'h"
  port_in :: "'h \<Rightarrow> u16 \<Rightarrow> u32 \<times> 'h"

definition config_addr :: "u8 \<Rightarrow> u8 \<Rightarrow> u8 \<Rightarrow> u8 \<Rightarrow> u32" where
  "config_addr b d f off = push_bit 31 1 OR push_bit 16 (ucast b) OR push_bit 11 (ucast d AND 31)
     OR push_bit 8 (ucast f AND 7) OR (ucast off AND NOT 3)"

definition raw_read :: "'h ports \<Rightarrow> 'h \<Rightarrow> u8 \<Rightarrow> u8 \<Rightarrow> u8 \<Rightarrow> u8 \<Rightarrow> u32 \<times> 'h" where
  "raw_read P h b d f off = port_in P (port_out P h 0xcf8 (config_addr b d f off)) 0xcfc"

definition raw_write :: "'h ports \<Rightarrow> 'h \<Rightarrow> u32 \<Rightarrow> u8 \<Rightarrow> u8 \<Rightarrow> u8 \<Rightarrow> u8 \<Rightarrow> 'h" where
  "raw_write P h v b d f off = port_out P (port_out P h 0xcf8 (config_addr b d f off)) 0xcfc v"

record pci_device =
  bus :: u8
  device_code :: u8
  func :: u8
  class_code :: u8
  sub_class :: u8
  prog_if :: u8
  device_id :: u16
  vendor_id :: u16

record pci_bar =
  bar_base :: size_t
  bar_len :: size_t

definition get_class :: "'h ports \<Rightarrow> 'h \<Rightarrow> u8 \<Rightarrow> u8 \<Rightarrow> u8 \<Rightarrow> u8 \<times> 'h" where
  "get_class P h b d f = (let (v, h) = raw_read P h b d f 0x8 in (ucast (drop_bit 24 v), h))"

definition get_sub_class :: "'h ports \<Rightarrow> 'h \<Rightarrow> u8 \<Rightarrow> u8 \<Rightarrow> u8 \<Rightarrow> u8 \<times> 'h" where
  "get_sub_class P h b d f = (let (v, h) = raw_read P h b d f 0x8 in (ucast (drop_bit 16 v), h))"

definition get_prog_if :: "'h ports \<Rightarrow> 'h \<Rightarrow> u8 \<Rightarrow> u8 \<Rightarrow> u8 \<Rightarrow> u8 \<times> 'h" where
  "get_prog_if P h b d f = (let (v, h) = raw_read P h b d f 0x8 in (ucast (drop_bit 8 v), h))"

definition get_device_id :: "'h ports \<Rightarrow> 'h \<Rightarrow> u8 \<Rightarrow> u8 \<Rightarrow> u8 \<Rightarrow> u16 \<times> 'h" where
  "get_device_id P h b d f = (let (v, h) = raw_read P h b d f 0 in (ucast (drop_bit 16 v), h))"

definition get_vendor_id :: "'h ports \<Rightarrow> 'h \<Rightarrow> u8 \<Rightarrow> u8 \<Rightarrow> u8 \<Rightarrow> u16 \<times> 'h" where
  "get_vendor_id P h b d f = (let (v, h) = raw_read P h b d f 0 in (ucast v, h))"

definition get_header_type :: "'h ports \<Rightarrow> 'h \<Rightarrow> u8 \<Rightarrow> u8 \<Rightarrow> u8 \<Rightarrow> u8 \<times> 'h" where
  "get_header_type P h b d f = (let (v, h) = raw_read P h b d f 0xc in (ucast (drop_bit 16 v), h))"

definition get_secondary_bus :: "'h ports \<Rightarrow> 'h \<Rightarrow> u8 \<Rightarrow> u8 \<Rightarrow> u8 \<Rightarrow> u8 \<times> 'h" where
  "get_secondary_bus P h b d f = (let (v, h) = raw_read P h b d f 0x18 in (ucast (drop_bit 8 v), h))"

subsection \<open>The walk over the buses\<close>

definition pci_device_type :: tinfo where
  "pci_device_type = \<lparr>sizeof = 10, trivial_dtor = True\<rparr>"

text \<open>The members of a device are read one after the other.\<close>

definition device_fields :: "'h ports \<Rightarrow> 'h \<Rightarrow> u8 \<Rightarrow> u8 \<Rightarrow> u8 \<Rightarrow> pci_device \<times> 'h" where
  "device_fields P h b d f =
     (let (cl, h) = get_class P h b d f; (sc, h) = get_sub_class P h b d f; (pf, h) = get_prog_if P h b d f;
          (di, h) = get_device_id P h b d f; (vi, h) = get_vendor_id P h b d f
      in (\<lparr>bus = b, device_code = d, func = f, class_code = cl, sub_class = sc, prog_if = pf, device_id = di, vendor_id = vi\<rparr>, h))"

text \<open>
  The constructor of a bridge scans the bus behind it before the bridge itself is pushed. \<open>scan_bus\<close>
  and the constructor call each other; here the constructor is given the scan of a bus. The first
  argument of \<open>scan_bus\<close> bounds the depth of the calls; a scan that goes deeper is \<open>None\<close>.
\<close>

definition add_device :: "'h ports \<Rightarrow> (u8 \<Rightarrow> 'h \<times> pci_device vector \<Rightarrow> ('h \<times> pci_device vector) option)
    \<Rightarrow> u8 \<Rightarrow> u8 \<Rightarrow> u8 \<Rightarrow> 'h \<times> pci_device vector \<Rightarrow> ('h \<times> pci_device vector) option" where
  "add_device P scan b d f = (\<lambda>(h, l). do {
     let (x, h) = device_fields P h b d f;
     let (ht, h) = get_header_type P h b d f;
     (h, l) \<leftarrow> (if ht AND NOT 0x80 = 1 then (let (sb, h) = get_secondary_bus P h b d f in scan sb (h, l)) else Some (h, l));
     l \<leftarrow> vector_push pci_device_type l x;
     Some (h, l)
   })"

definition scan_func :: "'h ports \<Rightarrow> (u8 \<Rightarrow> 'h \<times> pci_device vector \<Rightarrow> ('h \<times> pci_device vector) option)
    \<Rightarrow> u8 \<Rightarrow> u8 \<Rightarrow> nat \<Rightarrow> 'h \<times> pci_device vector \<Rightarrow> ('h \<times> pci_device vector) option" where
  "scan_func P scan b d f = (\<lambda>(h, l).
     let (v, h) = get_vendor_id P h b d (of_nat f)
     in if v \<noteq> 0xffff then add_device P scan b d (of_nat f) (h, l) else Some (h, l))"

definition scan_dev :: "'h ports \<Rightarrow> (u8 \<Rightarrow> 'h \<times> pci_device vector \<Rightarrow> ('h \<times> pci_device vector) option)
    \<Rightarrow> u8 \<Rightarrow> nat \<Rightarrow> 'h \<times> pci_device vector \<Rightarrow> ('h \<times> pci_device vector) option" where
  "scan_dev P scan b d = (\<lambda>(h, l).
     let (v, h) = get_vendor_id P h b (of_nat d) 0
     in if v = 0xffff then Some (h, l)
        else do {
          (h, l) \<leftarrow> add_device P scan b (of_nat d) 0 (h, l);
          let (ht, h) = get_header_type P h b (of_nat d) 0;
          if ht AND 0x80 \<noteq> 0 then for_range (scan_func P scan b (of_nat d)) 1 7 (h, l) else Some (h, l)
        })"

primrec scan_bus :: "'h ports \<Rightarrow> nat \<Rightarrow> u8 \<Rightarrow> 'h \<times> pci_device vector \<Rightarrow> ('h \<times> pci_device vector) option" where
  "scan_bus P 0 b s = None"
| "scan_bus P (Suc n) b s = for_range (scan_dev P (scan_bus P n) b) 0 32 s"

datatype driver = Ahci | Nvme | Xhci

definition driver_of :: "pci_device \<Rightarrow> driver option" where
  "driver_of x =
     (if class_code x = 1 then
        if sub_class x = 6 then Some Ahci else if sub_class x = 8 then Some Nvme else None
      else if class_code x = 0xc then if sub_class x = 3 then Some Xhci else None
      else None)"

text \<open>All buses are scanned; then the drivers of the devices found are started, in order.\<close>

definition scan_devices :: "'h ports \<Rightarrow> nat \<Rightarrow> 'h \<times> pci_device vector
    \<Rightarrow> ((pci_device \<times> driver) list \<times> 'h \<times> pci_device vector) option" where
  "scan_devices P n s = do {
     (h, l) \<leftarrow> for_range (\<lambda>b. scan_bus P n (of_nat b)) 0 256 s;
     ds \<leftarrow> for_range (\<lambda>i ds. do {
         x \<leftarrow> vector_at l (of_nat i);
         Some (case driver_of x of None \<Rightarrow> ds | Some k \<Rightarrow> ds @ [(x, k)])
       }) 0 (unat (buf_size l)) [];
     Some (ds, h, l)
   }"

subsection \<open>One device\<close>

definition pci_read :: "'h ports \<Rightarrow> pci_device \<Rightarrow> 'h \<Rightarrow> u8 \<Rightarrow> u32 \<times> 'h" where
  "pci_read P x h off = raw_read P h (bus x) (device_code x) (func x) off"

definition pci_write :: "'h ports \<Rightarrow> pci_device \<Rightarrow> 'h \<Rightarrow> u8 \<Rightarrow> u32 \<Rightarrow> 'h" where
  "pci_write P x h off v = raw_write P h v (bus x) (device_code x) (func x) off"

definition become_bus_master :: "'h ports \<Rightarrow> pci_device \<Rightarrow> 'h \<Rightarrow> 'h" where
  "become_bus_master P x h = (let (v, h) = pci_read P x h 4 in pci_write P x h 4 (v OR 4))"

definition enable_mmio :: "'h ports \<Rightarrow> pci_device \<Rightarrow> 'h \<Rightarrow> 'h" where
  "enable_mmio P x h = (let (v, h) = pci_read P x h 4 in pci_write P x h 4 (v OR 2))"

text \<open>
  Reading the size of a register: write ones, read back, restore. \<open>None\<close> stands for the result \<open>-1\<close>. In
  the 32-bit case the conditional binds weaker than the conjunction before it.
\<close>

definition probe_bar :: "'h ports \<Rightarrow> pci_device \<Rightarrow> 'h \<Rightarrow> u8 \<Rightarrow> size_t \<Rightarrow> size_t \<times> 'h" where
  "probe_bar P x h off v =
     (let h = pci_write P x h off (-1); (sz, h) = pci_read P x h off; h = pci_write P x h off (ucast v) in (ucast sz, h))"

definition get_bar :: "'h ports \<Rightarrow> pci_device \<Rightarrow> 'h \<Rightarrow> size_t \<Rightarrow> pci_bar option \<times> 'h" where
  "get_bar P x h num =
     (let (ht, h) = get_header_type P h (bus x) (device_code x) (func x)
      in if ht \<noteq> 0 then (None, h)
         else if 5 < num then (None, h)
         else
           let off = ucast (0x10 + num * 4); (low, h) = pci_read P x h off; bar_low = ucast low;
               is_mmio = (if bar_low AND 1 = 0 then 1 else 0); (size_low, h) = probe_bar P x h off bar_low
           in if drop_bit 1 bar_low AND 3 = 2 then
                let (high, h) = pci_read P x h (off + 4); bar_high = ucast high;
                    (size_high, h) = probe_bar P x h (off + 4) bar_high;
                    mask = NOT (if is_mmio \<noteq> 0 then 0xf else 0x3);
                    len = (push_bit 32 size_high OR size_low) AND mask; len = NOT len + 1;
                    base = (push_bit 32 bar_high OR bar_low) AND mask
                in (Some \<lparr>bar_base = base, bar_len = len\<rparr>, h)
              else
                let len = (if size_low AND is_mmio \<noteq> 0 then 0xf else 0x3); len = NOT len + 1
                in (Some \<lparr>bar_base = bar_low, bar_len = len\<rparr>, h))"

text \<open>
  Message-signalled interrupts. The walk along the capabilities continues with the register at
  \<open>off + 1\<close>, which is the register at \<open>off\<close>. \<open>lapic_id\<close> is the number of the local interrupt controller.
\<close>

partial_function (option) find_msi :: "'h ports \<Rightarrow> pci_device \<Rightarrow> 'h \<Rightarrow> u32 \<Rightarrow> (u32 \<times> 'h) option" where
  "find_msi P x h off =
     (if off = 0 then Some (0, h)
      else let (v, h) = pci_read P x h (ucast off)
           in if (ucast v :: u8) = 5 then Some (off, h)
              else let (off, h) = pci_read P x h (ucast (off + 1)) in find_msi P x h off)"

declare find_msi.simps [code]

definition set_msi :: "'h ports \<Rightarrow> u32 \<Rightarrow> pci_device \<Rightarrow> 'h \<Rightarrow> u8 \<Rightarrow> (32 word \<times> 'h) option" where
  "set_msi P lapic_id x h vec = do {
     let (reg4, h) = pci_read P x h 4;
     let (off, h) = (if drop_bit 16 reg4 AND 0x10 \<noteq> 0 then pci_read P x h 0x34 else (0, h));
     (off, h) \<leftarrow> find_msi P x h off;
     if off = 0 then Some (-1, h)
     else do {
       let (v, h) = pci_read P x h (ucast (off + 2));
       let message_control = (ucast (drop_bit 16 v) :: u16);
       let data_off = (if message_control AND 0x80 \<noteq> 0 then off + 0xb else off + 0x8);
       let (addr, h) = pci_read P x h (ucast (off + 4));
       let (d, h) = pci_read P x h (ucast data_off);
       let d = (if message_control AND 0x80 \<noteq> 0 then drop_bit 16 d else d) OR ucast vec;
       let addr = addr OR push_bit 20 0xfee OR push_bit 12 lapic_id;
       let h = pci_write P x h (ucast (off + 4)) addr;
       let h = pci_write P x h (ucast data_off) d;
       let h = pci_write P x h (ucast (off + 2)) (ucast (message_control OR 1));
       Some (0, h)
     }
   }"

section \<open>The configuration space\<close>

text \<open>
  What the code relies on: the ports give access to registers \<open>cfg h a\<close>, one for each address; reading
  changes none, and writing \<open>v\<close> to the address \<open>a\<close> makes its register \<open>upd a old v\<close>, depending on which of
  its bits can be written.
\<close>

definition host_bridge :: "'h ports \<Rightarrow> ('h \<Rightarrow> u32 \<Rightarrow> u32) \<Rightarrow> (u32 \<Rightarrow> u32 \<Rightarrow> u32 \<Rightarrow> u32) \<Rightarrow> bool" where
  "host_bridge P cfg upd \<longleftrightarrow>
     (\<forall>h a. fst (port_in P (port_out P h 0xcf8 a) 0xcfc) = cfg h a \<and> cfg (snd (port_in P (port_out P h 0xcf8 a) 0xcfc)) = cfg h)
     \<and> (\<forall>h a v. cfg (port_out P (port_out P h 0xcf8 a) 0xcfc v) = (cfg h)(a := upd a (cfg h a) v))"

lemma raw_read_cfg:
  assumes "host_bridge P cfg upd"
  obtains h' where "raw_read P h b d f off = (cfg h (config_addr b d f off), h')" "cfg h' = cfg h"
  using assms unfolding host_bridge_def raw_read_def by (metis prod.collapse)

lemma raw_write_cfg:
  "host_bridge P cfg upd \<Longrightarrow> cfg (raw_write P h v b d f off)
    = (cfg h)(config_addr b d f off := upd (config_addr b d f off) (cfg h (config_addr b d f off)) v)"
  by (simp add: host_bridge_def raw_write_def)

lemma u8_bit: "bit (x :: u8) n \<Longrightarrow> n < 8"
  using bit_imp_le_length [of x n] by simp

lemma bit_config_addr:
  "bit (config_addr b d f off) n \<longleftrightarrow> n = 31 \<or> 16 \<le> n \<and> bit b (n - 16) \<or> 11 \<le> n \<and> n < 16 \<and> bit d (n - 11)
    \<or> 8 \<le> n \<and> n < 11 \<and> bit f (n - 8) \<or> 2 \<le> n \<and> bit off n"
proof -
  have m: "(31 :: u32) = mask 5" "(7 :: u32) = mask 3" "(3 :: u32) = mask 2" by (simp_all add: mask_eq_exp_minus_1)
  have top: "bit (push_bit 31 1 :: u32) n \<longleftrightarrow> n = 31" by (auto simp only: bit_push_bit_iff bit_1_iff possible_bit_word) auto
  have "bit (push_bit 16 (ucast b) :: u32) n \<longleftrightarrow> 16 \<le> n \<and> bit b (n - 16)"
    using u8_bit [of b "n - 16"] by (auto simp: bit_simps)
  moreover have "bit (push_bit 11 (ucast d AND 31) :: u32) n \<longleftrightarrow> 11 \<le> n \<and> n < 16 \<and> bit d (n - 11)"
    unfolding m by (auto simp: bit_simps)
  moreover have "bit (push_bit 8 (ucast f AND 7) :: u32) n \<longleftrightarrow> 8 \<le> n \<and> n < 11 \<and> bit f (n - 8)"
    unfolding m by (auto simp: bit_simps)
  moreover have "bit (ucast off AND NOT 3 :: u32) n \<longleftrightarrow> 2 \<le> n \<and> bit off n"
    unfolding m using u8_bit [of off n] by (auto simp: bit_simps)
  ultimately show ?thesis unfolding config_addr_def bit_or_iff top by simp
qed

text \<open>
  The address of a register determines the bus, the device number, the function and the register:
  different registers of different functions have different addresses.
\<close>

theorem config_addr_decode:
  "ucast (drop_bit 16 (config_addr b d f off)) = b \<and> drop_bit 11 (config_addr b d f off) AND 31 = ucast d AND 31
    \<and> drop_bit 8 (config_addr b d f off) AND 7 = ucast f AND 7 \<and> config_addr b d f off AND 0xff = ucast off AND NOT 3
    \<and> bit (config_addr b d f off) 31"
proof -
  have m: "(31 :: u32) = mask 5" "(7 :: u32) = mask 3" "(0xff :: u32) = mask 8" "(3 :: u32) = mask 2" by (simp_all add: mask_eq_exp_minus_1)
  have "ucast (drop_bit 16 (config_addr b d f off)) = b"
    by (rule bit_word_eqI) (use u8_bit [of off "16 + _"] in \<open>auto simp: bit_config_addr bit_simps\<close>)
  moreover have "drop_bit 11 (config_addr b d f off) AND 31 = ucast d AND 31"
    unfolding m by (rule bit_word_eqI) (use u8_bit [of off "11 + _"] in \<open>auto simp: bit_config_addr bit_simps\<close>)
  moreover have "drop_bit 8 (config_addr b d f off) AND 7 = ucast f AND 7"
    unfolding m by (rule bit_word_eqI) (use u8_bit [of off "8 + _"] in \<open>auto simp: bit_config_addr bit_simps\<close>)
  moreover have "config_addr b d f off AND 0xff = ucast off AND NOT 3"
    unfolding m by (rule bit_word_eqI) (use u8_bit in \<open>auto simp: bit_config_addr bit_simps\<close>)
  moreover have "bit (config_addr b d f off) 31" by (simp add: bit_config_addr)
  ultimately show ?thesis by blast
qed

section \<open>The walk\<close>

text \<open>The functions of a bus in the order they are listed, read off the registers \<open>c\<close>.\<close>

definition present :: "(u32 \<Rightarrow> u32) \<Rightarrow> u8 \<Rightarrow> u8 \<Rightarrow> u8 \<Rightarrow> bool" where
  "present c b d f \<longleftrightarrow> (ucast (c (config_addr b d f 0)) :: u16) \<noteq> 0xffff"

definition header :: "(u32 \<Rightarrow> u32) \<Rightarrow> u8 \<Rightarrow> u8 \<Rightarrow> u8 \<Rightarrow> u8" where
  "header c b d f = ucast (drop_bit 16 (c (config_addr b d f 0xc)))"

definition secondary :: "(u32 \<Rightarrow> u32) \<Rightarrow> u8 \<Rightarrow> u8 \<Rightarrow> u8 \<Rightarrow> u8" where
  "secondary c b d f = ucast (drop_bit 8 (c (config_addr b d f 0x18)))"

definition function_of :: "(u32 \<Rightarrow> u32) \<Rightarrow> u8 \<Rightarrow> u8 \<Rightarrow> u8 \<Rightarrow> pci_device" where
  "function_of c b d f = \<lparr>bus = b, device_code = d, func = f, class_code = ucast (drop_bit 24 (c (config_addr b d f 8))),
     sub_class = ucast (drop_bit 16 (c (config_addr b d f 8))), prog_if = ucast (drop_bit 8 (c (config_addr b d f 8))),
     device_id = ucast (drop_bit 16 (c (config_addr b d f 0))), vendor_id = ucast (c (config_addr b d f 0))\<rparr>"

definition listed :: "(u32 \<Rightarrow> u32) \<Rightarrow> (u8 \<Rightarrow> pci_device list) \<Rightarrow> u8 \<Rightarrow> u8 \<Rightarrow> u8 \<Rightarrow> pci_device list" where
  "listed c behind b d f = (if header c b d f AND NOT 0x80 = 1 then behind (secondary c b d f) else []) @ [function_of c b d f]"

definition dev_functions :: "(u32 \<Rightarrow> u32) \<Rightarrow> (u8 \<Rightarrow> pci_device list) \<Rightarrow> u8 \<Rightarrow> nat \<Rightarrow> pci_device list" where
  "dev_functions c behind b d =
     (if \<not> present c b (of_nat d) 0 then []
      else listed c behind b (of_nat d) 0
        @ (if header c b (of_nat d) 0 AND 0x80 \<noteq> 0
           then concat (map (\<lambda>f. if present c b (of_nat d) (of_nat f) then listed c behind b (of_nat d) (of_nat f) else []) [1..<8])
           else []))"

primrec bus_devices :: "(u32 \<Rightarrow> u32) \<Rightarrow> nat \<Rightarrow> u8 \<Rightarrow> pci_device list" where
  "bus_devices c 0 b = []"
| "bus_devices c (Suc n) b = concat (map (dev_functions c (bus_devices c n) b) [0..<32])"

text \<open>Appending to the list as far as it fits a block of the heap.\<close>

definition appends :: "('h \<Rightarrow> u32 \<Rightarrow> u32) \<Rightarrow> 'h \<times> pci_device vector \<Rightarrow> pci_device list \<Rightarrow> ('h \<times> pci_device vector) option \<Rightarrow> bool" where
  "appends cfg s xs r \<longleftrightarrow> (\<exists>h l. r = Some (h, l) \<and> cfg h = cfg (fst s) \<and> vec_inv l \<and> vec_list l = vec_list (snd s) @ xs)"

definition list_room :: "pci_device vector \<Rightarrow> nat \<Rightarrow> bool" where
  "list_room l n \<longleftrightarrow> vec_inv l \<and> 20 * (length (vec_list l) + n) \<le> 2 ^ 18"

lemma appends_refl: "vec_inv l \<Longrightarrow> appends cfg (h, l) [] (Some (h, l))"
  by (simp add: appends_def)

lemma appends_bind:
  assumes "appends cfg s xs r" and "list_room (snd s) (length xs + length ys)"
    and "\<And>t. cfg (fst t) = cfg (fst s) \<Longrightarrow> list_room (snd t) (length ys) \<Longrightarrow> vec_list (snd t) = vec_list (snd s) @ xs \<Longrightarrow> appends cfg t ys (g t)"
  shows "appends cfg s (xs @ ys) (r \<bind> g)"
proof -
  obtain h l where t: "r = Some (h, l)" "cfg h = cfg (fst s)" "vec_inv l" "vec_list l = vec_list (snd s) @ xs"
    using assms(1) by (auto simp: appends_def)
  then have "appends cfg (h, l) ys (g (h, l))" using assms(2,3) by (simp add: list_room_def)
  then show ?thesis using t by (auto simp: appends_def)
qed

lemma appends_for_range:
  assumes "list_room (snd s) (length (concat (map F [i..<i + n])))"
    and "\<And>k t. i \<le> k \<Longrightarrow> k < i + n \<Longrightarrow> cfg (fst t) = cfg (fst s) \<Longrightarrow> list_room (snd t) (length (F k)) \<Longrightarrow> appends cfg t (F k) (f k t)"
  shows "appends cfg s (concat (map F [i..<i + n])) (for_range f i n s)"
  using assms
proof (induction n arbitrary: i s)
  case 0
  then show ?case by (cases s) (simp add: appends_def list_room_def)
next
  case (Suc n)
  have e: "[i..<i + Suc n] = i # [Suc i..<Suc i + n]" by (simp add: upt_conv_Cons)
  have "appends cfg s (F i @ concat (map F [Suc i..<Suc i + n])) (f i s \<bind> for_range f (Suc i) n)"
  proof (rule appends_bind)
    show room: "list_room (snd s) (length (F i) + length (concat (map F [Suc i..<Suc i + n])))"
      using Suc.prems(1) unfolding e by simp
    show "appends cfg s (F i) (f i s)" by (rule Suc.prems(2)) (use room in \<open>simp_all add: list_room_def\<close>)
    fix t assume t: "cfg (fst t) = cfg (fst s)" "list_room (snd t) (length (concat (map F [Suc i..<Suc i + n])))"
    show "appends cfg t (concat (map F [Suc i..<Suc i + n])) (for_range f (Suc i) n t)"
      by (rule Suc.IH [OF t(2)]) (use Suc.prems(2) t(1) in simp)
  qed
  then show ?case unfolding e by simp
qed

lemma get_cfg:
  assumes "host_bridge P cfg upd"
  shows "\<exists>h'. get_vendor_id P h b d f = (ucast (cfg h (config_addr b d f 0)), h') \<and> cfg h' = cfg h"
    and "\<exists>h'. get_header_type P h b d f = (header (cfg h) b d f, h') \<and> cfg h' = cfg h"
    and "\<exists>h'. get_secondary_bus P h b d f = (secondary (cfg h) b d f, h') \<and> cfg h' = cfg h"
proof -
  obtain h1 where "raw_read P h b d f 0 = (cfg h (config_addr b d f 0), h1)" "cfg h1 = cfg h" by (rule raw_read_cfg [OF assms])
  then show "\<exists>h'. get_vendor_id P h b d f = (ucast (cfg h (config_addr b d f 0)), h') \<and> cfg h' = cfg h"
    by (simp add: get_vendor_id_def)
  obtain h2 where "raw_read P h b d f 0xc = (cfg h (config_addr b d f 0xc), h2)" "cfg h2 = cfg h" by (rule raw_read_cfg [OF assms])
  then show "\<exists>h'. get_header_type P h b d f = (header (cfg h) b d f, h') \<and> cfg h' = cfg h"
    by (simp add: get_header_type_def header_def)
  obtain h3 where "raw_read P h b d f 0x18 = (cfg h (config_addr b d f 0x18), h3)" "cfg h3 = cfg h" by (rule raw_read_cfg [OF assms])
  then show "\<exists>h'. get_secondary_bus P h b d f = (secondary (cfg h) b d f, h') \<and> cfg h' = cfg h"
    by (simp add: get_secondary_bus_def secondary_def)
qed

lemma device_fields_cfg:
  assumes "host_bridge P cfg upd"
  shows "\<exists>h'. device_fields P h b d f = (function_of (cfg h) b d f, h') \<and> cfg h' = cfg h"
proof -
  note rd = raw_read_cfg [OF assms, where b = b and d = d and f = f]
  obtain h1 where 1: "raw_read P h b d f 8 = (cfg h (config_addr b d f 8), h1)" "cfg h1 = cfg h" by (rule rd)
  obtain h2 where 2: "raw_read P h1 b d f 8 = (cfg h1 (config_addr b d f 8), h2)" "cfg h2 = cfg h1" by (rule rd)
  obtain h3 where 3: "raw_read P h2 b d f 8 = (cfg h2 (config_addr b d f 8), h3)" "cfg h3 = cfg h2" by (rule rd)
  obtain h4 where 4: "raw_read P h3 b d f 0 = (cfg h3 (config_addr b d f 0), h4)" "cfg h4 = cfg h3" by (rule rd)
  obtain h5 where 5: "raw_read P h4 b d f 0 = (cfg h4 (config_addr b d f 0), h5)" "cfg h5 = cfg h4" by (rule rd)
  show ?thesis
    using 1 2 3 4 5 by (simp add: device_fields_def get_class_def get_sub_class_def get_prog_if_def get_device_id_def
        get_vendor_id_def function_of_def)
qed

text \<open>The scan of a bus that the constructor of a bridge is given behaves as \<open>behind\<close> says.\<close>

definition scans :: "('h \<Rightarrow> u32 \<Rightarrow> u32) \<Rightarrow> (u32 \<Rightarrow> u32) \<Rightarrow> (u8 \<Rightarrow> 'h \<times> pci_device vector \<Rightarrow> ('h \<times> pci_device vector) option)
    \<Rightarrow> (u8 \<Rightarrow> pci_device list) \<Rightarrow> u8 \<Rightarrow> bool" where
  "scans cfg c scan behind b \<longleftrightarrow> (\<forall>t. cfg (fst t) = c \<and> list_room (snd t) (length (behind b)) \<longrightarrow> appends cfg t (behind b) (scan b t))"

lemma add_device_appends:
  assumes hb: "host_bridge P cfg upd" and c: "cfg (fst s) = c" and room: "list_room (snd s) (length (listed c behind b d f))"
    and sub: "header c b d f AND NOT 0x80 = 1 \<Longrightarrow> scans cfg c scan behind (secondary c b d f)"
  shows "appends cfg s (listed c behind b d f) (add_device P scan b d f s)"
proof -
  obtain h l where s: "s = (h, l)" by (cases s)
  obtain h1 where h1: "device_fields P h b d f = (function_of c b d f, h1)" "cfg h1 = c" using device_fields_cfg [OF hb] c s by force
  obtain h2 where h2: "get_header_type P h1 b d f = (header c b d f, h2)" "cfg h2 = c" using get_cfg(2) [OF hb] h1(2) by force
  obtain h3 where h3: "get_secondary_bus P h2 b d f = (secondary c b d f, h3)" "cfg h3 = c" using get_cfg(3) [OF hb] h2(2) by force
  let ?br = "header c b d f AND NOT 0x80 = 1" and ?x = "function_of c b d f"
  let ?ys = "if ?br then behind (secondary c b d f) else []"
  have "appends cfg s (?ys @ [?x]) ((if ?br then scan (secondary c b d f) (h3, l) else Some (h2, l))
      \<bind> (\<lambda>(h, l). do { l \<leftarrow> vector_push pci_device_type l ?x; Some (h, l) }))"
  proof (rule appends_bind)
    show r: "list_room (snd s) (length ?ys + length [?x])" using room by (simp add: listed_def)
    show "appends cfg s ?ys (if ?br then scan (secondary c b d f) (h3, l) else Some (h2, l))"
    proof (cases ?br)
      case True
      have "list_room l (length (behind (secondary c b d f)))" using r s True by (simp add: list_room_def)
      then have "appends cfg (h3, l) (behind (secondary c b d f)) (scan (secondary c b d f) (h3, l))"
        using sub [OF True] h3(2) unfolding scans_def by simp
      then show ?thesis using True s c h3(2) by (simp add: appends_def)
    next
      case False
      then show ?thesis using s c h2(2) r by (simp add: appends_def list_room_def)
    qed
    fix t assume t: "cfg (fst t) = cfg (fst s)" "list_room (snd t) (length [?x])"
    obtain g m where gm: "t = (g, m)" by (cases t)
    have m: "vec_inv m" "20 * (length (vec_list m) + 1) \<le> 2 ^ 18" using t(2) gm by (simp_all add: list_room_def)
    then have "length (vec_list m) = unat (buf_size m)" by (simp add: vec_inv_def)
    then have "vec_room pci_device_type m" using m(2) by (simp add: vec_room_def pci_device_type_def)
    then obtain w where "vector_push pci_device_type m ?x = Some w" "vec_inv w" "vec_list w = vec_list m @ [?x]"
      using vector_push_list [OF m(1)] by blast
    then show "appends cfg t [?x] (case t of (h, l) \<Rightarrow> do { l \<leftarrow> vector_push pci_device_type l ?x; Some (h, l) })"
      using gm by (simp add: appends_def)
  qed
  then show ?thesis using s h1(1) h2(1) h3(1) by (cases ?br) (simp_all add: add_device_def listed_def case_prod_unfold)
qed

lemma scan_func_appends:
  assumes hb: "host_bridge P cfg upd" and c: "cfg (fst s) = c" and inv: "vec_inv (snd s)"
    and room: "present c b d (of_nat f) \<Longrightarrow> list_room (snd s) (length (listed c behind b d (of_nat f)))"
    and sub: "present c b d (of_nat f) \<Longrightarrow> header c b d (of_nat f) AND NOT 0x80 = 1 \<Longrightarrow> scans cfg c scan behind (secondary c b d (of_nat f))"
  shows "appends cfg s (if present c b d (of_nat f) then listed c behind b d (of_nat f) else []) (scan_func P scan b d f s)"
proof -
  obtain h l where s: "s = (h, l)" by (cases s)
  obtain h1 where h1: "get_vendor_id P h b d (of_nat f) = (ucast (c (config_addr b d (of_nat f) 0)), h1)" "cfg h1 = c"
    using get_cfg(1) [OF hb] c s by force
  show ?thesis
  proof (cases "present c b d (of_nat f)")
    case True
    have "appends cfg (h1, l) (listed c behind b d (of_nat f)) (add_device P scan b d (of_nat f) (h1, l))"
      by (rule add_device_appends [OF hb]) (use h1(2) room sub True s in simp_all)
    then show ?thesis using True s h1 c by (simp add: scan_func_def present_def appends_def)
  next
    case False
    then show ?thesis using s h1 c inv by (simp add: scan_func_def present_def appends_def)
  qed
qed

lemma scan_dev_appends:
  assumes hb: "host_bridge P cfg upd" and c: "cfg (fst s) = c" and room: "list_room (snd s) (length (dev_functions c behind b d))"
    and sub: "\<And>f. present c b (of_nat d) f \<Longrightarrow> header c b (of_nat d) f AND NOT 0x80 = 1 \<Longrightarrow> scans cfg c scan behind (secondary c b (of_nat d) f)"
  shows "appends cfg s (dev_functions c behind b d) (scan_dev P scan b d s)"
proof -
  obtain h l where s: "s = (h, l)" by (cases s)
  obtain h1 where h1: "get_vendor_id P h b (of_nat d) 0 = (ucast (c (config_addr b (of_nat d) 0 0)), h1)" "cfg h1 = c"
    using get_cfg(1) [OF hb] c s by force
  show ?thesis
  proof (cases "present c b (of_nat d) 0")
    case False
    then show ?thesis using s h1 c room by (simp add: scan_dev_def present_def appends_def dev_functions_def list_room_def)
  next
    case True
    let ?F = "\<lambda>f. if present c b (of_nat d) (of_nat f) then listed c behind b (of_nat d) (of_nat f) else []"
    let ?multi = "header c b (of_nat d) 0 AND 0x80 \<noteq> 0" and ?x = "listed c behind b (of_nat d) 0"
    let ?ys = "if ?multi then concat (map ?F [1..<1 + 7]) else []"
    have fs: "dev_functions c behind b d = ?x @ ?ys" using True by (simp add: dev_functions_def)
    have "appends cfg (h1, l) (?x @ ?ys) (add_device P scan b (of_nat d) 0 (h1, l) \<bind> (\<lambda>(h, l). let (ht, h) = get_header_type P h b (of_nat d) 0
        in if ht AND 0x80 \<noteq> 0 then for_range (scan_func P scan b (of_nat d)) 1 7 (h, l) else Some (h, l)))"
    proof (rule appends_bind)
      show r: "list_room (snd (h1, l)) (length ?x + length ?ys)" using room s unfolding fs by simp
      show "appends cfg (h1, l) ?x (add_device P scan b (of_nat d) 0 (h1, l))"
        by (rule add_device_appends [OF hb]) (use h1(2) r sub True in \<open>simp_all add: list_room_def\<close>)
      fix t assume t: "cfg (fst t) = cfg (fst (h1, l))" "list_room (snd t) (length ?ys)"
      obtain g m where gm: "t = (g, m)" by (cases t)
      obtain g' where g': "get_header_type P g b (of_nat d) 0 = (header c b (of_nat d) 0, g')" "cfg g' = c"
        using get_cfg(2) [OF hb, of g b "of_nat d" 0] t(1) gm h1(2) by auto
      have inv: "vec_inv m" using t(2) gm by (simp add: list_room_def)
      have "appends cfg (g', m) (concat (map ?F [1..<1 + 7])) (for_range (scan_func P scan b (of_nat d)) 1 7 (g', m))" if ?multi
      proof (rule appends_for_range)
        show "list_room (snd (g', m)) (length (concat (map ?F [1..<1 + 7])))" using t(2) gm that by (simp only: if_True snd_conv not_False_eq_True)
        fix k u assume u: "cfg (fst u) = cfg (fst (g', m))" "list_room (snd u) (length (?F k))"
        show "appends cfg u (?F k) (scan_func P scan b (of_nat d) k u)"
          by (rule scan_func_appends [OF hb]) (use u g'(2) sub in \<open>simp_all add: list_room_def\<close>)
      qed
      then show "appends cfg t ?ys (case t of (h, l) \<Rightarrow> let (ht, h) = get_header_type P h b (of_nat d) 0
          in if ht AND 0x80 \<noteq> 0 then for_range (scan_func P scan b (of_nat d)) 1 7 (h, l) else Some (h, l))"
        using gm g' inv t(1) h1(2) by (auto simp: appends_def)
    qed
    then show ?thesis unfolding fs using True s h1 c by (simp add: scan_dev_def present_def appends_def Let_def)
  qed
qed

text \<open>
  C23. When every bridge leads to a bus of smaller rank the walk over a bus ends, and it appends to the
  list exactly the functions that answer, in the order of their numbers, the functions behind a
  bridge before the bridge itself; no configuration register changes.
\<close>

theorem scan_bus_lists:
  assumes "host_bridge P cfg upd" and "rank b < n"
    and "\<And>b d f. present (cfg (fst s)) b d f \<Longrightarrow> header (cfg (fst s)) b d f AND NOT 0x80 = 1 \<Longrightarrow> rank (secondary (cfg (fst s)) b d f) < (rank b :: nat)"
    and "list_room (snd s) (length (bus_devices (cfg (fst s)) n b))"
  shows "\<exists>h l. scan_bus P n b s = Some (h, l) \<and> cfg h = cfg (fst s)
    \<and> vec_list l = vec_list (snd s) @ bus_devices (cfg (fst s)) n b"
proof -
  define c where "c = cfg (fst s)"
  have down: "rank (secondary c b d f) < rank b" if "present c b d f" "header c b d f AND NOT 0x80 = 1" for b d f
    using assms(3) that unfolding c_def by blast
  have all: "scans cfg c (scan_bus P n) (bus_devices c n) b" if "rank b < n" for n b
    using that
  proof (induction n arbitrary: b)
    case (Suc n)
    show ?case
      unfolding scans_def
    proof (intro allI impI)
      fix t assume t: "cfg (fst t) = c \<and> list_room (snd t) (length (bus_devices c (Suc n) b))"
      have "appends cfg t (concat (map (dev_functions c (bus_devices c n) b) [0..<0 + 32])) (for_range (scan_dev P (scan_bus P n) b) 0 32 t)"
      proof (rule appends_for_range)
        show "list_room (snd t) (length (concat (map (dev_functions c (bus_devices c n) b) [0..<0 + 32])))" using t by simp
        fix k u assume u: "cfg (fst u) = cfg (fst t)" "list_room (snd u) (length (dev_functions c (bus_devices c n) b k))"
        show "appends cfg u (dev_functions c (bus_devices c n) b k) (scan_dev P (scan_bus P n) b k u)"
        proof (rule scan_dev_appends [OF assms(1)])
          fix f assume f: "present c b (of_nat k) f" "header c b (of_nat k) f AND NOT 0x80 = 1"
          show "scans cfg c (scan_bus P n) (bus_devices c n) (secondary c b (of_nat k) f)"
            by (rule Suc.IH) (use down [OF f] Suc.prems in simp)
        qed (use u t in simp_all)
      qed
      then show "appends cfg t (bus_devices c (Suc n) b) (scan_bus P (Suc n) b t)" by simp
    qed
  qed simp
  have "appends cfg s (bus_devices c n b) (scan_bus P n b s)"
    using all [OF assms(2)] assms(4) unfolding scans_def c_def by blast
  then show ?thesis unfolding c_def by (auto simp: appends_def)
qed

section \<open>Base address registers\<close>

lemma pci_read_cfg:
  assumes "host_bridge P cfg upd"
  obtains h' where "pci_read P x h off = (cfg h (config_addr (bus x) (device_code x) (func x) off), h')" "cfg h' = cfg h"
  unfolding pci_read_def by (rule raw_read_cfg [OF assms])

abbreviation reg_of :: "pci_device \<Rightarrow> u8 \<Rightarrow> u32" where
  "reg_of x off \<equiv> config_addr (bus x) (device_code x) (func x) off"

text \<open>Writing ones to a register gives the bits that can be written; writing the old value restores it.\<close>

lemma probe_bar_cfg:
  assumes hb: "host_bridge P cfg upd" and old: "v = ucast (cfg h (reg_of x off))"
    and restore: "upd (reg_of x off) (upd (reg_of x off) (cfg h (reg_of x off)) (-1)) (cfg h (reg_of x off)) = cfg h (reg_of x off)"
  shows "\<exists>h'. probe_bar P x h off v = (ucast (upd (reg_of x off) (cfg h (reg_of x off)) (-1)), h') \<and> cfg h' = cfg h"
proof -
  let ?a = "reg_of x off"
  let ?h1 = "pci_write P x h off (-1)"
  have h1: "cfg ?h1 = (cfg h)(?a := upd ?a (cfg h ?a) (-1))" by (simp add: pci_write_def raw_write_cfg [OF hb])
  obtain h2 where h2: "pci_read P x ?h1 off = (cfg ?h1 ?a, h2)" "cfg h2 = cfg ?h1" by (rule pci_read_cfg [OF hb])
  have u: "(ucast v :: u32) = cfg h ?a" unfolding old by (rule bit_word_eqI) (simp add: bit_simps)
  have "cfg (pci_write P x h2 off (ucast v)) = cfg h"
    unfolding pci_write_def raw_write_cfg [OF hb] h2(2) h1 u using restore by (auto simp: fun_eq_iff)
  then show ?thesis using h2 h1 by (simp add: probe_bar_def)
qed

text \<open>
  The two registers of a 64-bit memory range of \<open>2 ^ k\<close> bytes at \<open>base\<close>: the low \<open>k\<close> bits of the address are
  fixed at zero, but for the flags \<open>fl\<close> in the low four bits.
\<close>

definition bar64 :: "(u32 \<Rightarrow> u32 \<Rightarrow> u32 \<Rightarrow> u32) \<Rightarrow> (u32 \<Rightarrow> u32) \<Rightarrow> pci_device \<Rightarrow> u8 \<Rightarrow> u64 \<Rightarrow> nat \<Rightarrow> u32 \<Rightarrow> bool" where
  "bar64 upd c x off base k fl \<longleftrightarrow> 4 \<le> k \<and> k < 64 \<and> base AND mask k = 0 \<and> fl AND NOT (mask 4) = 0 \<and> fl AND 7 = 4
     \<and> c (reg_of x off) = ucast base OR fl \<and> c (reg_of x (off + 4)) = ucast (drop_bit 32 base)
     \<and> (\<forall>u v. upd (reg_of x off) u v = v AND NOT (ucast (mask k :: u64)) OR fl)
     \<and> (\<forall>u v. upd (reg_of x (off + 4)) u v = v AND NOT (ucast (drop_bit 32 (mask k :: u64))))"

lemma flags_high:
  assumes "(fl :: u32) AND NOT (mask 4) = 0" and "4 \<le> n"
  shows "\<not> bit fl n"
proof
  assume b: "bit fl n"
  have "bit (fl AND NOT (mask 4)) n \<longleftrightarrow> bit (0 :: u32) n" by (simp only: assms(1))
  then show False using b bit_imp_le_length [OF b] assms(2) by (simp add: bit_simps)
qed

lemma aligned_bits:
  assumes "(base :: u64) AND mask k = 0" and "n < k"
  shows "\<not> bit base n"
proof
  assume b: "bit base n"
  have "bit (base AND mask k) n \<longleftrightarrow> bit (0 :: u64) n" by (simp only: assms(1))
  then show False using b bit_imp_le_length [OF b] assms(2) by (simp add: bit_simps)
qed

lemma bar64_joined:
  assumes "base AND mask k = (0 :: u64)" and "4 \<le> k" and "(fl :: u32) AND NOT (mask 4) = 0"
  shows "(push_bit 32 (ucast (ucast (drop_bit 32 base) :: u32)) OR ucast (ucast base OR fl)) AND NOT (mask 4) = base"
    and "(push_bit 32 (ucast (NOT (ucast (drop_bit 32 (mask k :: u64))) :: u32)) OR ucast (NOT (ucast (mask k :: u64)) OR fl))
      AND NOT (mask 4) = NOT (mask k :: u64)"
  using aligned_bits [OF assms(1)] flags_high [OF assms(3)] assms(2) by (auto intro!: bit_word_eqI simp: bit_simps)

lemma bar64_flags:
  assumes "base AND mask k = (0 :: u64)" and "4 \<le> k" and "(fl :: u32) AND 7 = 4"
  shows "(ucast (ucast base OR fl) :: u64) AND 1 = 0" and "drop_bit 1 (ucast (ucast base OR fl) :: u64) AND 3 = 2"
proof -
  let ?x = "ucast (ucast base OR fl) :: u64"
  have m: "(7 :: u64) = mask 3" "(7 :: u32) = mask 3" "(3 :: u64) = mask 2" by (simp_all add: mask_eq_exp_minus_1)
  have "?x AND 7 = ucast (fl AND 7)"
    unfolding m using aligned_bits [OF assms(1)] assms(2) by (auto intro!: bit_word_eqI simp: bit_simps)
  then have x: "?x AND 7 = 4" using assms(3) by simp
  have "?x AND 1 = (?x AND 7) AND 1" by (simp only: and.assoc) simp
  then show "?x AND 1 = 0" unfolding x by simp
  have "drop_bit 1 ?x AND 3 = drop_bit 1 (?x AND 7)" unfolding m by (auto intro!: bit_word_eqI simp: bit_simps)
  then show "drop_bit 1 ?x AND 3 = 2" unfolding x by simp
qed

text \<open>
  For a 64-bit memory range \<^verbatim>\<open>get_bar\<close> returns its base address and its length in bytes, and leaves all
  configuration registers as they were.
\<close>

theorem get_bar_64:
  assumes hb: "host_bridge P cfg upd" and ht: "header (cfg h) (bus x) (device_code x) (func x) = 0" and num: "num \<le> 5"
    and bar: "bar64 upd (cfg h) x (ucast (0x10 + num * 4)) base k fl"
  shows "\<exists>h'. get_bar P x h num = (Some \<lparr>bar_base = base, bar_len = 2 ^ k\<rparr>, h') \<and> cfg h' = cfg h"
proof -
  let ?o = "ucast (0x10 + num * 4) :: u8"
  let ?a = "reg_of x ?o" and ?b = "reg_of x (?o + 4)"
  have k: "4 \<le> k" "k < 64" "base AND mask k = 0" "fl AND NOT (mask 4) = 0" "fl AND 7 = 4"
    and c: "cfg h ?a = ucast base OR fl" "cfg h ?b = ucast (drop_bit 32 base)"
    and w: "\<And>u v. upd ?a u v = v AND NOT (ucast (mask k :: u64)) OR fl" "\<And>u v. upd ?b u v = v AND NOT (ucast (drop_bit 32 (mask k :: u64)))"
    using bar unfolding bar64_def by blast+
  have keep: "upd ?a u (cfg h ?a) = cfg h ?a" "upd ?b u (cfg h ?b) = cfg h ?b" for u
    unfolding w c using aligned_bits [OF k(3)] flags_high [OF k(4)] by (auto intro!: bit_word_eqI simp: bit_simps)
  obtain h1 where h1: "get_header_type P h (bus x) (device_code x) (func x) = (0, h1)" "cfg h1 = cfg h"
    using get_cfg(2) [OF hb, of h] ht by metis
  obtain h2 where h2: "pci_read P x h1 ?o = (cfg h ?a, h2)" "cfg h2 = cfg h" using pci_read_cfg [OF hb] h1(2) by metis
  obtain h3 where h3: "probe_bar P x h2 ?o (ucast (cfg h ?a)) = (ucast (NOT (ucast (mask k :: u64)) OR fl :: u32), h3)" "cfg h3 = cfg h"
    using probe_bar_cfg [OF hb, of "ucast (cfg h ?a)" h2 x ?o] keep(1) h2(2) by (auto simp: w)
  obtain h4 where h4: "pci_read P x h3 (?o + 4) = (cfg h ?b, h4)" "cfg h4 = cfg h" using pci_read_cfg [OF hb] h3(2) by metis
  obtain h5 where h5: "probe_bar P x h4 (?o + 4) (ucast (cfg h ?b)) = (ucast (NOT (ucast (drop_bit 32 (mask k :: u64))) :: u32), h5)" "cfg h5 = cfg h"
    using probe_bar_cfg [OF hb, of "ucast (cfg h ?b)" h4 x "?o + 4"] keep(2) h4(2) by (auto simp: w)
  note fl = bar64_flags [OF k(3,1,5), folded c(1)] and jn = bar64_joined(1) [OF k(3,1,4), folded c] bar64_joined(2) [OF k(3,1,4)]
  have f4: "(0xf :: u64) = mask 4" by (simp add: mask_eq_exp_minus_1)
  have n5: "(5 < num) = False" using num by (simp add: not_less)
  have len: "NOT (NOT (mask k :: u64)) + 1 = 2 ^ k" by (simp add: mask_eq_exp_minus_1)
  have "get_bar P x h num = (Some \<lparr>bar_base = base, bar_len = 2 ^ k\<rparr>, h5)"
    by (simp only: get_bar_def h1(1) Let_def prod.case h2(1) h3(1) fl h4(1) h5(1) simp_thms if_True if_False n5
        one_neq_zero f4 jn len)
  then show ?thesis using h5(2) by blast
qed

text \<open>
  For a register that is not the low half of a 64-bit one the length that is returned does not
  depend on the device: it is \<open>-3\<close>, and the base still has the flag bits of the register.
\<close>

theorem get_bar_32_length:
  assumes hb: "host_bridge P cfg upd" and ht: "header (cfg h) (bus x) (device_code x) (func x) = 0" and num: "num \<le> 5"
    and v: "v = cfg h (reg_of x (ucast (0x10 + num * 4)))" and low: "drop_bit 1 (ucast v :: u64) AND 3 \<noteq> 2"
    and ro: "bit (upd (reg_of x (ucast (0x10 + num * 4))) v (-1)) 0 \<longleftrightarrow> bit v 0"
    and restore: "upd (reg_of x (ucast (0x10 + num * 4))) (upd (reg_of x (ucast (0x10 + num * 4))) v (-1)) v = v"
  shows "\<exists>h'. get_bar P x h num = (Some \<lparr>bar_base = ucast v, bar_len = -3\<rparr>, h') \<and> cfg h' = cfg h"
proof -
  let ?o = "ucast (0x10 + num * 4) :: u8"
  let ?a = "reg_of x ?o"
  obtain h1 where h1: "get_header_type P h (bus x) (device_code x) (func x) = (0, h1)" "cfg h1 = cfg h"
    using get_cfg(2) [OF hb, of h] ht by metis
  obtain h2 where h2: "pci_read P x h1 ?o = (cfg h ?a, h2)" "cfg h2 = cfg h" using pci_read_cfg [OF hb] h1(2) by metis
  let ?sz = "upd ?a (cfg h ?a) (-1)"
  obtain h3 where h3: "probe_bar P x h2 ?o (ucast (cfg h ?a)) = (ucast ?sz, h3)" "cfg h3 = cfg h"
    using probe_bar_cfg [OF hb, of "ucast (cfg h ?a)" h2 x ?o] restore v h2(2) by auto
  have one: "(ucast w :: u64) AND 1 = (if bit w 0 then 1 else 0)" for w :: u32
    by (rule bit_word_eqI) (auto simp: bit_simps intro: gr0I)
  have z: "(ucast ?sz :: u64) AND (if (ucast (cfg h ?a) :: u64) AND 1 = 0 then 1 else 0) = 0"
    unfolding one using ro v by (auto simp: one)
  have n5: "(5 < num) = False" using num by (simp add: not_less)
  have "get_bar P x h num = (Some \<lparr>bar_base = ucast (cfg h ?a), bar_len = NOT 3 + 1\<rparr>, h3)"
    using low unfolding v by (simp only: get_bar_def h1(1) Let_def prod.case h2(1) h3(1) simp_thms if_True if_False n5 z)
  then show ?thesis using h3(2) v by simp
qed

text \<open>
  The walk along the capabilities does not follow the pointer to the next one: a first capability
  that is not the one looked for sends it to the register whose address is the identifier of this
  capability.
\<close>

theorem find_msi_follows_identifier:
  assumes hb: "host_bridge P cfg upd" and "off \<noteq> 0" and "off AND 3 = 0" and "(ucast (cfg h (reg_of x (ucast off))) :: u8) \<noteq> 5"
  shows "\<exists>h'. find_msi P x h off = find_msi P x h' (cfg h (reg_of x (ucast off))) \<and> cfg h' = cfg h"
proof -
  have m: "(3 :: u32) = mask 2" by (simp add: mask_eq_exp_minus_1)
  have z: "\<not> bit off n" if "n < 2" for n
  proof
    assume b: "bit off n"
    have "bit (off AND 3) n \<longleftrightarrow> bit (0 :: u32) n" by (simp only: assms(3))
    then show False using b that by (simp add: m bit_simps)
  qed
  have "off AND 1 = 0" using z [of 0] by (simp add: and_one_eq bit_0 even_iff_mod_2_eq_zero)
  then have p1: "off + 1 = off OR 1" by (rule disjunctive_add_eq_or)
  have "reg_of x (ucast (off + 1)) = reg_of x (ucast off)"
    unfolding p1 by (rule bit_word_eqI) (auto simp: bit_config_addr bit_simps)
  moreover obtain h1 where h1: "pci_read P x h (ucast off) = (cfg h (reg_of x (ucast off)), h1)" "cfg h1 = cfg h" by (rule pci_read_cfg [OF hb])
  moreover obtain h2 where h2: "pci_read P x h1 (ucast (off + 1)) = (cfg h1 (reg_of x (ucast (off + 1))), h2)" "cfg h2 = cfg h1" by (rule pci_read_cfg [OF hb])
  ultimately have "find_msi P x h off = find_msi P x h2 (cfg h (reg_of x (ucast off)))"
    using assms(2,4) by (subst find_msi.simps) simp
  then show ?thesis using h1 h2 by auto
qed

section \<open>A small machine\<close>

text \<open>A host bridge over registers of which \<open>U\<close> says what a write leaves; one function with a 64-bit range.\<close>

definition reg_ports :: "(u32 \<Rightarrow> u32 \<Rightarrow> u32 \<Rightarrow> u32) \<Rightarrow> (u32 \<times> (u32 \<Rightarrow> u32)) ports" where
  "reg_ports U = \<lparr>port_out = (\<lambda>(a, c) p v. if p = 0xcf8 then (v, c) else (a, c(a := U a (c a) v))), port_in = (\<lambda>(a, c) p. (c a, (a, c)))\<rparr>"

lemma reg_ports_bridge: "host_bridge (reg_ports U) snd U"
  by (auto simp: host_bridge_def reg_ports_def)

definition one_function :: pci_device where
  "one_function = \<lparr>bus = 0, device_code = 1, func = 0, class_code = 1, sub_class = 8, prog_if = 2, device_id = 0x5845, vendor_id = 0x8086\<rparr>"

definition one_cfg :: "u32 \<Rightarrow> u32" where
  "one_cfg = (\<lambda>a. 0xffffffff)(0x80000800 := 0x58458086, 0x80000808 := 0x01080200, 0x8000080c := 0, 0x80000810 := 0xfebf0004, 0x80000814 := 0,
     0x80000840 := 0x00115001)"

definition one_upd :: "u32 \<Rightarrow> u32 \<Rightarrow> u32 \<Rightarrow> u32" where
  "one_upd a u v = (if a = 0x80000810 then v AND NOT (ucast (mask 14 :: u64)) OR 4
     else if a = 0x80000814 then v AND NOT (ucast (drop_bit 32 (mask 14 :: u64))) else v)"

lemma one_regs: "reg_of one_function 0 = 0x80000800" "reg_of one_function 8 = 0x80000808" "reg_of one_function 0xc = 0x8000080c"
  "reg_of one_function 0x10 = 0x80000810" "reg_of one_function 0x14 = 0x80000814" "reg_of one_function 0x18 = 0x80000818"
  "reg_of one_function 0x40 = 0x80000840"
  by (simp_all add: config_addr_def one_function_def)

theorem get_bar_64_witness:
  "\<exists>h'. get_bar (reg_ports one_upd) one_function (0, one_cfg) 0 = (Some \<lparr>bar_base = 0xfebf0000, bar_len = 2 ^ 14\<rparr>, h') \<and> snd h' = one_cfg"
proof -
  have "header one_cfg (bus one_function) (device_code one_function) (func one_function) = 0"
    by (simp add: header_def one_regs one_cfg_def)
  moreover have "bar64 one_upd one_cfg one_function 0x10 0xfebf0000 14 4"
    by (simp add: bar64_def one_regs one_cfg_def one_upd_def mask_eq_exp_minus_1)
  ultimately show ?thesis
    using get_bar_64 [OF reg_ports_bridge, of "(0, one_cfg)" one_function 0 one_upd "0xfebf0000" 14 4] by simp
qed

theorem get_bar_32_length_witness:
  "\<exists>h'. get_bar (reg_ports (\<lambda>a u v. v AND 0xfffff000)) one_function (0, one_cfg(0x80000810 := 0xfebf0000)) 0
      = (Some \<lparr>bar_base = 0xfebf0000, bar_len = -3\<rparr>, h')"
proof -
  let ?c = "one_cfg(0x80000810 := 0xfebf0000)" and ?U = "\<lambda>a u v. v AND 0xfffff000 :: u32"
  have h: "header ?c (bus one_function) (device_code one_function) (func one_function) = 0"
    by (simp add: header_def one_regs one_cfg_def)
  show ?thesis
    using get_bar_32_length [OF reg_ports_bridge, of "(0, ?c)" one_function 0 "0xfebf0000" ?U] h
    by (auto simp: one_regs bit_0)
qed

lemma one_present_addr: "present one_cfg b d f \<longleftrightarrow> config_addr b d f 0 = 0x80000800"
proof
  assume p: "present one_cfg b d f"
  have low: "config_addr b d f 0 AND 0xff = 0" using config_addr_decode [of b d f 0] by simp
  have "config_addr b d f 0 \<in> {0x80000800, 0x80000808, 0x8000080c, 0x80000810, 0x80000814, 0x80000840}"
    using p by (auto simp: present_def one_cfg_def split: if_splits)
  then show "config_addr b d f 0 = 0x80000800" using low by auto
qed (simp add: present_def one_cfg_def)

lemma one_present: "present one_cfg b d f \<Longrightarrow> header one_cfg b d f = 0"
proof -
  assume "present one_cfg b d f"
  moreover have "config_addr b d f 0xc = config_addr b d f 0 OR 0xc"
    by (simp add: config_addr_def or.assoc)
  ultimately show ?thesis unfolding header_def one_present_addr by (simp add: one_cfg_def)
qed

lemma one_devices: "bus_devices one_cfg 1 0 = [one_function]"
proof -
  have p: "present one_cfg 0 (of_nat d) 0 \<longleftrightarrow> d = 1" if "d < 32" for d
  proof -
    have "unat (of_nat d :: u8) = d" using that by (simp add: unat_of_nat)
    then have u: "(ucast (of_nat d :: u8) :: u32) = of_nat d" by (metis of_nat_unat)
    have "(ucast (of_nat d :: u8) :: u32) AND 31 = take_bit 5 (of_nat d)"
      unfolding u by (simp add: take_bit_eq_mask mask_eq_exp_minus_1)
    also have "\<dots> = of_nat d" using that by (simp add: take_bit_of_nat take_bit_nat_eq_self)
    finally have dd: "drop_bit 11 (config_addr 0 (of_nat d) 0 0) AND 31 = of_nat d" using config_addr_decode [of 0 "of_nat d" 0 0] by simp
    have "d = 1" if "config_addr 0 (of_nat d) 0 0 = 0x80000800"
    proof -
      have "(of_nat d :: u32) = 1" using dd unfolding that by simp
      then have "unat (of_nat d :: u32) = unat (1 :: u32)" by (rule arg_cong)
      then show ?thesis using \<open>d < 32\<close> by (simp add: unat_of_nat)
    qed
    then show ?thesis unfolding one_present_addr by (auto simp: config_addr_def)
  qed
  have "dev_functions one_cfg (bus_devices one_cfg 0) 0 d = (if d = 1 then [one_function] else [])" if "d < 32" for d
    using p [OF that] one_present [of 0 "of_nat d" 0] one_regs
    by (auto simp: dev_functions_def listed_def function_of_def one_function_def one_cfg_def)
  then have "bus_devices one_cfg 1 0 = concat (map (\<lambda>d. if d = 1 then [one_function] else []) [0..<32])"
    unfolding One_nat_def bus_devices.simps by (intro arg_cong [where f = concat] map_cong) auto
  also have "\<dots> = [one_function]" by (simp add: upt_conv_Cons)
  finally show ?thesis .
qed

theorem scan_bus_lists_witness:
  "\<exists>h l. scan_bus (reg_ports one_upd) 1 0 ((0, one_cfg), vector_new) = Some (h, l) \<and> snd h = one_cfg
    \<and> vec_list l = [one_function]"
proof -
  have "vec_inv (vector_new :: pci_device vector)" "vec_list (vector_new :: pci_device vector) = []" by simp_all
  then have "list_room (vector_new :: pci_device vector) 1" by (simp add: list_room_def)
  then show ?thesis
    using scan_bus_lists [OF reg_ports_bridge, of "\<lambda>b. 0" 0 1 "((0, one_cfg), vector_new)" one_upd] one_present one_devices by simp
qed

theorem find_msi_follows_identifier_witness:
  "\<exists>h'. find_msi (reg_ports one_upd) one_function (0, one_cfg) 0x40 = find_msi (reg_ports one_upd) one_function h' 0x00115001 \<and> snd h' = one_cfg"
  using find_msi_follows_identifier [OF reg_ports_bridge, of "0x40" "(0, one_cfg)" one_function one_upd]
  by (simp add: one_regs one_cfg_def)

end
