(* ===== verification/Mmio.thy ===== *)
theory Mmio
  imports Devfs Vmm
begin

text \<open>
  What the drivers share: a device with registers in memory, which reads and writes of the registers
  may change together with physical memory, and which may change both whenever the driver looks; the
  buffers the drivers take from the frame allocator; and the copy of a byte range out of a range of
  blocks. \<open>dma\<close> is physical memory by physical address; \<open>hv\<close> is the base of the direct map through which a
  driver sees it.
\<close>

section \<open>Definitions\<close>

record 'c hwmem =
  ctl :: 'c
  dma :: "u64 \<Rightarrow> u8"

record 'c mmio_dev =
  mmio_read :: "'c hwmem \<Rightarrow> u64 \<Rightarrow> u64 \<times> 'c hwmem"
  mmio_write :: "'c hwmem \<Rightarrow> u64 \<Rightarrow> u64 \<Rightarrow> 'c hwmem"
  advance :: "'c hwmem \<Rightarrow> 'c hwmem"

record 'c drv_sys =
  world :: "'c hwmem"
  nframes :: pmm

definition alloc_pages :: "u64 \<Rightarrow> 'c drv_sys \<Rightarrow> size_t \<Rightarrow> (u64 \<times> 'c drv_sys) option" where
  "alloc_pages hv s cnt = do { (a, fr) \<leftarrow> pmm_alloc (nframes s) cnt 1; Some (a + hv, s\<lparr>nframes := fr\<rparr>) }"

definition free_pages :: "u64 \<Rightarrow> 'c drv_sys \<Rightarrow> u64 \<Rightarrow> size_t \<Rightarrow> 'c drv_sys option" where
  "free_pages hv s b cnt = do { fr \<leftarrow> pmm_free (nframes s) (b - hv) cnt; Some (s\<lparr>nframes := fr\<rparr>) }"

section \<open>Bytes of blocks\<close>

text \<open>
  The blocks from the one that holds the byte \<open>off\<close> on are in memory at \<open>a\<close>: the bytes from \<open>off\<close> on are at
  the offset of \<open>off\<close> in its block, as far as the blocks go.
\<close>

definition blocks_at :: "(u64 \<Rightarrow> u8) \<Rightarrow> u64 \<Rightarrow> (u64 \<Rightarrow> u8) \<Rightarrow> u64 \<Rightarrow> nat \<Rightarrow> bool" where
  "blocks_at m a c p n \<longleftrightarrow> (\<forall>i < n. m (a + of_nat i) = c (p + of_nat i))"

lemma block_bytes:
  assumes "blocks_at m a c (off div sz * sz) n" and "unat (off mod sz) + cnt \<le> n"
  shows "bytes_at m (a + off mod sz) cnt = bytes_at c off cnt"
proof (rule nth_equalityI)
  fix i assume "i < length (bytes_at m (a + off mod sz) cnt)"
  then have i: "i < cnt" by simp
  let ?k = "unat (off mod sz) + i"
  have "m (a + of_nat ?k) = c (off div sz * sz + of_nat ?k)"
    using assms(1) [unfolded blocks_at_def, rule_format, of ?k] assms(2) i by simp
  moreover have "off div sz * sz + (off mod sz + of_nat i) = off + of_nat i"
    by (simp add: add.assoc [symmetric] div_mult_mod_eq)
  ultimately show "bytes_at m (a + off mod sz) cnt ! i = bytes_at c off cnt ! i" using i by (simp add: add.assoc)
qed simp

section \<open>Reading through a buffer\<close>

text \<open>
  Both drivers read bytes in the same way: blocks that cover as many bytes go into pages taken for
  the purpose, the bytes are copied from there, and the pages are given back. \<open>xfer\<close> moves the blocks.
\<close>

definition bounce_read :: "(size_t \<Rightarrow> size_t \<Rightarrow> u64 \<Rightarrow> 'c drv_sys \<Rightarrow> ('x \<times> 'c drv_sys) option) \<Rightarrow> u64 \<Rightarrow> size_t \<Rightarrow> size_t \<Rightarrow> size_t
    \<Rightarrow> 'c drv_sys \<Rightarrow> (u8 list \<times> 'x \<times> 'c drv_sys) option" where
  "bounce_read xfer hv sz off cnt s = do {
     let blocks = div_roundup cnt sz;
     let pages = div_roundup (blocks * sz) page_size;
     (b, s) \<leftarrow> alloc_pages hv s pages;
     (x, s) \<leftarrow> xfer (off div sz) blocks b s;
     let bytes = bytes_at (dma (world s)) (b - hv + off mod sz) (unat cnt);
     s \<leftarrow> free_pages hv s b pages;
     Some (bytes, x, s)
   }"

lemma one_page:
  assumes "0 < unat x" and "unat x \<le> 4096"
  shows "div_roundup x page_size = 1"
proof -
  have "unat (div_roundup x page_size) = (unat x + 4096 - 1) div 4096"
    using unat_div_roundup [of page_size x] assms by (simp add: page_size_def)
  also have "\<dots> = 1" using assms by (intro div_nat_eqI) simp_all
  finally show ?thesis by (metis of_nat_1 of_nat_unat ucast_id)
qed

abbreviation free_frames :: "'c drv_sys \<Rightarrow> nat set" where
  "free_frames s \<equiv> managed_pages (nframes s) - used_pages (nframes s)"

lemma bounce_read_bytes:
  assumes bl: "blocks = div_roundup cnt sz" "0 < unat (blocks * sz)" "unat (blocks * sz) \<le> 4096"
    and fit: "unat (off mod sz) + unat cnt \<le> unat (blocks * sz)"
    and fr: "pmm_inv (nframes s)" "free_frames s \<noteq> {}"
    and dev: "\<And>a f. unat a \<in> free_frames s \<Longrightarrow>
      \<exists>x w. xfer (off div sz) blocks (a + hv) (s\<lparr>nframes := f\<rparr>) = Some (x, s\<lparr>nframes := f, world := w\<rparr>)
        \<and> blocks_at (dma w) a c (off div sz * sz) (unat (blocks * sz))"
  shows "\<exists>x s'. bounce_read xfer hv sz off cnt s = Some (bytes_at c off (unat cnt), x, s')
    \<and> pmm_inv (nframes s') \<and> used_pages (nframes s') = used_pages (nframes s)"
proof -
  have "used_pages (nframes s) \<noteq> managed_pages (nframes s)" using fr(2) by auto
  then obtain a f1 where a: "pmm_alloc (nframes s) 1 1 = Some (a, f1)" "unat a \<in> free_frames s"
      "used_pages f1 = insert (unat a) (used_pages (nframes s))" "pmm_inv f1"
    using pmm_alloc_page [OF fr(1)] by metis
  obtain x w where w: "xfer (off div sz) blocks (a + hv) (s\<lparr>nframes := f1\<rparr>) = Some (x, s\<lparr>nframes := f1, world := w\<rparr>)"
      "blocks_at (dma w) a c (off div sz * sz) (unat (blocks * sz))"
    using dev [OF a(2)] by blast
  have "unat a \<in> used_pages f1" by (simp add: a(3))
  then obtain f2 where f2: "pmm_free f1 a 1 = Some f2" "pmm_inv f2" "used_pages f2 = used_pages f1 - {unat a}"
    using pmm_free_page [OF a(4)] by metis
  have "bounce_read xfer hv sz off cnt s = Some (bytes_at c off (unat cnt), x, s\<lparr>world := w, nframes := f2\<rparr>)"
    using a(1) w(1) f2(1) one_page [OF bl(2,3)] block_bytes [OF w(2) fit]
    by (simp add: bounce_read_def bl(1) [symmetric] alloc_pages_def free_pages_def)
  then show ?thesis using f2(2,3) a(2,3) by auto
qed

end
