(* ===== verification/Partitions.thy ===== *)
theory Partitions
  imports Ext2_Dir
begin

text \<open>
  \<^verbatim>\<open>kernel/fs/devfs.cpp\<close>, \<^verbatim>\<open>scan_partitions\<close>: the partition tables of a disk, the device node made for each
  partition and the file system that is looked for on it. A node of \<^verbatim>\<open>node_list\<close> is split: the pair of its
  node in the tree and its file system is in \<open>dev_nodes\<close> of the tree, the rest at the same position of
  \<open>parts\<close>. The member \<^verbatim>\<open>filesystem\<close> of a device node and the flags of a file system are not initialised; they come
  from the arguments \<open>g\<close> and \<open>fl\<close>.
\<close>

section \<open>Tables\<close>

record mbr_partition =
  drive_status :: u8
  starting_chs :: "u8 list"
  partition_type :: u8
  ending_chs :: "u8 list"
  starting_lba :: u32
  mbr_sector_cnt :: u32

definition mbr_of :: "u8 list \<Rightarrow> mbr_partition" where
  "mbr_of b = \<lparr>drive_status = ucast (get_field 1 0 b), starting_chs = take 3 (drop 1 b), partition_type = ucast (get_field 1 4 b),
     ending_chs = take 3 (drop 5 b), starting_lba = get_u32 8 b, mbr_sector_cnt = get_u32 12 b\<rparr>"

record gpt_partition_table_hdr =
  gpt_identifier :: u64
  version :: u32
  hdr_size :: u32
  checksum :: u32
  reserved0 :: u32
  hdr_lba :: u64
  alt_hdr_lba :: u64
  first_block :: u64
  last_block :: u64
  guid :: "u8 list"
  partition_array_lba :: u64
  partition_ent_cnt :: u32
  partition_ent_size :: u32
  crc32_partition_array :: u32

definition gpt_hdr_of :: "u8 list \<Rightarrow> gpt_partition_table_hdr" where
  "gpt_hdr_of b = \<lparr>gpt_identifier = get_field 8 0 b, version = get_u32 8 b, hdr_size = get_u32 12 b, checksum = get_u32 16 b,
     reserved0 = get_u32 20 b, hdr_lba = get_field 8 24 b, alt_hdr_lba = get_field 8 32 b, first_block = get_field 8 40 b,
     last_block = get_field 8 48 b, guid = take 16 (drop 56 b), partition_array_lba = get_field 8 72 b,
     partition_ent_cnt = get_u32 80 b, partition_ent_size = get_u32 84 b, crc32_partition_array = get_u32 88 b\<rparr>"

record gpt_partition_entry =
  partition_type_guid0 :: u64
  partition_type_guid1 :: u64
  partition_guid :: "u8 list"
  gpt_starting_lba :: u64
  last_lba :: u64
  gpt_flags :: u64
  gpt_name :: "u8 list"

definition gpt_entry_of :: "u8 list \<Rightarrow> gpt_partition_entry" where
  "gpt_entry_of b = \<lparr>partition_type_guid0 = get_field 8 0 b, partition_type_guid1 = get_field 8 8 b, partition_guid = take 16 (drop 16 b),
     gpt_starting_lba = get_field 8 32 b, last_lba = get_field 8 40 b, gpt_flags = get_field 8 48 b, gpt_name = take 72 (drop 56 b)\<rparr>"

definition array_of :: "(u8 list \<Rightarrow> 'a) \<Rightarrow> nat \<Rightarrow> nat \<Rightarrow> u8 list \<Rightarrow> 'a list" where
  "array_of f sz n b = map (\<lambda>i. f (take sz (drop (sz * i) b))) [0..<n]"

section \<open>Device nodes\<close>

record disk_dev =
  device_prefix :: kstring
  device_index :: ssize_t
  partition_cnt :: ssize_t
  medium :: msd

record dev_sys =
  tree :: vfs
  parts :: "dev_node list"
  volumes :: "ptr \<rightharpoonup> fs"

definition part_path :: "disk_dev \<Rightarrow> kstring option" where
  "part_path d = do {
     p \<leftarrow> string_of_raw (map Some (''/dev/'' @ [NUL]));
     p \<leftarrow> string_plus p (device_prefix d);
     p \<leftarrow> string_plus_number p (device_index d);
     t \<leftarrow> string_of_raw (map Some (''-'' @ [NUL]));
     p \<leftarrow> string_plus p t;
     string_plus_number p (partition_cnt d)
   }"

definition add_node :: "ptr \<Rightarrow> dev_sys \<Rightarrow> ptr \<Rightarrow> size_t \<Rightarrow> size_t \<Rightarrow> msd \<Rightarrow> dev_sys" where
  "add_node g s p off cnt m =
     s\<lparr>tree := (tree s)\<lparr>dev_nodes := dev_nodes (tree s) @ [(p, g)]\<rparr>,
       parts := parts s @ [\<lparr>partition_offset = off, node_sector_cnt = cnt, device = Some m\<rparr>]\<rparr>"

definition new_partition :: "ptr \<Rightarrow> dev_sys \<Rightarrow> disk_dev \<Rightarrow> size_t \<Rightarrow> size_t \<Rightarrow> (disk_dev \<times> dev_sys) option" where
  "new_partition g s d off cnt = do {
     path \<leftarrow> part_path d;
     let d = d\<lparr>partition_cnt := partition_cnt d + 1\<rparr>;
     t \<leftarrow> node_ctor (tree s) (str_val path);
     p \<leftarrow> search_absolute t (str_val path);
     Some (d, add_node g (s\<lparr>tree := t\<rparr>) p off cnt (medium d))
   }"

text \<open>A file system object for the last node of the list; only when one is found the node is told.\<close>

definition new_ext2 :: "size_t \<Rightarrow> dev_sys \<Rightarrow> dev_sys option" where
  "new_ext2 fl s =
     (if parts s = [] \<or> dev_nodes (tree s) = [] then None
      else do {
        let a = vtop (tree s);
        let t = (tree s)\<lparr>vtop := Suc a, filesystems := (filesystems (tree s))(a \<mapsto> \<lparr>mount_gate = [], fs_flags = fl\<rparr>)\<rparr>;
        (found, f) \<leftarrow> fs_ctor (last (parts s));
        if found
        then Some (s\<lparr>tree := t\<lparr>dev_nodes := butlast (dev_nodes t) @ [(fst (last (dev_nodes t)), a)]\<rparr>, volumes := (volumes s)(a \<mapsto> f)\<rparr>)
        else Some (s\<lparr>tree := t\<rparr>)
      })"

fun scan_mbr :: "ptr \<Rightarrow> size_t \<Rightarrow> mbr_partition list \<Rightarrow> disk_dev \<Rightarrow> dev_sys \<Rightarrow> (disk_dev \<times> dev_sys) option" where
  "scan_mbr g fl [] d s = Some (d, s)"
| "scan_mbr g fl (e # es) d s =
     (if partition_type e = 0 then scan_mbr g fl es d s
      else do {
        (d, s) \<leftarrow> new_partition g s d (ucast (starting_lba e) * sector_size (medium d)) (ucast (mbr_sector_cnt e));
        s \<leftarrow> new_ext2 fl s;
        scan_mbr g fl es d s
      })"

fun scan_gpt :: "ptr \<Rightarrow> gpt_partition_entry list \<Rightarrow> disk_dev \<Rightarrow> dev_sys \<Rightarrow> (disk_dev \<times> dev_sys) option" where
  "scan_gpt g [] d s = Some (d, s)"
| "scan_gpt g (e # es) d s =
     (if partition_type_guid0 e = 0 \<and> partition_type_guid1 e = 0 then scan_gpt g es d s
      else do {
        (d, s) \<leftarrow> new_partition g s d (gpt_starting_lba e * sector_size (medium d)) (gpt_starting_lba e - last_lba e);
        scan_gpt g es d s
      })"

definition scan_partitions :: "ptr \<Rightarrow> size_t \<Rightarrow> disk_dev \<Rightarrow> dev_sys \<Rightarrow> (disk_dev \<times> dev_sys) option" where
  "scan_partitions g fl d s =
     (let m = medium d in
      if get_u16 0 (msd_read m 510 2) = 0xaa55
      then scan_mbr g fl (array_of mbr_of 16 4 (msd_read m 0x1be 64)) d s
      else let h = gpt_hdr_of (msd_read m (sector_size m) 92) in
      if gpt_identifier h = 0x4546492050415254
      then let n = partition_ent_cnt h
           in scan_gpt g (array_of gpt_entry_of 128 (unat n)
                (msd_read m (partition_array_lba h * sector_size m) (128 * ucast n))) d s
      else Some (d, s))"

section \<open>Correctness\<close>

lemma node_ctor_dev_nodes: "node_ctor s path = Some s' \<Longrightarrow> dev_nodes s' = dev_nodes s"
proof -
  have w: "vnode_write s p f = Some s' \<Longrightarrow> dev_nodes s' = dev_nodes s" for s p f s'
    by (auto simp: vnode_write_def bind_eq_Some_conv)
  have n: "create_node s p t = Some (c, s') \<Longrightarrow> dev_nodes s' = dev_nodes s" for s p t c s'
    by (auto simp: create_node_def Let_def bind_eq_Some_conv dest!: w)
  have a: "create_all s p ts = Some s' \<Longrightarrow> dev_nodes s' = dev_nodes s" for s p ts s'
  proof (induction ts arbitrary: s p)
    case (Cons t ts)
    then show ?case by (fastforce simp: bind_eq_Some_conv dest: n w)
  qed simp
  have "ctor_walk s p ts = Some s' \<Longrightarrow> dev_nodes s' = dev_nodes s" for s p ts s'
  proof (induction ts arbitrary: s p)
    case (Cons t ts)
    then show ?case using a [of s p "t # ts"] by (auto simp: bind_eq_Some_conv simp del: create_all.simps split: if_splits)
  qed simp
  then show "node_ctor s path = Some s' \<Longrightarrow> dev_nodes s' = dev_nodes s" by (simp add: node_ctor_def)
qed

lemma vfs_inv_dev_nodes [simp]: "vfs_inv (s\<lparr>dev_nodes := l\<rparr>) ys = vfs_inv s ys"
  by (simp add: vfs_inv_def gate_ok_def)

lemma vfs_inv_new_fs: "vfs_inv s ys \<Longrightarrow> vfs_inv (s\<lparr>vtop := Suc (vtop s), filesystems := (filesystems s)(a \<mapsto> \<lparr>mount_gate = [], fs_flags = fl\<rparr>)\<rparr>) ys"
  by (auto simp: vfs_inv_def gate_ok_def less_Suc_eq)

text \<open>The name of a partition: short prefixes and numbers always fit the blocks of the heap.\<close>

lemma terminator_fits_31: "0 < n \<Longrightarrow> n < 32 \<Longrightarrow> terminator_fits n"
proof -
  have "\<forall>n \<in> set [1..<32]. terminator_fits n"
    by (simp add: upt_conv_Cons terminator_fits_def heap_block_def round_size_def pow2_roundup_def)
  then show "0 < n \<Longrightarrow> n < 32 \<Longrightarrow> terminator_fits n" by simp
qed

lemma digits_short:
  fixes n :: nat
  assumes "1 < length ds \<longrightarrow> 10 ^ (length ds - 1) \<le> n" and "n < 10 ^ 6"
  shows "length ds \<le> 6"
proof (rule ccontr)
  assume h: "\<not> length ds \<le> 6"
  then have "(10 :: nat) ^ 6 \<le> 10 ^ (length ds - 1)" by (intro power_increasing) simp_all
  with h assms show False by simp
qed

lemma string_plus_short:
  assumes "str_ok s" and "str_ok t" and "string_at s (str_length s) \<noteq> None" and "length (str_val s) + length (str_val t) < 32"
    and "str_val s \<noteq> []"
  shows "\<exists>r. string_plus s t = Some r \<and> str_ok r \<and> str_val r = str_val s @ str_val t \<and> string_at r (str_length r) \<noteq> None"
proof -
  have "0 < unat (str_length s)" using assms(1,5) str_val_length [of s] by (metis length_greater_0_conv)
  then have "terminator_fits (unat (str_length s) + unat (str_length t))"
    using assms(1,2,4) by (intro terminator_fits_31) simp_all
  then show ?thesis using string_plus_val [OF assms(1-3)] assms(1,2,4) by fastforce
qed

lemma string_plus_number_short:
  assumes "str_ok s" and "string_at s (str_length s) \<noteq> None" and "str_val s \<noteq> []" and "length (str_val s) + 6 < 32"
    and "0 \<le> sint k" and "sint k < 10 ^ 6"
  shows "\<exists>r ds. string_plus_number s k = Some r \<and> str_ok r \<and> str_val r = str_val s @ ds \<and> string_at r (str_length r) \<noteq> None
    \<and> decimal ds = nat (sint k) \<and> length ds \<le> 6"
proof -
  obtain ds where ds: "number_loop (sint k) [] = Some ds" "decimal ds = nat (sint k)" "NUL \<notin> set ds"
    "1 < length ds \<longrightarrow> 10 ^ (length ds - 1) \<le> nat (sint k)"
    using number_loop_correct [of "nat (sint k)" "[]"] assms(5) by auto
  have small: "length ds \<le> 6" using digits_short [OF ds(4)] assms(5,6) by simp
  then obtain t where t: "string_of_raw (map Some (ds @ [NUL])) = Some t" "str_ok t" "str_val t = ds"
    using string_of_raw_val [OF ds(3)] by auto
  obtain r where "string_plus s t = Some r" "str_ok r" "str_val r = str_val s @ ds" "string_at r (str_length r) \<noteq> None"
    using string_plus_short [OF assms(1) t(2) assms(2)] small assms(3,4) t(3) by auto
  then show ?thesis using ds(1,2) t(1) small by (auto simp: string_plus_number_def)
qed

definition disk_ok :: "disk_dev \<Rightarrow> bool" where
  "disk_ok d \<longleftrightarrow> str_ok (device_prefix d) \<and> unat (str_length (device_prefix d)) \<le> 8
     \<and> 0 \<le> sint (device_index d) \<and> sint (device_index d) < 10 ^ 6 \<and> 0 \<le> sint (partition_cnt d) \<and> sint (partition_cnt d) < 10 ^ 6"

lemma part_path_val:
  assumes "disk_ok d"
  shows "\<exists>p ds ns. part_path d = Some p \<and> str_val p = ''/dev/'' @ str_val (device_prefix d) @ ds @ ''-'' @ ns
    \<and> decimal ds = nat (sint (device_index d)) \<and> decimal ns = nat (sint (partition_cnt d))"
proof -
  have D: "str_ok (device_prefix d)" "length (str_val (device_prefix d)) \<le> 8" using assms by (simp_all add: disk_ok_def)
  obtain a where a: "string_of_raw (map Some (''/dev/'' @ [NUL])) = Some a" "str_ok a" "str_val a = ''/dev/''" "string_at a (str_length a) \<noteq> None"
    using string_of_raw_val [of "''/dev/''"] by auto
  obtain b where b: "string_plus a (device_prefix d) = Some b" "str_ok b" "str_val b = ''/dev/'' @ str_val (device_prefix d)" "string_at b (str_length b) \<noteq> None"
    using string_plus_short [OF a(2) D(1) a(4)] a(3) D(2) by auto
  obtain c ds where c: "string_plus_number b (device_index d) = Some c" "str_ok c" "str_val c = str_val b @ ds" "string_at c (str_length c) \<noteq> None"
      "decimal ds = nat (sint (device_index d))" "length ds \<le> 6"
    using string_plus_number_short [OF b(2,4), of "device_index d"] b(3) D(2) assms by (auto simp: disk_ok_def)
  obtain t where t: "string_of_raw (map Some (''-'' @ [NUL])) = Some t" "str_ok t" "str_val t = ''-''"
    using string_of_raw_val [of "''-''"] by auto
  obtain e where e: "string_plus c t = Some e" "str_ok e" "str_val e = str_val c @ ''-''" "string_at e (str_length e) \<noteq> None"
    using string_plus_short [OF c(2) t(2) c(4)] t(3) c(3,6) b(3) D(2) by auto
  obtain r ns where r: "string_plus_number e (partition_cnt d) = Some r" "str_val r = str_val e @ ns" "decimal ns = nat (sint (partition_cnt d))"
    using string_plus_number_short [OF e(2,4), of "partition_cnt d"] e(3) c(3,6) b(3) D(2) assms by (auto simp: disk_ok_def)
  have "part_path d = Some r" using a(1) b(1) c(1) t(1) e(1) r(1) by (simp add: part_path_def)
  then show ?thesis using r(2,3) e(3) c(3,5) b(3) by auto
qed

definition node_of :: "msd \<Rightarrow> mbr_partition \<Rightarrow> dev_node" where
  "node_of m e = \<lparr>partition_offset = ucast (starting_lba e) * sector_size m, node_sector_cnt = ucast (mbr_sector_cnt e), device = Some m\<rparr>"

lemma path_tokens_dev: "path_tokens (''/dev/'' @ x) \<noteq> []"
  by (simp add: path_tokens_def)

lemma new_partition_ok:
  assumes "disk_ok d" and "vfs_inv (tree s) ys"
  shows "\<exists>path t p zs. part_path d = Some path
    \<and> new_partition g s d off cnt = Some (d\<lparr>partition_cnt := partition_cnt d + 1\<rparr>, add_node g (s\<lparr>tree := t\<rparr>) p off cnt (medium d))
    \<and> grown (tree s) ys t zs \<and> dev_nodes t = dev_nodes (tree s) \<and> p \<in> set (ys @ zs) \<and> p \<noteq> 0
    \<and> name_of (vnodes t) p = last (path_tokens (str_val path))"
proof -
  obtain path x where path: "part_path d = Some path" "str_val path = ''/dev/'' @ x" using part_path_val [OF assms(1)] by blast
  then obtain t zs p where "node_ctor (tree s) (str_val path) = Some t" "grown (tree s) ys t zs"
    "search_absolute t (str_val path) = Some p" "p \<in> set (ys @ zs)" "p \<noteq> 0" "name_of (vnodes t) p = last (path_tokens (str_val path))"
    using node_ctor_found [OF assms(2), of "str_val path"] path_tokens_dev by metis
  then show ?thesis using path(1) node_ctor_dev_nodes
    by (intro exI [of _ path] exI [of _ t] exI [of _ p] exI [of _ zs]) (auto simp: new_partition_def)
qed

lemma new_ext2_ok:
  assumes "parts s \<noteq> []" and "dev_nodes (tree s) = l @ [(p, g)]" and "fs_ctor (last (parts s)) = Some (found, f)"
    and "vfs_inv (tree s) ys"
  shows "\<exists>t a v. new_ext2 fl s = Some (s\<lparr>tree := t, volumes := v\<rparr>) \<and> vnodes t = vnodes (tree s) \<and> vfs_inv t ys
    \<and> dev_nodes t = l @ [(p, if found then a else g)] \<and> (found \<longrightarrow> v a = Some f \<and> filesystems t a \<noteq> None)"
proof -
  let ?a = "vtop (tree s)"
  let ?t = "(tree s)\<lparr>vtop := Suc ?a, filesystems := (filesystems (tree s))(?a \<mapsto> \<lparr>mount_gate = [], fs_flags = fl\<rparr>)\<rparr>"
  have inv: "vfs_inv ?t ys" using vfs_inv_new_fs [OF assms(4)] .
  show ?thesis
  proof (cases found)
    case True
    then show ?thesis using assms inv
      by (intro exI [of _ "?t\<lparr>dev_nodes := l @ [(p, ?a)]\<rparr>"] exI [of _ ?a] exI [of _ "(volumes s)(?a \<mapsto> f)"]) (simp add: new_ext2_def Let_def)
  next
    case False
    then show ?thesis using assms inv
      by (intro exI [of _ ?t] exI [of _ ?a] exI [of _ "volumes s"]) (simp add: new_ext2_def Let_def)
  qed
qed

text \<open>
  The node of a partition: it is in the tree under the name of the partition, and its file system is
  left as it was in memory when none is found.
\<close>

definition part_node_ok :: "ptr \<Rightarrow> disk_dev \<Rightarrow> vfs \<Rightarrow> ptr list \<Rightarrow> nat \<Rightarrow> mbr_partition \<Rightarrow> ptr \<times> ptr \<Rightarrow> bool" where
  "part_node_ok g d t ys k e q \<longleftrightarrow> fst q \<noteq> 0 \<and> fst q \<in> set ys
     \<and> (\<exists>path. part_path (d\<lparr>partition_cnt := partition_cnt d + of_nat k\<rparr>) = Some path
          \<and> name_of (vnodes t) (fst q) = last (path_tokens (str_val path)))
     \<and> (\<forall>f. fs_ctor (node_of (medium d) e) = Some (False, f) \<longrightarrow> snd q = g)"

lemma part_node_ok_grown:
  assumes "grown t ys t' zs" and "part_node_ok g d t ys k e q"
  shows "part_node_ok g d t' (ys @ zs) k e q"
  using assms by (auto simp: part_node_ok_def grown_def)

lemma part_node_ok_Suc: "part_node_ok g (d\<lparr>partition_cnt := partition_cnt d + 1\<rparr>) t ys k e q = part_node_ok g d t ys (Suc k) e q"
  by (simp add: part_node_ok_def algebra_simps)

lemma scan_step:
  assumes ok: "disk_ok d" and inv: "vfs_inv (tree s) ys" and fs: "fs_ctor (node_of (medium d) e) \<noteq> None"
  shows "\<exists>s1 s2 q zs. new_partition g s d (ucast (starting_lba e) * sector_size (medium d)) (ucast (mbr_sector_cnt e))
        = Some (d\<lparr>partition_cnt := partition_cnt d + 1\<rparr>, s1) \<and> new_ext2 fl s1 = Some s2
    \<and> parts s2 = parts s @ [node_of (medium d) e] \<and> grown (tree s) ys (tree s2) zs
    \<and> dev_nodes (tree s2) = dev_nodes (tree s) @ [q] \<and> part_node_ok g d (tree s2) (ys @ zs) 0 e q"
proof -
  let ?off = "ucast (starting_lba e) * sector_size (medium d)" and ?cnt = "ucast (mbr_sector_cnt e) :: size_t"
  obtain path t p zs where t: "part_path d = Some path"
    "new_partition g s d ?off ?cnt = Some (d\<lparr>partition_cnt := partition_cnt d + 1\<rparr>, add_node g (s\<lparr>tree := t\<rparr>) p ?off ?cnt (medium d))"
    "grown (tree s) ys t zs" "dev_nodes t = dev_nodes (tree s)" "p \<in> set (ys @ zs)" "p \<noteq> 0"
    "name_of (vnodes t) p = last (path_tokens (str_val path))"
    using new_partition_ok [OF ok inv, of g ?off ?cnt] by blast
  define s1 where "s1 = add_node g (s\<lparr>tree := t\<rparr>) p ?off ?cnt (medium d)"
  have s1: "parts s1 = parts s @ [node_of (medium d) e]" "dev_nodes (tree s1) = dev_nodes (tree s) @ [(p, g)]"
    "vnodes (tree s1) = vnodes t" "vfs_inv (tree s1) (ys @ zs)"
    using t(3,4) by (simp_all add: s1_def add_node_def node_of_def grown_def)
  obtain found f where f: "fs_ctor (node_of (medium d) e) = Some (found, f)" using fs by auto
  then have "fs_ctor (last (parts s1)) = Some (found, f)" by (simp add: s1(1))
  then obtain t2 a v where t2: "new_ext2 fl s1 = Some (s1\<lparr>tree := t2, volumes := v\<rparr>)" "vnodes t2 = vnodes t" "vfs_inv t2 (ys @ zs)"
    "dev_nodes t2 = dev_nodes (tree s) @ [(p, if found then a else g)]"
    using new_ext2_ok [OF _ s1(2) _ s1(4), of found f fl] s1(1,3) by auto
  have "part_node_ok g d t2 (ys @ zs) 0 e (p, if found then a else g)"
    using t(1,5-7) t2(2) f by (auto simp: part_node_ok_def)
  then show ?thesis
    using t(2,3) t2 s1(1) unfolding s1_def [symmetric]
    by (intro exI [of _ s1] exI [of _ "s1\<lparr>tree := t2, volumes := v\<rparr>"] exI [of _ "(p, if found then a else g)"] exI [of _ zs])
      (simp add: grown_def)
qed

abbreviation used_entries :: "mbr_partition list \<Rightarrow> mbr_partition list" where
  "used_entries es \<equiv> filter (\<lambda>e. partition_type e \<noteq> 0) es"

lemma scan_mbr_ok:
  assumes "disk_ok d" and "sint (partition_cnt d) + int (length es) < 10 ^ 6" and "vfs_inv (tree s) ys"
    and "\<And>e. e \<in> set es \<Longrightarrow> partition_type e \<noteq> 0 \<Longrightarrow> fs_ctor (node_of (medium d) e) \<noteq> None"
  shows "\<exists>d' s' ps zs. scan_mbr g fl es d s = Some (d', s') \<and> partition_cnt d' = partition_cnt d + of_nat (length (used_entries es))
    \<and> parts s' = parts s @ map (node_of (medium d)) (used_entries es) \<and> grown (tree s) ys (tree s') zs
    \<and> dev_nodes (tree s') = dev_nodes (tree s) @ ps \<and> length ps = length (used_entries es)
    \<and> (\<forall>k < length (used_entries es). part_node_ok g d (tree s') (ys @ zs) k (used_entries es ! k) (ps ! k))"
  using assms
proof (induction es arbitrary: d s ys)
  case Nil
  then show ?case by (intro exI [of _ d] exI [of _ s] exI [of _ "[]"]) (simp add: grown_def)
next
  case (Cons e es)
  show ?case
  proof (cases "partition_type e = 0")
    case True
    then show ?thesis using Cons.IH [of d s ys] Cons.prems by simp
  next
    case False
    let ?d = "d\<lparr>partition_cnt := partition_cnt d + 1\<rparr>"
    have "fs_ctor (node_of (medium d) e) \<noteq> None" using Cons.prems(4) [of e] False by simp
    from scan_step [OF Cons.prems(1,3) this, of g fl] obtain s1 s2 q zs where step:
      "new_partition g s d (ucast (starting_lba e) * sector_size (medium d)) (ucast (mbr_sector_cnt e)) = Some (?d, s1)"
      "new_ext2 fl s1 = Some s2" "parts s2 = parts s @ [node_of (medium d) e]" "grown (tree s) ys (tree s2) zs"
      "dev_nodes (tree s2) = dev_nodes (tree s) @ [q]" "part_node_ok g d (tree s2) (ys @ zs) 0 e q"
      by blast
    have cnt: "sint (partition_cnt d + 1) = sint (partition_cnt d) + 1"
      using Cons.prems(1,2) by (simp add: disk_ok_def signed_take_bit_int_eq_self sint_word_ariths)
    have "disk_ok ?d" using Cons.prems(1,2) cnt by (simp add: disk_ok_def)
    moreover have "sint (partition_cnt ?d) + int (length es) < 10 ^ 6" using Cons.prems(2) cnt by simp
    moreover have "vfs_inv (tree s2) (ys @ zs)" using step(4) by (simp add: grown_def)
    moreover have "fs_ctor (node_of (medium ?d) e) \<noteq> None" if "e \<in> set es" "partition_type e \<noteq> 0" for e
      using Cons.prems(4) [of e] that by simp
    ultimately obtain d' s' ps ws where r: "scan_mbr g fl es ?d s2 = Some (d', s')"
      "partition_cnt d' = partition_cnt ?d + of_nat (length (used_entries es))"
      "parts s' = parts s2 @ map (node_of (medium d)) (used_entries es)" "grown (tree s2) (ys @ zs) (tree s') ws"
      "dev_nodes (tree s') = dev_nodes (tree s2) @ ps" "length ps = length (used_entries es)"
      "\<And>k. k < length (used_entries es) \<Longrightarrow> part_node_ok g d (tree s') (ys @ zs @ ws) (Suc k) (used_entries es ! k) (ps ! k)"
      using Cons.IH [of ?d s2 "ys @ zs"] by (fastforce simp: part_node_ok_Suc)
    have "part_node_ok g d (tree s') (ys @ zs @ ws) 0 e q" using part_node_ok_grown [OF r(4) step(6)] by simp
    then have "part_node_ok g d (tree s') (ys @ zs @ ws) k ((e # used_entries es) ! k) ((q # ps) ! k)" if "k < Suc (length (used_entries es))" for k
      using that r(7) by (cases k) simp_all
    then show ?thesis
      using False step r grown_trans [OF step(4) r(4)]
      by (intro exI [of _ d'] exI [of _ s'] exI [of _ "q # ps"] exI [of _ "zs @ ws"]) simp
  qed
qed

section \<open>Properties\<close>

text \<open>
  C16. On a disk with a master boot record the scan makes a device node for each used entry, in the
  order of the table: its offset in bytes and its length in sectors are those of the entry, it is
  in the tree under the name made of the device and a number that counts up, and nothing else of
  the tree changes its name. The file system of a node on which none is found is not set.
\<close>

theorem scan_partitions_mbr:
  assumes "get_u16 0 (msd_read (medium d) 510 2) = 0xaa55" and "disk_ok d" and "sint (partition_cnt d) + 4 < 10 ^ 6"
    and "vfs_inv (tree s) ys" and "es = used_entries (array_of mbr_of 16 4 (msd_read (medium d) 0x1be 64))"
    and "\<And>e. e \<in> set es \<Longrightarrow> fs_ctor (node_of (medium d) e) \<noteq> None"
  shows "\<exists>d' s' ps zs. scan_partitions g fl d s = Some (d', s') \<and> partition_cnt d' = partition_cnt d + of_nat (length es)
    \<and> parts s' = parts s @ map (node_of (medium d)) es \<and> grown (tree s) ys (tree s') zs
    \<and> dev_nodes (tree s') = dev_nodes (tree s) @ ps \<and> length ps = length es
    \<and> (\<forall>k < length es. part_node_ok g d (tree s') (ys @ zs) k (es ! k) (ps ! k))"
proof -
  have "length (array_of mbr_of 16 4 (msd_read (medium d) 0x1be 64)) = 4" by (simp add: array_of_def)
  then show ?thesis
    using scan_mbr_ok [OF assms(2) _ assms(4), of "array_of mbr_of 16 4 (msd_read (medium d) 0x1be 64)" g fl] assms(1,3,5,6)
    by (simp add: scan_partitions_def Let_def)
qed

definition demo_table :: "u8 list" where
  "demo_table = replicate 16 0 @ [0x80, 0, 0, 0, 0x83, 0, 0, 0, 8, 0, 0, 0, 0, 1, 0, 0] @ replicate 32 0"

definition demo_mbr :: "u64 \<Rightarrow> u8" where
  "demo_mbr = put_bytes (\<lambda>a. 0) 0x1be (demo_table @ [0x55, 0xaa])"

definition demo_disk :: disk_dev where
  "demo_disk = \<lparr>device_prefix = lit ''sd'', device_index = 0, partition_cnt = 0, medium = \<lparr>sector_size = 512, disk = demo_mbr\<rparr>\<rparr>"

definition demo_sys :: dev_sys where
  "demo_sys = \<lparr>tree = vfs_empty, parts = [], volumes = Map.empty\<rparr>"

definition demo_entry :: mbr_partition where
  "demo_entry = \<lparr>drive_status = 0x80, starting_chs = [0, 0, 0], partition_type = 0x83, ending_chs = [0, 0, 0], starting_lba = 8, mbr_sector_cnt = 0x100\<rparr>"

lemma demo_cnt: "partition_cnt demo_disk = 0" by (simp add: demo_disk_def)

lemma demo_disk_ok: "disk_ok demo_disk"
  using lit_val [of "''sd''"] by (simp add: disk_ok_def demo_disk_def)

lemma demo_bytes: "msd_read (medium demo_disk) 510 2 = [0x55, 0xaa]" "msd_read (medium demo_disk) 0x1be 64 = demo_table"
proof -
  have t: "length demo_table = 64" by (simp add: demo_table_def)
  have "bytes_at demo_mbr 0x1be 64 @ bytes_at demo_mbr (0x1be + of_nat 64) 2 = demo_table @ [0x55, 0xaa]"
    unfolding bytes_at_append demo_mbr_def using put_bytes_at [of "demo_table @ [0x55, 0xaa]"] t by simp
  then show "msd_read (medium demo_disk) 510 2 = [0x55, 0xaa]" "msd_read (medium demo_disk) 0x1be 64 = demo_table"
    using t by (simp_all add: msd_read_def demo_disk_def)
qed

lemma demo_entries: "used_entries (array_of mbr_of 16 4 (msd_read (medium demo_disk) 0x1be 64)) = [demo_entry]"
  unfolding demo_bytes(2) by code_simp

lemma demo_no_fs: "fs_ctor (node_of (medium demo_disk) demo_entry) \<noteq> None"
proof -
  have u: "unat (4674 + of_nat i :: u64) = 4674 + i" if "i < 200" for i
    using that by (subst unat_add_lt) (simp_all add: unat_of_nat_lt)
  have "bytes_at demo_mbr 5120 200 = bytes_at (\<lambda>a. 0) 5120 200"
    unfolding demo_mbr_def by (rule bytes_at_put_apart) (simp add: apart_def u demo_table_def)
  also have "\<dots> = replicate 200 0" by (rule nth_equalityI) simp_all
  finally have z: "bytes_at demo_mbr 5120 200 = replicate 200 0" .
  have "take 2 (drop 56 (replicate 200 (0 :: u8))) = [0, 0]" by (simp add: numeral_2_eq_2)
  then show ?thesis using z
    by (simp add: fs_ctor_def node_of_def demo_disk_def demo_entry_def dev_read_def msd_read_def signature_def get_u16_def
        get_field_def sizeof_superblock_def Let_def del: drop_replicate take_replicate)
qed

theorem scan_partitions_mbr_witness:
  "\<exists>d' s' ps zs. scan_partitions 7 0 demo_disk demo_sys = Some (d', s') \<and> partition_cnt d' = 1
    \<and> parts s' = [node_of (medium demo_disk) demo_entry] \<and> vfs_inv (tree s') ([root_node] @ zs)
    \<and> dev_nodes (tree s') = ps \<and> length ps = 1 \<and> part_node_ok 7 demo_disk (tree s') ([root_node] @ zs) 0 demo_entry (ps ! 0)"
proof -
  have "get_u16 0 (msd_read (medium demo_disk) 510 2) = 0xaa55" unfolding demo_bytes by code_simp
  from scan_partitions_mbr [OF this demo_disk_ok _ _ demo_entries [symmetric], of demo_sys "[root_node]" 7 0]
  obtain d' s' ps zs where r: "scan_partitions 7 0 demo_disk demo_sys = Some (d', s')" "partition_cnt d' = 1"
      "parts s' = [node_of (medium demo_disk) demo_entry]" "grown vfs_empty [root_node] (tree s') zs"
      "dev_nodes (tree s') = ps" "length ps = 1" "part_node_ok 7 demo_disk (tree s') ([root_node] @ zs) 0 demo_entry (ps ! 0)"
    using demo_no_fs vfs_empty_inv by (auto simp: demo_sys_def vfs_empty_def demo_cnt)
  then show ?thesis by (intro exI [of _ d'] exI [of _ s'] exI [of _ ps] exI [of _ zs]) (simp add: grown_def)
qed

text \<open>
  The signature of a GUID partition table is compared in the order in which it is written, and
  not in the order in which its bytes are stored: a disk that has the bytes of the signature is
  not recognised, and the scan leaves everything as it is.
\<close>

theorem scan_partitions_misses_gpt:
  assumes "get_u16 0 (msd_read (medium d) 510 2) \<noteq> 0xaa55"
    and "bytes_at (disk (medium d)) (sector_size (medium d)) 8 = [0x45, 0x46, 0x49, 0x20, 0x50, 0x41, 0x52, 0x54]"
  shows "scan_partitions g fl d s = Some (d, s)"
proof -
  let ?b = "msd_read (medium d) (sector_size (medium d)) 92"
  have "take 8 ?b = bytes_at (disk (medium d)) (sector_size (medium d)) 8"
    by (simp add: msd_read_def bytes_at_def take_map)
  then have "get_field 8 0 ?b = 0x5452415020494645" using assms(2) by (simp add: get_field_def)
  then show ?thesis using assms(1) by (simp add: scan_partitions_def Let_def gpt_hdr_of_def)
qed

definition demo_gpt :: disk_dev where
  "demo_gpt = demo_disk\<lparr>medium := \<lparr>sector_size = 512, disk = put_bytes (\<lambda>a. 0) 512 [0x45, 0x46, 0x49, 0x20, 0x50, 0x41, 0x52, 0x54]\<rparr>\<rparr>"

theorem scan_partitions_misses_gpt_witness: "scan_partitions 7 0 demo_gpt demo_sys = Some (demo_gpt, demo_sys)"
proof -
  have eight: "length [0x45, 0x46, 0x49, 0x20, 0x50, 0x41, 0x52, 0x54 :: u8] = 8" by simp
  have "(- 1 :: u64) = 0xffffffffffffffff" by simp
  then have "unat (- 1 :: u64) = 2 ^ 64 - 1" by (simp only:) simp
  then have "get_u16 0 (msd_read (medium demo_gpt) 510 2) \<noteq> 0xaa55"
    by (simp add: demo_gpt_def msd_read_def bytes_at_def put_bytes_def get_u16_def get_field_def upt_conv_Cons)
  moreover have "bytes_at (disk (medium demo_gpt)) (sector_size (medium demo_gpt)) 8 = [0x45, 0x46, 0x49, 0x20, 0x50, 0x41, 0x52, 0x54]"
    using put_bytes_at [of "[0x45, 0x46, 0x49, 0x20, 0x50, 0x41, 0x52, 0x54]" "\<lambda>a. 0" 512, unfolded eight] by (simp add: demo_gpt_def)
  ultimately show ?thesis by (rule scan_partitions_misses_gpt)
qed

end
