(* ===== verification/Nvme.thy ===== *)
theory Nvme
  imports Pci Mmio Partitions
begin

text \<open>
  \<^verbatim>\<open>kernel/drivers/nvme/nvme.cpp\<close> and \<^verbatim>\<open>nvme.hpp\<close>: the commands of the controller, the pair of rings they go
  through, the start-up of a controller and the transfers of a namespace. The controller itself is a
  parameter: it answers reads and writes of its registers and may change memory and its own state
  whenever the driver looks.
\<close>

section \<open>Commands\<close>

record create_completion_queue =
  cq_opcode :: u8
  cq_fl :: u8
  cq_command_id :: u16
  cq_prp1 :: u64
  cq_cqid :: u16
  cq_qsize :: u16
  cq_flags :: u16
  cq_irq_vector :: u16

record create_submission_queue =
  sq_opcode :: u8
  sq_fl :: u8
  sq_command_id :: u16
  sq_prp1 :: u64
  sq_sqid :: u16
  sq_qsize :: u16
  sq_flags :: u16
  sq_cqid :: u16

record delete_queue =
  dq_opcode :: u8
  dq_fl :: u8
  dq_command_id :: u16
  dq_qid :: u16

record abort_command =
  ab_opcode :: u8
  ab_fl :: u8
  ab_command_id :: u16
  ab_sqid :: u16
  ab_cid :: u16

record features =
  fe_opcode :: u8
  fe_fl :: u8
  fe_command_id :: u16
  fe_nsid :: u32
  fe_prp1 :: u64
  fe_prp2 :: u64
  fe_fid :: u32
  fe_dword11 :: u32

record identify =
  id_opcode :: u8
  id_fl :: u8
  id_command_id :: u16
  id_nsid :: u32
  id_prp1 :: u64
  id_prp2 :: u64
  id_cns :: u32

record format_command =
  fo_opcode :: u8
  fo_fl :: u8
  fo_command_id :: u16
  fo_nsid :: u32
  fo_cdw10 :: u32

record io_rw =
  rw_opcode :: u8
  rw_fl :: u8
  rw_command_id :: u16
  rw_nsid :: u32
  rw_metadata :: u64
  rw_prp1 :: u64
  rw_prp2 :: u64
  rw_slba :: u64
  rw_len :: u16
  rw_control :: u16
  rw_dsmgmt :: u32
  rw_reftag :: u32
  rw_apptag :: u16
  rw_appmask :: u16

datatype command = Create_cq create_completion_queue | Create_sq create_submission_queue | Delete_q delete_queue
  | Abort_cmd abort_command | Fet features | Ident identify | Format_cmd format_command | Rw io_rw

text \<open>The 64 bytes of a command; reserved members are zero because every command starts out cleared.\<close>

abbreviation b1 :: "u8 \<Rightarrow> u8 list" where "b1 v \<equiv> le_bytes 1 (ucast v)"
abbreviation b2 :: "u16 \<Rightarrow> u8 list" where "b2 v \<equiv> le_bytes 2 (ucast v)"
abbreviation b4 :: "u32 \<Rightarrow> u8 list" where "b4 v \<equiv> le_bytes 4 (ucast v)"
abbreviation zs :: "nat \<Rightarrow> u8 list" where "zs n \<equiv> replicate n 0"

fun command_bytes :: "command \<Rightarrow> u8 list" where
  "command_bytes (Create_cq c) = b1 (cq_opcode c) @ b1 (cq_fl c) @ b2 (cq_command_id c) @ zs 20 @ le_bytes 8 (cq_prp1 c) @ zs 8
     @ b2 (cq_cqid c) @ b2 (cq_qsize c) @ b2 (cq_flags c) @ b2 (cq_irq_vector c) @ zs 16"
| "command_bytes (Create_sq c) = b1 (sq_opcode c) @ b1 (sq_fl c) @ b2 (sq_command_id c) @ zs 20 @ le_bytes 8 (sq_prp1 c) @ zs 8
     @ b2 (sq_sqid c) @ b2 (sq_qsize c) @ b2 (sq_flags c) @ b2 (sq_cqid c) @ zs 16"
| "command_bytes (Delete_q c) = b1 (dq_opcode c) @ b1 (dq_fl c) @ b2 (dq_command_id c) @ zs 36 @ b2 (dq_qid c) @ zs 22"
| "command_bytes (Abort_cmd c) = b1 (ab_opcode c) @ b1 (ab_fl c) @ b2 (ab_command_id c) @ zs 36 @ b2 (ab_sqid c) @ b2 (ab_cid c) @ zs 20"
| "command_bytes (Fet c) = b1 (fe_opcode c) @ b1 (fe_fl c) @ b2 (fe_command_id c) @ b4 (fe_nsid c) @ zs 16 @ le_bytes 8 (fe_prp1 c)
     @ le_bytes 8 (fe_prp2 c) @ b4 (fe_fid c) @ b4 (fe_dword11 c) @ zs 16"
| "command_bytes (Ident c) = b1 (id_opcode c) @ b1 (id_fl c) @ b2 (id_command_id c) @ b4 (id_nsid c) @ zs 16 @ le_bytes 8 (id_prp1 c)
     @ le_bytes 8 (id_prp2 c) @ b4 (id_cns c) @ zs 20"
| "command_bytes (Format_cmd c) = b1 (fo_opcode c) @ b1 (fo_fl c) @ b2 (fo_command_id c) @ b4 (fo_nsid c) @ zs 32 @ b4 (fo_cdw10 c) @ zs 20"
| "command_bytes (Rw c) = b1 (rw_opcode c) @ b1 (rw_fl c) @ b2 (rw_command_id c) @ b4 (rw_nsid c) @ zs 8 @ le_bytes 8 (rw_metadata c)
     @ le_bytes 8 (rw_prp1 c) @ le_bytes 8 (rw_prp2 c) @ le_bytes 8 (rw_slba c) @ b2 (rw_len c) @ b2 (rw_control c)
     @ b4 (rw_dsmgmt c) @ b4 (rw_reftag c) @ b2 (rw_apptag c) @ b2 (rw_appmask c)"

definition no_create_cq :: create_completion_queue where
  "no_create_cq = \<lparr>cq_opcode = 0, cq_fl = 0, cq_command_id = 0, cq_prp1 = 0, cq_cqid = 0, cq_qsize = 0, cq_flags = 0, cq_irq_vector = 0\<rparr>"

definition no_create_sq :: create_submission_queue where
  "no_create_sq = \<lparr>sq_opcode = 0, sq_fl = 0, sq_command_id = 0, sq_prp1 = 0, sq_sqid = 0, sq_qsize = 0, sq_flags = 0, sq_cqid = 0\<rparr>"

definition no_features :: features where
  "no_features = \<lparr>fe_opcode = 0, fe_fl = 0, fe_command_id = 0, fe_nsid = 0, fe_prp1 = 0, fe_prp2 = 0, fe_fid = 0, fe_dword11 = 0\<rparr>"

definition no_identify :: identify where
  "no_identify = \<lparr>id_opcode = 0, id_fl = 0, id_command_id = 0, id_nsid = 0, id_prp1 = 0, id_prp2 = 0, id_cns = 0\<rparr>"

definition no_rw :: io_rw where
  "no_rw = \<lparr>rw_opcode = 0, rw_fl = 0, rw_command_id = 0, rw_nsid = 0, rw_metadata = 0, rw_prp1 = 0, rw_prp2 = 0, rw_slba = 0,
     rw_len = 0, rw_control = 0, rw_dsmgmt = 0, rw_reftag = 0, rw_apptag = 0, rw_appmask = 0\<rparr>"

definition opcode_create_sq :: u8 where "opcode_create_sq = 0x1"

definition opcode_create_cq :: u8 where "opcode_create_cq = 0x5"

definition opcode_identify :: u8 where "opcode_identify = 0x6"

definition opcode_set_features :: u8 where "opcode_set_features = 0x9"

section \<open>Queues\<close>

record completion =
  cp_result :: u32
  cp_rsvd :: u32
  cp_sq_head :: u16
  cp_sq_id :: u16
  cp_command_id :: u16
  cp_status :: u16

definition completion_of :: "u8 list \<Rightarrow> completion" where
  "completion_of b = \<lparr>cp_result = get_u32 0 b, cp_rsvd = get_u32 4 b, cp_sq_head = get_u16 8 b, cp_sq_id = get_u16 10 b,
     cp_command_id = get_u16 12 b, cp_status = get_u16 14 b\<rparr>"

record queue =
  submission_queue :: u64
  completion_queue :: u64
  submission_doorbell :: u64
  completion_doorbell :: u64
  qid :: size_t
  sq_head :: size_t
  sq_tail :: size_t
  cq_head :: size_t
  cq_tail :: size_t
  phase :: size_t

definition completion_at :: "u64 \<Rightarrow> queue \<Rightarrow> size_t \<Rightarrow> (u64 \<Rightarrow> u8) \<Rightarrow> completion" where
  "completion_at hv q i m = completion_of (bytes_at m (completion_queue q - hv + 16 * i) 16)"

definition phase_seen :: "u64 \<Rightarrow> queue \<Rightarrow> (u64 \<Rightarrow> u8) \<Rightarrow> bool" where
  "phase_seen hv q m \<longleftrightarrow> ucast (cp_status (completion_at hv q (cq_head q) m) AND 1) = phase q"

partial_function (option) wait_cmd :: "'c mmio_dev \<Rightarrow> u64 \<Rightarrow> queue \<Rightarrow> 'c hwmem \<Rightarrow> 'c hwmem option" where
  "wait_cmd C hv q w = (if phase_seen hv q (dma w) then Some w else wait_cmd C hv q (advance C w))"

declare wait_cmd.simps [code]

text \<open>\<open>n\<close> is the number of entries of the queues of the device, \<^verbatim>\<open>parent->queue_entries\<close>.\<close>

definition send_cmd :: "'c mmio_dev \<Rightarrow> u64 \<Rightarrow> size_t \<Rightarrow> queue \<Rightarrow> 'c hwmem \<Rightarrow> command \<Rightarrow> (u16 \<times> queue \<times> 'c hwmem) option" where
  "send_cmd C hv n q w cmd = do {
     let w = w\<lparr>dma := put_bytes (dma w) (submission_queue q - hv + 64 * sq_tail q) (command_bytes cmd)\<rparr>;
     let q = q\<lparr>sq_tail := sq_tail q + 1\<rparr>;
     let q = (if sq_tail q = n then q\<lparr>sq_tail := 0\<rparr> else q);
     let w = mmio_write C w (submission_doorbell q) (ucast (ucast (sq_tail q) :: u32));
     w \<leftarrow> wait_cmd C hv q w;
     let st = cp_status (completion_at hv q (cq_head q) (dma w));
     if drop_bit 1 st \<noteq> 0 then Some (st, q, w)
     else do {
       let q = q\<lparr>cq_head := cq_head q + 1\<rparr>;
       let q = (if cq_head q = n then q\<lparr>cq_head := 0, phase := (if phase q = 0 then 1 else 0)\<rparr> else q);
       let w = mmio_write C w (completion_doorbell q) (ucast (ucast (cq_head q) :: u32));
       Some (0, q, w)
     }
   }"

section \<open>Devices\<close>

record nvme_ns =
  lba_cnt :: size_t
  lba_size :: size_t
  nsid :: size_t

record nvme_dev =
  registers :: u64
  queue_entries :: size_t
  max_page_size :: size_t
  min_page_size :: size_t
  nv_page_size :: size_t
  strides :: size_t
  qid_cnt :: size_t
  admin_queue :: queue
  ctrl_id :: u64
  ns_id :: u64
  namespace_list :: "nvme_ns vector"

definition nvme_ns_type :: tinfo where
  "nvme_ns_type = \<lparr>sizeof = 4120, trivial_dtor = True\<rparr>"

text \<open>The members of the identify structures the driver reads, by their offsets.\<close>

definition id_nn :: "(u64 \<Rightarrow> u8) \<Rightarrow> u64 \<Rightarrow> u32" where
  "id_nn m a = get_u32 516 (bytes_at m a 4096)"

definition ns_ctor :: "u8 list \<Rightarrow> size_t \<Rightarrow> nvme_ns" where
  "ns_ctor b i = \<lparr>lba_cnt = get_field 8 0 b,
     lba_size = scast (push_bit (unat (get_field 1 (130 + 4 * unat (get_field 1 26 b AND 0x1f)) b)) (1 :: 32 word)), nsid = i\<rparr>"

definition queue_ctor :: "u64 \<Rightarrow> nvme_dev \<Rightarrow> size_t \<Rightarrow> 'c drv_sys \<Rightarrow> (queue \<times> 'c drv_sys) option" where
  "queue_ctor hv d i s = do {
     (sq, s) \<leftarrow> alloc_pages hv s (div_roundup (queue_entries d * 64) page_size);
     (cq, s) \<leftarrow> alloc_pages hv s (div_roundup (queue_entries d * 16) page_size);
     Some (\<lparr>submission_queue = sq, completion_queue = cq,
       submission_doorbell = registers d + page_size + 2 * i * push_bit (unat (strides d)) 4,
       completion_doorbell = registers d + page_size + (2 * i + 1) * push_bit (unat (strides d)) 4,
       qid = i, sq_head = 0, sq_tail = 0, cq_head = 0, cq_tail = 0, phase = 1\<rparr>, s)
   }"

definition admin_cmd :: "'c mmio_dev \<Rightarrow> u64 \<Rightarrow> nvme_dev \<Rightarrow> 'c drv_sys \<Rightarrow> command \<Rightarrow> (u16 \<times> nvme_dev \<times> 'c drv_sys) option" where
  "admin_cmd C hv d s cmd = do {
     (st, q, w) \<leftarrow> send_cmd C hv (queue_entries d) (admin_queue d) (world s) cmd;
     Some (st, d\<lparr>admin_queue := q\<rparr>, s\<lparr>world := w\<rparr>)
   }"

definition get_ctrl_id :: "'c mmio_dev \<Rightarrow> u64 \<Rightarrow> nvme_dev \<Rightarrow> 'c drv_sys \<Rightarrow> (32 word \<times> nvme_dev \<times> 'c drv_sys) option" where
  "get_ctrl_id C hv d s = do {
     (st, d, s) \<leftarrow> admin_cmd C hv d s (Ident (no_identify\<lparr>id_opcode := opcode_identify, id_cns := 1, id_prp1 := ctrl_id d - hv\<rparr>));
     Some (if st \<noteq> 0 then -1 else 0, d, s)
   }"

definition get_namespace_id :: "'c mmio_dev \<Rightarrow> u64 \<Rightarrow> nvme_dev \<Rightarrow> 'c drv_sys \<Rightarrow> 32 word \<Rightarrow> (32 word \<times> nvme_dev \<times> 'c drv_sys) option" where
  "get_namespace_id C hv d s num = do {
     (st, d, s) \<leftarrow> admin_cmd C hv d s (Ident (no_identify\<lparr>id_opcode := opcode_identify, id_nsid := num, id_cns := 0,
        id_prp1 := ns_id d - hv, id_prp2 := 0\<rparr>));
     Some (if st \<noteq> 0 then -1 else 0, d, s)
   }"

text \<open>The number of bytes of the list is passed to the frame allocator, which counts in pages.\<close>

definition get_nsid_list :: "'c mmio_dev \<Rightarrow> u64 \<Rightarrow> nvme_dev \<Rightarrow> 'c drv_sys \<Rightarrow> (u32 vector \<times> nvme_dev \<times> 'c drv_sys) option" where
  "get_nsid_list C hv d s = do {
     let pages = align_up (ucast (id_nn (dma (world s)) (ctrl_id d - hv)) * 4) 0x1000;
     (l, s) \<leftarrow> alloc_pages hv s pages;
     (_, d, s) \<leftarrow> admin_cmd C hv d s (Ident (no_identify\<lparr>id_opcode := opcode_identify, id_cns := 2, id_prp1 := l - hv\<rparr>));
     let m = dma (world s);
     v \<leftarrow> for_range (\<lambda>i v. let x = get_u32 0 (bytes_at m (l - hv + 4 * of_nat i) 4)
         in if x \<noteq> 0 then vector_push \<lparr>sizeof = 4, trivial_dtor = True\<rparr> v x else Some v)
       0 (unat (id_nn m (ctrl_id d - hv))) vector_new;
     s \<leftarrow> free_pages hv s l (align_up (ucast (id_nn m (ctrl_id d - hv)) * 4) 0x1000);
     Some (v, d, s)
   }"

definition create_io_queue :: "'c mmio_dev \<Rightarrow> u64 \<Rightarrow> nvme_dev \<Rightarrow> 'c drv_sys \<Rightarrow> queue \<Rightarrow> (32 word \<times> nvme_dev \<times> 'c drv_sys) option" where
  "create_io_queue C hv d s q = do {
     (st, d, s) \<leftarrow> admin_cmd C hv d s (Create_cq (no_create_cq\<lparr>cq_opcode := opcode_create_cq, cq_prp1 := completion_queue q - hv,
        cq_cqid := ucast (qid q), cq_qsize := ucast (queue_entries d - 1), cq_flags := 1\<rparr>));
     if st \<noteq> 0 then Some (-1, d, s)
     else do {
       (st, d, s) \<leftarrow> admin_cmd C hv d s (Create_sq (no_create_sq\<lparr>sq_opcode := opcode_create_sq, sq_prp1 := submission_queue q - hv,
          sq_sqid := ucast (qid q), sq_cqid := ucast (qid q), sq_qsize := ucast (queue_entries d - 1), sq_flags := 1 OR push_bit 1 2\<rparr>));
       Some (if st \<noteq> 0 then -1 else 0, d, s)
     }
   }"

section \<open>Transfers\<close>

definition rw_lba :: "'c mmio_dev \<Rightarrow> u64 \<Rightarrow> size_t \<Rightarrow> nvme_ns \<Rightarrow> queue \<Rightarrow> 'c hwmem \<Rightarrow> u64 \<Rightarrow> size_t \<Rightarrow> size_t \<Rightarrow> bool
    \<Rightarrow> (32 word \<times> queue \<times> 'c hwmem) option" where
  "rw_lba C hv n s q w b start cnt rw = do {
     (st, q, w) \<leftarrow> send_cmd C hv n q w (Rw (no_rw\<lparr>rw_opcode := (if rw then 1 else 2), rw_nsid := ucast (nsid s), rw_slba := start,
        rw_len := ucast (cnt - 1), rw_prp1 := b - hv\<rparr>));
     Some (if st \<noteq> 0 then -1 else 0, q, w)
   }"

text \<open>\<open>q\<close> is the queue of the running processor. The bytes read go to the caller's buffer.\<close>

definition nvme_read :: "'c mmio_dev \<Rightarrow> u64 \<Rightarrow> nvme_dev \<Rightarrow> size_t \<Rightarrow> size_t \<Rightarrow> size_t \<Rightarrow> queue \<Rightarrow> 'c drv_sys
    \<Rightarrow> (u8 list \<times> queue \<times> 'c drv_sys) option" where
  "nvme_read C hv d part off cnt q s = do {
     ns \<leftarrow> vector_at (namespace_list d) part;
     if lba_size ns = 0 then None
     else do {
       let lba_start = off div lba_size ns;
       let cnt_lba = div_roundup cnt (lba_size ns);
       let pages = div_roundup (cnt_lba * lba_size ns) page_size;
       (b, s) \<leftarrow> alloc_pages hv s pages;
       (_, q, w) \<leftarrow> rw_lba C hv (queue_entries d) ns q (world s) b lba_start cnt_lba False;
       let bytes = bytes_at (dma w) (b - hv + off mod lba_size ns) (unat cnt);
       s \<leftarrow> free_pages hv (s\<lparr>world := w\<rparr>) b pages;
       Some (bytes, q, s)
     }
   }"

definition nvme_write :: "'c mmio_dev \<Rightarrow> u64 \<Rightarrow> nvme_dev \<Rightarrow> size_t \<Rightarrow> size_t \<Rightarrow> u8 list \<Rightarrow> queue \<Rightarrow> 'c drv_sys
    \<Rightarrow> (queue \<times> 'c drv_sys) option" where
  "nvme_write C hv d part off bytes q s = do {
     ns \<leftarrow> vector_at (namespace_list d) part;
     if lba_size ns = 0 then None
     else do {
       let lba_start = off div lba_size ns;
       let cnt_lba = div_roundup (of_nat (length bytes)) (lba_size ns);
       let pages = div_roundup (cnt_lba * lba_size ns) page_size;
       (b, s) \<leftarrow> alloc_pages hv s pages;
       (_, q, w) \<leftarrow> rw_lba C hv (queue_entries d) ns q (world s) b lba_start cnt_lba False;
       let w = w\<lparr>dma := put_bytes (dma w) (b - hv + off mod lba_size ns) bytes\<rparr>;
       (_, q, w) \<leftarrow> rw_lba C hv (queue_entries d) ns q w b lba_start cnt_lba True;
       s \<leftarrow> free_pages hv (s\<lparr>world := w\<rparr>) b pages;
       Some (q, s)
     }
   }"

section \<open>Starting a controller\<close>

datatype nvme_status = Bad_version | No_command_set | Fatal | No_controller_id | No_namespace_id | No_queues | Ready

definition nvme_versions :: "u32 list" where
  "nvme_versions = [0x10000, 0x10100, 0x10200, 0x10201, 0x10300, 0x10400]"

text \<open>Offsets of the registers.\<close>

definition reg_cap :: u64 where "reg_cap = 0x0"

definition reg_vs :: u64 where "reg_vs = 0x8"

definition reg_cc :: u64 where "reg_cc = 0x14"

definition reg_csts :: u64 where "reg_csts = 0x1c"

definition reg_aqa :: u64 where "reg_aqa = 0x24"

definition reg_asq :: u64 where "reg_asq = 0x28"

definition reg_acq :: u64 where "reg_acq = 0x30"

definition reg_get :: "'c mmio_dev \<Rightarrow> nvme_dev \<Rightarrow> u64 \<Rightarrow> 'c drv_sys \<Rightarrow> u64 \<times> 'c drv_sys" where
  "reg_get C d r s = (let (v, w) = mmio_read C (world s) (registers d + r) in (v, s\<lparr>world := w\<rparr>))"

definition reg_put :: "'c mmio_dev \<Rightarrow> nvme_dev \<Rightarrow> u64 \<Rightarrow> u64 \<Rightarrow> 'c drv_sys \<Rightarrow> 'c drv_sys" where
  "reg_put C d r v s = s\<lparr>world := mmio_write C (world s) (registers d + r) v\<rparr>"

partial_function (option) wait_disabled :: "'c mmio_dev \<Rightarrow> nvme_dev \<Rightarrow> 'c drv_sys \<Rightarrow> 'c drv_sys option" where
  "wait_disabled C d s = (let (v, s) = reg_get C d reg_csts s in if v AND 1 \<noteq> 0 then wait_disabled C d s else Some s)"

partial_function (option) wait_enabled :: "'c mmio_dev \<Rightarrow> nvme_dev \<Rightarrow> 'c drv_sys \<Rightarrow> (bool \<times> 'c drv_sys) option" where
  "wait_enabled C d s =
     (let (v, s) = reg_get C d reg_csts s
      in if v AND 1 \<noteq> 0 then Some (True, s)
         else let (v, s) = reg_get C d reg_csts s in if v AND 2 \<noteq> 0 then Some (False, s) else wait_enabled C d s)"

declare wait_disabled.simps [code] wait_enabled.simps [code]

text \<open>The page sizes, the reset, the admin queue and the enabling.\<close>

definition enable_controller :: "'c mmio_dev \<Rightarrow> u64 \<Rightarrow> nvme_dev \<Rightarrow> 'c drv_sys \<Rightarrow> (bool \<times> nvme_dev \<times> 'c drv_sys) option" where
  "enable_controller C hv d s = do {
     let (cap, s) = reg_get C d reg_cap s;
     let d = d\<lparr>max_page_size := pow 2 (12 + (drop_bit 52 cap AND 0xf))\<rparr>;
     let (cap, s) = reg_get C d reg_cap s;
     let d = d\<lparr>min_page_size := pow 2 (12 + (drop_bit 48 cap AND 0xf))\<rparr>;
     let d = d\<lparr>nv_page_size := min_page_size d\<rparr>;
     let (cc, s) = reg_get C d reg_cc s;
     let (cc2, s) = reg_get C d reg_cc s;
     let s = (if cc2 AND 1 \<noteq> 0 then let (v, s) = reg_get C d reg_cc s in reg_put C d reg_cc (v AND NOT 1) s else s);
     s \<leftarrow> wait_disabled C d s;
     let (cap, s) = reg_get C d reg_cap s;
     let d = d\<lparr>queue_entries := cap AND 0xffff\<rparr>;
     let (cap, s) = reg_get C d reg_cap s;
     let d = d\<lparr>strides := drop_bit 32 cap AND 0xf\<rparr>;
     (q, s) \<leftarrow> queue_ctor hv d (qid_cnt d) s;
     let d = d\<lparr>admin_queue := q, qid_cnt := qid_cnt d + 1\<rparr>;
     let s = reg_put C d reg_aqa (ucast (ucast (push_bit 16 (queue_entries d - 1) OR (queue_entries d - 1)) :: u32)) s;
     let s = reg_put C d reg_asq (submission_queue q - hv) s;
     let s = reg_put C d reg_acq (completion_queue q - hv) s;
     let s = reg_put C d reg_cc (ucast ((ucast cc :: u32) OR push_bit 16 6 OR push_bit 20 4 OR 1)) s;
     (ok, s) \<leftarrow> wait_enabled C d s;
     Some (ok, d, s)
   }"

fun add_namespaces :: "'c mmio_dev \<Rightarrow> u64 \<Rightarrow> u32 vector \<Rightarrow> nat \<Rightarrow> nat \<Rightarrow> nvme_dev \<Rightarrow> 'c drv_sys
    \<Rightarrow> (bool \<times> nvme_dev \<times> 'c drv_sys) option" where
  "add_namespaces C hv l i 0 d s = Some (True, d, s)"
| "add_namespaces C hv l i (Suc n) d s = do {
     x \<leftarrow> vector_at l (of_nat i);
     (r, d, s) \<leftarrow> get_namespace_id C hv d s x;
     if r = -1 then Some (False, d, s)
     else do {
       v \<leftarrow> vector_push nvme_ns_type (namespace_list d) (ns_ctor (bytes_at (dma (world s)) (ns_id d - hv) 4096) (ucast x));
       add_namespaces C hv l (Suc i) n (d\<lparr>namespace_list := v\<rparr>) s
     }
   }"

text \<open>One queue for each processor; the result of creating it is not looked at.\<close>

fun add_io_queues :: "'c mmio_dev \<Rightarrow> u64 \<Rightarrow> nat \<Rightarrow> nvme_dev \<Rightarrow> 'c drv_sys \<Rightarrow> (queue list \<times> nvme_dev \<times> 'c drv_sys) option" where
  "add_io_queues C hv 0 d s = Some ([], d, s)"
| "add_io_queues C hv (Suc n) d s = do {
     (q, s) \<leftarrow> queue_ctor hv d (qid_cnt d) s;
     let d = d\<lparr>qid_cnt := qid_cnt d + 1\<rparr>;
     (_, d, s) \<leftarrow> create_io_queue C hv d s q;
     (qs, d, s) \<leftarrow> add_io_queues C hv n d s;
     Some (q # qs, d, s)
   }"

text \<open>
  The constructor: \<open>base\<close> is the address of the registers from the first base address register, \<open>d\<close> what the
  members hold before, \<open>ncpus\<close> the number of processors. It ends early with the reason, or with the
  queues of the processors.
\<close>

definition nvme_device_ctor :: "'c mmio_dev \<Rightarrow> u64 \<Rightarrow> u64 \<Rightarrow> nat \<Rightarrow> nvme_dev \<Rightarrow> 'c drv_sys
    \<Rightarrow> (nvme_status \<times> queue list \<times> nvme_dev \<times> 'c drv_sys) option" where
  "nvme_device_ctor C hv base ncpus d s = do {
     let d = d\<lparr>qid_cnt := 0, registers := base + hv, namespace_list := vector_new\<rparr>;
     let (_, s) = reg_get C d reg_vs s;
     let (_, s) = reg_get C d reg_vs s;
     let (_, s) = reg_get C d reg_vs s;
     let (vs, s) = reg_get C d reg_vs s;
     if ucast vs \<notin> set nvme_versions then Some (Bad_version, [], d, s)
     else do {
       let (cap, s) = reg_get C d reg_cap s;
       if \<not> bit cap 37 then Some (No_command_set, [], d, s)
       else do {
         (ok, d, s) \<leftarrow> enable_controller C hv d s;
         if \<not> ok then Some (Fatal, [], d, s)
         else do {
           (a, s) \<leftarrow> alloc_pages hv s (align_up 4096 page_size);
           (b, s) \<leftarrow> alloc_pages hv s 1;
           let d = d\<lparr>ctrl_id := a, ns_id := b\<rparr>;
           (r, d, s) \<leftarrow> get_ctrl_id C hv d s;
           if r = -1 then Some (No_controller_id, [], d, s)
           else do {
             (l, d, s) \<leftarrow> get_nsid_list C hv d s;
             (ok, d, s) \<leftarrow> add_namespaces C hv l 0 (unat (buf_size l)) d s;
             if \<not> ok then Some (No_namespace_id, [], d, s)
             else do {
               let n = (of_nat ncpus * 2 :: size_t);
               (st, d, s) \<leftarrow> admin_cmd C hv d s (Fet (no_features\<lparr>fe_opcode := opcode_set_features, fe_fid := 7,
                  fe_dword11 := ucast ((n - 1) OR push_bit 16 (n - 1))\<rparr>));
               if st \<noteq> 0 then Some (No_queues, [], d, s)
               else do { (qs, d, s) \<leftarrow> add_io_queues C hv ncpus d s; Some (Ready, qs, d, s) }
             }
           }
         }
       }
     }
   }"

text \<open>
  The first base address register gives the registers; \<open>g\<close> is what the member holds when there is none.
\<close>

definition nvme_init :: "'h ports \<Rightarrow> 'c mmio_dev \<Rightarrow> u64 \<Rightarrow> pci_device \<Rightarrow> u64 \<Rightarrow> nat \<Rightarrow> nvme_dev \<Rightarrow> 'h \<Rightarrow> 'c drv_sys
    \<Rightarrow> (nvme_status \<times> queue list \<times> nvme_dev \<times> 'h \<times> 'c drv_sys) option" where
  "nvme_init P C hv x g ncpus d h s = do {
     let h = become_bus_master P x h;
     let h = enable_mmio P x h;
     let (b, h) = get_bar P x h 0;
     let base = (case b of Some r \<Rightarrow> bar_base r | None \<Rightarrow> g);
     (r, qs, d, s) \<leftarrow> nvme_device_ctor C hv base ncpus d s;
     Some (r, qs, d, h, s)
   }"

text \<open>
  Every namespace becomes a disk, of which the partitions are looked for: \<open>k\<close> is the number of devices in
  the list of the driver, \<open>bs i\<close> the bytes of the namespace \<open>i\<close> as \<^verbatim>\<open>msd::read\<close> returns them.
\<close>

definition ns_prefix :: "ssize_t \<Rightarrow> ssize_t \<Rightarrow> kstring option" where
  "ns_prefix k i = do {
     p \<leftarrow> string_of_raw (map Some (''nvme'' @ [NUL]));
     p \<leftarrow> string_plus_number p k;
     t \<leftarrow> string_of_raw (map Some (''n'' @ [NUL]));
     p \<leftarrow> string_plus p t;
     p \<leftarrow> string_plus_number p i;
     t \<leftarrow> string_of_raw (map Some (''p'' @ [NUL]));
     string_plus p t
   }"

fun register_namespaces :: "ptr \<Rightarrow> size_t \<Rightarrow> (nat \<Rightarrow> u64 \<Rightarrow> u8) \<Rightarrow> size_t \<Rightarrow> nvme_ns vector \<Rightarrow> nat \<Rightarrow> nat \<Rightarrow> dev_sys \<Rightarrow> dev_sys option" where
  "register_namespaces g fl bs k v i 0 t = Some t"
| "register_namespaces g fl bs k v i (Suc n) t = do {
     p \<leftarrow> ns_prefix k (of_nat i);
     ns \<leftarrow> vector_at v (of_nat i);
     (_, t) \<leftarrow> scan_partitions g fl \<lparr>device_prefix = p, device_index = k, partition_cnt = 0,
        medium = \<lparr>sector_size = lba_size ns, disk = bs i\<rparr>\<rparr> t;
     register_namespaces g fl bs k v (Suc i) n t
   }"

section \<open>Layout of the commands\<close>

text \<open>
  C22. Every command has 64 bytes, and the members of a transfer command are where the controller looks
  for them: the operation in the first byte, the namespace at 4, the address of the data at 24, the
  first block at 40 and the number of blocks, less one, at 48.
\<close>

theorem command_layout:
  "length (command_bytes cmd) = 64
    \<and> get_field 1 0 (command_bytes (Rw c)) = ucast (rw_opcode c) \<and> get_field 4 4 (command_bytes (Rw c)) = ucast (rw_nsid c)
    \<and> get_field 8 24 (command_bytes (Rw c)) = rw_prp1 c \<and> get_field 8 40 (command_bytes (Rw c)) = rw_slba c
    \<and> get_field 2 48 (command_bytes (Rw c)) = ucast (rw_len c)"
proof -
  have tb: "take_bit 8 (ucast v :: u64) = ucast v" for v :: u8 by (rule bit_word_eqI) (auto simp: bit_simps dest: bit_imp_le_length)
  have tb4: "take_bit 32 (ucast v :: u64) = ucast v" for v :: u32 by (rule bit_word_eqI) (auto simp: bit_simps dest: bit_imp_le_length)
  have tb2: "take_bit 16 (ucast v :: u64) = ucast v" for v :: u16 by (rule bit_word_eqI) (auto simp: bit_simps dest: bit_imp_le_length)
  have tb8: "take_bit 64 v = v" for v :: u64 by (rule bit_word_eqI) (auto simp: bit_simps dest: bit_imp_le_length)
  have at: "get_field n (length xs) (xs @ le_bytes n v @ ys) = take_bit (8 * n) v" for n xs v ys
    by (simp add: get_field_def le_word_le_bytes)
  have "length (command_bytes cmd) = 64" by (cases cmd) simp_all
  moreover have "get_field 1 0 (command_bytes (Rw c)) = ucast (rw_opcode c)"
    using at [of 1 "[]" "ucast (rw_opcode c)"] by (simp add: tb)
  moreover have "get_field 4 4 (command_bytes (Rw c)) = ucast (rw_nsid c)"
    using at [of 4 "b1 (rw_opcode c) @ b1 (rw_fl c) @ b2 (rw_command_id c)" "ucast (rw_nsid c)"] by (simp add: tb4)
  moreover have "get_field 8 24 (command_bytes (Rw c)) = rw_prp1 c"
    using at [of 8 "b1 (rw_opcode c) @ b1 (rw_fl c) @ b2 (rw_command_id c) @ b4 (rw_nsid c) @ zs 8 @ le_bytes 8 (rw_metadata c)" "rw_prp1 c"]
    by (simp add: tb8)
  moreover have "get_field 8 40 (command_bytes (Rw c)) = rw_slba c"
    using at [of 8 "b1 (rw_opcode c) @ b1 (rw_fl c) @ b2 (rw_command_id c) @ b4 (rw_nsid c) @ zs 8 @ le_bytes 8 (rw_metadata c)
      @ le_bytes 8 (rw_prp1 c) @ le_bytes 8 (rw_prp2 c)" "rw_slba c"]
    by (simp add: tb8)
  moreover have "get_field 2 48 (command_bytes (Rw c)) = ucast (rw_len c)"
    using at [of 2 "b1 (rw_opcode c) @ b1 (rw_fl c) @ b2 (rw_command_id c) @ b4 (rw_nsid c) @ zs 8 @ le_bytes 8 (rw_metadata c)
      @ le_bytes 8 (rw_prp1 c) @ le_bytes 8 (rw_prp2 c) @ le_bytes 8 (rw_slba c)" "ucast (rw_len c)"]
    by (simp add: tb2)
  ultimately show ?thesis by blast
qed

section \<open>The rings\<close>

text \<open>
  A completion carries a phase bit that the controller inverts on every round of the ring. With the
  number \<open>k\<close> of completions posted so far, the next one goes to the slot \<open>k mod n\<close> with the bit \<open>tag n k\<close>.
\<close>

definition tag :: "nat \<Rightarrow> nat \<Rightarrow> u16" where
  "tag n k = (if even (k div n) then 1 else 0)"

definition pbit :: "u64 \<Rightarrow> queue \<Rightarrow> nat \<Rightarrow> (u64 \<Rightarrow> u8) \<Rightarrow> u16" where
  "pbit hv q i m = cp_status (completion_at hv q (of_nat i) m) AND 1"

text \<open>
  What the driver relies on, for the queue \<open>q\<close> with \<open>n\<close> entries: after a write to the submission doorbell
  the controller posts, after some time, one completion in the next slot and touches no other slot;
  a write to the completion doorbell posts none. \<open>posted\<close> counts the completions.
\<close>

definition serves :: "'c mmio_dev \<Rightarrow> u64 \<Rightarrow> queue \<Rightarrow> nat \<Rightarrow> ('c \<Rightarrow> nat) \<Rightarrow> bool" where
  "serves C hv q n posted \<longleftrightarrow>
     (\<forall>w v. \<exists>j. let w0 = mmio_write C w (submission_doorbell q) v; k = posted (ctl w) in
        (\<forall>i < j. \<forall>s < n. pbit hv q s (dma ((advance C ^^ i) w0)) = pbit hv q s (dma w))
        \<and> posted (ctl ((advance C ^^ j) w0)) = Suc k \<and> pbit hv q (k mod n) (dma ((advance C ^^ j) w0)) = tag n k
        \<and> (\<forall>s < n. s \<noteq> k mod n \<longrightarrow> pbit hv q s (dma ((advance C ^^ j) w0)) = pbit hv q s (dma w)))
     \<and> (\<forall>w v. posted (ctl (mmio_write C w (completion_doorbell q) v)) = posted (ctl w)
        \<and> (\<forall>s < n. pbit hv q s (dma (mmio_write C w (completion_doorbell q) v)) = pbit hv q s (dma w)))"

definition rings_apart :: "u64 \<Rightarrow> queue \<Rightarrow> nat \<Rightarrow> bool" where
  "rings_apart hv q n \<longleftrightarrow> (\<forall>s < n. \<forall>t < n.
     apart (completion_queue q - hv + 16 * of_nat s) 16 (submission_queue q - hv + 64 * of_nat t) 64)"

definition in_sync :: "u64 \<Rightarrow> queue \<Rightarrow> nat \<Rightarrow> nat \<Rightarrow> (u64 \<Rightarrow> u8) \<Rightarrow> bool" where
  "in_sync hv q n k m \<longleftrightarrow> unat (sq_tail q) < n \<and> cq_head q = of_nat (k mod n) \<and> phase q = ucast (tag n k)
     \<and> (\<forall>s < n. pbit hv q s m = (if s < k mod n then tag n k else 1 - tag n k))"

definition same_rings :: "queue \<Rightarrow> queue \<Rightarrow> bool" where
  "same_rings q q' \<longleftrightarrow> submission_queue q' = submission_queue q \<and> completion_queue q' = completion_queue q
     \<and> submission_doorbell q' = submission_doorbell q \<and> completion_doorbell q' = completion_doorbell q"

lemma pbit_cong: "completion_queue q' = completion_queue q \<Longrightarrow> pbit hv q' s m = pbit hv q s m"
  by (simp add: pbit_def completion_at_def)

lemma wait_cmd_polls:
  assumes "\<And>i. i < j \<Longrightarrow> \<not> phase_seen hv q (dma ((advance C ^^ i) w))" and "phase_seen hv q (dma ((advance C ^^ j) w))"
  shows "wait_cmd C hv q w = Some ((advance C ^^ j) w)"
  using assms
proof (induction j arbitrary: w)
  case 0
  then show ?case by (subst wait_cmd.simps) simp
next
  case (Suc j)
  have "\<not> phase_seen hv q (dma w)" using Suc.prems(1) [of 0] by simp
  moreover have "wait_cmd C hv q (advance C w) = Some ((advance C ^^ j) (advance C w))"
  proof (rule Suc.IH)
    fix i assume "i < j"
    then show "\<not> phase_seen hv q (dma ((advance C ^^ i) (advance C w)))" using Suc.prems(1) [of "Suc i"] by (simp add: funpow_swap1)
  next
    show "phase_seen hv q (dma ((advance C ^^ j) (advance C w)))" using Suc.prems(2) by (simp add: funpow_swap1)
  qed
  ultimately show ?case by (subst wait_cmd.simps) (simp add: funpow_swap1)
qed

lemma tag_cases: "tag n k = 0 \<or> tag n k = 1" "tag n k \<noteq> 1 - tag n k" "ucast (tag n k :: u16) = (ucast (tag n j) :: size_t) \<longleftrightarrow> tag n k = tag n j"
  by (auto simp: tag_def)

lemma tag_Suc:
  assumes "0 < n"
  shows "tag n (Suc k) = (if Suc (k mod n) = n then 1 - tag n k else tag n k)"
  using assms by (auto simp: tag_def div_Suc mod_Suc)

lemma phase_seen_pbit:
  assumes "cq_head q = of_nat i" and "phase q = ucast (t :: u16)"
  shows "phase_seen hv q m \<longleftrightarrow> pbit hv q i m = t"
proof -
  have "(ucast x :: size_t) = ucast t \<longleftrightarrow> x = t" for x :: u16
  proof
    assume eq: "(ucast x :: size_t) = ucast t"
    show "x = t"
    proof (rule bit_word_eqI)
      fix n :: nat assume "n < LENGTH(16)"
      moreover have "bit (ucast x :: size_t) n \<longleftrightarrow> bit (ucast t :: size_t) n" by (simp only: eq)
      ultimately show "bit x n \<longleftrightarrow> bit t n" by (simp add: bit_simps)
    qed
  qed simp
  then show ?thesis using assms by (simp add: phase_seen_def pbit_def)
qed

lemma head_advances:
  assumes n: "0 < n" "n < 2 ^ 64" and q: "cq_head q = of_nat (k mod n)" "phase q = ucast (tag n k)"
  shows "cq_head q + 1 = of_nat n \<longleftrightarrow> Suc (k mod n) = n"
    and "(if cq_head q + 1 = of_nat n then 0 else cq_head q + 1) = of_nat (Suc k mod n)"
    and "(if cq_head q + 1 = of_nat n then if phase q = 0 then 1 else 0 else phase q) = ucast (tag n (Suc k))"
proof -
  have m: "k mod n < n" using n by simp
  have e: "cq_head q + 1 = of_nat (Suc (k mod n))" using q by simp
  have "unat (of_nat (Suc (k mod n)) :: size_t) = Suc (k mod n)" "unat (of_nat n :: size_t) = n"
    using m n(2) by (simp_all only: unat_of_nat take_bit_eq_mod) simp_all
  then show a: "cq_head q + 1 = of_nat n \<longleftrightarrow> Suc (k mod n) = n" unfolding e by metis
  show "(if cq_head q + 1 = of_nat n then 0 else cq_head q + 1) = of_nat (Suc k mod n)"
    unfolding a using e by (simp add: mod_Suc)
  show "(if cq_head q + 1 = of_nat n then if phase q = 0 then 1 else 0 else phase q) = ucast (tag n (Suc k))"
    unfolding a q(2) tag_Suc [OF n(1)] using tag_cases(1) [of n k] by auto
qed

definition head_step :: "nat \<Rightarrow> queue \<Rightarrow> queue" where
  "head_step n q = (let q = q\<lparr>cq_head := cq_head q + 1\<rparr>
    in if cq_head q = of_nat n then q\<lparr>cq_head := 0, phase := (if phase q = 0 then 1 else 0)\<rparr> else q)"

text \<open>The first half of a command: it is put into the ring, and the driver finds its completion.\<close>

lemma send_cmd_completed:
  fixes w :: "'c hwmem" and q :: queue
  assumes sv: "serves C hv q n posted" and ap: "rings_apart hv q n" and n: "0 < n" "n < 2 ^ 64"
    and sy: "in_sync hv q n (posted (ctl w)) (dma w)"
  obtains q1 w3 where "same_rings q q1" "cq_head q1 = cq_head q" "phase q1 = phase q" "unat (sq_tail q1) < n"
    "posted (ctl w3) = Suc (posted (ctl w))" "pbit hv q (posted (ctl w) mod n) (dma w3) = tag n (posted (ctl w))"
    "\<And>s. s < n \<Longrightarrow> s \<noteq> posted (ctl w) mod n \<Longrightarrow> pbit hv q s (dma w3) = pbit hv q s (dma w)"
    "send_cmd C hv (of_nat n) q w cmd =
      (let st = cp_status (completion_at hv q (of_nat (posted (ctl w) mod n)) (dma w3)); q2 = head_step n q1
       in if drop_bit 1 st \<noteq> 0 then Some (st, q1, w3)
          else Some (0, q2, mmio_write C w3 (completion_doorbell q) (ucast (ucast (cq_head q2) :: u32))))"
proof -
  let ?k = "posted (ctl w)"
  have km: "?k mod n < n" using n by simp
  have S: "unat (sq_tail q) < n" "cq_head q = of_nat (?k mod n)" "phase q = ucast (tag n ?k)"
    "\<And>s. s < n \<Longrightarrow> pbit hv q s (dma w) = (if s < ?k mod n then tag n ?k else 1 - tag n ?k)"
    using sy by (auto simp: in_sync_def)
  define w1 where "w1 = w\<lparr>dma := put_bytes (dma w) (submission_queue q - hv + 64 * sq_tail q) (command_bytes cmd)\<rparr>"
  have len: "length (command_bytes cmd) = 64" by (cases cmd) simp_all
  have p1: "pbit hv q s (dma w1) = pbit hv q s (dma w)" if "s < n" for s
  proof -
    have "apart (completion_queue q - hv + 16 * of_nat s) 16 (submission_queue q - hv + 64 * of_nat (unat (sq_tail q))) 64"
      using ap that S(1) unfolding rings_apart_def by blast
    then show ?thesis unfolding pbit_def completion_at_def w1_def by (simp add: bytes_at_put_apart len)
  qed
  define q1 where "q1 = (let q = q\<lparr>sq_tail := sq_tail q + 1\<rparr> in if sq_tail q = of_nat n then q\<lparr>sq_tail := 0\<rparr> else q)"
  have q1: "same_rings q q1" "cq_head q1 = cq_head q" "phase q1 = phase q" "unat (sq_tail q1) < n"
  proof -
    show "same_rings q q1" "cq_head q1 = cq_head q" "phase q1 = phase q" by (simp_all add: q1_def Let_def same_rings_def)
    have "unat (sq_tail q + 1) = Suc (unat (sq_tail q))" using S(1) n(2) by (subst unat_add_lt) simp_all
    then show "unat (sq_tail q1) < n"
      using S(1) n by (auto simp: q1_def Let_def) (metis Suc_lessI of_nat_unat ucast_id)
  qed
  define w2 where "w2 = mmio_write C w1 (submission_doorbell q) (ucast (ucast (sq_tail q1) :: u32))"
  have c1: "ctl w1 = ctl w" by (simp add: w1_def)
  obtain j where j: "\<And>i s. i < j \<Longrightarrow> s < n \<Longrightarrow> pbit hv q s (dma ((advance C ^^ i) w2)) = pbit hv q s (dma w1)"
    "posted (ctl ((advance C ^^ j) w2)) = Suc ?k" "pbit hv q (?k mod n) (dma ((advance C ^^ j) w2)) = tag n ?k"
    "\<And>s. s < n \<Longrightarrow> s \<noteq> ?k mod n \<Longrightarrow> pbit hv q s (dma ((advance C ^^ j) w2)) = pbit hv q s (dma w1)"
    using sv unfolding serves_def Let_def w2_def c1 [symmetric] by blast
  define w3 where "w3 = (advance C ^^ j) w2"
  have seen: "phase_seen hv q1 m \<longleftrightarrow> pbit hv q (?k mod n) m = tag n ?k" for m
    using phase_seen_pbit [of q1 "?k mod n" "tag n ?k" hv m] S(2,3) q1(2,3) pbit_cong [of q1 q] q1(1) by (simp add: same_rings_def)
  have wt: "wait_cmd C hv q1 w2 = Some w3"
    unfolding w3_def
  proof (rule wait_cmd_polls)
    fix i assume "i < j"
    then have "pbit hv q (?k mod n) (dma ((advance C ^^ i) w2)) = 1 - tag n ?k" using j(1) p1 S(4) km by simp
    then show "\<not> phase_seen hv q1 (dma ((advance C ^^ i) w2))" unfolding seen using tag_cases(2) by metis
  qed (simp add: seen j(3))
  have ca: "completion_at hv q1 (cq_head q1) (dma w3) = completion_at hv q (of_nat (?k mod n)) (dma w3)"
    using q1(1,2) S(2) by (simp add: completion_at_def same_rings_def)
  have db: "submission_doorbell q1 = submission_doorbell q" "completion_doorbell q1 = completion_doorbell q"
    "completion_doorbell (head_step n q1) = completion_doorbell q"
    using q1(1) by (simp_all add: same_rings_def head_step_def Let_def)
  show thesis
  proof (rule that [OF q1])
    show "send_cmd C hv (of_nat n) q w cmd =
      (let st = cp_status (completion_at hv q (of_nat (?k mod n)) (dma w3)); q2 = head_step n q1
       in if drop_bit 1 st \<noteq> 0 then Some (st, q1, w3)
          else Some (0, q2, mmio_write C w3 (completion_doorbell q) (ucast (ucast (cq_head q2) :: u32))))"
      using db unfolding send_cmd_def Let_def w1_def [symmetric] q1_def [unfolded Let_def, symmetric]
      by (simp add: w2_def [symmetric] wt ca) (simp add: head_step_def Let_def)
  qed (use j p1 in \<open>simp_all add: w3_def\<close>)
qed

text \<open>
  C20. As long as the controller keeps to the protocol, a command that is sent while driver and controller
  are in step is answered: the driver finds the completion posted for this very command and returns
  its status. When the status is success both are in step again, across the end of the ring too.
\<close>

theorem send_cmd_in_sync:
  fixes w :: "'c hwmem" and q :: queue
  assumes sv: "serves C hv q n posted" and ap: "rings_apart hv q n" and n: "0 < n" "n < 2 ^ 64"
    and sy: "in_sync hv q n (posted (ctl w)) (dma w)"
  shows "\<exists>st q' w'. send_cmd C hv (of_nat n) q w cmd = Some (st, q', w') \<and> same_rings q q'
    \<and> posted (ctl w') = Suc (posted (ctl w)) \<and> (st = 0 \<longrightarrow> in_sync hv q' n (posted (ctl w')) (dma w'))
    \<and> (st \<noteq> 0 \<longrightarrow> st = cp_status (completion_at hv q (of_nat (posted (ctl w) mod n)) (dma w')) \<and> cq_head q' = cq_head q)"
proof -
  let ?k = "posted (ctl w)"
  have km: "?k mod n < n" using n by simp
  have S: "cq_head q = of_nat (?k mod n)" "phase q = ucast (tag n ?k)"
    "\<And>s. s < n \<Longrightarrow> pbit hv q s (dma w) = (if s < ?k mod n then tag n ?k else 1 - tag n ?k)"
    using sy by (auto simp: in_sync_def)
  obtain q1 w3 where q1: "same_rings q q1" "cq_head q1 = cq_head q" "phase q1 = phase q" "unat (sq_tail q1) < n"
    and w3: "posted (ctl w3) = Suc ?k" "pbit hv q (?k mod n) (dma w3) = tag n ?k"
      "\<And>s. s < n \<Longrightarrow> s \<noteq> ?k mod n \<Longrightarrow> pbit hv q s (dma w3) = pbit hv q s (dma w)"
    and run: "send_cmd C hv (of_nat n) q w cmd =
      (let st = cp_status (completion_at hv q (of_nat (?k mod n)) (dma w3)); q2 = head_step n q1
       in if drop_bit 1 st \<noteq> 0 then Some (st, q1, w3)
          else Some (0, q2, mmio_write C w3 (completion_doorbell q) (ucast (ucast (cq_head q2) :: u32))))"
    using send_cmd_completed [OF sv ap n sy] by blast
  let ?st = "cp_status (completion_at hv q (of_nat (?k mod n)) (dma w3))" and ?q2 = "head_step n q1"
  define w4 where "w4 = mmio_write C w3 (completion_doorbell q) (ucast (ucast (cq_head ?q2) :: u32))"
  show ?thesis
  proof (cases "drop_bit 1 ?st = 0")
    case False
    then have "?st \<noteq> 0" by auto
    then show ?thesis using run False q1 w3(1) by (auto simp: Let_def)
  next
    case True
    have w4: "posted (ctl w4) = Suc ?k" "\<And>s. s < n \<Longrightarrow> pbit hv q s (dma w4) = pbit hv q s (dma w3)"
      using sv w3(1) unfolding serves_def w4_def by simp_all
    have h: "cq_head ?q2 = (if cq_head q1 + 1 = of_nat n then 0 else cq_head q1 + 1)"
        "phase ?q2 = (if cq_head q1 + 1 = of_nat n then if phase q1 = 0 then 1 else 0 else phase q1)"
        "same_rings q ?q2" "sq_tail ?q2 = sq_tail q1"
      using q1(1) by (simp_all add: head_step_def Let_def same_rings_def)
    have "cq_head q1 = of_nat (?k mod n)" "phase q1 = ucast (tag n ?k)" using q1(2,3) S(1,2) by simp_all
    note a = head_advances(2,3) [OF n this, folded h(1,2)]
    have "pbit hv q s (dma w4) = (if s < Suc ?k mod n then tag n (Suc ?k) else 1 - tag n (Suc ?k))" if "s < n" for s
      using that w4(2) [OF that] w3(2,3) S(3) km
      by (cases "s = ?k mod n") (auto simp: tag_Suc [OF n(1)] mod_Suc)
    then have "in_sync hv ?q2 n (Suc ?k) (dma w4)"
      using a h(3,4) q1(4) pbit_cong [of ?q2 q] by (simp add: in_sync_def same_rings_def)
    then show ?thesis using run True h(3) w4(1) by (simp add: Let_def w4_def)
  qed
qed

text \<open>
  A controller for the examples: one step after the doorbell it posts a completion with the status \<open>e\<close> in
  a ring of two entries.
\<close>

definition demo_queue :: queue where
  "demo_queue = \<lparr>submission_queue = 0x1000, completion_queue = 0x2000, submission_doorbell = 0x9000, completion_doorbell = 0x9004,
     qid = 0, sq_head = 0, sq_tail = 0, cq_head = 0, cq_tail = 0, phase = 1\<rparr>"

definition demo_ctl :: "u16 \<Rightarrow> (nat \<times> bool) mmio_dev" where
  "demo_ctl e = \<lparr>mmio_read = (\<lambda>w a. (0, w)),
     mmio_write = (\<lambda>w a v. if a = 0x9000 then w\<lparr>ctl := (fst (ctl w), True)\<rparr> else w),
     advance = (\<lambda>w. if snd (ctl w)
       then w\<lparr>ctl := (Suc (fst (ctl w)), False),
              dma := put_bytes (dma w) (0x2000 + 16 * of_nat (fst (ctl w) mod 2) + 14) (le_bytes 2 (ucast (push_bit 1 e OR tag 2 (fst (ctl w)))))\<rparr>
       else w)\<rparr>"

lemma pbit_byte: "pbit hv q i m = ucast (m (completion_queue q - hv + 16 * of_nat i + 14)) AND 1"
  by (rule bit_word_eqI) (auto simp: pbit_def completion_at_def completion_of_def get_u16_def get_field_def bytes_at_def
      numeral_eq_Suc algebra_simps bit_simps bit_0)

lemma tag_low_bit: "ucast (ucast (ucast (push_bit 1 e OR tag n k) :: u64) :: u8) AND (1 :: u16) = tag n k"
proof (rule bit_word_eqI)
  fix i :: nat assume "i < LENGTH(16)"
  show "bit (ucast (ucast (ucast (push_bit 1 e OR tag n k) :: u64) :: u8) AND (1 :: u16)) i \<longleftrightarrow> bit (tag n k) i"
    by (cases "tag n k = 0"; cases i)
      (use tag_cases(1) [of n k] in \<open>auto simp only: bit_and_iff bit_ucast_iff bit_or_iff bit_push_bit_iff bit_1_iff\<close>, auto)
qed

lemma demo_serves: "serves (demo_ctl e) 0 demo_queue 2 fst"
  unfolding serves_def
proof (intro conjI allI)
  fix w :: "(nat \<times> bool) hwmem" and v
  let ?w = "mmio_write (demo_ctl e) w (completion_doorbell demo_queue) v"
  have "?w = w" by (simp add: demo_ctl_def demo_queue_def)
  then show "fst (ctl ?w) = fst (ctl w)" "s < 2 \<longrightarrow> pbit 0 demo_queue s (dma ?w) = pbit 0 demo_queue s (dma w)" for s by simp_all
next
  fix w :: "(nat \<times> bool) hwmem" and v
  let ?k = "fst (ctl w)" and ?w0 = "mmio_write (demo_ctl e) w (submission_doorbell demo_queue) v"
  have a: "advance (demo_ctl e) ?w0 = w\<lparr>ctl := (Suc ?k, False),
      dma := put_bytes (dma w) (0x2000 + 16 * of_nat (?k mod 2) + 14) (le_bytes 2 (ucast (push_bit 1 e OR tag 2 ?k)))\<rparr>"
    and d: "dma ?w0 = dma w"
    by (simp_all add: demo_ctl_def demo_queue_def)
  have m2: "?k mod 2 = 0 \<or> ?k mod 2 = 1" by auto
  have own: "pbit 0 demo_queue (?k mod 2) (dma (advance (demo_ctl e) ?w0)) = tag 2 ?k"
    unfolding a pbit_byte using m2
    by (auto simp: put_bytes_def demo_queue_def numeral_2_eq_2 tag_low_bit [simplified])
  have other: "pbit 0 demo_queue s (dma (advance (demo_ctl e) ?w0)) = pbit 0 demo_queue s (dma w)" if "s < 2" "s \<noteq> ?k mod 2" for s
  proof -
    have "s = 0 \<or> s = 1" using that(1) by auto
    then show ?thesis unfolding a pbit_byte using m2 that(2) by (auto simp: put_bytes_def demo_queue_def)
  qed
  show "\<exists>j. let w0 = mmio_write (demo_ctl e) w (submission_doorbell demo_queue) v; k = fst (ctl w) in
        (\<forall>i < j. \<forall>s < 2. pbit 0 demo_queue s (dma ((advance (demo_ctl e) ^^ i) w0)) = pbit 0 demo_queue s (dma w))
        \<and> fst (ctl ((advance (demo_ctl e) ^^ j) w0)) = Suc k \<and> pbit 0 demo_queue (k mod 2) (dma ((advance (demo_ctl e) ^^ j) w0)) = tag 2 k
        \<and> (\<forall>s < 2. s \<noteq> k mod 2 \<longrightarrow> pbit 0 demo_queue s (dma ((advance (demo_ctl e) ^^ j) w0)) = pbit 0 demo_queue s (dma w))"
    by (rule exI [of _ 1]) (simp add: Let_def own other, simp add: a d)
qed

definition demo_world :: "(nat \<times> bool) hwmem" where
  "demo_world = \<lparr>ctl = (0, False), dma = (\<lambda>a. 0)\<rparr>"

lemma demo_in_sync: "in_sync 0 demo_queue 2 (fst (ctl demo_world)) (dma demo_world)"
  by (auto simp: in_sync_def pbit_byte demo_world_def demo_queue_def tag_def)

lemma demo_apart: "rings_apart 0 demo_queue 2"
proof -
  have near: "unat (c + of_nat i :: u64) < 64 \<longleftrightarrow> False" if "i < 16" "64 \<le> unat c" "unat c < 5000" for i c
    using that by (subst unat_add_lt) (simp_all add: unat_of_nat_lt)
  show ?thesis unfolding rings_apart_def apart_def
    by (auto simp: demo_queue_def near less_2_cases_iff)
qed

theorem send_cmd_in_sync_witness:
  "\<exists>st q' w'. send_cmd (demo_ctl 0) 0 2 demo_queue demo_world (Ident no_identify) = Some (st, q', w') \<and> same_rings demo_queue q'
    \<and> fst (ctl w') = 1 \<and> (st = 0 \<longrightarrow> in_sync 0 q' 2 (fst (ctl w')) (dma w'))
    \<and> (st \<noteq> 0 \<longrightarrow> st = cp_status (completion_at 0 demo_queue 0 (dma w')) \<and> cq_head q' = cq_head demo_queue)"
  using send_cmd_in_sync [OF demo_serves demo_apart _ _ demo_in_sync, of 0 "Ident no_identify"] by (simp add: demo_world_def)

lemma wait_cmd_seen: "wait_cmd C hv q w = Some w' \<Longrightarrow> phase_seen hv q (dma w')"
proof (rule wait_cmd.raw_induct [of "\<lambda>C hv q w w'. phase_seen hv q (dma w')"])
qed (auto split: if_splits)

lemma send_cmd_error:
  assumes run: "send_cmd C hv n q w cmd = Some (st, q', w')" and st: "st \<noteq> 0"
  shows "same_rings q q'" "cq_head q' = cq_head q" "phase q' = phase q" "phase_seen hv q' (dma w')" "drop_bit 1 st \<noteq> 0"
    "st = cp_status (completion_at hv q' (cq_head q') (dma w'))"
  using run st wait_cmd_seen
  by (auto simp: send_cmd_def Let_def same_rings_def bind_eq_Some_conv split: if_splits)

text \<open>
  C21. After an error the completion head stays where it is, so the completion of the failed command is
  read again: the next command, unless the controller has overwritten that slot before the first
  look, is reported as failed with the same status without being waited for, whatever becomes of it.
\<close>

theorem send_cmd_error_sticks:
  assumes run: "send_cmd C hv n q w cmd = Some (st, q', w')" and st: "st \<noteq> 0"
    and ap: "apart (completion_queue q - hv + 16 * cq_head q) 16 (submission_queue q - hv + 64 * sq_tail q') 64"
    and quiet: "\<And>u v. completion_at hv q (cq_head q) (dma (mmio_write C u (submission_doorbell q) v)) = completion_at hv q (cq_head q) (dma u)"
  shows "\<exists>q'' w''. send_cmd C hv n q' w' cmd' = Some (st, q'', w'') \<and> cq_head q'' = cq_head q \<and> phase q'' = phase q"
proof -
  note e = send_cmd_error [OF run st]
  define q1 where "q1 = (let q = q'\<lparr>sq_tail := sq_tail q' + 1\<rparr> in if sq_tail q = n then q\<lparr>sq_tail := 0\<rparr> else q)"
  have q1: "same_rings q q1" "cq_head q1 = cq_head q" "phase q1 = phase q"
    using e(1-3) by (simp_all add: q1_def Let_def same_rings_def)
  define w1 where "w1 = w'\<lparr>dma := put_bytes (dma w') (submission_queue q' - hv + 64 * sq_tail q') (command_bytes cmd')\<rparr>"
  define w2 where "w2 = mmio_write C w1 (submission_doorbell q1) (ucast (ucast (sq_tail q1) :: u32))"
  have len: "length (command_bytes cmd') = 64" by (cases cmd') simp_all
  have "completion_at hv q (cq_head q) (dma w1) = completion_at hv q (cq_head q) (dma w')"
    using ap e(1) unfolding completion_at_def w1_def by (simp add: bytes_at_put_apart len same_rings_def)
  then have "completion_at hv q (cq_head q) (dma w2) = completion_at hv q (cq_head q) (dma w')"
    using quiet [of w1] q1(1) by (simp add: w2_def same_rings_def)
  then have c: "completion_at hv q1 (cq_head q1) (dma w2) = completion_at hv q' (cq_head q') (dma w')"
    using q1 e(1,2) by (simp add: completion_at_def same_rings_def)
  have "phase_seen hv q1 (dma w2)" using e(3,4) q1(3) c by (simp add: phase_seen_def)
  then have "wait_cmd C hv q1 w2 = Some w2" by (subst wait_cmd.simps) simp
  then have "send_cmd C hv n q' w' cmd' = Some (st, q1, w2)"
    unfolding send_cmd_def Let_def w1_def [symmetric] q1_def [unfolded Let_def, symmetric]
    using e(5,6) c by (simp add: w2_def [symmetric])
  then show ?thesis using q1 by blast
qed

definition demo_failed :: "(nat \<times> bool) hwmem" where
  "demo_failed = \<lparr>ctl = (1, False), dma = put_bytes (put_bytes (\<lambda>a. 0) 0x1000 (command_bytes (Ident no_identify))) 0x200e [5, 0]\<rparr>"

lemma demo_error:
  "send_cmd (demo_ctl 2) 0 2 demo_queue demo_world (Ident no_identify) = Some (5, demo_queue\<lparr>sq_tail := 1\<rparr>, demo_failed)"
proof -
  let ?q = "demo_queue\<lparr>sq_tail := 1\<rparr>"
  define m where "m = put_bytes (\<lambda>a. 0) 0x1000 (command_bytes (Ident no_identify))"
  let ?w0 = "\<lparr>ctl = (0, True), dma = m\<rparr>" and ?w1 = "\<lparr>ctl = (1, False), dma = put_bytes m 0x200e [5, 0]\<rparr>"
  have "length (command_bytes (Ident no_identify)) = 64" by simp
  then have m: "m 0x200e = 0" unfolding m_def put_bytes_def by (simp del: command_bytes.simps)
  then have "pbit 0 ?q 0 m = 0" "pbit 0 ?q 0 (put_bytes m 0x200e [5, 0]) = 1"
    unfolding pbit_byte by (simp_all add: put_bytes_def demo_queue_def)
  then have ph: "\<not> phase_seen 0 ?q m" "phase_seen 0 ?q (put_bytes m 0x200e [5, 0])"
    using phase_seen_pbit [of ?q 0 1] by (simp_all add: demo_queue_def)
  have "le_bytes 2 v = [ucast v, ucast (drop_bit 8 v)]" for v by (simp add: numeral_2_eq_2)
  then have adv: "advance (demo_ctl 2) ?w0 = ?w1" by (simp add: demo_ctl_def tag_def)
  have w: "wait_cmd (demo_ctl 2) 0 ?q ?w0 = Some ?w1"
    by (subst wait_cmd.simps, subst adv, subst wait_cmd.simps) (simp add: ph)
  have "take 2 (drop 14 (bytes_at (put_bytes m 0x200e [5, 0]) 0x2000 16)) = [5, 0]"
    by (simp add: bytes_at_def put_bytes_def upt_conv_Cons)
  then have st: "cp_status (completion_at 0 ?q 0 (put_bytes m 0x200e [5, 0])) = 5"
    by (simp add: completion_at_def completion_of_def get_u16_def get_field_def demo_queue_def)
  have "mmio_write (demo_ctl 2) \<lparr>ctl = (0, False), dma = m\<rparr> 0x9000 1 = ?w0" by (simp add: demo_ctl_def)
  then show ?thesis
    using w st unfolding demo_failed_def m_def [symmetric]
    by (simp add: send_cmd_def demo_world_def m_def [symmetric] demo_queue_def del: command_bytes.simps)
qed

theorem send_cmd_error_sticks_witness:
  "\<exists>st q' w' q'' w''. send_cmd (demo_ctl 2) 0 2 demo_queue demo_world (Ident no_identify) = Some (st, q', w') \<and> st \<noteq> 0
    \<and> send_cmd (demo_ctl 2) 0 2 q' w' (Create_cq no_create_cq) = Some (st, q'', w'') \<and> cq_head q'' = 0"
proof -
  have "apart (completion_queue demo_queue - 0 + 16 * cq_head demo_queue) 16 (submission_queue demo_queue - 0 + 64 * sq_tail (demo_queue\<lparr>sq_tail := 1\<rparr>)) 64"
    using demo_apart [unfolded rings_apart_def, rule_format, of 0 1] by (simp add: demo_queue_def)
  from send_cmd_error_sticks [OF demo_error _ this, of "Create_cq no_create_cq"]
  have "\<exists>q'' w''. send_cmd (demo_ctl 2) 0 2 (demo_queue\<lparr>sq_tail := 1\<rparr>) demo_failed (Create_cq no_create_cq) = Some (5, q'', w'')
      \<and> cq_head q'' = cq_head demo_queue \<and> phase q'' = phase demo_queue"
    by (simp add: demo_ctl_def demo_queue_def)
  moreover have "cq_head demo_queue = 0" by (simp add: demo_queue_def)
  moreover have "(5 :: u16) \<noteq> 0" by simp
  ultimately show ?thesis using demo_error by metis
qed

section \<open>Transfers\<close>

abbreviation read_cmd :: "nvme_ns \<Rightarrow> size_t \<Rightarrow> size_t \<Rightarrow> u64 \<Rightarrow> command" where
  "read_cmd ns start cnt a \<equiv> Rw (no_rw\<lparr>rw_opcode := 2, rw_nsid := ucast (nsid ns), rw_slba := start, rw_len := ucast (cnt - 1), rw_prp1 := a\<rparr>)"

lemma nvme_read_bounce:
  assumes "vector_at (namespace_list d) part = Some ns" and "lba_size ns \<noteq> 0"
  shows "nvme_read C hv d part off cnt q s = bounce_read (\<lambda>start n b s. do {
     (_, q, w) \<leftarrow> rw_lba C hv (queue_entries d) ns q (world s) b start n False;
     Some (q, s\<lparr>world := w\<rparr>)
   }) hv (lba_size ns) off cnt s"
  using assms by (simp add: nvme_read_def bounce_read_def Let_def case_prod_unfold)

text \<open>
  C19. A read of at most a page: when the controller puts the blocks asked for into the buffer and the
  request ends with them, the caller gets the bytes of the disk from the offset on, whatever the
  offset inside the first block is, and every frame that was taken for the buffer is given back.
\<close>

theorem nvme_read_bytes:
  fixes C :: "'c mmio_dev" and cnt off :: size_t
  assumes ns: "vector_at (namespace_list d) part = Some ns" and sz: "lba_size ns = sz" "sz \<noteq> 0"
    and bl: "blocks = div_roundup cnt sz" "0 < unat (blocks * sz)" "unat (blocks * sz) \<le> 4096"
    and fit: "unat (off mod sz) + unat cnt \<le> unat (blocks * sz)"
    and fr: "pmm_inv (nframes s)" "free_frames s \<noteq> {}"
    and dev: "\<And>a. unat a \<in> free_frames s \<Longrightarrow>
      \<exists>st q' w'. send_cmd C hv (queue_entries d) q (world s) (read_cmd ns (off div sz) blocks a) = Some (st, q', w')
        \<and> blocks_at (dma w') a c (off div sz * sz) (unat (blocks * sz))"
  shows "\<exists>q' s'. nvme_read C hv d part off cnt q s = Some (bytes_at c off (unat cnt), q', s')
    \<and> pmm_inv (nframes s') \<and> used_pages (nframes s') = used_pages (nframes s)"
  unfolding nvme_read_bounce [OF ns, unfolded sz(1), OF sz(2)]
proof (rule bounce_read_bytes [OF bl fit fr])
  fix a :: u64 and f
  assume "unat a \<in> free_frames s"
  from dev [OF this] obtain st q' w' where
    "send_cmd C hv (queue_entries d) q (world s) (read_cmd ns (off div sz) blocks a) = Some (st, q', w')"
    "blocks_at (dma w') a c (off div sz * sz) (unat (blocks * sz))" by blast
  then show "\<exists>x w. do {
       (_, q, w) \<leftarrow> rw_lba C hv (queue_entries d) ns q (world (s\<lparr>nframes := f\<rparr>)) (a + hv) (off div sz) blocks False;
       Some (q, s\<lparr>nframes := f, world := w\<rparr>)
     } = Some (x, s\<lparr>nframes := f, world := w\<rparr>) \<and> blocks_at (dma w) a c (off div sz * sz) (unat (blocks * sz))"
    by (auto simp: rw_lba_def)
qed

text \<open>A controller for the example: at the doorbell it fills memory with the bytes of its disk, which are all alike.\<close>

definition fill_ctl :: "unit mmio_dev" where
  "fill_ctl = \<lparr>mmio_read = (\<lambda>w a. (0, w)), mmio_write = (\<lambda>w a v. if a = 0x9000
       then w\<lparr>dma := (\<lambda>x. if x = 0x200e then 1 else if drop_bit 12 x = 2 then 0 else 0x5a)\<rparr> else w),
     advance = (\<lambda>w. w)\<rparr>"

lemma fill_ctl_sends:
  "\<exists>q'. send_cmd fill_ctl 0 2 demo_queue w cmd = Some (0, q', w\<lparr>dma := (\<lambda>x. if x = 0x200e then 1 else if drop_bit 12 x = 2 then 0 else 0x5a)\<rparr>)"
proof -
  let ?m = "\<lambda>x :: u64. if x = 0x200e then 1 else if drop_bit 12 x = 2 then 0 else 0x5a :: u8"
  let ?q = "demo_queue\<lparr>sq_tail := 1\<rparr>"
  have "phase_seen 0 ?q ?m" using phase_seen_pbit [of ?q 0 1 0 ?m] by (simp add: pbit_byte demo_queue_def)
  then have wt: "wait_cmd fill_ctl 0 ?q (w\<lparr>dma := ?m\<rparr>) = Some (w\<lparr>dma := ?m\<rparr>)" by (subst wait_cmd.simps) simp
  have "take 2 (drop 14 (bytes_at ?m 0x2000 16)) = [1, 0]" by (simp add: bytes_at_def upt_conv_Cons)
  then have "cp_status (completion_at 0 ?q 0 ?m) = 1"
    by (simp add: completion_at_def completion_of_def get_u16_def get_field_def demo_queue_def)
  then show ?thesis
    using wt by (simp add: send_cmd_def demo_queue_def fill_ctl_def)
qed

definition demo_ns :: nvme_ns where
  "demo_ns = \<lparr>lba_cnt = 0x1000, lba_size = 512, nsid = 1\<rparr>"

definition demo_dev :: nvme_dev where
  "demo_dev = \<lparr>registers = 0x8000, queue_entries = 2, max_page_size = 4096, min_page_size = 4096, nv_page_size = 4096, strides = 0,
     qid_cnt = 2, admin_queue = demo_queue, ctrl_id = 0, ns_id = 0,
     namespace_list = \<lparr>elements = [Some demo_ns], buf_size = 1, buf_cap = 1\<rparr>\<rparr>"

theorem nvme_read_bytes_witness:
  "\<exists>q' s'. nvme_read fill_ctl 0 demo_dev 0 600 100 demo_queue \<lparr>world = \<lparr>ctl = (), dma = (\<lambda>a. 0)\<rparr>, nframes = one_chunk [3, 0] 8192\<rparr>
      = Some (bytes_at (\<lambda>a. 0x5a) 600 100, q', s') \<and> pmm_inv (nframes s') \<and> used_pages (nframes s') = {0x100000, 0x101000}"
proof -
  let ?s = "\<lparr>world = \<lparr>ctl = (), dma = (\<lambda>a. 0)\<rparr>, nframes = one_chunk [3, 0] 8192\<rparr>"
  have inv: "pmm_inv (one_chunk [3, 0] 8192)" by (rule one_chunk_inv) (simp_all add: two_pages_used)
  have u: "used_pages (one_chunk [3, 0] 8192) = {0x100000, 0x101000}" unfolding one_chunk_used two_pages_used by simp
  have m: "managed_pages (one_chunk [3, 0] 8192) = (\<lambda>i. 0x100000 + 4096 * i) ` {..<12}"
    by (auto simp: managed_pages_def chunk_pages_def one_chunk_def)
  have "0x102000 \<in> managed_pages (one_chunk [3, 0] 8192)" unfolding m by (rule image_eqI [of _ _ 2]) simp_all
  moreover have "0x102000 \<notin> used_pages (one_chunk [3, 0] 8192)" unfolding u by simp
  ultimately have "free_frames ?s \<noteq> {}" by auto
  moreover have "div_roundup 100 512 = 1" by (simp add: div_roundup_def signed_divide_int_def)
  moreover have "\<exists>st q' w'. send_cmd fill_ctl 0 2 demo_queue (world ?s) (read_cmd demo_ns 1 1 a) = Some (st, q', w')
      \<and> blocks_at (dma w') a (\<lambda>a. 0x5a) 512 512" if "unat a \<in> managed_pages (one_chunk [3, 0] 8192)" for a
  proof -
    have "drop_bit 12 (a + of_nat i) \<noteq> 2 \<and> a + of_nat i \<noteq> 0x200e" if "i < 512" for i
    proof -
      have ua: "0x100000 \<le> unat a" "unat a < 0x10c000" using \<open>unat a \<in> _\<close> unfolding m by auto
      then have "unat (a + of_nat i) = unat a + i" using that by (subst unat_add_lt) (simp_all add: unat_of_nat_lt)
      then have g: "0x100000 \<le> unat (a + of_nat i)" using ua(1) by simp
      then have "a + of_nat i \<noteq> 0x200e" by auto
      moreover have "unat (drop_bit 12 (a + of_nat i)) = unat (a + of_nat i) div 4096" by (simp add: drop_bit_eq_div unat_div)
      then have "unat (drop_bit 12 (a + of_nat i)) \<noteq> 2" using g by simp
      then have "drop_bit 12 (a + of_nat i) \<noteq> 2" by auto
      ultimately show ?thesis by blast
    qed
    then show ?thesis using fill_ctl_sends [of "world ?s" "read_cmd demo_ns 1 1 a"] by (auto simp: blocks_at_def)
  qed
  ultimately show ?thesis
    using nvme_read_bytes [of demo_dev 0 demo_ns 512 1 100 600 ?s fill_ctl 0 demo_queue "\<lambda>a. 0x5a"] inv u
    by (simp add: demo_dev_def demo_ns_def vector_at_def)
qed

end
