(* ===== verification/Ahci.thy ===== *)
theory Ahci
  imports Pci Mmio Partitions
begin

text \<open>
  \<^verbatim>\<open>kernel/drivers/ahci/ahci.cpp\<close> and \<^verbatim>\<open>ahci.hpp\<close>: the structures in memory through which a port is told what to do,
  the search for a free slot, the sending of a command, transfers of sectors, and the detection of
  the drives. The adapter is a parameter, as in the theory of devices with registers in memory; the
  structures are written into physical memory byte by byte, because bit fields are read and written
  back where they are.
\<close>

section \<open>Structures\<close>

definition ahci_sector_size :: size_t where "ahci_sector_size = 0x200"

definition sata_ata :: u32 where "sata_ata = 0x101"

definition hba_cmd_st :: u32 where "hba_cmd_st = 0x1"

definition hba_cmd_fre :: u32 where "hba_cmd_fre = 0x10"

definition hba_cmd_cr :: u32 where "hba_cmd_cr = 0x8000"

definition fis_reg_h2d :: u8 where "fis_reg_h2d = 0x27"

record fis_h2d =
  fis_type :: u8
  pmport :: u8
  fis_c :: bool
  fis_command :: u8
  featurel :: u8
  lba0 :: u8
  lba1 :: u8
  lba2 :: u8
  fis_device :: u8
  lba3 :: u8
  lba4 :: u8
  lba5 :: u8
  featureh :: u8
  countl :: u8
  counth :: u8
  icc :: u8
  control :: u8

definition no_fis :: fis_h2d where
  "no_fis = \<lparr>fis_type = 0, pmport = 0, fis_c = False, fis_command = 0, featurel = 0, lba0 = 0, lba1 = 0, lba2 = 0, fis_device = 0,
     lba3 = 0, lba4 = 0, lba5 = 0, featureh = 0, countl = 0, counth = 0, icc = 0, control = 0\<rparr>"

definition fis_bytes :: "fis_h2d \<Rightarrow> u8 list" where
  "fis_bytes f = [fis_type f, (pmport f AND 0xf) OR (if fis_c f then 0x80 else 0), fis_command f, featurel f,
     lba0 f, lba1 f, lba2 f, fis_device f, lba3 f, lba4 f, lba5 f, featureh f, countl f, counth f, icc f, control f, 0, 0, 0, 0]"

record hba_prdt =
  dba :: u32
  dbau :: u32
  dbc :: u32
  prdt_i :: bool

definition prdt_bytes :: "hba_prdt \<Rightarrow> u8 list" where
  "prdt_bytes p = le_bytes 4 (ucast (dba p)) @ le_bytes 4 (ucast (dbau p)) @ replicate 4 0
     @ le_bytes 4 (ucast ((dbc p AND 0x3fffff) OR (if prdt_i p then 0x80000000 else 0)))"

text \<open>
  The command header, 32 bytes for each slot: the length of the command in dwords in the low five
  bits of the first byte, the direction in bit six, the number of entries in the third and fourth
  byte, the address of the command table at 8. The other bits stay as they are.
\<close>

definition put_header :: "(u64 \<Rightarrow> u8) \<Rightarrow> u64 \<Rightarrow> u64 \<Rightarrow> u8" where
  "put_header m a =
     (let b = m a; b = (b AND NOT 0x1f) OR 5; b = b AND NOT 0x40
      in put_bytes (put_bytes m a [b]) (a + 2) (le_bytes 2 1))"

definition header_ctba :: "(u64 \<Rightarrow> u8) \<Rightarrow> u64 \<Rightarrow> u32" where
  "header_ctba m a = get_u32 0 (bytes_at m (a + 8) 4)"

text \<open>The command table, 144 bytes: the command at 0, the only entry of the region table at 128.\<close>

definition put_table :: "(u64 \<Rightarrow> u8) \<Rightarrow> u64 \<Rightarrow> hba_prdt \<Rightarrow> fis_h2d \<Rightarrow> u64 \<Rightarrow> u8" where
  "put_table m t p f =
     (let m = put_bytes m t (replicate 144 0); m = put_bytes m (t + 128) (prdt_bytes p)
      in put_bytes m t (fis_bytes f))"

definition identify_fis :: fis_h2d where
  "identify_fis = no_fis\<lparr>fis_command := 0xec, fis_c := True, fis_device := 0, pmport := 0, fis_type := fis_reg_h2d\<rparr>"

definition rw_fis :: "size_t \<Rightarrow> size_t \<Rightarrow> bool \<Rightarrow> fis_h2d" where
  "rw_fis start cnt w = no_fis\<lparr>fis_type := fis_reg_h2d, fis_c := True, fis_command := (if w then 0x35 else 0x25),
     fis_device := push_bit 6 1, lba0 := ucast (start AND 0xff), lba1 := ucast (drop_bit 8 start AND 0xff),
     lba2 := ucast (drop_bit 16 start AND 0xff), lba3 := ucast (drop_bit 24 start AND 0xff),
     lba4 := ucast (drop_bit 32 start AND 0xff), lba5 := ucast (drop_bit 40 start AND 0xff),
     countl := ucast (cnt AND 0xff), counth := ucast (drop_bit 8 cnt AND 0xff)\<rparr>"

section \<open>Ports\<close>

text \<open>Offsets of the registers of a port and of the adapter.\<close>

definition px_clb :: u64 where "px_clb = 0x0"

definition px_cmd :: u64 where "px_cmd = 0x18"

definition px_tfd :: u64 where "px_tfd = 0x20"

definition px_sig :: u64 where "px_sig = 0x24"

definition px_sact :: u64 where "px_sact = 0x34"

definition px_ci :: u64 where "px_ci = 0x38"

definition hba_cap :: u64 where "hba_cap = 0x0"

definition hba_pi :: u64 where "hba_pi = 0xc"

definition hba_vs :: u64 where "hba_vs = 0x10"

text \<open>The structure of a port, as it is declared, has 156 bytes.\<close>

definition sizeof_port_regs :: u64 where "sizeof_port_regs = 0x9c"

definition hba_ports :: u64 where "hba_ports = 0x100"

record ahci_dev =
  port :: u64
  cmd_slots :: size_t
  dev_sector_cnt :: size_t

definition rd32 :: "'c mmio_dev \<Rightarrow> u64 \<Rightarrow> 'c drv_sys \<Rightarrow> u32 \<times> 'c drv_sys" where
  "rd32 C a s = (let (v, w) = mmio_read C (world s) a in (ucast v, s\<lparr>world := w\<rparr>))"

definition wr32 :: "'c mmio_dev \<Rightarrow> u64 \<Rightarrow> u32 \<Rightarrow> 'c drv_sys \<Rightarrow> 'c drv_sys" where
  "wr32 C a v s = s\<lparr>world := mmio_write C (world s) a (ucast v)\<rparr>"

fun find_slot_from :: "'c mmio_dev \<Rightarrow> u64 \<Rightarrow> nat \<Rightarrow> nat \<Rightarrow> 'c drv_sys \<Rightarrow> nat option \<times> 'c drv_sys" where
  "find_slot_from C p i 0 s = (None, s)"
| "find_slot_from C p i (Suc n) s =
     (let (a, s) = rd32 C (p + px_sact) s; (b, s) = rd32 C (p + px_ci) s
      in if (a OR b) AND push_bit i 1 = 0 then (Some i, s) else find_slot_from C p (Suc i) n s)"

definition find_cmd_slot :: "'c mmio_dev \<Rightarrow> ahci_dev \<Rightarrow> 'c drv_sys \<Rightarrow> nat option \<times> 'c drv_sys" where
  "find_cmd_slot C d s = find_slot_from C (port d) 0 (unat (cmd_slots d)) s"

partial_function (option) poll_clear :: "'c mmio_dev \<Rightarrow> u64 \<Rightarrow> u32 \<Rightarrow> 'c drv_sys \<Rightarrow> 'c drv_sys option" where
  "poll_clear C a msk s = (let (v, s) = rd32 C a s in if v AND msk \<noteq> 0 then poll_clear C a msk s else Some s)"

declare poll_clear.simps [code]

definition ahci_send_cmd :: "'c mmio_dev \<Rightarrow> ahci_dev \<Rightarrow> nat \<Rightarrow> 'c drv_sys \<Rightarrow> 'c drv_sys option" where
  "ahci_send_cmd C d slot s = do {
     s \<leftarrow> poll_clear C (port d + px_tfd) (0x80 OR 0x8) s;
     let (v, s) = rd32 C (port d + px_cmd) s;
     let s = wr32 C (port d + px_cmd) (v AND NOT hba_cmd_st) s;
     s \<leftarrow> poll_clear C (port d + px_cmd) hba_cmd_cr s;
     let (v, s) = rd32 C (port d + px_cmd) s;
     let s = wr32 C (port d + px_cmd) (v OR hba_cmd_fre OR hba_cmd_st) s;
     let s = wr32 C (port d + px_ci) (push_bit slot 1) s;
     s \<leftarrow> poll_clear C (port d + px_ci) (push_bit slot 1) s;
     let (v, s) = rd32 C (port d + px_cmd) s;
     let s = wr32 C (port d + px_cmd) (v AND NOT hba_cmd_st) s;
     s \<leftarrow> poll_clear C (port d + px_cmd) hba_cmd_st s;
     let (v, s) = rd32 C (port d + px_cmd) s;
     Some (wr32 C (port d + px_cmd) (v AND NOT hba_cmd_fre) s)
   }"

text \<open>The structures of a command in the slot \<open>slot\<close> of the list at \<open>clb\<close>, seen from physical memory.\<close>

definition put_command :: "(u64 \<Rightarrow> u8) \<Rightarrow> u32 \<Rightarrow> nat \<Rightarrow> hba_prdt \<Rightarrow> fis_h2d \<Rightarrow> u64 \<Rightarrow> u8" where
  "put_command m clb slot p f =
     (let h = ucast clb + 32 * of_nat slot; m = put_header m h
      in put_table m (ucast (header_ctba m h)) p f)"

definition lba_rw :: "'c mmio_dev \<Rightarrow> u64 \<Rightarrow> ahci_dev \<Rightarrow> size_t \<Rightarrow> size_t \<Rightarrow> u64 \<Rightarrow> bool \<Rightarrow> 'c drv_sys \<Rightarrow> 'c drv_sys option" where
  "lba_rw C hv d start cnt b w s =
     (let (slot, s) = find_cmd_slot C d s
      in case slot of None \<Rightarrow> Some s
         | Some slot \<Rightarrow>
             let (clb, s) = rd32 C (port d + px_clb) s;
                 p = \<lparr>dba = ucast (b - hv), dbau = 0, dbc = ucast (cnt * ahci_sector_size - 1), prdt_i = True\<rparr>;
                 s = s\<lparr>world := (world s)\<lparr>dma := put_command (dma (world s)) clb slot p (rw_fis start cnt w)\<rparr>\<rparr>
             in ahci_send_cmd C d slot s)"

section \<open>Transfers\<close>

definition ahci_read :: "'c mmio_dev \<Rightarrow> u64 \<Rightarrow> ahci_dev \<Rightarrow> size_t \<Rightarrow> size_t \<Rightarrow> size_t \<Rightarrow> 'c drv_sys \<Rightarrow> (u8 list \<times> 'c drv_sys) option" where
  "ahci_read C hv d sz off cnt s =
     (if sz = 0 then None
      else do {
        let blocks = div_roundup cnt sz;
        let pages = div_roundup (blocks * sz) page_size;
        (b, s) \<leftarrow> alloc_pages hv s pages;
        s \<leftarrow> lba_rw C hv d (off div sz) blocks b False s;
        let bytes = bytes_at (dma (world s)) (b - hv + off mod sz) (unat cnt);
        s \<leftarrow> free_pages hv s b pages;
        Some (bytes, s)
      })"

definition ahci_write :: "'c mmio_dev \<Rightarrow> u64 \<Rightarrow> ahci_dev \<Rightarrow> size_t \<Rightarrow> size_t \<Rightarrow> u8 list \<Rightarrow> 'c drv_sys \<Rightarrow> 'c drv_sys option" where
  "ahci_write C hv d sz off bytes s =
     (if sz = 0 then None
      else do {
        let blocks = div_roundup (of_nat (length bytes)) sz;
        let pages = div_roundup (blocks * sz) page_size;
        (b, s) \<leftarrow> alloc_pages hv s pages;
        s \<leftarrow> lba_rw C hv d (off div sz) blocks b False s;
        let s = s\<lparr>world := (world s)\<lparr>dma := put_bytes (dma (world s)) (b - hv + off mod sz) bytes\<rparr>\<rparr>;
        s \<leftarrow> lba_rw C hv d (off div sz) blocks b True s;
        free_pages hv s b pages
      })"

section \<open>Detection\<close>

text \<open>
  The constructor of a device asks the drive for its identity and takes the number of sectors from it.
  Without a free slot it ends early, and \<open>g\<close> is what the member holds.
\<close>

definition ahci_device_ctor :: "'c mmio_dev \<Rightarrow> u64 \<Rightarrow> size_t \<Rightarrow> size_t \<Rightarrow> u64 \<Rightarrow> 'c drv_sys \<Rightarrow> (bool \<times> ahci_dev \<times> 'c drv_sys) option" where
  "ahci_device_ctor C hv g nslots p s =
     (let d = \<lparr>port = p, cmd_slots = nslots, dev_sector_cnt = g\<rparr>; (slot, s) = find_cmd_slot C d s
      in case slot of None \<Rightarrow> Some (False, d, s)
         | Some slot \<Rightarrow> do {
             let (clb, s) = rd32 C (p + px_clb) s;
             let h = ucast clb + 32 * of_nat slot;
             let s = s\<lparr>world := (world s)\<lparr>dma := put_header (dma (world s)) h\<rparr>\<rparr>;
             (ident, s) \<leftarrow> alloc_pages hv s 1;
             let m = dma (world s);
             let e = \<lparr>dba = ucast (ident AND 0xffffffff), dbau = 0, dbc = 511, prdt_i = True\<rparr>;
             let s = s\<lparr>world := (world s)\<lparr>dma := put_table m (ucast (header_ctba m h)) e identify_fis\<rparr>\<rparr>;
             s \<leftarrow> ahci_send_cmd C d slot s;
             Some (True, d\<lparr>dev_sector_cnt := get_field 8 0 (bytes_at (dma (world s)) (ident - hv + 200) 8)\<rparr>, s)
           })"

text \<open>
  The node of the whole disk, unless one has its name, and the partitions; \<open>k\<close> is the number of devices in
  the list of the driver and \<open>bs\<close> the bytes of the disk.
\<close>

definition ahci_register :: "ptr \<Rightarrow> size_t \<Rightarrow> (u64 \<Rightarrow> u8) \<Rightarrow> nat \<Rightarrow> size_t \<Rightarrow> dev_sys \<Rightarrow> dev_sys option" where
  "ahci_register g fl bs k cnt t = do {
     prefix \<leftarrow> string_of_raw (map Some (''sd'' @ [NUL]));
     let d = \<lparr>device_prefix = prefix, device_index = of_nat k, partition_cnt = 0, medium = \<lparr>sector_size = ahci_sector_size, disk = bs\<rparr>\<rparr>;
     path \<leftarrow> string_of_raw (map Some (''/dev/sd'' @ [NUL]));
     path \<leftarrow> string_plus_number path (of_nat k);
     p \<leftarrow> search_absolute (tree t) (str_val path);
     t \<leftarrow> (if p = 0
       then do {
         v \<leftarrow> node_ctor (tree t) (str_val path);
         p \<leftarrow> search_absolute v (str_val path);
         Some (add_node g (t\<lparr>tree := v\<rparr>) p 0 cnt (medium d))
       }
       else Some t);
     (_, t) \<leftarrow> scan_partitions g fl d t;
     Some t
   }"

text \<open>The list gets a drive from its constructor, when it ends, and from the controller.\<close>

definition ahci_new_device :: "'c mmio_dev \<Rightarrow> u64 \<Rightarrow> ptr \<Rightarrow> size_t \<Rightarrow> size_t \<Rightarrow> (u64 \<Rightarrow> u64 \<Rightarrow> u8) \<Rightarrow> size_t \<Rightarrow> u64
    \<Rightarrow> ahci_dev list \<times> dev_sys \<times> 'c drv_sys \<Rightarrow> (ahci_dev list \<times> dev_sys \<times> 'c drv_sys) option" where
  "ahci_new_device C hv g fl gc bs nslots p = (\<lambda>(ds, t, s). do {
     (ok, d, s) \<leftarrow> ahci_device_ctor C hv gc nslots p s;
     if ok then do {
       t \<leftarrow> ahci_register g fl (bs p) (length ds) (dev_sector_cnt d) t;
       Some (ds @ [d, d], t, s)
     } else Some (ds @ [d], t, s)
   })"

fun scan_ports :: "'c mmio_dev \<Rightarrow> u64 \<Rightarrow> ptr \<Rightarrow> size_t \<Rightarrow> size_t \<Rightarrow> (u64 \<Rightarrow> u64 \<Rightarrow> u8) \<Rightarrow> u64 \<Rightarrow> size_t \<Rightarrow> nat \<Rightarrow> nat
    \<Rightarrow> ahci_dev list \<times> dev_sys \<times> 'c drv_sys \<Rightarrow> (ahci_dev list \<times> dev_sys \<times> 'c drv_sys) option" where
  "scan_ports C hv g fl gc bs base nslots i 0 x = Some x"
| "scan_ports C hv g fl gc bs base nslots i (Suc n) (ds, t, s) = do {
     let (pi, s) = rd32 C (base + hba_pi) s;
     let p = base + hba_ports + sizeof_port_regs * of_nat i;
     x \<leftarrow> (if pi AND push_bit i 1 = 0 then Some (ds, t, s)
       else let (sig, s) = rd32 C (p + px_sig) s
         in if sig = sata_ata then ahci_new_device C hv g fl gc bs nslots p (ds, t, s) else Some (ds, t, s));
     scan_ports C hv g fl gc bs base nslots (Suc i) n x
   }"

definition ahci_controller_ctor :: "'h ports \<Rightarrow> 'c mmio_dev \<Rightarrow> u64 \<Rightarrow> pci_device \<Rightarrow> u64 \<Rightarrow> ptr \<Rightarrow> size_t \<Rightarrow> size_t \<Rightarrow> (u64 \<Rightarrow> u64 \<Rightarrow> u8) \<Rightarrow> 'h
    \<Rightarrow> ahci_dev list \<times> dev_sys \<times> 'c drv_sys \<Rightarrow> ('h \<times> ahci_dev list \<times> dev_sys \<times> 'c drv_sys) option" where
  "ahci_controller_ctor P C hv x gb g fl gc bs h = (\<lambda>(ds, t, s).
     if prog_if x \<noteq> 1 then Some (h, ds, t, s)
     else do {
       let h = become_bus_master P x h;
       let h = enable_mmio P x h;
       let (b, h) = get_bar P x h 5;
       let base = (case b of Some r \<Rightarrow> bar_base r | None \<Rightarrow> gb) + hv;
       let (cap, s) = rd32 C (base + hba_cap) s;
       if cap AND push_bit 31 1 = 0 then Some (h, ds, t, s)
       else do {
         let (cap, s) = rd32 C (base + hba_cap) s;
         let n = cap AND 0x1f;
         let (cap, s) = rd32 C (base + hba_cap) s;
         let nslots = ucast (drop_bit 8 cap AND 0x1f);
         let (_, s) = rd32 C (base + hba_vs) s;
         let (_, s) = rd32 C (base + hba_vs) s;
         y \<leftarrow> scan_ports C hv g fl gc bs base nslots 0 (unat n) (ds, t, s);
         Some (h, y)
       }
     })"

section \<open>What the adapter finds in memory\<close>

text \<open>The command of a table and the region of memory it is about, as an adapter reads them.\<close>

definition table_lba :: "(u64 \<Rightarrow> u8) \<Rightarrow> u64 \<Rightarrow> u64" where
  "table_lba m t = (let f = bytes_at m t 20 in get_field 3 4 f OR push_bit 24 (get_field 3 8 f))"

definition table_count :: "(u64 \<Rightarrow> u8) \<Rightarrow> u64 \<Rightarrow> u64" where
  "table_count m t = get_field 2 12 (bytes_at m t 20)"

definition table_opcode :: "(u64 \<Rightarrow> u8) \<Rightarrow> u64 \<Rightarrow> u8" where
  "table_opcode m t = m (t + 2)"

definition region_addr :: "(u64 \<Rightarrow> u8) \<Rightarrow> u64 \<Rightarrow> u64" where
  "region_addr m t = get_field 8 0 (bytes_at m (t + 128) 16)"

definition region_bytes :: "(u64 \<Rightarrow> u8) \<Rightarrow> u64 \<Rightarrow> u64" where
  "region_bytes m t = (get_field 4 12 (bytes_at m (t + 128) 16) AND 0x3fffff) + 1"

lemma length_fis [simp]: "length (fis_bytes f) = 20" by (simp add: fis_bytes_def)

lemma length_prdt [simp]: "length (prdt_bytes p) = 16" by (simp add: prdt_bytes_def)

lemma unat_below [simp]: "i < 144 \<Longrightarrow> unat (of_nat i :: u64) = i" by (simp add: unat_of_nat_lt)

lemma put_table_fis: "bytes_at (put_table m t p f) t 20 = fis_bytes f"
  using put_bytes_at [of "fis_bytes f"] by (simp add: put_table_def Let_def)

lemma put_table_prdt: "bytes_at (put_table m t p f) (t + 128) 16 = prdt_bytes p"
proof -
  have "unat (128 + of_nat i :: u64) = 128 + i" if "i < 16" for i
    using that by (subst unat_add_lt) (simp_all add: unat_of_nat_lt)
  then have "apart (t + 128) 16 t 20" by (simp add: apart_def add.commute)
  then show ?thesis
    using put_bytes_at [of "prdt_bytes p"] by (simp add: put_table_def Let_def bytes_at_put_apart)
qed

lemma take_bit_small: "unat w < 2 ^ n \<Longrightarrow> take_bit n w = (w :: u64)"
  by (rule unsigned_word_eqI [where 'a = nat]) (simp add: unsigned_take_bit_eq take_bit_nat_eq_self)

lemma lba_bits: "get_field 3 4 (fis_bytes (rw_fis start cnt w)) OR push_bit 24 (get_field 3 8 (fis_bytes (rw_fis start cnt w))) = take_bit 48 start"
proof -
  have "get_field 3 4 (fis_bytes (rw_fis start cnt w)) OR push_bit 24 (get_field 3 8 (fis_bytes (rw_fis start cnt w)))
      = ((((take_bit 8 start OR push_bit 8 (take_bit 8 (drop_bit 8 start))) OR push_bit 16 (take_bit 8 (drop_bit 16 start)))
        OR push_bit 24 (take_bit 8 (drop_bit 24 start))) OR push_bit 32 (take_bit 8 (drop_bit 32 start))) OR push_bit 40 (take_bit 8 (drop_bit 40 start))"
    by (simp add: fis_bytes_def rw_fis_def get_field_def byte_of or.assoc)
  also have "\<dots> = take_bit 48 start" by (simp add: take_bit_join)
  finally show ?thesis .
qed

lemma count_bits: "get_field 2 12 (fis_bytes (rw_fis start cnt w)) = take_bit 16 cnt"
  using take_bit_join [of 8 cnt 8] by (simp add: fis_bytes_def rw_fis_def get_field_def byte_of)

lemma prdt_fields:
  "get_field 8 0 (prdt_bytes p) = ucast (dba p) OR push_bit 32 (ucast (dbau p))"
  "get_field 4 12 (prdt_bytes p) AND 0x3fffff = ucast (dbc p AND 0x3fffff)"
proof -
  have tb: "take_bit 32 (ucast v :: u64) = ucast v" for v :: u32 by (rule bit_word_eqI) (auto simp: bit_simps dest: bit_imp_le_length)
  have "take 8 (prdt_bytes p) = le_bytes 4 (ucast (dba p)) @ le_bytes 4 (ucast (dbau p))" by (simp add: prdt_bytes_def)
  then show "get_field 8 0 (prdt_bytes p) = ucast (dba p) OR push_bit 32 (ucast (dbau p))"
    by (simp add: get_field_def le_word_append le_word_le_bytes tb)
  have m: "(0x3fffff :: u64) = mask 22" "(0x3fffff :: u32) = mask 22" by (simp_all add: mask_eq_exp_minus_1)
  have "(0x80000000 :: u32) = push_bit 31 1" by simp
  then have i: "\<not> bit (0x80000000 :: u32) n" if "n < 22" for n using that by (simp only: bit_push_bit_iff) simp
  have "take 4 (drop 12 (prdt_bytes p)) = le_bytes 4 (ucast ((dbc p AND 0x3fffff) OR (if prdt_i p then 0x80000000 else 0)))"
    by (simp add: prdt_bytes_def)
  then have "get_field 4 12 (prdt_bytes p) = ucast ((dbc p AND 0x3fffff) OR (if prdt_i p then 0x80000000 else 0))"
    by (simp add: get_field_def le_word_le_bytes tb)
  then show "get_field 4 12 (prdt_bytes p) AND 0x3fffff = ucast (dbc p AND 0x3fffff)"
    unfolding m using i by (intro bit_word_eqI) (auto simp: bit_simps)
qed

lemma header_kept:
  "header_ctba (put_header m h) h = header_ctba m h" "put_header m h h = ((m h AND NOT 0x1f) OR 5) AND NOT 0x40"
proof -
  have u: "unat (8 + of_nat i :: u64) = 8 + i" "unat (6 + of_nat i :: u64) = 6 + i" if "i < 4" for i
    using that by (subst unat_add_lt; simp add: unat_of_nat_lt)+
  have d: "h + 8 + of_nat i - (h + 2) = 6 + of_nat i" "h + 8 + of_nat i - h = 8 + of_nat i" "h - (h + 2) = - 2" for i
    by simp_all
  have "apart (h + 8) 4 (h + 2) 2" "apart (h + 8) 4 h 1" by (simp_all only: apart_def d) (simp_all add: u)
  then show "header_ctba (put_header m h) h = header_ctba m h"
    by (simp add: header_ctba_def put_header_def Let_def bytes_at_put_apart)
  have "(- 2 :: u64) = 0xfffffffffffffffe" by simp
  then have "unat (- 2 :: u64) = 2 ^ 64 - 2" by (simp only:) simp
  then show "put_header m h h = ((m h AND NOT 0x1f) OR 5) AND NOT 0x40"
    by (simp only: put_header_def Let_def put_bytes_def d length_le_bytes) simp
qed

lemma put_table_apart: "apart p n t 144 \<Longrightarrow> bytes_at (put_table m t e f) p n = bytes_at m p n"
proof (rule nth_equalityI, goal_cases)
  case (2 i)
  then have a: "\<not> unat (p + of_nat i - t) < 144" by (simp add: apart_def)
  moreover have "p + of_nat i - (t + 128) = (p + of_nat i - t) - 128" by simp
  then have "unat (p + of_nat i - (t + 128)) = unat (p + of_nat i - t) - 128"
    using a by (simp only: unat_sub word_le_nat_alt) (simp add: unat_sub word_le_nat_alt)
  ultimately have "\<not> unat (p + of_nat i - t) < 144" "\<not> unat (p + of_nat i - (t + 128)) < 16" "\<not> unat (p + of_nat i - t) < 20"
    by linarith+
  then show ?case using 2 by (simp add: put_table_def Let_def put_bytes_def)
qed simp

abbreviation rw_region :: "u64 \<Rightarrow> size_t \<Rightarrow> hba_prdt" where
  "rw_region a cnt \<equiv> \<lparr>dba = ucast a, dbau = 0, dbc = ucast (cnt * ahci_sector_size - 1), prdt_i = True\<rparr>"


definition demo_cmd_list :: "u64 \<Rightarrow> u8" where
  "demo_cmd_list = put_bytes (\<lambda>a. 0) 0x1008 [0, 5, 0, 0]"


section \<open>Sending a command\<close>

text \<open>\<open>settles\<close>: after some reads of the register the bits are clear.\<close>

definition settles :: "'c mmio_dev \<Rightarrow> u64 \<Rightarrow> u32 \<Rightarrow> 'c drv_sys \<Rightarrow> bool" where
  "settles C a b s \<longleftrightarrow> (\<exists>j. fst (rd32 C a (((\<lambda>s. snd (rd32 C a s)) ^^ j) s)) AND b = 0)"

lemma poll_clear_returns:
  assumes "settles C a b s"
  shows "\<exists>s'. poll_clear C a b s = Some s'"
proof -
  obtain j where "fst (rd32 C a (((\<lambda>s. snd (rd32 C a s)) ^^ j) s)) AND b = 0" using assms by (auto simp: settles_def)
  then show ?thesis
  proof (induction j arbitrary: s)
    case 0
    then show ?case by (subst poll_clear.simps) (simp add: case_prod_unfold Let_def)
  next
    case (Suc j)
    from Suc.IH [of "snd (rd32 C a s)"] Suc.prems
    have "\<exists>s'. poll_clear C a b (snd (rd32 C a s)) = Some s'" by (simp add: funpow_swap1 [of "\<lambda>s. snd (rd32 C a s)"])
    then show ?case by (subst poll_clear.simps) (simp add: case_prod_unfold Let_def)
  qed
qed


text \<open>An adapter that is done at once: the command register reads back, the others read as zero.\<close>

definition quick_hba :: "u32 mmio_dev" where
  "quick_hba = \<lparr>mmio_read = (\<lambda>w a. (if a = 0x118 then ucast (ctl w AND NOT hba_cmd_cr) else 0, w)),
     mmio_write = (\<lambda>w a v. if a = 0x118 then w\<lparr>ctl := ucast v\<rparr> else w), advance = (\<lambda>w. w)\<rparr>"


end
