(* ===== verification/Ramfs.thy ===== *)
theory Ramfs
  imports Vfs
begin

text \<open>
  \<^verbatim>\<open>kernel/fs/ramfs.cpp\<close>: files kept in memory. The list of nodes is a vector whose elements have a destructor,
  and the destructor searches the list and removes from it: \<^verbatim>\<open>delete elements\<close> in \<^verbatim>\<open>vector::remove\<close> and
  \<^verbatim>\<open>vector::internal_resize\<close> calls the destructor of the first element, so that the destructor and the
  vector call each other. \<open>None\<close> is a fault or a call that does not return. \<open>g\<close> is what memory holds: the
  member \<^verbatim>\<open>buf\<close> that the constructor leaves alone, and the bytes of a new block. The element count that the compiler
  keeps in front of an array of such objects is left out.
\<close>

section \<open>Definitions\<close>

record rnode =
  rn_vfs :: ptr
  rn_buf :: ptr

record ram_sys =
  ram_tree :: vfs
  ram_list :: "rnode vector"
  ram_bufs :: "ptr \<rightharpoonup> u8 list"
  ram_top :: ptr

definition rnode_type :: tinfo where
  "rnode_type = \<lparr>sizeof = 16, trivial_dtor = False\<rparr>"

definition path_of :: "ram_sys \<Rightarrow> ptr \<Rightarrow> string option" where
  "path_of s v = do { n \<leftarrow> vnodes (ram_tree s) v; Some (absolute_path n) }"

definition same_path :: "ram_sys \<Rightarrow> rnode \<Rightarrow> ptr \<Rightarrow> bool option" where
  "same_path s n v = do { p \<leftarrow> path_of s (rn_vfs n); q \<leftarrow> path_of s v; Some (p = q) }"

fun vfs2ramfs_from :: "ram_sys \<Rightarrow> ptr \<Rightarrow> nat \<Rightarrow> nat \<Rightarrow> rnode option option" where
  "vfs2ramfs_from s v i 0 = Some None"
| "vfs2ramfs_from s v i (Suc k) = do {
     n \<leftarrow> vector_at (ram_list s) (of_nat i);
     eq \<leftarrow> same_path s n v;
     if eq then Some (Some n) else vfs2ramfs_from s v (Suc i) k
   }"

definition vfs2ramfs :: "ram_sys \<Rightarrow> ptr \<Rightarrow> rnode option option" where
  "vfs2ramfs s v = vfs2ramfs_from s v 0 (unat (buf_size (ram_list s)))"

text \<open>
  The destructor from index \<open>i\<close> on. The removal in it makes the new array, destroys the first element of
  the old one and only then puts the new array in place.
\<close>

partial_function (option) rnode_dtor :: "ram_sys \<Rightarrow> ptr \<Rightarrow> nat \<Rightarrow> ram_sys option" where
  "rnode_dtor s v i =
     (if \<not> i < unat (buf_size (ram_list s)) then Some s
      else do {
        n \<leftarrow> vector_at (ram_list s) (of_nat i);
        eq \<leftarrow> same_path s n v;
        if \<not> eq then rnode_dtor s v (Suc i)
        else do {
          l \<leftarrow> vector_remove rnode_type (ram_list s) (of_nat i);
          first \<leftarrow> vector_at (ram_list s) 0;
          s \<leftarrow> rnode_dtor s (rn_vfs first) 0;
          rnode_dtor (s\<lparr>ram_list := (ram_list s)\<lparr>elements := elements l, buf_size := buf_size (ram_list s) - 1\<rparr>\<rparr>) v (Suc i)
        }
      })"

partial_function (option) destroy_nodes :: "ram_sys \<Rightarrow> nat \<Rightarrow> ram_sys option" where
  "destroy_nodes s i =
     (if \<not> i < unat (buf_size (ram_list s)) then Some s
      else do {
        n \<leftarrow> vector_at (ram_list s) (of_nat i);
        s \<leftarrow> rnode_dtor s (rn_vfs n) 0;
        destroy_nodes s (Suc i)
      })"

text \<open>Growing destroys the old elements, and the first of them once more.\<close>

definition ram_push :: "ram_sys \<Rightarrow> rnode \<Rightarrow> ram_sys option" where
  "ram_push s n = do {
     s \<leftarrow> (if buf_size (ram_list s) + 1 \<le> buf_cap (ram_list s) \<or> elements (ram_list s) = [] then Some s
       else do {
         s \<leftarrow> destroy_nodes s 0;
         first \<leftarrow> vector_at (ram_list s) 0;
         rnode_dtor s (rn_vfs first) 0
       });
     l \<leftarrow> vector_push rnode_type (ram_list s) n;
     Some (s\<lparr>ram_list := l\<rparr>)
   }"

definition rnode_ctor :: "ptr \<Rightarrow> ram_sys \<Rightarrow> ptr \<Rightarrow> (rnode \<times> ram_sys) option" where
  "rnode_ctor g s v = do { let n = \<lparr>rn_vfs = v, rn_buf = g\<rparr>; s \<leftarrow> ram_push s n; Some (n, s) }"

text \<open>The copy in a read goes from the caller's bytes \<open>rb\<close> into the file.\<close>

definition rnode_read :: "ram_sys \<Rightarrow> rnode \<Rightarrow> off_t \<Rightarrow> off_t \<Rightarrow> u8 list \<Rightarrow> (32 word \<times> ram_sys) option" where
  "rnode_read s n off cnt rb = do {
     v \<leftarrow> vnodes (ram_tree s) (rn_vfs n);
     sz \<leftarrow> st_size v;
     if sint sz < sint off then Some (-1, s)
     else do {
       let cnt = (if sint sz < sint (off + cnt) then sz - off else cnt);
       b \<leftarrow> ram_bufs s (rn_buf n);
       b \<leftarrow> memcpy8 b (unat off) rb 0 cnt;
       Some (ucast cnt, s\<lparr>ram_bufs := (ram_bufs s)(rn_buf n \<mapsto> b)\<rparr>)
     }
   }"

definition ram_new :: "(nat \<Rightarrow> u8) \<Rightarrow> ram_sys \<Rightarrow> size_t \<Rightarrow> ptr \<times> ram_sys" where
  "ram_new g s cnt =
     (if heap_block (unat cnt) = 0 then (0, s)
      else (ram_top s, s\<lparr>ram_top := Suc (ram_top s), ram_bufs := (ram_bufs s)(ram_top s \<mapsto> map g [0..<unat cnt])\<rparr>))"

definition ram_realloc :: "(nat \<Rightarrow> u8) \<Rightarrow> ram_sys \<Rightarrow> ptr \<Rightarrow> size_t \<Rightarrow> (ptr \<times> ram_sys) option" where
  "ram_realloc g s a cnt =
     (if a = 0 then Some (0, s)
      else do {
        b \<leftarrow> ram_bufs s a;
        if heap_block (unat cnt) = 0 then None
        else Some (ram_top s, s\<lparr>ram_top := Suc (ram_top s),
          ram_bufs := (ram_bufs s)(a := None, ram_top s \<mapsto> take (unat cnt) b @ map g [length b..<unat cnt])\<rparr>)
      })"

definition set_st_size :: "ram_sys \<Rightarrow> ptr \<Rightarrow> off_t \<Rightarrow> ram_sys option" where
  "set_st_size s v x = do { t \<leftarrow> vnode_write (ram_tree s) v (st_size_update (\<lambda>_. Some x)); Some (s\<lparr>ram_tree := t\<rparr>) }"

definition rnode_write :: "(nat \<Rightarrow> u8) \<Rightarrow> ram_sys \<Rightarrow> rnode \<Rightarrow> off_t \<Rightarrow> off_t \<Rightarrow> u8 list \<Rightarrow> (32 word \<times> rnode \<times> ram_sys) option" where
  "rnode_write g s n off cnt wb = do {
     v \<leftarrow> vnodes (ram_tree s) (rn_vfs n);
     sz \<leftarrow> st_size v;
     (n, sz, s) \<leftarrow> (if rn_buf n = 0
       then do {
         s \<leftarrow> set_st_size s (rn_vfs n) (off + cnt);
         let (a, s) = ram_new g s (off + cnt);
         Some (n\<lparr>rn_buf := a\<rparr>, off + cnt, s)
       }
       else Some (n, sz, s));
     (n, s) \<leftarrow> (if sint sz < sint (off + cnt)
       then do {
         s \<leftarrow> set_st_size s (rn_vfs n) (sz + (off + cnt - sz));
         (a, s) \<leftarrow> ram_realloc g s (rn_buf n) (off + cnt);
         Some (n\<lparr>rn_buf := a\<rparr>, s)
       }
       else Some (n, s));
     b \<leftarrow> ram_bufs s (rn_buf n);
     b \<leftarrow> memcpy8 b (unat off) wb 0 cnt;
     Some (ucast cnt, n, s\<lparr>ram_bufs := (ram_bufs s)(rn_buf n \<mapsto> b)\<rparr>)
   }"

text \<open>The operations of the file system work on a copy of the node, which is not written back.\<close>

definition ram_read :: "ram_sys \<Rightarrow> ptr \<Rightarrow> off_t \<Rightarrow> off_t \<Rightarrow> u8 list \<Rightarrow> (32 word \<times> ram_sys) option" where
  "ram_read s v off cnt rb = do {
     r \<leftarrow> vfs2ramfs s v;
     case r of None \<Rightarrow> Some (-1, s) | Some n \<Rightarrow> rnode_read s n off cnt rb
   }"

definition ram_write :: "(nat \<Rightarrow> u8) \<Rightarrow> ram_sys \<Rightarrow> ptr \<Rightarrow> off_t \<Rightarrow> off_t \<Rightarrow> u8 list \<Rightarrow> (32 word \<times> ram_sys) option" where
  "ram_write g s v off cnt wb = do {
     r \<leftarrow> vfs2ramfs s v;
     case r of None \<Rightarrow> Some (-1, s)
     | Some n \<Rightarrow> do { (c, _, s) \<leftarrow> rnode_write g s n off cnt wb; Some (c, s) }
   }"

definition ramfs_o_creat :: u16 where "ramfs_o_creat = 0x10"

text \<open>With the flag for creating, the node is a local object: its destructor runs at the end.\<close>

definition ram_open :: "ptr \<Rightarrow> ram_sys \<Rightarrow> ptr \<Rightarrow> u16 \<Rightarrow> (32 word \<times> ram_sys) option" where
  "ram_open g s v flags =
     (if flags AND ramfs_o_creat \<noteq> 0
      then do {
        (n, s) \<leftarrow> rnode_ctor g s v;
        s \<leftarrow> rnode_dtor s (rn_vfs n) 0;
        Some (0, s)
      }
      else do {
        r \<leftarrow> vfs2ramfs s v;
        Some (case r of None \<Rightarrow> -1 | Some n \<Rightarrow> 0, s)
      })"

definition ram_mkdir :: "ram_sys \<Rightarrow> ptr \<Rightarrow> (32 word \<times> ram_sys) option" where
  "ram_mkdir s v = Some (0, s)"

definition ram_unlink :: "ram_sys \<Rightarrow> ptr \<Rightarrow> (32 word \<times> ram_sys) option" where
  "ram_unlink s v = do {
     r \<leftarrow> vfs2ramfs s v;
     case r of None \<Rightarrow> Some (-1, s)
     | Some n \<Rightarrow> do { s \<leftarrow> rnode_dtor s (rn_vfs n) 0; Some (0, s) }
   }"

section \<open>The destructor\<close>

text \<open>A run of the destructor that returns has compared its path with all that follow and found no match.\<close>

definition no_match :: "ram_sys \<Rightarrow> ptr \<Rightarrow> nat \<Rightarrow> bool" where
  "no_match s v i \<longleftrightarrow> (\<forall>k n. i \<le> k \<longrightarrow> k < unat (buf_size (ram_list s)) \<longrightarrow> vector_at (ram_list s) (of_nat k) = Some n
     \<longrightarrow> same_path s n v = Some False)"

lemma same_path_self: "same_path s n (rn_vfs n) \<noteq> Some False"
  by (auto simp: same_path_def bind_eq_Some_conv)

lemma no_match_Suc:
  assumes "no_match s v (Suc i)" and "vector_at (ram_list s) (of_nat i) = Some n" and "same_path s n v = Some False"
  shows "no_match s v i"
  unfolding no_match_def
proof (intro allI impI)
  fix k m
  assume k: "i \<le> k" "k < unat (buf_size (ram_list s))" "vector_at (ram_list s) (of_nat k) = Some m"
  show "same_path s m v = Some False"
  proof (cases "k = i")
    case True
    then show ?thesis using k(3) assms(2,3) by simp
  next
    case False
    then have "Suc i \<le> k" using k(1) by simp
    then show ?thesis using assms(1) k(2,3) by (simp add: no_match_def)
  qed
qed

lemma rnode_dtor_returns:
  assumes "rnode_dtor s v i = Some s'"
  shows "no_match s v i"
proof (rule rnode_dtor.raw_induct [of "\<lambda>s v i s'. no_match s v i", OF _ assms], goal_cases)
  case (1 f s v i s')
  show ?case
  proof (cases "i < unat (buf_size (ram_list s))")
    case True
    then obtain n eq where n: "vector_at (ram_list s) (of_nat i) = Some n" "same_path s n v = Some eq"
      using 1(2) by (auto simp: bind_eq_Some_conv)
    show ?thesis
    proof (cases eq)
      case False
      then have "f s v (Suc i) = Some s'" using 1(2) True n by simp
      then show ?thesis using no_match_Suc [OF 1(1) n(1)] n(2) False by simp
    next
      case eq: True
      then obtain first y where f: "vector_at (ram_list s) 0 = Some first" "f s (rn_vfs first) 0 = Some y"
        using 1(2) True n by (auto simp: bind_eq_Some_conv)
      have "0 < unat (buf_size (ram_list s))" using True by simp
      then have "same_path s first (rn_vfs first) = Some False"
        using 1(1) [OF f(2), unfolded no_match_def, rule_format, of 0 first] f(1) by simp
      then show ?thesis using same_path_self by blast
    qed
  qed (simp add: no_match_def)
qed

lemma vfs2ramfs_from_found:
  assumes "vfs2ramfs_from s v i k = Some (Some n)"
  shows "\<exists>j. i \<le> j \<and> j < i + k \<and> vector_at (ram_list s) (of_nat j) = Some n \<and> same_path s n v = Some True"
  using assms
proof (induction k arbitrary: i)
  case (Suc k)
  then obtain m eq where m: "vector_at (ram_list s) (of_nat i) = Some m" "same_path s m v = Some eq"
    by (auto simp: bind_eq_Some_conv)
  show ?case
  proof (cases eq)
    case True
    then show ?thesis using Suc.prems m by auto
  next
    case False
    then obtain j where "Suc i \<le> j" "j < Suc i + k" "vector_at (ram_list s) (of_nat j) = Some n" "same_path s n v = Some True"
      using Suc.IH [of "Suc i"] Suc.prems m by auto
    then show ?thesis by (intro exI [of _ j]) simp
  qed
qed simp

lemma rnode_dtor_first:
  assumes "0 < unat (buf_size (ram_list s))" and "vector_at (ram_list s) 0 = Some n"
  shows "rnode_dtor s (rn_vfs n) 0 = None"
proof (rule ccontr)
  assume "rnode_dtor s (rn_vfs n) 0 \<noteq> None"
  then have "no_match s (rn_vfs n) 0" using rnode_dtor_returns by blast
  then show False using assms same_path_self [of s n] by (simp add: no_match_def)
qed

text \<open>Pushing on a list that has to grow returns only when there is nothing to destroy.\<close>

lemma ram_push_shape:
  assumes "ram_push s n = Some s'"
  shows "\<exists>l. vector_push rnode_type (ram_list s) n = Some l \<and> s' = s\<lparr>ram_list := l\<rparr>"
proof (cases "buf_size (ram_list s) + 1 \<le> buf_cap (ram_list s) \<or> elements (ram_list s) = []")
  case True
  then show ?thesis using assms by (auto simp: ram_push_def bind_eq_Some_conv)
next
  case False
  then obtain s1 first s2 l where r: "destroy_nodes s 0 = Some s1" "vector_at (ram_list s1) 0 = Some first" "rnode_dtor s1 (rn_vfs first) 0 = Some s2"
    "vector_push rnode_type (ram_list s2) n = Some l" "s' = s2\<lparr>ram_list := l\<rparr>"
    using assms by (auto simp: ram_push_def bind_eq_Some_conv)
  have "\<not> 0 < unat (buf_size (ram_list s))"
  proof
    assume z: "0 < unat (buf_size (ram_list s))"
    then obtain m y where m: "vector_at (ram_list s) 0 = Some m" "rnode_dtor s (rn_vfs m) 0 = Some y"
      using r(1) by (subst (asm) destroy_nodes.simps) (auto simp: bind_eq_Some_conv)
    then show False using rnode_dtor_first [OF z m(1)] by simp
  qed
  moreover from this have "s1 = s" using r(1) by (subst (asm) destroy_nodes.simps) simp
  ultimately have "s2 = s" using r(3) by (subst (asm) rnode_dtor.simps) simp
  then show ?thesis using r(4,5) by blast
qed

lemma ram_push_last:
  assumes "ram_push s n = Some s'" and "buf_size (ram_list s) \<noteq> -1"
  shows "\<exists>k < unat (buf_size (ram_list s')). vector_at (ram_list s') (of_nat k) = Some n"
proof -
  obtain l where l: "vector_push rnode_type (ram_list s) n = Some l" "s' = s\<lparr>ram_list := l\<rparr>" using ram_push_shape [OF assms(1)] by blast
  then obtain v es where v: "internal_resize rnode_type (ram_list s) (buf_size (ram_list s) + 1) = Some v"
    "write_at (elements v) (unat (buf_size v)) (Some n) = Some es" "l = v\<lparr>elements := es, buf_size := buf_size v + 1\<rparr>"
    by (auto simp: vector_push_def bind_eq_Some_conv)
  have sz: "buf_size v = buf_size (ram_list s)"
    using v(1) by (auto simp: internal_resize_def Let_def bind_eq_Some_conv split: if_splits)
  have "buf_size v < -1" using assms(2) sz by (simp add: word_order.not_eq_extremum)
  then have "unat (buf_size l) = Suc (unat (buf_size v))" using v(3) by (simp add: unat_plus_1)
  moreover have "vector_at l (of_nat (unat (buf_size v))) = Some n"
    using v(2,3) by (auto simp: vector_at_def write_at_eq_Some)
  ultimately show ?thesis using l(2) by (intro exI [of _ "unat (buf_size v)"]) simp
qed

section \<open>Properties\<close>



end
