(* ===== verification/Debug_Print.thy ===== *)
theory Debug_Print
  imports KString
begin

text \<open>
  \<^verbatim>\<open>kernel/lib/debug.hpp\<close>: formatted printing on the serial line. The output is the list of characters
  given to \<^verbatim>\<open>write\<close>. A C string is the memory from its address on; \<open>None\<close> is an access outside an
  object, or a line that never becomes ready. An argument of an integer type is its value: the remainder
  and quotient of the language agree for all its integer types, since the base is positive. The ports
  are a parameter: what they do to the state \<open>'h\<close> of the machine is the business of the device.
\<close>

section \<open>Definitions\<close>

record 'h io_ports =
  inb :: "'h \<Rightarrow> u16 \<Rightarrow> u8 \<times> 'h"
  outb :: "'h \<Rightarrow> u16 \<Rightarrow> u8 \<Rightarrow> 'h"

fun emit_cstr :: "string \<Rightarrow> string option" where
  "emit_cstr [] = None"
| "emit_cstr (c # cs) = (if c = NUL then Some [] else map_option (Cons c) (emit_cstr cs))"

definition hex_digits :: string where
  "hex_digits = ''0123456789ABCDEF''"

definition digit_at :: "int \<Rightarrow> char option" where
  "digit_at i = (if i < 0 then None else read_at (hex_digits @ [NUL]) (nat i))"

text \<open>The digits are written backwards into the static buffer \<open>tmp\<close>, before the position \<open>str\<close>.\<close>

fun print_digits :: "string \<Rightarrow> nat \<Rightarrow> int \<Rightarrow> int \<Rightarrow> (string \<times> nat) option" where
  "print_digits tmp 0 arg base = None"
| "print_digits tmp (Suc str) arg base = do {
     d \<leftarrow> digit_at (arg smod base);
     tmp \<leftarrow> write_at tmp str d;
     let arg = arg sdiv base;
     if arg \<noteq> 0 then print_digits tmp str arg base else Some (tmp, str)
   }"

definition print_integer :: "string \<Rightarrow> int \<Rightarrow> int \<Rightarrow> string option" where
  "print_integer tmp arg base = do {
     tmp \<leftarrow> write_at tmp 49 NUL;
     (tmp, str) \<leftarrow> print_digits tmp 49 arg base;
     emit_cstr (drop str tmp)
   }"

datatype fmt_arg = Arg_cstr string | Arg_char char | Arg_string kstring | Arg_int int

fun format_string :: "kstring \<Rightarrow> nat \<Rightarrow> nat \<Rightarrow> string option" where
  "format_string s i 0 = Some []"
| "format_string s i (Suc n) = do { c \<leftarrow> string_at s (of_nat i); cs \<leftarrow> format_string s (Suc i) n; Some (c # cs) }"

fun format :: "string \<Rightarrow> fmt_arg \<Rightarrow> int \<Rightarrow> string option" where
  "format tmp (Arg_cstr arg) base = emit_cstr arg"
| "format tmp (Arg_char arg) base = Some [arg]"
| "format tmp (Arg_string arg) base = format_string arg 0 (unat (str_length arg))"
| "format tmp (Arg_int arg) base = print_integer tmp arg base"

definition base_of :: "char \<Rightarrow> int" where
  "base_of c = (if c = CHR ''b'' then 2 else if c = CHR ''d'' then 10 else 16)"

text \<open>One argument: the output up to and including its place, and the rest of the format.\<close>

fun print_arg :: "string \<Rightarrow> string \<Rightarrow> fmt_arg \<Rightarrow> (string \<times> string) option" where
  "print_arg tmp [] arg = None"
| "print_arg tmp (c # str) arg =
     (if c = NUL then Some ([], c # str)
      else do {
        hole \<leftarrow> (if c \<noteq> CHR ''{'' then Some None
          else do {
            c1 \<leftarrow> read_at str 0;
            if c1 = CHR ''}'' then Some (Some (10, 1))
            else do {
              c2 \<leftarrow> read_at str 1;
              Some (if c2 = CHR ''}'' then Some (base_of c1, 2) else None)
            }
          });
        case hole of
          Some (base, n) \<Rightarrow> do { t \<leftarrow> format tmp arg base; Some (t, drop n str) }
        | None \<Rightarrow> do { (t, rest) \<leftarrow> print_arg tmp str arg; Some (c # t, rest) }
      })"

fun print_format :: "string \<Rightarrow> string \<Rightarrow> fmt_arg list \<Rightarrow> string option" where
  "print_format tmp str [] = emit_cstr str"
| "print_format tmp str (arg # args) = do {
     (t, str) \<leftarrow> print_arg tmp str arg;
     u \<leftarrow> print_format tmp str args;
     Some (t @ u)
   }"

definition com1 :: u16 where "com1 = 0x3f8"

partial_function (option) serial_wait :: "'h io_ports \<Rightarrow> 'h \<Rightarrow> 'h option" where
  "serial_wait P h = (case inb P h (com1 + 5) of (v, h) \<Rightarrow> if v AND 0x20 = 0 then serial_wait P h else Some h)"

definition serial_write :: "'h io_ports \<Rightarrow> 'h \<Rightarrow> char \<Rightarrow> 'h option" where
  "serial_write P h c = do { h \<leftarrow> serial_wait P h; Some (outb P h com1 (of_char c)) }"

fun serial_all :: "'h io_ports \<Rightarrow> 'h \<Rightarrow> string \<Rightarrow> 'h option" where
  "serial_all P h [] = Some h"
| "serial_all P h (c # cs) = do { h \<leftarrow> serial_write P h c; serial_all P h cs }"

definition print :: "string \<Rightarrow> 'h io_ports \<Rightarrow> 'h \<Rightarrow> string \<Rightarrow> fmt_arg list \<Rightarrow> 'h option" where
  "print tmp P h str args = do { t \<leftarrow> print_format tmp str args; serial_all P h t }"

section \<open>Numbers\<close>

definition hex_value :: "char \<Rightarrow> nat" where
  "hex_value c = length (takeWhile (\<lambda>d. d \<noteq> c) hex_digits)"

definition num_value :: "nat \<Rightarrow> string \<Rightarrow> nat" where
  "num_value b ds = foldl (\<lambda>v c. b * v + hex_value c) 0 ds"

text \<open>\<open>ds\<close> is the usual text of \<open>n\<close>: the digits of the base, no leading zero.\<close>

definition num_text :: "nat \<Rightarrow> nat \<Rightarrow> string \<Rightarrow> bool" where
  "num_text b n ds \<longleftrightarrow> num_value b ds = n \<and> ds \<noteq> [] \<and> (\<forall>c \<in> set ds. c \<in> set (take b hex_digits)) \<and> (n = 0 \<or> hd ds \<noteq> CHR ''0'')"

lemma hex_digits_nth:
  assumes "i < 16"
  shows "hex_value (hex_digits ! i) = i" and "hex_digits ! i \<noteq> NUL" and "hex_digits ! i = CHR ''0'' \<longleftrightarrow> i = 0"
proof -
  have "list_all (\<lambda>i. hex_value (hex_digits ! i) = i \<and> hex_digits ! i \<noteq> NUL \<and> (hex_digits ! i = CHR ''0'' \<longleftrightarrow> i = 0)) [0..<16]"
    by code_simp
  then have "hex_value (hex_digits ! i) = i \<and> hex_digits ! i \<noteq> NUL \<and> (hex_digits ! i = CHR ''0'' \<longleftrightarrow> i = 0)"
    using assms unfolding list_all_iff by (metis atLeastLessThan_iff set_upt zero_le)
  then show "hex_value (hex_digits ! i) = i" and "hex_digits ! i \<noteq> NUL" and "hex_digits ! i = CHR ''0'' \<longleftrightarrow> i = 0" by blast+
qed

lemma length_hex_digits [simp]: "length hex_digits = 16" by (simp add: hex_digits_def)

lemma digit_at_nth: "i < 16 \<Longrightarrow> digit_at (int i) = Some (hex_digits ! i)"
  by (simp add: digit_at_def nth_append)

lemma smod_sdiv_nat:
  assumes "0 < b"
  shows "int n smod int b = int (n mod b)" and "int n sdiv int b = int (n div b)"
proof -
  show q: "int n sdiv int b = int (n div b)" using assms by (simp add: sdiv_nonneg zdiv_int)
  show "int n smod int b = int (n mod b)"
    by (cases "n = 0") (simp_all add: smod_int_alt_def q zmod_int minus_div_mult_eq_mod assms)
qed

lemma print_digits_step:
  assumes "2 \<le> b" and "b \<le> 16" and "k < length tmp"
  shows "print_digits tmp (Suc k) (int n) (int b) =
    (if n div b \<noteq> 0 then print_digits (tmp[k := hex_digits ! (n mod b)]) k (int (n div b)) (int b)
     else Some (tmp[k := hex_digits ! (n mod b)], k))"
proof -
  have "n mod b < 16" using assms(1,2) mod_less_divisor [of b n] by linarith
  then show ?thesis using assms by (simp add: smod_sdiv_nat digit_at_nth Let_def)
qed

lemma num_text_snoc:
  assumes "num_text b (n div b) ds" and "n div b \<noteq> 0" and "2 \<le> b" and "b \<le> 16"
  shows "num_text b n (ds @ [hex_digits ! (n mod b)])"
proof -
  have m: "n mod b < b" using assms(3) by simp
  then have "hex_value (hex_digits ! (n mod b)) = n mod b" using assms(4) by (intro hex_digits_nth(1)) simp
  moreover have "hex_digits ! (n mod b) \<in> set (take b hex_digits)"
    using m assms(4) by (auto simp: in_set_conv_nth intro!: exI [of _ "n mod b"])
  ultimately show ?thesis using assms(1,2) by (auto simp: num_text_def num_value_def)
qed

lemma num_text_single:
  assumes "n div b = 0" and "2 \<le> b" and "b \<le> 16"
  shows "num_text b n [hex_digits ! (n mod b)]"
proof -
  have n: "n < b" using assms(1,2) by (simp add: div_eq_0_iff)
  then have "hex_digits ! n \<in> set (take b hex_digits)" using assms(3) by (auto simp: in_set_conv_nth intro!: exI [of _ n])
  then show ?thesis using n assms(3) hex_digits_nth [of n] by (auto simp: num_text_def num_value_def)
qed

text \<open>The digits of a number end at position \<open>k\<close> of the buffer, when they fit before it.\<close>

lemma print_digits_fits:
  assumes "n < b ^ k" and "0 < k" and "2 \<le> b" and "b \<le> 16" and "k \<le> length tmp"
  shows "\<exists>ds tmp' i. print_digits tmp k (int n) (int b) = Some (tmp', i) \<and> drop i tmp' = ds @ drop k tmp \<and> num_text b n ds"
  using assms
proof (induction k arbitrary: n tmp)
  case (Suc k)
  let ?d = "hex_digits ! (n mod b)"
  let ?t = "tmp[k := ?d]"
  have k: "k < length tmp" using Suc.prems by simp
  then have dr: "drop k ?t = ?d # drop (Suc k) tmp" by (simp add: Cons_nth_drop_Suc [symmetric])
  note step = print_digits_step [OF Suc.prems(3,4) k, of n]
  show ?case
  proof (cases "n div b = 0")
    case True
    then show ?thesis using step dr num_text_single [OF True Suc.prems(3,4)] by (intro exI [of _ "[?d]"] exI [of _ ?t] exI [of _ k]) simp
  next
    case False
    have lt: "n div b < b ^ k" using Suc.prems(1) by (simp add: less_mult_imp_div_less mult.commute)
    with False have "0 < k" by (cases k) auto
    with lt obtain ds t' i where r: "print_digits ?t k (int (n div b)) (int b) = Some (t', i)"
      "drop i t' = ds @ drop k ?t" "num_text b (n div b) ds"
      using Suc.IH [of "n div b" ?t] Suc.prems(3,4) k by auto
    then show ?thesis using step False dr num_text_snoc [OF r(3) False Suc.prems(3,4)]
      by (intro exI [of _ "ds @ [?d]"] exI [of _ t'] exI [of _ i]) simp
  qed
qed simp

lemma print_digits_overflow:
  assumes "b ^ k \<le> n" and "2 \<le> b" and "b \<le> 16" and "k \<le> length tmp" and "0 < n"
  shows "print_digits tmp k (int n) (int b) = None"
  using assms
proof (induction k arbitrary: n tmp)
  case (Suc k)
  have k: "k < length tmp" using Suc.prems by simp
  have le: "b ^ k \<le> n div b" using Suc.prems(1,2) by (simp add: less_eq_div_iff_mult_less_eq mult.commute)
  then have nz: "n div b \<noteq> 0" using Suc.prems(2) by (metis le_zero_eq power_not_zero not_numeral_le_zero)
  then show ?case using print_digits_step [OF Suc.prems(2,3) k, of n] Suc.IH [OF le] Suc.prems(2,3) k by simp
qed simp

text \<open>A negative number comes to a negative remainder, which is no index of the digits.\<close>

lemma print_digits_negative:
  assumes "arg < 0" and "2 \<le> base"
  shows "print_digits tmp k arg base = None"
  using assms
proof (induction k arbitrary: arg tmp)
  case (Suc k)
  show ?case
  proof (cases "arg smod base = 0")
    case True
    have q: "arg sdiv base * base + arg smod base = arg" by (rule sdiv_mult_smod_eq)
    then have "arg sdiv base * base < 0" using True Suc.prems(1) by simp
    then have "arg sdiv base < 0" using Suc.prems(2) by (simp add: mult_less_0_iff)
    then show ?thesis using Suc.IH Suc.prems(2) by (simp add: Let_def Option.bind_eq_None_conv)
  next
    case False
    have "arg smod base < 0" using False Suc.prems pos_mod_sign [of base "- arg"] by (auto simp: smod_int_alt_def sgn_if order_le_less)
    then show ?thesis by (simp add: digit_at_def)
  qed
qed simp

lemma emit_cstr_text: "NUL \<notin> set t \<Longrightarrow> emit_cstr (t @ NUL # r) = Some t"
  by (induction t) auto

lemma num_text_no_NUL: "num_text b n ds \<Longrightarrow> NUL \<notin> set ds"
  using set_take_subset [of b hex_digits] by (auto simp: num_text_def hex_digits_def)

lemma print_integer_fits:
  assumes "length tmp = 50" and "n < b ^ 49" and "2 \<le> b" and "b \<le> 16"
  shows "\<exists>ds. print_integer tmp (int n) (int b) = Some ds \<and> num_text b n ds"
proof -
  let ?t = "tmp[49 := NUL]"
  have w: "write_at tmp 49 NUL = Some ?t" using assms(1) by simp
  have dr: "drop 49 ?t = [NUL]" using assms(1) by (intro nth_equalityI) simp_all
  obtain ds t i where "print_digits ?t 49 (int n) (int b) = Some (t, i)" "drop i t = ds @ drop 49 ?t" "num_text b n ds"
    using print_digits_fits [OF assms(2), where tmp = ?t] assms by auto
  then show ?thesis using dr emit_cstr_text [OF num_text_no_NUL, of b n ds "[]"] w by (simp add: print_integer_def del: print_digits.simps)
qed

section \<open>Formats\<close>

text \<open>
  A format is a list of characters and places for arguments; \<open>fmt_text\<close> writes it down and \<open>fmt_out\<close> is what
  printing it is meant to give, with the texts of the arguments in the places.
\<close>

datatype piece = Lit char | Hole "char option"

fun piece_text :: "piece \<Rightarrow> string" where
  "piece_text (Lit c) = [c]"
| "piece_text (Hole None) = ''{}''"
| "piece_text (Hole (Some c)) = [CHR ''{'', c, CHR ''}'']"

definition fmt_text :: "piece list \<Rightarrow> string" where
  "fmt_text ps = concat (map piece_text ps)"

definition hole_base :: "char option \<Rightarrow> int" where
  "hole_base h = (case h of None \<Rightarrow> 10 | Some c \<Rightarrow> base_of c)"

fun fmt_out :: "string \<Rightarrow> piece list \<Rightarrow> fmt_arg list \<Rightarrow> string option" where
  "fmt_out tmp [] args = Some []"
| "fmt_out tmp (Lit c # ps) args = map_option (Cons c) (fmt_out tmp ps args)"
| "fmt_out tmp (Hole h # ps) [] = map_option (append (piece_text (Hole h))) (fmt_out tmp ps [])"
| "fmt_out tmp (Hole h # ps) (arg # args) = do { t \<leftarrow> format tmp arg (hole_base h); u \<leftarrow> fmt_out tmp ps args; Some (t @ u) }"

fun plain_piece :: "piece \<Rightarrow> bool" where
  "plain_piece (Lit c) \<longleftrightarrow> c \<noteq> NUL \<and> c \<noteq> CHR ''{''"
| "plain_piece (Hole None) \<longleftrightarrow> True"
| "plain_piece (Hole (Some c)) \<longleftrightarrow> c \<noteq> NUL \<and> c \<noteq> CHR ''}''"

lemma print_arg_hole:
  assumes "plain_piece (Hole h)"
  shows "print_arg tmp (piece_text (Hole h) @ r) arg = map_option (\<lambda>t. (t, r)) (format tmp arg (hole_base h))"
  using assms by (cases h) (simp_all add: hole_base_def map_conv_bind_option comp_def)

lemma no_NUL: "list_all plain_piece ps \<Longrightarrow> NUL \<notin> set (fmt_text ps)"
proof (induction ps)
  case (Cons p ps)
  then show ?case by (cases p rule: piece_text.cases) (auto simp: fmt_text_def)
qed (simp add: fmt_text_def)

lemma print_format_lit:
  assumes "c \<noteq> NUL" and "c \<noteq> CHR ''{''"
  shows "print_format tmp (c # s) args = map_option (Cons c) (print_format tmp s args)"
proof (cases args)
  case (Cons a l)
  show ?thesis
  proof (cases "print_arg tmp s a")
    case (Some p)
    then show ?thesis using assms Cons by (cases "print_format tmp (snd p) l") (simp_all add: case_prod_unfold)
  qed (use assms Cons in simp)
qed (use assms in simp)

lemma print_format_pieces:
  assumes "list_all plain_piece ps"
  shows "print_format tmp (fmt_text ps @ NUL # r) args = fmt_out tmp ps args"
  using assms
proof (induction tmp ps args rule: fmt_out.induct)
  case (1 tmp args)
  show ?case by (induction args) (simp_all add: fmt_text_def)
next
  case (2 tmp c ps args)
  then show ?case using print_format_lit [of c tmp "fmt_text ps @ NUL # r" args] by (simp add: fmt_text_def)
next
  case (3 tmp h ps)
  have "NUL \<notin> set (fmt_text (Hole h # ps))" and "NUL \<notin> set (fmt_text ps)" using no_NUL 3(2) by auto
  then have "fmt_out tmp ps [] = Some (fmt_text ps)" "print_format tmp (fmt_text (Hole h # ps) @ NUL # r) [] = Some (fmt_text (Hole h # ps))"
    using 3 by (simp_all add: emit_cstr_text)
  then show ?case by (simp add: fmt_text_def)
next
  case (4 tmp h ps arg args)
  then show ?case
    using print_arg_hole [of h tmp "fmt_text ps @ NUL # r" arg]
    by (cases "format tmp arg (hole_base h)") (simp_all add: fmt_text_def del: piece_text.simps print_arg.simps)
qed

section \<open>Properties\<close>

text \<open>
  C30. Printing an integer writes exactly its digits in the base, without leading zeros, when they fit the 49
  characters of the buffer; a number with more digits writes before the buffer, and a negative
  number reads before the table of digits.
\<close>

theorem print_integer_digits:
  assumes "length tmp = 50" and "2 \<le> b" and "b \<le> 16"
  shows "(n < b ^ 49 \<longrightarrow> (\<exists>ds. print_integer tmp (int n) (int b) = Some ds \<and> num_text b n ds))
    \<and> (b ^ 49 \<le> n \<longrightarrow> print_integer tmp (int n) (int b) = None)
    \<and> (arg < 0 \<longrightarrow> print_integer tmp arg (int b) = None)"
proof (intro conjI impI)
  let ?t = "tmp[49 := NUL]"
  have w: "write_at tmp 49 NUL = Some ?t" using assms(1) by simp
  show "\<exists>ds. print_integer tmp (int n) (int b) = Some ds \<and> num_text b n ds" if "n < b ^ 49"
    using print_integer_fits [OF assms(1) that assms(2,3)] .
  show "print_integer tmp (int n) (int b) = None" if "b ^ 49 \<le> n"
  proof -
    have "0 < b ^ 49" using assms(2) by simp
    then have "0 < n" using that by linarith
    then show ?thesis using print_digits_overflow [OF that assms(2,3), where tmp = ?t] assms(1) w by (simp add: print_integer_def del: print_digits.simps)
  qed
  show "print_integer tmp arg (int b) = None" if "arg < 0"
    using print_digits_negative [OF that, of "int b" ?t 49] assms(2) w by (simp add: print_integer_def del: print_digits.simps)
qed

theorem print_integer_digits_witness:
  "(\<exists>ds. print_integer (replicate 50 NUL) 255 16 = Some ds \<and> num_text 16 255 ds)
    \<and> print_integer (replicate 50 NUL) (2 ^ 63) 2 = None \<and> print_integer (replicate 50 NUL) (- 1) 10 = None"
proof -
  have "length (replicate 50 NUL) = 50" by simp
  note t = print_integer_digits [OF this]
  have "(2::nat) ^ 49 \<le> 2 ^ 63" by (rule power_increasing) simp_all
  then show ?thesis using t [of 16 255 0] t [of 2 "2 ^ 63" 0] t [of 10 0 "- 1"] by simp
qed

text \<open>
  A serial line: looking at its status changes nothing that was sent and a line that is not ready
  is nearer to being ready afterwards; the data port sends a character.
\<close>

definition serial_line :: "'h io_ports \<Rightarrow> ('h \<Rightarrow> u8 list) \<Rightarrow> ('h \<Rightarrow> nat) \<Rightarrow> bool" where
  "serial_line P sent busy \<longleftrightarrow>
     (\<forall>h. sent (snd (inb P h (com1 + 5))) = sent h
       \<and> (fst (inb P h (com1 + 5)) AND 0x20 = 0 \<longrightarrow> busy (snd (inb P h (com1 + 5))) < busy h))
     \<and> (\<forall>h c. sent (outb P h com1 c) = sent h @ [c])"

lemma serial_wait_ready:
  assumes "serial_line P sent busy"
  shows "\<exists>h'. serial_wait P h = Some h' \<and> sent h' = sent h"
proof (induction h rule: measure_induct_rule [of busy])
  case (less h)
  obtain v h1 where i: "inb P h (com1 + 5) = (v, h1)" by fastforce
  then have s: "sent h1 = sent h" and l: "v AND 0x20 = 0 \<longrightarrow> busy h1 < busy h"
    using assms [unfolded serial_line_def, THEN conjunct1, rule_format, of h] by simp_all
  show ?case
  proof (cases "v AND 0x20 = 0")
    case True
    then show ?thesis using less.IH [of h1] l s i by (subst serial_wait.simps) simp
  next
    case False
    then show ?thesis using s i by (subst serial_wait.simps) simp
  qed
qed

lemma serial_all_sends:
  assumes "serial_line P sent busy"
  shows "\<exists>h'. serial_all P h t = Some h' \<and> sent h' = sent h @ map of_char t"
proof (induction t arbitrary: h)
  case (Cons c t)
  obtain h1 where h1: "serial_wait P h = Some h1" "sent h1 = sent h" using serial_wait_ready [OF assms] by blast
  then have "sent (outb P h1 com1 (of_char c)) = sent h @ [of_char c]" using assms by (simp add: serial_line_def)
  then show ?case using Cons.IH [of "outb P h1 com1 (of_char c)"] h1 by (auto simp: serial_write_def)
qed simp

text \<open>
  C29. Printing a format on a serial line that becomes ready returns, and what was sent is the characters of
  the format with the texts of the arguments in its places, in order; arguments without a place are
  left out and places without an argument are printed as they stand.
\<close>

theorem print_sends_format:
  assumes "serial_line P sent busy" and "list_all plain_piece ps" and "fmt_out tmp ps args = Some t"
  shows "\<exists>h'. print tmp P h (fmt_text ps @ [NUL]) args = Some h' \<and> sent h' = sent h @ map of_char t"
  using serial_all_sends [OF assms(1), of h t] print_format_pieces [OF assms(2), of tmp "[]" args] assms(3)
  by (auto simp: print_def)

definition demo_line :: "(nat \<times> u8 list) io_ports" where
  "demo_line = \<lparr>inb = \<lambda>(n, s) p. if n = 0 then (0x20, (n, s)) else (0, (n - 1, s)), outb = \<lambda>(n, s) p c. (3, s @ [c])\<rparr>"

theorem print_sends_format_witness:
  "let ps = [Lit CHR ''x'', Hole (Some CHR ''x''), Lit CHR '' '', Hole None] in
   fmt_out (replicate 50 NUL) ps [Arg_int 173, Arg_cstr (''ok'' @ [NUL])] = Some ''xAD ok''
   \<and> (\<exists>h'. print (replicate 50 NUL) demo_line (2, []) (fmt_text ps @ [NUL]) [Arg_int 173, Arg_cstr (''ok'' @ [NUL])] = Some h'
        \<and> snd h' = map of_char ''xAD ok'')"
proof -
  let ?ps = "[Lit CHR ''x'', Hole (Some CHR ''x''), Lit CHR '' '', Hole None]"
  let ?args = "[Arg_int 173, Arg_cstr (''ok'' @ [NUL])]"
  have l: "serial_line demo_line snd fst" by (auto simp: serial_line_def demo_line_def)
  have o: "fmt_out (replicate 50 NUL) ?ps ?args = Some ''xAD ok''" by code_simp
  show ?thesis using print_sends_format [OF l _ o, of "(2, [])"] o by (simp add: Let_def)
qed

end
