(* ===== verification/Segments.thy ===== *)
theory Segments
  imports Devfs Vmm
begin

text \<open>
  \<^verbatim>\<open>kernel/int/gdt.cpp\<close> and the table of \<^verbatim>\<open>kernel/int/idt.cpp\<close>: the segment descriptors, the task state segments
  and the interrupt gates, as the bytes the processor reads. The table of descriptors is a block
  of the heap that grows by \<^verbatim>\<open>realloc\<close>, and \<open>g\<close> is what new memory holds. The heap is taken to have room.
  The registers the assembly loads are members of the state.
\<close>

section \<open>Definitions\<close>

definition kernel64_cs :: u16 where "kernel64_cs = 0x8"
definition kernel64_ds :: u16 where "kernel64_ds = 0x10"
definition user64_cs :: u16 where "user64_cs = 0x23"
definition user64_ds :: u16 where "user64_ds = 0x1b"

record segment_descriptor =
  seg_limit :: u16
  seg_base_low :: u16
  seg_base_mid :: u8
  seg_access :: u8
  seg_granularity :: u8
  seg_base_high :: u8

definition segment_descriptor_ctor :: "u8 \<Rightarrow> u8 \<Rightarrow> segment_descriptor" where
  "segment_descriptor_ctor a g = \<lparr>seg_limit = 0, seg_base_low = 0, seg_base_mid = 0, seg_access = a, seg_granularity = g, seg_base_high = 0\<rparr>"

definition segment_bytes :: "segment_descriptor \<Rightarrow> u8 list" where
  "segment_bytes d = le_bytes 2 (ucast (seg_limit d)) @ le_bytes 2 (ucast (seg_base_low d))
     @ [seg_base_mid d, seg_access d, seg_granularity d, seg_base_high d]"

record tss_descriptor =
  td_length :: u16
  td_base_low :: u16
  td_base_mid :: u8
  td_flags1 :: u8
  td_flags2 :: u8
  td_base_high :: u8
  td_base_high32 :: u32
  td_reserved :: u32

definition tss_descriptor_ctor :: "u64 \<Rightarrow> tss_descriptor" where
  "tss_descriptor_ctor addr = \<lparr>td_length = 104, td_base_low = ucast (addr AND 0xffff), td_base_mid = ucast (drop_bit 16 addr AND 0xff),
     td_flags1 = 0b10001001, td_flags2 = 0, td_base_high = ucast (drop_bit 24 addr AND 0xff),
     td_base_high32 = ucast (drop_bit 32 addr AND 0xffffffff), td_reserved = 0\<rparr>"

definition tss_descriptor_bytes :: "tss_descriptor \<Rightarrow> u8 list" where
  "tss_descriptor_bytes d = le_bytes 2 (ucast (td_length d)) @ le_bytes 2 (ucast (td_base_low d))
     @ [td_base_mid d, td_flags1 d, td_flags2 d, td_base_high d]
     @ le_bytes 4 (ucast (td_base_high32 d)) @ le_bytes 4 (ucast (td_reserved d))"

text \<open>The register and the block it points to; no block is the offset \<open>0\<close>.\<close>

record gdtr =
  gdt_limit :: u16
  gdt_block :: "u8 list option"

definition gdtr_ctor :: gdtr where
  "gdtr_ctor = \<lparr>gdt_limit = -1, gdt_block = None\<rparr>"

text \<open>Appending gives the selector of the new descriptor.\<close>

definition gdt_append :: "(nat \<Rightarrow> u8) \<Rightarrow> gdtr \<Rightarrow> u8 list \<Rightarrow> (u16 \<times> gdtr) option" where
  "gdt_append g r raw =
     (let limit = gdt_limit r + of_nat (length raw);
          cnt = unat limit + 1;
          block = (case gdt_block r of None \<Rightarrow> map g [0..<cnt] | Some b \<Rightarrow> take cnt b @ map g [length b..<cnt])
      in if cnt < length raw then None
         else Some (limit - of_nat (length raw) + 1,
           \<lparr>gdt_limit = limit, gdt_block = Some (take (cnt - length raw) block @ raw)\<rparr>))"

record seg_cpu =
  loaded_gdt :: gdtr
  task_reg :: u16

record seg_sys =
  system_gdt :: gdtr
  seg_frames :: pmm

definition gdt_init :: "(nat \<Rightarrow> u8) \<Rightarrow> seg_sys \<Rightarrow> seg_cpu \<Rightarrow> (seg_sys \<times> seg_cpu) option" where
  "gdt_init g s c = do {
     (_, r) \<leftarrow> gdt_append g (system_gdt s) (segment_bytes (segment_descriptor_ctor 0 0));
     (_, r) \<leftarrow> gdt_append g r (segment_bytes (segment_descriptor_ctor 0b10011010 0b00100000));
     (_, r) \<leftarrow> gdt_append g r (segment_bytes (segment_descriptor_ctor 0b10010110 0));
     (_, r) \<leftarrow> gdt_append g r (segment_bytes (segment_descriptor_ctor 0b11110010 0));
     (_, r) \<leftarrow> gdt_append g r (segment_bytes (segment_descriptor_ctor 0b11111010 0b00100000));
     Some (s\<lparr>system_gdt := r\<rparr>, c\<lparr>loaded_gdt := r\<rparr>)
   }"

text \<open>The members the constructor of a task state segment sets; the others keep what memory holds.\<close>

record tss =
  rsp0 :: u64
  rsp1 :: u64
  rsp2 :: u64

definition tss_stack :: "u64 \<Rightarrow> pmm \<Rightarrow> (u64 \<times> pmm) option" where
  "tss_stack hv f = do { (a, f) \<leftarrow> pmm_alloc f 2 1; Some (a + 0x2000 + hv, f) }"

definition tss_ctor :: "(nat \<Rightarrow> u8) \<Rightarrow> u64 \<Rightarrow> u64 \<Rightarrow> seg_sys \<Rightarrow> seg_cpu \<Rightarrow> (tss \<times> seg_sys \<times> seg_cpu) option" where
  "tss_ctor g hv this s c = do {
     (r0, f) \<leftarrow> tss_stack hv (seg_frames s);
     (r1, f) \<leftarrow> tss_stack hv f;
     (r2, f) \<leftarrow> tss_stack hv f;
     (sel, r) \<leftarrow> gdt_append g (system_gdt s) (tss_descriptor_bytes (tss_descriptor_ctor this));
     Some (\<lparr>rsp0 = r0, rsp1 = r1, rsp2 = r2\<rparr>, s\<lparr>system_gdt := r, seg_frames := f\<rparr>, c\<lparr>loaded_gdt := r, task_reg := sel\<rparr>)
   }"

record idt_entry =
  offset_low :: u16
  gate_cs :: u16
  gate_ist :: u8
  gate_attributes :: u8
  offset_mid :: u16
  offset_high :: u32
  gate_zero :: u32

definition set_idt_entry :: "idt_entry list \<Rightarrow> u16 \<Rightarrow> u8 \<Rightarrow> u8 \<Rightarrow> u64 \<Rightarrow> u8 \<Rightarrow> idt_entry list option" where
  "set_idt_entry idt cs ist attributes offset index = write_at idt (unat index)
     \<lparr>offset_low = ucast offset, gate_cs = cs, gate_ist = ist, gate_attributes = attributes,
      offset_mid = ucast (drop_bit 16 offset), offset_high = ucast (drop_bit 32 offset), gate_zero = 0\<rparr>"

record idtr =
  idt_limit :: u16
  idt_table :: "idt_entry list"

text \<open>\<open>isr i\<close> is the address of the entry point for vector \<open>i\<close>; there is one call for each vector.\<close>

definition idt_init :: "(nat \<Rightarrow> u64) \<Rightarrow> idt_entry list \<Rightarrow> idtr option" where
  "idt_init isr idt = do {
     idt \<leftarrow> for_range (\<lambda>i idt. set_idt_entry idt 0x8 0 0x8e (isr i) (of_nat i)) 0 256 idt;
     Some \<lparr>idt_limit = 256 * 16 - 1, idt_table = idt\<rparr>
   }"

section \<open>What the processor reads\<close>

definition seg_at :: "gdtr \<Rightarrow> u16 \<Rightarrow> u8 list option" where
  "seg_at r sel = do {
     b \<leftarrow> gdt_block r;
     let i = unat (sel AND 0xfff8);
     if i + 7 \<le> unat (gdt_limit r) then Some (take 8 (drop i b)) else None
   }"

definition desc_present :: "u8 list \<Rightarrow> bool" where "desc_present d = bit (d ! 5) 7"
definition desc_dpl :: "u8 list \<Rightarrow> u8" where "desc_dpl d = drop_bit 5 (d ! 5) AND 3"
definition desc_code64 :: "u8 list \<Rightarrow> bool" where "desc_code64 d \<longleftrightarrow> bit (d ! 5) 4 \<and> bit (d ! 5) 3 \<and> bit (d ! 6) 5"
definition desc_data :: "u8 list \<Rightarrow> bool" where "desc_data d \<longleftrightarrow> bit (d ! 5) 4 \<and> \<not> bit (d ! 5) 3 \<and> bit (d ! 5) 1"

definition tss_at :: "gdtr \<Rightarrow> u16 \<Rightarrow> u8 list option" where
  "tss_at r sel = do {
     b \<leftarrow> gdt_block r;
     let i = unat (sel AND 0xfff8);
     if i + 15 \<le> unat (gdt_limit r) then Some (take 16 (drop i b)) else None
   }"

definition tss_base :: "u8 list \<Rightarrow> u64" where
  "tss_base d = get_field 3 2 d OR push_bit 24 (get_field 1 7 d) OR push_bit 32 (get_field 4 8 d)"

definition gate_offset :: "idt_entry \<Rightarrow> u64" where
  "gate_offset e = ucast (offset_low e) OR push_bit 16 (ucast (offset_mid e)) OR push_bit 32 (ucast (offset_high e))"

text \<open>A register and a block that belong together; before the first descriptor there is no block.\<close>

fun gdt_ok :: "gdtr \<Rightarrow> u8 list \<Rightarrow> bool" where
  "gdt_ok r b \<longleftrightarrow> (if b = [] then gdt_block r = None \<and> gdt_limit r = -1
     else gdt_block r = Some b \<and> unat (gdt_limit r) + 1 = length b)"

section \<open>Appending\<close>

lemma unat16_add:
  assumes "unat (l :: u16) + n < 65536"
  shows "unat (l + of_nat n) = unat l + n"
  using assms by (simp add: unat_word_ariths unat_of_nat take_bit_nat_def)

lemma gdt_append_end:
  assumes "gdt_ok r b" and "raw \<noteq> []" and "length b + length raw \<le> 65536"
  shows "\<exists>r'. gdt_append g r raw = Some (of_nat (length b), r') \<and> gdt_ok r' (b @ raw)"
proof (cases "b = []")
  case True
  let ?n = "length raw"
  have n: "0 < ?n" "?n \<le> 65536" using assms(2,3) True by auto
  obtain m where "?n = Suc m" using n(1) gr0_implies_Suc by blast
  then have e: "(-1 :: u16) + of_nat ?n = of_nat (?n - 1)" by simp
  have u: "unat (-1 + of_nat ?n :: u16) = ?n - 1" using n unfolding e by (simp add: unat_of_nat take_bit_nat_def)
  show ?thesis using assms(1) True n u assms(2) by (simp add: gdt_append_def Let_def)
next
  case False
  then have b: "gdt_block r = Some b" "unat (gdt_limit r) + 1 = length b" using assms(1) by simp_all
  have u: "unat (gdt_limit r + of_nat (length raw)) = unat (gdt_limit r) + length raw"
    using assms(3) b by (intro unat16_add) simp
  have "gdt_limit r + 1 = of_nat (length b)" by (simp flip: b(2))
  then show ?thesis using b u False by (simp add: gdt_append_def Let_def)
qed

lemma length_segment_bytes [simp]: "length (segment_bytes d) = 8" by (simp add: segment_bytes_def)

lemma length_tss_descriptor_bytes [simp]: "length (tss_descriptor_bytes d) = 16" by (simp add: tss_descriptor_bytes_def)

text \<open>Each append continues the table.\<close>

lemma gdt_append_segment:
  assumes "gdt_ok r b" and "length b \<le> 65528"
  obtains r' where "gdt_append g r (segment_bytes d) = Some (of_nat (length b), r')" and "gdt_ok r' (b @ segment_bytes d)"
proof -
  have "segment_bytes d \<noteq> []" by (metis length_segment_bytes list.size(3) zero_neq_numeral)
  then show thesis using gdt_append_end [OF assms(1), of "segment_bytes d" g] assms(2) that by auto
qed

definition boot_table :: "u8 list" where
  "boot_table = segment_bytes (segment_descriptor_ctor 0 0) @ segment_bytes (segment_descriptor_ctor 0b10011010 0b00100000)
     @ segment_bytes (segment_descriptor_ctor 0b10010110 0) @ segment_bytes (segment_descriptor_ctor 0b11110010 0)
     @ segment_bytes (segment_descriptor_ctor 0b11111010 0b00100000)"

lemma gdt_init_table:
  assumes "system_gdt s = gdtr_ctor"
  shows "\<exists>r. gdt_init g s c = Some (s\<lparr>system_gdt := r\<rparr>, c\<lparr>loaded_gdt := r\<rparr>) \<and> gdt_ok r boot_table"
proof -
  have 0: "gdt_ok (system_gdt s) []" using assms by (simp add: gdtr_ctor_def)
  obtain r1 where 1: "gdt_append g (system_gdt s) (segment_bytes (segment_descriptor_ctor 0 0)) = Some (0, r1)"
    "gdt_ok r1 (segment_bytes (segment_descriptor_ctor 0 0))" using gdt_append_segment [OF 0] by auto
  obtain r2 where 2: "gdt_append g r1 (segment_bytes (segment_descriptor_ctor 0b10011010 0b00100000)) = Some (8, r2)"
    "gdt_ok r2 (segment_bytes (segment_descriptor_ctor 0 0) @ segment_bytes (segment_descriptor_ctor 0b10011010 0b00100000))"
    using gdt_append_segment [OF 1(2)] by auto
  obtain r3 where 3: "gdt_append g r2 (segment_bytes (segment_descriptor_ctor 0b10010110 0)) = Some (16, r3)"
    "gdt_ok r3 ((segment_bytes (segment_descriptor_ctor 0 0) @ segment_bytes (segment_descriptor_ctor 0b10011010 0b00100000))
      @ segment_bytes (segment_descriptor_ctor 0b10010110 0))"
    using gdt_append_segment [OF 2(2)] by auto
  obtain r4 where 4: "gdt_append g r3 (segment_bytes (segment_descriptor_ctor 0b11110010 0)) = Some (24, r4)"
    "gdt_ok r4 (((segment_bytes (segment_descriptor_ctor 0 0) @ segment_bytes (segment_descriptor_ctor 0b10011010 0b00100000))
      @ segment_bytes (segment_descriptor_ctor 0b10010110 0)) @ segment_bytes (segment_descriptor_ctor 0b11110010 0))"
    using gdt_append_segment [OF 3(2)] by auto
  obtain r5 where 5: "gdt_append g r4 (segment_bytes (segment_descriptor_ctor 0b11111010 0b00100000)) = Some (32, r5)"
    "gdt_ok r5 boot_table"
    using gdt_append_segment [OF 4(2)] by (auto simp: boot_table_def)
  show ?thesis using 1(1) 2(1) 3(1) 4(1) 5 by (intro exI [of _ r5]) (simp add: gdt_init_def del: gdt_ok.simps)
qed

lemma seg_at_table:
  assumes "gdt_ok r b" and "unat (sel AND 0xfff8) + 8 \<le> length b"
  shows "seg_at r sel = Some (take 8 (drop (unat (sel AND 0xfff8)) b))"
  using assms by (auto simp: seg_at_def split: if_splits)

lemma tss_at_table:
  assumes "gdt_ok r b" and "unat (sel AND 0xfff8) + 16 \<le> length b"
  shows "tss_at r sel = Some (take 16 (drop (unat (sel AND 0xfff8)) b))"
  using assms by (auto simp: tss_at_def split: if_splits)

lemma tss_base_ctor: "tss_base (tss_descriptor_bytes (tss_descriptor_ctor addr)) = addr"
proof -
  let ?d = "tss_descriptor_bytes (tss_descriptor_ctor addr)"
  have m: "(0xffff :: u64) = mask 16" "(0xffffffff :: u64) = mask 32" by (simp_all add: mask_eq_exp_minus_1)
  have w: "(ucast (ucast (x AND 0xffff) :: u16) :: u64) = take_bit 16 x" "(ucast (ucast (x AND 0xffffffff) :: u32) :: u64) = take_bit 32 x" for x :: u64
    unfolding m by (rule bit_word_eqI, auto simp: bit_simps)+
  have "take 3 (drop 2 ?d) = le_bytes 2 (take_bit 16 addr) @ [ucast (drop_bit 16 addr AND 0xff)]"
    by (simp add: tss_descriptor_bytes_def tss_descriptor_ctor_def w)
  then have "get_field 3 2 ?d = take_bit 24 addr"
    using take_bit_join [of 16 addr 8] by (simp add: get_field_def le_word_append le_word_le_bytes byte_of)
  moreover have "get_field 1 7 ?d = take_bit 8 (drop_bit 24 addr)"
    by (simp add: get_field_def tss_descriptor_bytes_def tss_descriptor_ctor_def byte_of)
  moreover have "get_field 4 8 ?d = take_bit 32 (drop_bit 32 addr)"
    by (simp add: get_field_def tss_descriptor_bytes_def tss_descriptor_ctor_def w le_word_le_bytes)
  ultimately show ?thesis using take_bit_join [of 24 addr 8] take_bit_join [of 32 addr 32]
    by (simp add: tss_base_def take_bit_word_eq_self flip: or.assoc)
qed

section \<open>Properties\<close>

text \<open>
  After the start the selectors the kernel uses name the descriptors they are meant to: code and data
  of the kernel and of programs, each present and with the privilege level the selector asks for, and
  the table is loaded.
\<close>

theorem gdt_init_selectors:
  assumes "system_gdt s = gdtr_ctor"
  shows "\<exists>r. gdt_init g s c = Some (s\<lparr>system_gdt := r\<rparr>, c\<lparr>loaded_gdt := r\<rparr>)
    \<and> (\<exists>d. seg_at r kernel64_cs = Some d \<and> desc_present d \<and> desc_code64 d \<and> desc_dpl d = 0)
    \<and> (\<exists>d. seg_at r kernel64_ds = Some d \<and> desc_present d \<and> desc_data d \<and> desc_dpl d = 0)
    \<and> (\<exists>d. seg_at r user64_cs = Some d \<and> desc_present d \<and> desc_code64 d \<and> desc_dpl d = 3)
    \<and> (\<exists>d. seg_at r user64_ds = Some d \<and> desc_present d \<and> desc_data d \<and> desc_dpl d = 3)"
proof -
  obtain r where r: "gdt_init g s c = Some (s\<lparr>system_gdt := r\<rparr>, c\<lparr>loaded_gdt := r\<rparr>)" "gdt_ok r boot_table"
    using gdt_init_table [OF assms] by blast
  have l: "length boot_table = 40" by (simp add: boot_table_def)
  note at = seg_at_table [OF r(2), unfolded l]
  note defs = boot_table_def segment_bytes_def segment_descriptor_ctor_def desc_present_def desc_code64_def desc_data_def desc_dpl_def
  have z: "le_bytes 2 0 = [0, 0]" by (simp add: numeral_2_eq_2)
  have "\<exists>d. seg_at r kernel64_cs = Some d \<and> desc_present d \<and> desc_code64 d \<and> desc_dpl d = 0"
    using at [of kernel64_cs] by (simp add: kernel64_cs_def defs z)
  moreover have "\<exists>d. seg_at r kernel64_ds = Some d \<and> desc_present d \<and> desc_data d \<and> desc_dpl d = 0"
    using at [of kernel64_ds] by (simp add: kernel64_ds_def defs z)
  moreover have "\<exists>d. seg_at r user64_cs = Some d \<and> desc_present d \<and> desc_code64 d \<and> desc_dpl d = 3"
    using at [of user64_cs] by (simp add: user64_cs_def defs z)
  moreover have "\<exists>d. seg_at r user64_ds = Some d \<and> desc_present d \<and> desc_data d \<and> desc_dpl d = 3"
    using at [of user64_ds] by (simp add: user64_ds_def defs z)
  ultimately show ?thesis using r(1) by blast
qed

theorem gdt_init_selectors_witness:
  "let s = \<lparr>system_gdt = gdtr_ctor, seg_frames = one_chunk [0, 0] 0\<rparr>; c = \<lparr>loaded_gdt = gdtr_ctor, task_reg = 0\<rparr> in
   \<exists>r d. gdt_init (\<lambda>_. 0) s c = Some (s\<lparr>system_gdt := r\<rparr>, c\<lparr>loaded_gdt := r\<rparr>) \<and> seg_at r user64_cs = Some d \<and> desc_dpl d = 3"
  using gdt_init_selectors [of "\<lparr>system_gdt = gdtr_ctor, seg_frames = one_chunk [0, 0] 0\<rparr>" "\<lambda>_. 0" "\<lparr>loaded_gdt = gdtr_ctor, task_reg = 0\<rparr>"]
  by (auto simp: Let_def)

lemma selector_index:
  assumes "n < 65536" and "n mod 8 = 0"
  shows "unat (of_nat n AND 0xfff8 :: u16) = n"
proof -
  let ?w = "of_nat n :: u16"
  have m: "(0xfff8 :: u16) = NOT (mask 3)" by (simp add: mask_eq_exp_minus_1)
  have "unat (take_bit 3 ?w) = 0" using assms by (simp add: unsigned_take_bit_eq unat_of_nat take_bit_nat_def mod_mod_cancel)
  then have t: "take_bit 3 ?w = 0" by (simp add: unat_eq_0)
  have "\<not> bit ?w i" if "i < 3" for i using arg_cong [OF t, of "\<lambda>w. bit w i"] that by (simp add: bit_take_bit_iff)
  then have "?w AND 0xfff8 = ?w" unfolding m by (intro bit_word_eqI) (simp add: bit_simps, metis leI)
  then show ?thesis using assms(1) by (simp add: unat_of_nat take_bit_nat_def)
qed

text \<open>
  Setting up the task state segment of a processor appends its descriptor: the register that is loaded
  selects a present, available segment at the address of the object, and every descriptor that was in the
  table before is unchanged. It holds for any number of processors that fit the table.
\<close>

theorem tss_ctor_selects:
  assumes "gdt_ok (system_gdt s) b" and "length b mod 8 = 0" and "length b + 16 \<le> 65536"
    and "tss_stack hv (seg_frames s) = Some (r0, f0)" and "tss_stack hv f0 = Some (r1, f1)" and "tss_stack hv f1 = Some (r2, f2)"
  shows "\<exists>s' c' d. tss_ctor g hv this s c = Some (\<lparr>rsp0 = r0, rsp1 = r1, rsp2 = r2\<rparr>, s', c')
    \<and> tss_at (loaded_gdt c') (task_reg c') = Some d \<and> tss_base d = this \<and> d ! 5 = 0x89
    \<and> (\<forall>sel. unat (sel AND 0xfff8) + 8 \<le> length b \<longrightarrow> seg_at (loaded_gdt c') sel = seg_at (system_gdt s) sel)
    \<and> (\<exists>b'. gdt_ok (system_gdt s') b' \<and> length b' = length b + 16)"
proof -
  let ?raw = "tss_descriptor_bytes (tss_descriptor_ctor this)"
  have "?raw \<noteq> []" by (metis length_tss_descriptor_bytes list.size(3) zero_neq_numeral)
  then obtain r where r: "gdt_append g (system_gdt s) ?raw = Some (of_nat (length b), r)" "gdt_ok r (b @ ?raw)"
    using gdt_append_end [OF assms(1), of ?raw g] assms(3) by auto
  define s' where "s' = s\<lparr>system_gdt := r, seg_frames := f2\<rparr>"
  define c' where "c' = c\<lparr>loaded_gdt := r, task_reg := of_nat (length b)\<rparr>"
  have run: "tss_ctor g hv this s c = Some (\<lparr>rsp0 = r0, rsp1 = r1, rsp2 = r2\<rparr>, s', c')"
    using assms(4-6) r(1) by (simp add: tss_ctor_def s'_def c'_def)
  have "unat (of_nat (length b) AND 0xfff8 :: u16) = length b" using assms(2,3) by (intro selector_index) simp_all
  then have at: "tss_at r (of_nat (length b)) = Some ?raw" using tss_at_table [OF r(2), of "of_nat (length b)"] by simp
  have "?raw ! 5 = 0x89" by (simp add: tss_descriptor_bytes_def tss_descriptor_ctor_def nth_append)
  moreover have "seg_at r sel = seg_at (system_gdt s) sel" if "unat (sel AND 0xfff8) + 8 \<le> length b" for sel
    using seg_at_table [OF r(2), of sel] seg_at_table [OF assms(1) that] that by simp
  moreover have "gdt_ok (system_gdt s') (b @ ?raw) \<and> length (b @ ?raw) = length b + 16" using r(2) by (simp add: s'_def del: gdt_ok.simps)
  ultimately show ?thesis using run at tss_base_ctor [of this]
    by (intro exI [of _ s'] exI [of _ c'] exI [of _ ?raw]) (auto simp: c'_def simp del: gdt_ok.simps)
qed

theorem tss_ctor_selects_witness:
  "let s = \<lparr>system_gdt = \<lparr>gdt_limit = 39, gdt_block = Some boot_table\<rparr>, seg_frames = one_chunk [0, 0] 0\<rparr> in
   \<exists>s' c' d. tss_ctor (\<lambda>_. 0) 0 0xffff800000001234 s \<lparr>loaded_gdt = gdtr_ctor, task_reg = 0\<rparr> =
       Some (\<lparr>rsp0 = 0x102000, rsp1 = 0x104000, rsp2 = 0x106000\<rparr>, s', c')
     \<and> tss_at (loaded_gdt c') (task_reg c') = Some d \<and> tss_base d = 0xffff800000001234"
proof -
  have l: "length boot_table = 40" by (simp add: boot_table_def)
  have 0: "tss_stack 0 (one_chunk [0, 0] 0) = Some (0x102000, one_chunk [3, 0] 8192)" by code_simp
  have 1: "tss_stack 0 (one_chunk [3, 0] 8192) = Some (0x104000, one_chunk [15, 0] 16384)" by code_simp
  have 2: "tss_stack 0 (one_chunk [15, 0] 16384) = Some (0x106000, one_chunk [63, 0] 24576)" by code_simp
  let ?s = "\<lparr>system_gdt = \<lparr>gdt_limit = 39, gdt_block = Some boot_table\<rparr>, seg_frames = one_chunk [0, 0] 0\<rparr>"
  have g: "gdt_ok (system_gdt ?s) boot_table" using l by auto
  show ?thesis
    using tss_ctor_selects [OF g, of 0 "0x102000" "one_chunk [3, 0] 8192" "0x104000" "one_chunk [15, 0] 16384" "0x106000" "one_chunk [63, 0] 24576"
      "\<lambda>_. 0" "0xffff800000001234" "\<lparr>loaded_gdt = gdtr_ctor, task_reg = 0\<rparr>"] l 0 1 2
    by (auto simp: Let_def simp del: gdt_ok.simps)
qed

text \<open>
  C26. After the set-up of the interrupt table every one of the 256 vectors has a present interrupt gate
  into the code segment of the kernel, whose offset, put together by the processor, is the address of
  the entry point of exactly this vector; the limit covers the table.
\<close>

theorem idt_init_gates:
  assumes "length idt = 256"
  shows "\<exists>r. idt_init isr idt = Some r \<and> length (idt_table r) = 256 \<and> unat (idt_limit r) + 1 = 256 * 16
    \<and> (\<forall>i < 256. gate_offset (idt_table r ! i) = isr i \<and> gate_cs (idt_table r ! i) = kernel64_cs
         \<and> bit (gate_attributes (idt_table r ! i)) 7 \<and> gate_attributes (idt_table r ! i) AND 0xf = 14)"
proof -
  let ?ok = "\<lambda>i e. gate_offset e = isr i \<and> gate_cs e = kernel64_cs \<and> bit (gate_attributes e) 7 \<and> gate_attributes e AND 0xf = 14"
  have off: "ucast (ucast x :: u16) OR push_bit 16 (ucast (ucast (drop_bit 16 x) :: u16)) OR push_bit 32 (ucast (ucast (drop_bit 32 x) :: u32)) = x"
    for x :: u64
  proof (rule bit_word_eqI)
    fix n assume "n < LENGTH(64)"
    then show "bit (ucast (ucast x :: u16) OR push_bit 16 (ucast (ucast (drop_bit 16 x) :: u16)) OR push_bit 32 (ucast (ucast (drop_bit 32 x) :: u32)) :: u64) n = bit x n"
      by (cases "n < 32") (auto simp: bit_simps)
  qed
  have "\<exists>t. for_range (\<lambda>i idt. set_idt_entry idt 0x8 0 0x8e (isr i) (of_nat i)) 0 256 idt = Some t
    \<and> (length t = 256 \<and> (\<forall>i < 0 + 256. ?ok i (t ! i)))"
  proof (rule for_range_invariant)
    fix k t
    assume k: "k < 0 + 256" and t: "length t = 256 \<and> (\<forall>i < k. ?ok i (t ! i))"
    have u: "unat (of_nat k :: u8) = k" using k by (simp add: unat_of_nat take_bit_nat_def)
    show "\<exists>t'. set_idt_entry t 0x8 0 0x8e (isr k) (of_nat k) = Some t' \<and> length t' = 256 \<and> (\<forall>i < Suc k. ?ok i (t' ! i))"
      using k t by (simp add: set_idt_entry_def u less_Suc_eq gate_offset_def off kernel64_cs_def nth_list_update)
  qed (use assms in simp)
  then show ?thesis by (auto simp: idt_init_def)
qed

theorem idt_init_gates_witness:
  "\<exists>r. idt_init (\<lambda>i. 0xffffffff80200000 + of_nat i) (replicate 256 \<lparr>offset_low = 0, gate_cs = 0, gate_ist = 0, gate_attributes = 0,
      offset_mid = 0, offset_high = 0, gate_zero = 0\<rparr>) = Some r \<and> gate_offset (idt_table r ! 14) = 0xffffffff8020000e"
proof -
  let ?z = "\<lparr>offset_low = 0, gate_cs = 0, gate_ist = 0, gate_attributes = 0, offset_mid = 0, offset_high = 0, gate_zero = 0\<rparr> :: idt_entry"
  let ?isr = "\<lambda>i. 0xffffffff80200000 + of_nat i :: u64"
  obtain r where "idt_init ?isr (replicate 256 ?z) = Some r" "\<forall>i < 256. gate_offset (idt_table r ! i) = ?isr i"
    using idt_init_gates [of "replicate 256 ?z" ?isr] by auto
  moreover from this(2) have "gate_offset (idt_table r ! 14) = ?isr 14" by (rule allE [of _ 14]) simp
  ultimately show ?thesis by (intro exI [of _ r]) simp
qed

end
