(* ===== verification/Acpi.thy ===== *)
theory Acpi
  imports Devfs Vmm
begin

text \<open>
  \<^verbatim>\<open>kernel/acpi\<close> and \<^verbatim>\<open>kernel/drivers/hpet.cpp\<close>: the search for a table of the firmware, and waiting with the event
  timer. \<open>mem\<close> is memory by virtual address, \<open>None\<close> where nothing is mapped; reading there is a fault.
  \<open>hv\<close> is the base of the direct map. Messages are left out.
\<close>

section \<open>Definitions\<close>

definition mem_bytes :: "(u64 \<Rightarrow> u8 option) \<Rightarrow> u64 \<Rightarrow> nat \<Rightarrow> u8 list option" where
  "mem_bytes mem a n = (if \<forall>i < n. mem (a + of_nat i) \<noteq> None then Some (map (\<lambda>i. the (mem (a + of_nat i))) [0..<n]) else None)"

definition byte_char :: "u8 \<Rightarrow> char" where "byte_char b = char_of (unat b)"

record acpihdr =
  acpi_signature :: string
  acpi_length :: u32

definition sizeof_acpihdr :: nat where "sizeof_acpihdr = 36"

text \<open>The members of the header that are used.\<close>

definition acpihdr_at :: "(u64 \<Rightarrow> u8 option) \<Rightarrow> u64 \<Rightarrow> acpihdr option" where
  "acpihdr_at mem a = do {
     sig \<leftarrow> mem_bytes mem a 4;
     len \<leftarrow> mem_bytes mem (a + 4) 4;
     Some \<lparr>acpi_signature = map byte_char sig, acpi_length = ucast (le_word len)\<rparr>
   }"

text \<open>The loop over the pointers of \<open>w\<close> bytes behind the header at \<open>t\<close>, at index \<open>i\<close> with \<open>k\<close> rounds left.\<close>

fun sdt_loop :: "(u64 \<Rightarrow> u8 option) \<Rightarrow> u64 \<Rightarrow> nat \<Rightarrow> u64 \<Rightarrow> string \<Rightarrow> nat \<Rightarrow> nat \<Rightarrow> u64 option option" where
  "sdt_loop mem hv w t sig i 0 = Some None"
| "sdt_loop mem hv w t sig i (Suc k) = do {
     p \<leftarrow> mem_bytes mem (t + of_nat sizeof_acpihdr + of_nat (w * i)) w;
     let hdr = le_word p + hv;
     s \<leftarrow> mem_bytes mem hdr 4;
     c \<leftarrow> strncmp (map byte_char s) sig 4;
     if c = 0 then Some (Some hdr) else sdt_loop mem hv w t sig (Suc i) k
   }"

definition sdt_search :: "(u64 \<Rightarrow> u8 option) \<Rightarrow> u64 \<Rightarrow> nat \<Rightarrow> u64 \<Rightarrow> string \<Rightarrow> u64 option option" where
  "sdt_search mem hv w t sig = do {
     h \<leftarrow> acpihdr_at mem t;
     sdt_loop mem hv w t sig 0 (unat (ucast (acpi_length h) - of_nat sizeof_acpihdr :: size_t))
   }"

text \<open>The two tables with pointers; \<open>0\<close> is \<^verbatim>\<open>NULL\<close>, also as a result.\<close>

definition find_SDT :: "(u64 \<Rightarrow> u8 option) \<Rightarrow> u64 \<Rightarrow> u64 \<Rightarrow> u64 \<Rightarrow> string \<Rightarrow> u64 option" where
  "find_SDT mem hv xsdt rsdt sig = do {
     x \<leftarrow> (if xsdt \<noteq> 0 then sdt_search mem hv 8 xsdt sig else Some None);
     case x of Some a \<Rightarrow> Some a
     | None \<Rightarrow> do {
         r \<leftarrow> (if rsdt \<noteq> 0 then sdt_search mem hv 4 rsdt sig else Some None);
         Some (case r of Some a \<Rightarrow> a | None \<Rightarrow> 0)
       }
   }"

text \<open>The event timer: its registers by offset, which a read may change.\<close>

record 'h timer_regs =
  timer_rd :: "'h \<Rightarrow> u64 \<Rightarrow> u64 \<times> 'h"
  timer_wr :: "'h \<Rightarrow> u64 \<Rightarrow> u64 \<Rightarrow> 'h"

definition hpet_capabilities :: u64 where "hpet_capabilities = 0"
definition hpet_general_config :: u64 where "hpet_general_config = 0x10"
definition hpet_counter_value :: u64 where "hpet_counter_value = 0xf0"

partial_function (option) ksleep_poll :: "'h timer_regs \<Rightarrow> 'h \<Rightarrow> u64 \<Rightarrow> 'h option" where
  "ksleep_poll T h ticks = (case timer_rd T h hpet_counter_value of (v, h) \<Rightarrow> if v < ticks then ksleep_poll T h ticks else Some h)"

definition ksleep :: "'h timer_regs \<Rightarrow> 'h \<Rightarrow> u64 \<Rightarrow> 'h option" where
  "ksleep T h ms = do {
     let (now, h) = timer_rd T h hpet_counter_value;
     let (cap, h) = timer_rd T h hpet_capabilities;
     let period = drop_bit 32 cap AND 0xffffffff;
     if period = 0 then None
     else ksleep_poll T h (now + (ms * 1000000000000) div period)
   }"

text \<open>The member \<^verbatim>\<open>address\<close> is behind the header and eight bytes.\<close>

definition init_hpet :: "(u64 \<Rightarrow> u8 option) \<Rightarrow> u64 \<Rightarrow> u64 \<Rightarrow> u64 \<Rightarrow> (u64 \<Rightarrow> 'h timer_regs) \<Rightarrow> 'h \<Rightarrow> (u64 \<times> 'h) option" where
  "init_hpet mem hv xsdt rsdt T h = do {
     t \<leftarrow> find_SDT mem hv xsdt rsdt ''HPET'';
     if t = 0 then None
     else do {
       a \<leftarrow> mem_bytes mem (t + of_nat (sizeof_acpihdr + 8)) 8;
       let p = le_word a + hv;
       Some (p, timer_wr (T p) h hpet_general_config 1)
     }
   }"

section \<open>Tables\<close>

text \<open>
  A table of pointers in memory: its header, whose length counts the header and the pointers, and for
  each pointer the signature of the table it points to.
\<close>

definition sdt_at :: "(u64 \<Rightarrow> u8 option) \<Rightarrow> u64 \<Rightarrow> nat \<Rightarrow> u64 \<Rightarrow> (u64 \<times> string) list \<Rightarrow> bool" where
  "sdt_at mem hv w t es \<longleftrightarrow> 36 + w * length es < 2 ^ 32
     \<and> (\<exists>s. acpihdr_at mem t = Some \<lparr>acpi_signature = s, acpi_length = of_nat (36 + w * length es)\<rparr>)
     \<and> (\<forall>i < length es. (\<exists>p. mem_bytes mem (t + 36 + of_nat (w * i)) w = Some p \<and> le_word p + hv = fst (es ! i))
       \<and> (\<exists>b. mem_bytes mem (fst (es ! i)) 4 = Some b \<and> map byte_char b = snd (es ! i))
       \<and> NUL \<notin> set (snd (es ! i)))"

lemma mem_bytes_length: "mem_bytes mem a n = Some b \<Longrightarrow> length b = n"
  by (auto simp: mem_bytes_def split: if_splits)

lemma strncmp_same:
  assumes "length s = n" and "length q = n" and "NUL \<notin> set s"
  shows "\<exists>c. strncmp s q n = Some c \<and> (c = 0 \<longleftrightarrow> s = q)"
  using assms
proof (induction n arbitrary: s q)
  case (Suc n)
  then obtain a as b bs where s: "s = a # as" "q = b # bs" by (metis length_Suc_conv)
  then have "\<exists>c. strncmp as bs n = Some c \<and> (c = 0 \<longleftrightarrow> as = bs)" using Suc by (intro Suc.IH) auto
  then show ?case using s Suc.prems char_val_inj [of a b] by (auto simp: inj_eq)
qed simp

lemma sdt_loop_step:
  assumes "sdt_at mem hv w t es" and "length q = 4" and i: "i < length es"
  shows "sdt_loop mem hv w t q i (Suc k) = (if snd (es ! i) = q then Some (Some (fst (es ! i))) else sdt_loop mem hv w t q (Suc i) k)"
proof -
  obtain p b where p: "mem_bytes mem (t + 36 + of_nat (w * i)) w = Some p" "le_word p + hv = fst (es ! i)"
    "mem_bytes mem (fst (es ! i)) 4 = Some b" "map byte_char b = snd (es ! i)" "NUL \<notin> set (snd (es ! i))"
    using assms(1) i unfolding sdt_at_def by blast
  have "length (map byte_char b) = 4" using mem_bytes_length [OF p(3)] by simp
  then obtain c where c: "strncmp (map byte_char b) q 4 = Some c" "c = 0 \<longleftrightarrow> snd (es ! i) = q"
    using strncmp_same [of "map byte_char b" 4 q] assms(2) p(4,5) by auto
  then show ?thesis using p by (simp add: sizeof_acpihdr_def Let_def add.commute)
qed

lemma sdt_loop_finds:
  assumes "sdt_at mem hv w t es" and "length q = 4" and "j < length es" and "snd (es ! j) = q"
    and "\<forall>i < j. snd (es ! i) \<noteq> q" and "i \<le> j" and "j < i + k"
  shows "sdt_loop mem hv w t q i k = Some (Some (fst (es ! j)))"
  using assms(6,7)
proof (induction k arbitrary: i)
  case (Suc k)
  have i: "i < length es" using Suc.prems assms(3) by simp
  note step = sdt_loop_step [OF assms(1,2) i, of k]
  show ?case
  proof (cases "i = j")
    case True
    then show ?thesis using step assms(4) by simp
  next
    case False
    then have "sdt_loop mem hv w t q (Suc i) k = Some (Some (fst (es ! j)))" using Suc.prems by (intro Suc.IH) simp_all
    then show ?thesis using step assms(5) Suc.prems False by simp
  qed
qed simp

lemma sdt_loop_add: "sdt_loop mem hv w t q i (m + k) = do {
    r \<leftarrow> sdt_loop mem hv w t q i m;
    case r of Some a \<Rightarrow> Some (Some a) | None \<Rightarrow> sdt_loop mem hv w t q (i + m) k }"
  by (induction m arbitrary: i) (auto simp: Let_def bind_assoc intro!: Option.bind_cong)

lemma sdt_rounds:
  assumes "n + 36 < 2 ^ 32"
  shows "unat (ucast (of_nat (n + 36) :: u32) - of_nat sizeof_acpihdr :: size_t) = n"
proof -
  have "unat (of_nat (n + 36) :: u32) = n + 36" using assms unfolding unat_of_nat by (simp add: take_bit_nat_eq_self)
  then have u: "unat (ucast (of_nat (n + 36) :: u32) :: size_t) = n + 36"
    using assms unfolding unsigned_ucast_eq by (simp only:) (simp add: take_bit_nat_eq_self)
  then have "of_nat sizeof_acpihdr \<le> (ucast (of_nat (n + 36) :: u32) :: size_t)" by (simp add: word_le_nat_alt sizeof_acpihdr_def)
  then show ?thesis using u by (simp add: unat_sub sizeof_acpihdr_def)
qed

lemma sdt_search_rounds:
  assumes "sdt_at mem hv w t es"
  shows "sdt_search mem hv w t q = sdt_loop mem hv w t q 0 (w * length es)"
  using assms sdt_rounds [of "w * length es"] unfolding sdt_at_def sdt_search_def by (auto simp: add.commute)

lemma sdt_loop_misses:
  assumes "sdt_at mem hv w t es" and "length q = 4" and "\<forall>i < length es. snd (es ! i) \<noteq> q" and "i + k \<le> length es"
  shows "sdt_loop mem hv w t q i k = Some None"
  using assms(4)
proof (induction k arbitrary: i)
  case (Suc k)
  have i: "i < length es" using Suc.prems by simp
  then show ?case using sdt_loop_step [OF assms(1,2) i, of k] assms(3) Suc by simp
qed simp

section \<open>Waiting\<close>

text \<open>
  A counter that runs: a read of its register shows it and takes at least one and at most \<open>d\<close> of its
  ticks, any other read at most \<open>d\<close>.
\<close>

definition counting :: "'h timer_regs \<Rightarrow> ('h \<Rightarrow> nat) \<Rightarrow> u64 \<Rightarrow> nat \<Rightarrow> bool" where
  "counting T cnt cap d \<longleftrightarrow> (\<forall>h. fst (timer_rd T h hpet_counter_value) = of_nat (cnt h)
     \<and> cnt h < cnt (snd (timer_rd T h hpet_counter_value)) \<and> cnt (snd (timer_rd T h hpet_counter_value)) \<le> cnt h + d
     \<and> fst (timer_rd T h hpet_capabilities) = cap
     \<and> cnt h \<le> cnt (snd (timer_rd T h hpet_capabilities)) \<and> cnt (snd (timer_rd T h hpet_capabilities)) \<le> cnt h + d)"

lemma ksleep_poll_ends:
  assumes "counting T cnt cap d" and "unat ticks + d < 2 ^ 64" and "cnt h < 2 ^ 64"
  shows "\<exists>h'. ksleep_poll T h ticks = Some h' \<and> unat ticks \<le> cnt h'"
  using assms(3)
proof (induction h rule: measure_induct_rule [of "\<lambda>h. unat ticks - cnt h"])
  case (less h)
  obtain v h1 where r: "timer_rd T h hpet_counter_value = (v, h1)" by fastforce
  then have c: "v = of_nat (cnt h)" "cnt h < cnt h1" "cnt h1 \<le> cnt h + d"
    using assms(1) [unfolded counting_def, rule_format, of h] by simp_all
  have u: "unat v = cnt h" using c(1) less.prems by (simp add: unat_of_nat take_bit_nat_eq_self)
  show ?case
  proof (cases "v < ticks")
    case True
    then have "cnt h < unat ticks" using u by (simp add: word_less_nat_alt)
    then have "unat ticks - cnt h1 < unat ticks - cnt h" "cnt h1 < 2 ^ 64" using c(2,3) assms(2) by simp_all
    then show ?thesis using less.IH [of h1] True r by (subst ksleep_poll.simps) simp
  next
    case False
    then have "unat ticks \<le> cnt h1" using u c(2) by (simp add: word_less_nat_alt)
    then show ?thesis using False r by (subst ksleep_poll.simps) simp
  qed
qed

section \<open>Properties\<close>

text \<open>
  A table whose signature is in the list of the firmware is found: the search returns the address
  of the first one, through the direct map.
\<close>

theorem find_SDT_finds:
  assumes "sdt_at mem hv 8 xsdt es" and "xsdt \<noteq> 0" and "length q = 4"
    and "j < length es" and "snd (es ! j) = q" and "\<forall>i < j. snd (es ! i) \<noteq> q"
  shows "find_SDT mem hv xsdt rsdt q = Some (fst (es ! j))"
proof -
  have "sdt_search mem hv 8 xsdt q = Some (Some (fst (es ! j)))"
    unfolding sdt_search_rounds [OF assms(1)] using assms(3-6) by (intro sdt_loop_finds [OF assms(1)]) simp_all
  then show ?thesis using assms(2) by (simp add: find_SDT_def)
qed

text \<open>
  The number of rounds of the search is the length in bytes and not the number of pointers: when no
  table has the signature the search goes on behind the list, and faults when no memory is there,
  instead of answering \<^verbatim>\<open>NULL\<close>.
\<close>

theorem find_SDT_overruns:
  assumes "sdt_at mem hv 8 xsdt es" and "xsdt \<noteq> 0" and "length q = 4" and "es \<noteq> []"
    and "\<forall>i < length es. snd (es ! i) \<noteq> q" and "mem_bytes mem (xsdt + 36 + of_nat (8 * length es)) 8 = None"
  shows "find_SDT mem hv xsdt rsdt q = None"
proof -
  let ?n = "length es"
  obtain k where k: "8 * ?n = ?n + Suc k" using assms(4) by (cases es) auto
  have "sdt_loop mem hv 8 xsdt q 0 ?n = Some None" using assms(3,5) by (intro sdt_loop_misses [OF assms(1)]) simp_all
  moreover have "sdt_loop mem hv 8 xsdt q ?n (Suc k) = None" using assms(6) by (simp add: sizeof_acpihdr_def)
  ultimately have "sdt_loop mem hv 8 xsdt q 0 (8 * ?n) = None" unfolding k sdt_loop_add by (simp del: sdt_loop.simps)
  then show ?thesis using assms(2) by (simp add: find_SDT_def sdt_search_rounds [OF assms(1)])
qed

text \<open>
  C31. Sleeping ends, and not before the counter has run for the ticks that the milliseconds are at the
  period the timer reports in femtoseconds.
\<close>

theorem ksleep_waits:
  assumes "counting T cnt cap d" and "period = drop_bit 32 cap AND 0xffffffff" and "period \<noteq> 0"
    and "unat ms * 10 ^ 12 < 2 ^ 64" and "cnt h + unat ms * 10 ^ 12 div unat period + 2 * d < 2 ^ 64"
  shows "\<exists>h'. ksleep T h ms = Some h' \<and> cnt h + unat ms * 10 ^ 12 div unat period \<le> cnt h'"
proof -
  obtain v h1 where r: "timer_rd T h hpet_counter_value = (v, h1)" by fastforce
  obtain c h2 where r2: "timer_rd T h1 hpet_capabilities = (c, h2)" by fastforce
  have c: "v = of_nat (cnt h)" "cnt h1 \<le> cnt h + d" "c = cap" "cnt h2 \<le> cnt h1 + d"
    using assms(1) [unfolded counting_def, rule_format, of h] assms(1) [unfolded counting_def, rule_format, of h1] r r2 by simp_all
  let ?t = "of_nat (cnt h) + (ms * 1000000000000) div period"
  have "unat (ms * 1000000000000) = unat ms * 10 ^ 12" using assms(4) by (simp add: unat_mult_lt)
  then have m: "unat ((ms * 1000000000000) div period) = unat ms * 10 ^ 12 div unat period" by (simp add: unat_div)
  have "unat (of_nat (cnt h) :: u64) = cnt h" using assms(5) by (simp add: unat_of_nat take_bit_nat_eq_self)
  then have t: "unat ?t = cnt h + unat ms * 10 ^ 12 div unat period" using m assms(5) by (simp add: unat_add_lt)
  have "cnt h2 < 2 ^ 64" "unat ?t + d < 2 ^ 64" using c(2,4) assms(5) t by simp_all
  then obtain h' where "ksleep_poll T h2 ?t = Some h'" "unat ?t \<le> cnt h'" using ksleep_poll_ends [OF assms(1)] by blast
  then show ?thesis using r r2 c(1,3) assms(2,3) t by (simp add: ksleep_def)
qed

text \<open>A list of two tables at \<open>0x1000\<close> and nothing mapped behind it.\<close>

definition demo_list :: "u8 list" where
  "demo_list = [0x58, 0x53, 0x44, 0x54, 52, 0, 0, 0] @ replicate 28 0 @ le_bytes 8 0x2000 @ le_bytes 8 0x3000"

definition demo_mem :: "u64 \<Rightarrow> u8 option" where
  "demo_mem a =
     (if a - 0x1000 < 52 then Some (demo_list ! unat (a - 0x1000))
      else if a - 0x2000 < 4 then Some ([0x46, 0x41, 0x43, 0x50] ! unat (a - 0x2000))
      else if a - 0x3000 < 4 then Some ([0x41, 0x50, 0x49, 0x43] ! unat (a - 0x3000))
      else None)"

lemma demo_sdt: "sdt_at demo_mem 0 8 0x1000 [(0x2000, ''FACP''), (0x3000, ''APIC'')]"
proof -
  have h: "acpihdr_at demo_mem 0x1000 = Some \<lparr>acpi_signature = ''XSDT'', acpi_length = 52\<rparr>" by code_simp
  have p: "mem_bytes demo_mem 0x1024 8 = Some (le_bytes 8 0x2000)" "mem_bytes demo_mem 0x102c 8 = Some (le_bytes 8 0x3000)" by code_simp+
  have s: "mem_bytes demo_mem 0x2000 4 = Some [0x46, 0x41, 0x43, 0x50]" "mem_bytes demo_mem 0x3000 4 = Some [0x41, 0x50, 0x49, 0x43]" by code_simp+
  have c: "map byte_char [0x46, 0x41, 0x43, 0x50] = ''FACP''" "map byte_char [0x41, 0x50, 0x49, 0x43] = ''APIC''" by code_simp+
  have l: "le_word (le_bytes 8 0x2000) = 0x2000" "le_word (le_bytes 8 0x3000) = 0x3000" by code_simp+
  show ?thesis unfolding sdt_at_def using h p s c l by (simp add: less_Suc_eq)
qed

theorem find_SDT_finds_witness: "find_SDT demo_mem 0 0x1000 0 ''APIC'' = Some 0x3000"
  using find_SDT_finds [OF demo_sdt, of "''APIC''" 1 0] by simp

theorem find_SDT_overruns_witness: "find_SDT demo_mem 0 0x1000 0 ''HPET'' = None"
proof -
  have "mem_bytes demo_mem 0x1034 8 = None" by code_simp
  then show ?thesis using find_SDT_overruns [OF demo_sdt, of "''HPET''" 0] by (simp add: less_Suc_eq)
qed

definition demo_timer :: "nat timer_regs" where
  "demo_timer = \<lparr>timer_rd = \<lambda>h r. if r = hpet_counter_value then (of_nat h, h + 3) else (0x989680 * 0x100000000, h), timer_wr = \<lambda>h r v. h\<rparr>"

theorem ksleep_waits_witness: "\<exists>h'. ksleep demo_timer 500 2 = Some h' \<and> 500 + 200000 \<le> h'"
proof -
  let ?cap = "0x98968000000000 :: u64"
  have "counting demo_timer (\<lambda>h. h) ?cap 3"
    by (simp add: counting_def demo_timer_def hpet_counter_value_def hpet_capabilities_def)
  moreover have "0x989680 = drop_bit 32 ?cap AND 0xffffffff" by code_simp
  ultimately show ?thesis using ksleep_waits [of demo_timer "\<lambda>h. h" ?cap 3 "0x989680" 2 500] by simp
qed

end
