(* ===== verification/Apic.thy ===== *)
theory Apic
  imports Acpi Debug_Print
begin

text \<open>
  \<^verbatim>\<open>kernel/int/apic.cpp\<close>, \<^verbatim>\<open>apic.hpp\<close> and \<^verbatim>\<open>acpi/madt.hpp\<close>: the table of interrupt controllers, the redirection
  entries of the I/O controllers, and the local controller in its two forms. What accesses to
  device memory, model-specific registers and ports do to the state \<open>'h\<close> of the machine is a parameter.
  Messages are left out.
\<close>

section \<open>Definitions\<close>

record 'h machine =
  mem_rd :: "'h \<Rightarrow> u64 \<Rightarrow> u32 \<times> 'h"
  mem_wr :: "'h \<Rightarrow> u64 \<Rightarrow> u32 \<Rightarrow> 'h"
  msr_rd :: "'h \<Rightarrow> u32 \<Rightarrow> u64"
  msr_wr :: "'h \<Rightarrow> u32 \<Rightarrow> u64 \<Rightarrow> 'h"
  cpuid_rcx :: "size_t \<Rightarrow> size_t \<Rightarrow> u64"
  io_port :: "'h io_ports"
  set_cr8 :: "'h \<Rightarrow> u64 \<Rightarrow> 'h"

subsection \<open>The table of controllers\<close>

record madt0 =
  m0_acpi_id :: u8
  m0_apic_id :: u8
  m0_flags :: u32

record madt1 =
  m1_ioapic_id :: u8
  m1_reserved :: u8
  ioapic_addr :: u32
  gsi_base :: u32

record madt2 =
  m2_bus_src :: u8
  m2_irq_src :: u8
  m2_gsi :: u32
  m2_flags :: u16

record madt4 =
  m4_acpi_id :: u8
  m4_flags :: u16
  m4_lint :: u8

record madt5 =
  m5_reserved :: u16
  m5_lapic_override :: u8

definition struct_at :: "u8 list \<Rightarrow> size_t \<Rightarrow> nat \<Rightarrow> u8 list option" where
  "struct_at es i n = (if unat i + n \<le> length es then Some (take n (drop (unat i) es)) else None)"

definition madt0_of :: "u8 list \<Rightarrow> madt0" where
  "madt0_of b = \<lparr>m0_acpi_id = ucast (get_field 1 0 b), m0_apic_id = ucast (get_field 1 1 b), m0_flags = ucast (get_field 4 2 b)\<rparr>"

definition madt1_of :: "u8 list \<Rightarrow> madt1" where
  "madt1_of b = \<lparr>m1_ioapic_id = ucast (get_field 1 0 b), m1_reserved = ucast (get_field 1 1 b),
     ioapic_addr = ucast (get_field 4 2 b), gsi_base = ucast (get_field 4 6 b)\<rparr>"

definition madt2_of :: "u8 list \<Rightarrow> madt2" where
  "madt2_of b = \<lparr>m2_bus_src = ucast (get_field 1 0 b), m2_irq_src = ucast (get_field 1 1 b),
     m2_gsi = ucast (get_field 4 2 b), m2_flags = ucast (get_field 2 6 b)\<rparr>"

definition madt4_of :: "u8 list \<Rightarrow> madt4" where
  "madt4_of b = \<lparr>m4_acpi_id = ucast (get_field 1 0 b), m4_flags = ucast (get_field 2 1 b), m4_lint = ucast (get_field 1 3 b)\<rparr>"

definition madt5_of :: "u8 list \<Rightarrow> madt5" where
  "madt5_of b = \<lparr>m5_reserved = ucast (get_field 2 0 b), m5_lapic_override = ucast (get_field 1 2 b)\<rparr>"

record madt_lists =
  madt0_list :: "madt0 vector"
  madt1_list :: "madt1 vector"
  madt2_list :: "madt2 vector"
  madt4_list :: "madt4 vector"
  madt5_list :: "madt5 vector"
  ioapic_list :: "madt1 vector"

definition madt_type :: "nat \<Rightarrow> tinfo" where
  "madt_type n = \<lparr>sizeof = n, trivial_dtor = True\<rparr>"

definition madt_entry :: "u8 \<Rightarrow> u8 list \<Rightarrow> size_t \<Rightarrow> madt_lists \<Rightarrow> madt_lists option" where
  "madt_entry entry_type es i s =
     (if entry_type = 0 then do {
        b \<leftarrow> struct_at es i 6;
        l \<leftarrow> vector_push (madt_type 6) (madt0_list s) (madt0_of b);
        Some (s\<lparr>madt0_list := l\<rparr>)
      } else if entry_type = 1 then do {
        b \<leftarrow> struct_at es i 10;
        l \<leftarrow> vector_push (madt_type 10) (madt1_list s) (madt1_of b);
        k \<leftarrow> vector_push (madt_type 10) (ioapic_list s) (madt1_of b);
        Some (s\<lparr>madt1_list := l, ioapic_list := k\<rparr>)
      } else if entry_type = 2 then do {
        b \<leftarrow> struct_at es i 8;
        l \<leftarrow> vector_push (madt_type 8) (madt2_list s) (madt2_of b);
        Some (s\<lparr>madt2_list := l\<rparr>)
      } else if entry_type = 4 then do {
        b \<leftarrow> struct_at es i 4;
        l \<leftarrow> vector_push (madt_type 4) (madt4_list s) (madt4_of b);
        Some (s\<lparr>madt4_list := l\<rparr>)
      } else if entry_type = 5 then do {
        b \<leftarrow> struct_at es i 3;
        l \<leftarrow> vector_push (madt_type 3) (madt5_list s) (madt5_of b);
        Some (s\<lparr>madt5_list := l\<rparr>)
      } else Some s)"

text \<open>The loop over the entries; \<open>es\<close> is the memory from the first of them on.\<close>

partial_function (option) madt_loop :: "size_t \<Rightarrow> u8 list \<Rightarrow> size_t \<Rightarrow> madt_lists \<Rightarrow> madt_lists option" where
  "madt_loop len es i s =
     (if \<not> i < len then Some s
      else do {
        entry_type \<leftarrow> read_at es (unat i);
        entry_size \<leftarrow> read_at es (unat (i + 1));
        let i = i + 2;
        s \<leftarrow> madt_entry entry_type es i s;
        madt_loop len es (i + (ucast entry_size - 3) + 1) s
      })"

subsection \<open>The I/O controllers\<close>

definition ioapic_read :: "'h machine \<Rightarrow> u64 \<Rightarrow> madt1 \<Rightarrow> 'h \<Rightarrow> u32 \<Rightarrow> u32 \<times> 'h" where
  "ioapic_read M hv m h reg = mem_rd M (mem_wr M h (ucast (ioapic_addr m) + hv) reg) (ucast (ioapic_addr m + 16) + hv)"

definition ioapic_write :: "'h machine \<Rightarrow> u64 \<Rightarrow> madt1 \<Rightarrow> 'h \<Rightarrow> u32 \<Rightarrow> u32 \<Rightarrow> 'h" where
  "ioapic_write M hv m h reg data = mem_wr M (mem_wr M h (ucast (ioapic_addr m) + hv) reg) (ucast (ioapic_addr m + 16) + hv) data"

definition read_redirection :: "'h machine \<Rightarrow> u64 \<Rightarrow> madt1 \<Rightarrow> 'h \<Rightarrow> u32 \<Rightarrow> size_t \<times> 'h" where
  "read_redirection M hv m h gsi =
     (let reg = (gsi - gsi_base m) * 2 + 16;
          (lo, h) = ioapic_read M hv m h reg;
          (hi, h) = ioapic_read M hv m h (reg + 1)
      in (ucast lo OR push_bit 32 (ucast hi), h))"

definition write_redirection :: "'h machine \<Rightarrow> u64 \<Rightarrow> madt1 \<Rightarrow> 'h \<Rightarrow> u32 \<Rightarrow> size_t \<Rightarrow> 'h" where
  "write_redirection M hv m h gsi data =
     (let reg = (gsi - gsi_base m) * 2 + 16;
          h = ioapic_write M hv m h reg (ucast data)
      in ioapic_write M hv m h (reg + 1) (ucast (drop_bit 32 data)))"

definition mask_gsi :: "'h machine \<Rightarrow> u64 \<Rightarrow> madt1 \<Rightarrow> 'h \<Rightarrow> u32 \<Rightarrow> 'h" where
  "mask_gsi M hv m h gsi = (let (v, h) = read_redirection M hv m h gsi in write_redirection M hv m h gsi (v OR push_bit 16 1))"

definition unmask_gsi :: "'h machine \<Rightarrow> u64 \<Rightarrow> madt1 \<Rightarrow> 'h \<Rightarrow> u32 \<Rightarrow> 'h" where
  "unmask_gsi M hv m h gsi = (let (v, h) = read_redirection M hv m h gsi in write_redirection M hv m h gsi (v AND push_bit 16 1))"

definition max_gsi :: "'h machine \<Rightarrow> u64 \<Rightarrow> madt1 \<Rightarrow> 'h \<Rightarrow> u32 \<times> 'h" where
  "max_gsi M hv m h = (let (v, h) = ioapic_read M hv m h 1 in (drop_bit 16 v AND NOT (push_bit 7 1), h))"

partial_function (option) mask_all_from :: "'h machine \<Rightarrow> u64 \<Rightarrow> madt1 \<Rightarrow> u32 \<Rightarrow> 'h \<Rightarrow> 'h option" where
  "mask_all_from M hv m i h = (case max_gsi M hv m h of (x, h) \<Rightarrow>
     if i < x then mask_all_from M hv m (i + 1) (mask_gsi M hv m h i) else Some h)"

definition mask_all_gsi :: "'h machine \<Rightarrow> u64 \<Rightarrow> madt1 \<Rightarrow> 'h \<Rightarrow> 'h option" where
  "mask_all_gsi M hv m h = mask_all_from M hv m (gsi_base m) h"

definition redirect_entry :: "u8 \<Rightarrow> u16 \<Rightarrow> size_t" where
  "redirect_entry vec flags =
     (let redirect = ucast vec;
          redirect = (if flags AND push_bit 1 1 \<noteq> 0 then redirect OR push_bit 13 1 else redirect)
      in if flags AND push_bit 3 1 \<noteq> 0 then redirect OR push_bit 15 1 else redirect)"

definition redirect_gsi :: "'h machine \<Rightarrow> u64 \<Rightarrow> madt1 \<Rightarrow> 'h \<Rightarrow> u8 \<Rightarrow> u32 \<Rightarrow> u16 \<Rightarrow> 'h" where
  "redirect_gsi M hv m h vec gsi flags = write_redirection M hv m h gsi (redirect_entry vec flags)"

text \<open>The controller of an interrupt; the value-initialised object when there is none.\<close>

definition no_ioapic :: madt1 where
  "no_ioapic = \<lparr>m1_ioapic_id = 0, m1_reserved = 0, ioapic_addr = 0, gsi_base = 0\<rparr>"

fun ioapic_validate_from :: "'h machine \<Rightarrow> u64 \<Rightarrow> madt1 vector \<Rightarrow> u32 \<Rightarrow> nat \<Rightarrow> nat \<Rightarrow> 'h \<Rightarrow> (madt1 \<times> 'h) option" where
  "ioapic_validate_from M hv l gsi i 0 h = Some (no_ioapic, h)"
| "ioapic_validate_from M hv l gsi i (Suc k) h = do {
     m \<leftarrow> vector_at l (of_nat i);
     if gsi_base m \<le> gsi then (case max_gsi M hv m h of (x, h) \<Rightarrow>
       if gsi \<le> x then Some (m, h) else ioapic_validate_from M hv l gsi (Suc i) k h)
     else ioapic_validate_from M hv l gsi (Suc i) k h
   }"

definition ioapic_validate :: "'h machine \<Rightarrow> u64 \<Rightarrow> madt1 vector \<Rightarrow> 'h \<Rightarrow> u32 \<Rightarrow> (madt1 \<times> 'h) option" where
  "ioapic_validate M hv l h gsi = ioapic_validate_from M hv l gsi 0 (unat (buf_size l)) h"

subsection \<open>The local controller\<close>

datatype lapic_reg =
    Id_reg | Version_reg | Tpr | Ppr | Eoi | Ldr | Sint | Isr0 | Isr1
  | Isr2 | Isr3 | Isr4 | Isr5 | Isr6 | Isr7 | Tmr0 | Tmr1 | Tmr2
  | Tmr3 | Tmr4 | Tmr5 | Tmr6 | Tmr7 | Irr0 | Irr1 | Irr2 | Irr3
  | Irr4 | Irr5 | Irr6 | Irr7 | Esr | Icr | Timer_lvt | Thermal_lvt | Performance_lvt
  | Lint0 | Lint1 | Evt | Timer_inital_count | Timer_current_count | Timer_divide_conf

fun x2apic_reg :: "lapic_reg \<Rightarrow> size_t" where
  "x2apic_reg Id_reg = 0x802"
| "x2apic_reg Version_reg = 0x803"
| "x2apic_reg Tpr = 0x808"
| "x2apic_reg Ppr = 0x80a"
| "x2apic_reg Eoi = 0x80b"
| "x2apic_reg Ldr = 0x80d"
| "x2apic_reg Sint = 0x80f"
| "x2apic_reg Isr0 = 0x810"
| "x2apic_reg Isr1 = 0x811"
| "x2apic_reg Isr2 = 0x812"
| "x2apic_reg Isr3 = 0x813"
| "x2apic_reg Isr4 = 0x814"
| "x2apic_reg Isr5 = 0x815"
| "x2apic_reg Isr6 = 0x816"
| "x2apic_reg Isr7 = 0x817"
| "x2apic_reg Tmr0 = 0x818"
| "x2apic_reg Tmr1 = 0x819"
| "x2apic_reg Tmr2 = 0x81a"
| "x2apic_reg Tmr3 = 0x81b"
| "x2apic_reg Tmr4 = 0x81c"
| "x2apic_reg Tmr5 = 0x81d"
| "x2apic_reg Tmr6 = 0x81e"
| "x2apic_reg Tmr7 = 0x81f"
| "x2apic_reg Irr0 = 0x820"
| "x2apic_reg Irr1 = 0x821"
| "x2apic_reg Irr2 = 0x822"
| "x2apic_reg Irr3 = 0x823"
| "x2apic_reg Irr4 = 0x824"
| "x2apic_reg Irr5 = 0x825"
| "x2apic_reg Irr6 = 0x826"
| "x2apic_reg Irr7 = 0x827"
| "x2apic_reg Esr = 0x828"
| "x2apic_reg Icr = 0x830"
| "x2apic_reg Timer_lvt = 0x832"
| "x2apic_reg Thermal_lvt = 0x833"
| "x2apic_reg Performance_lvt = 0x834"
| "x2apic_reg Lint0 = 0x835"
| "x2apic_reg Lint1 = 0x836"
| "x2apic_reg Evt = 0x836"
| "x2apic_reg Timer_inital_count = 0x838"
| "x2apic_reg Timer_current_count = 0x839"
| "x2apic_reg Timer_divide_conf = 0x83e"

fun xapic_reg :: "lapic_reg \<Rightarrow> size_t" where
  "xapic_reg Id_reg = 0x20"
| "xapic_reg Version_reg = 0x30"
| "xapic_reg Tpr = 0x80"
| "xapic_reg Ppr = 0xa0"
| "xapic_reg Eoi = 0xb0"
| "xapic_reg Ldr = 0xd0"
| "xapic_reg Sint = 0xf0"
| "xapic_reg Isr0 = 0x100"
| "xapic_reg Isr1 = 0x110"
| "xapic_reg Isr2 = 0x120"
| "xapic_reg Isr3 = 0x130"
| "xapic_reg Isr4 = 0x140"
| "xapic_reg Isr5 = 0x150"
| "xapic_reg Isr6 = 0x160"
| "xapic_reg Isr7 = 0x170"
| "xapic_reg Tmr0 = 0x180"
| "xapic_reg Tmr1 = 0x190"
| "xapic_reg Tmr2 = 0x1a0"
| "xapic_reg Tmr3 = 0x1b0"
| "xapic_reg Tmr4 = 0x1c0"
| "xapic_reg Tmr5 = 0x1d0"
| "xapic_reg Tmr6 = 0x1e0"
| "xapic_reg Tmr7 = 0x1f0"
| "xapic_reg Irr0 = 0x200"
| "xapic_reg Irr1 = 0x210"
| "xapic_reg Irr2 = 0x220"
| "xapic_reg Irr3 = 0x230"
| "xapic_reg Irr4 = 0x240"
| "xapic_reg Irr5 = 0x250"
| "xapic_reg Irr6 = 0x260"
| "xapic_reg Irr7 = 0x270"
| "xapic_reg Esr = 0x280"
| "xapic_reg Icr = 0x300"
| "xapic_reg Timer_lvt = 0x320"
| "xapic_reg Thermal_lvt = 0x330"
| "xapic_reg Performance_lvt = 0x340"
| "xapic_reg Lint0 = 0x350"
| "xapic_reg Lint1 = 0x360"
| "xapic_reg Evt = 0x360"
| "xapic_reg Timer_inital_count = 0x380"
| "xapic_reg Timer_current_count = 0x390"
| "xapic_reg Timer_divide_conf = 0x3e0"

datatype lapic = Xapic | X2apic

definition msr_lapic_base :: u32 where "msr_lapic_base = 0x1b"

definition lapic_reg_of :: "lapic \<Rightarrow> lapic_reg \<Rightarrow> size_t" where
  "lapic_reg_of k r = (case k of Xapic \<Rightarrow> xapic_reg r | X2apic \<Rightarrow> x2apic_reg r)"

definition xapic_addr :: "'h machine \<Rightarrow> u64 \<Rightarrow> 'h \<Rightarrow> size_t \<Rightarrow> u64" where
  "xapic_addr M hv h reg = (msr_rd M h msr_lapic_base AND 0xfffff000) + hv + reg"

fun lapic_read :: "'h machine \<Rightarrow> u64 \<Rightarrow> lapic \<Rightarrow> 'h \<Rightarrow> size_t \<Rightarrow> size_t \<times> 'h" where
  "lapic_read M hv X2apic h reg = (msr_rd M h (ucast reg), h)"
| "lapic_read M hv Xapic h reg = (case mem_rd M h (xapic_addr M hv h reg) of (ret, h) \<Rightarrow>
     (if reg = xapic_reg Id_reg then drop_bit 24 (ucast ret) else ucast ret, h))"

fun lapic_write :: "'h machine \<Rightarrow> u64 \<Rightarrow> lapic \<Rightarrow> 'h \<Rightarrow> size_t \<Rightarrow> size_t \<Rightarrow> 'h" where
  "lapic_write M hv X2apic h reg data = msr_wr M h (ucast reg) data"
| "lapic_write M hv Xapic h reg data = mem_wr M h (xapic_addr M hv h reg) (ucast data)"

fun send_ipi :: "'h machine \<Rightarrow> u64 \<Rightarrow> lapic \<Rightarrow> 'h \<Rightarrow> size_t \<Rightarrow> size_t \<Rightarrow> 'h" where
  "send_ipi M hv X2apic h ap ipi = lapic_write M hv X2apic h (x2apic_reg Icr) (push_bit 32 (push_bit 24 ap) OR ipi)"
| "send_ipi M hv Xapic h ap ipi =
     (let h = lapic_write M hv Xapic h (xapic_reg Icr + 0x10) (push_bit 24 ap)
      in lapic_write M hv Xapic h (xapic_reg Icr) ipi)"

text \<open>\<open>sleep\<close> is the wait of the event timer.\<close>

definition timer_calibrate :: "'h machine \<Rightarrow> u64 \<Rightarrow> lapic \<Rightarrow> ('h \<Rightarrow> u64 \<Rightarrow> 'h option) \<Rightarrow> 'h \<Rightarrow> u64 \<Rightarrow> 'h option" where
  "timer_calibrate M hv k sleep h ms = do {
     let h = lapic_write M hv k h (lapic_reg_of k Timer_divide_conf) 0x3;
     let h = lapic_write M hv k h (lapic_reg_of k Timer_inital_count) (NOT 0);
     h \<leftarrow> sleep h ms;
     let (c, h) = lapic_read M hv k h (lapic_reg_of k Timer_current_count);
     let ticks = (ucast (NOT 0 - c) :: u32);
     let h = lapic_write M hv k h (lapic_reg_of k Timer_lvt) (32 OR 0x20000);
     let h = lapic_write M hv k h (lapic_reg_of k Timer_divide_conf) 0x3;
     Some (lapic_write M hv k h (lapic_reg_of k Timer_inital_count) (ucast ticks))
   }"

definition x2apic_ctor :: "'h machine \<Rightarrow> 'h \<Rightarrow> 'h" where
  "x2apic_ctor M h = (if cpuid_rcx M 1 0 AND push_bit 21 1 = 0 then h
     else msr_wr M h msr_lapic_base (msr_rd M h msr_lapic_base OR push_bit 10 0b11))"

subsection \<open>Starting the controllers\<close>

definition pic_init :: "'h machine \<Rightarrow> 'h \<Rightarrow> 'h" where
  "pic_init M h = foldl (\<lambda>h (p, v). outb (io_port M) h p v) h
     [(0x20, 0x11), (0xa0, 0x11), (0x21, 0x20), (0xa1, 0x28), (0x21, 0x4), (0xa1, 0x2),
      (0x21, 0x1), (0xa1, 0x1), (0x21, 0x0), (0xa1, 0x0), (0xa1, 0xff), (0x21, 0xff)]"

definition mask_controllers :: "'h machine \<Rightarrow> u64 \<Rightarrow> madt1 vector \<Rightarrow> 'h \<Rightarrow> 'h option" where
  "mask_controllers M hv l h = for_range (\<lambda>i h. do { m \<leftarrow> vector_at l (of_nat i); mask_all_gsi M hv m h }) 0 (unat (buf_size l)) h"

definition redirect_override :: "'h machine \<Rightarrow> u64 \<Rightarrow> madt_lists \<Rightarrow> nat \<Rightarrow> u8 list \<times> 'h \<Rightarrow> (u8 list \<times> 'h) option" where
  "redirect_override M hv s i = (\<lambda>(irqs, h). do {
     iso \<leftarrow> vector_at (madt2_list s) (of_nat i);
     (m, h) \<leftarrow> ioapic_validate M hv (ioapic_list s) h (m2_gsi iso);
     let h = redirect_gsi M hv m h (m2_irq_src iso + 32) (m2_gsi iso) (m2_flags iso);
     irqs \<leftarrow> (if m2_gsi iso < 16 then write_at irqs (unat (m2_gsi iso)) 1 else Some irqs);
     Some (irqs, h)
   })"

definition redirect_rest :: "'h machine \<Rightarrow> u64 \<Rightarrow> madt_lists \<Rightarrow> u8 list \<Rightarrow> nat \<Rightarrow> 'h \<Rightarrow> 'h option" where
  "redirect_rest M hv s irqs i h = do {
     x \<leftarrow> read_at irqs i;
     if x = 0 then do {
       (m, h) \<leftarrow> ioapic_validate M hv (ioapic_list s) h (of_nat i);
       Some (redirect_gsi M hv m h (of_nat i + 32) (of_nat i) 0)
     } else Some h
   }"

text \<open>\<open>len\<close> is the length member of the table and \<open>es\<close> the memory of its entries.\<close>

definition apic_init :: "'h machine \<Rightarrow> u64 \<Rightarrow> u32 \<Rightarrow> u8 list \<Rightarrow> madt_lists \<Rightarrow> 'h \<Rightarrow> (lapic \<times> madt_lists \<times> 'h) option" where
  "apic_init M hv len es s h = do {
     s \<leftarrow> madt_loop (ucast len - of_nat (sizeof_acpihdr + 4 + 4)) es 0 s;
     let k = (if cpuid_rcx M 1 0 AND push_bit 21 1 \<noteq> 0 then X2apic else Xapic);
     let h = (if k = X2apic then x2apic_ctor M h else h);
     let h = pic_init M h;
     h \<leftarrow> mask_controllers M hv (ioapic_list s) h;
     (irqs, h) \<leftarrow> for_range (redirect_override M hv s) 0 (unat (buf_size (madt2_list s))) (replicate 16 0, h);
     h \<leftarrow> for_range (redirect_rest M hv s irqs) 0 16 h;
     (m, h) \<leftarrow> ioapic_validate M hv (ioapic_list s) h 2;
     let h = mask_gsi M hv m h 2;
     let (v, h) = lapic_read M hv k h (lapic_reg_of k Sint);
     let h = lapic_write M hv k h (lapic_reg_of k Sint) (v OR 0x1ff);
     Some (k, s, set_cr8 M h 0)
   }"

section \<open>Redirection entries\<close>

text \<open>
  The I/O controller at \<open>m\<close>: the first register selects, the second reads and writes the selected
  register. In the lower half of a redirection entry the delivery status and the remote request
  bit (12 and 14) cannot be written.
\<close>

definition io_fixed :: "u32 \<Rightarrow> u32" where
  "io_fixed r = (if even (unat r) then 0x5000 else 0)"

definition io_apic :: "'h machine \<Rightarrow> u64 \<Rightarrow> madt1 \<Rightarrow> ('h \<Rightarrow> u32) \<Rightarrow> ('h \<Rightarrow> u32 \<Rightarrow> u32) \<Rightarrow> bool" where
  "io_apic M hv m sel reg \<longleftrightarrow> (\<forall>h v.
     let a = ucast (ioapic_addr m) + hv; d = ucast (ioapic_addr m + 16) + hv in
     sel (mem_wr M h a v) = v \<and> reg (mem_wr M h a v) = reg h
     \<and> fst (mem_rd M h d) = reg h (sel h) \<and> sel (snd (mem_rd M h d)) = sel h \<and> reg (snd (mem_rd M h d)) = reg h
     \<and> (16 \<le> sel h \<longrightarrow> reg (mem_wr M h d v) = (reg h)(sel h := (v AND NOT (io_fixed (sel h))) OR (reg h (sel h) AND io_fixed (sel h)))))"

lemma io_apicD:
  assumes "io_apic M hv m sel reg"
  shows "fst (ioapic_read M hv m h r) = reg h r" and "reg (snd (ioapic_read M hv m h r)) = reg h"
    and "16 \<le> r \<Longrightarrow> reg (ioapic_write M hv m h r v) = (reg h)(r := (v AND NOT (io_fixed r)) OR (reg h r AND io_fixed r))"
  using assms unfolding io_apic_def Let_def ioapic_read_def ioapic_write_def by metis+

definition low_reg :: "madt1 \<Rightarrow> u32 \<Rightarrow> u32" where
  "low_reg m gsi = (gsi - gsi_base m) * 2 + 16"

text \<open>The entry of an interrupt, in both halves.\<close>

definition redirection :: "('h \<Rightarrow> u32 \<Rightarrow> u32) \<Rightarrow> madt1 \<Rightarrow> 'h \<Rightarrow> u32 \<Rightarrow> u64" where
  "redirection reg m h gsi = ucast (reg h (low_reg m gsi)) OR push_bit 32 (ucast (reg h (low_reg m gsi + 1)))"

text \<open>An interrupt of this controller, which has less than 120 of them.\<close>

definition own_gsi :: "madt1 \<Rightarrow> u32 \<Rightarrow> bool" where
  "own_gsi m gsi \<longleftrightarrow> gsi_base m \<le> gsi \<and> gsi - gsi_base m < 120"

lemma low_reg_unat:
  assumes "own_gsi m gsi"
  shows "unat (low_reg m gsi) = 2 * unat (gsi - gsi_base m) + 16"
proof -
  have "unat (gsi - gsi_base m) < 120" using assms by (simp add: own_gsi_def word_less_nat_alt)
  moreover have "unat (d * 2 + 16) = 2 * unat d + 16" if "unat d < 120" for d :: u32 using that by (simp add: unat_word_ariths)
  ultimately show ?thesis unfolding low_reg_def by blast
qed

lemma low_reg_facts:
  assumes "own_gsi m gsi"
  shows "16 \<le> low_reg m gsi" and "16 \<le> low_reg m gsi + 1" and "io_fixed (low_reg m gsi) = 0x5000" and "io_fixed (low_reg m gsi + 1) = 0"
    and "low_reg m gsi + 1 \<noteq> low_reg m gsi"
proof -
  have l: "unat (gsi - gsi_base m) < 120" using assms by (simp add: own_gsi_def word_less_nat_alt)
  note u = low_reg_unat [OF assms]
  have u1: "unat (low_reg m gsi + 1) = 2 * unat (gsi - gsi_base m) + 17" using u l by (simp add: unat_word_ariths)
  show "16 \<le> low_reg m gsi" "16 \<le> low_reg m gsi + 1" using u u1 by (simp_all add: word_le_nat_alt)
  show "io_fixed (low_reg m gsi) = 0x5000" using u by (simp add: io_fixed_def)
  show "io_fixed (low_reg m gsi + 1) = 0" using u1 by (simp add: io_fixed_def)
  show "low_reg m gsi + 1 \<noteq> low_reg m gsi" by simp
qed

lemma low_reg_apart:
  assumes "own_gsi m gsi" and "own_gsi m k" and "k \<noteq> gsi"
  shows "low_reg m k \<noteq> low_reg m gsi" and "low_reg m k + 1 \<noteq> low_reg m gsi" and "low_reg m k \<noteq> low_reg m gsi + 1"
proof -
  have l: "unat (gsi - gsi_base m) < 120" "unat (k - gsi_base m) < 120" using assms by (simp_all add: own_gsi_def word_less_nat_alt)
  have n: "unat (k - gsi_base m) \<noteq> unat (gsi - gsi_base m)" 
  proof
    assume "unat (k - gsi_base m) = unat (gsi - gsi_base m)"
    then have "k - gsi_base m = gsi - gsi_base m" by (rule word_eq_unatI)
    then show False using assms(3) by simp
  qed
  note u = low_reg_unat [OF assms(1)] low_reg_unat [OF assms(2)]
  have u1: "unat (low_reg m gsi + 1) = 2 * unat (gsi - gsi_base m) + 17" "unat (low_reg m k + 1) = 2 * unat (k - gsi_base m) + 17"
    using u l by (simp_all add: unat_word_ariths)
  have odd: "2 * a + 17 \<noteq> 2 * b + (16 :: nat)" for a b by presburger
  show "low_reg m k \<noteq> low_reg m gsi" using u n by (intro notI) simp
  show "low_reg m k + 1 \<noteq> low_reg m gsi" using u(1) u1(2) odd by metis
  show "low_reg m k \<noteq> low_reg m gsi + 1" using u(2) u1(1) odd by metis
qed

lemma read_redirection_eq:
  assumes "io_apic M hv m sel reg"
  shows "fst (read_redirection M hv m h gsi) = redirection reg m h gsi" and "reg (snd (read_redirection M hv m h gsi)) = reg h"
  using io_apicD [OF assms] by (simp_all add: read_redirection_def redirection_def low_reg_def Let_def case_prod_unfold)

text \<open>Writing an entry sets its writable bits and leaves every other entry alone.\<close>

definition ro_bits :: u64 where "ro_bits = 0x5000"

lemma join_halves:
  "ucast ((ucast v AND NOT c) OR (x AND c) :: u32) OR push_bit 32 (ucast (ucast (drop_bit 32 v) :: u32))
    = (v AND NOT (ucast c)) OR ((ucast x OR push_bit 32 (ucast (y :: u32))) AND ucast (c :: u32))" for v :: u64
proof (rule bit_word_eqI)
  fix n assume "n < LENGTH(64)"
  then show "bit (ucast ((ucast v AND NOT c) OR (x AND c) :: u32) OR push_bit 32 (ucast (ucast (drop_bit 32 v) :: u32)) :: u64) n
    = bit ((v AND NOT (ucast c)) OR ((ucast x OR push_bit 32 (ucast y)) AND ucast c)) n"
    by (cases "n < 32") (auto simp: bit_simps dest: bit_imp_le_length)
qed

lemma write_redirection_eq:
  assumes "io_apic M hv m sel reg" and "own_gsi m gsi"
  shows "redirection reg m (write_redirection M hv m h gsi v) gsi = (v AND NOT ro_bits) OR (redirection reg m h gsi AND ro_bits)"
    and "own_gsi m k \<Longrightarrow> k \<noteq> gsi \<Longrightarrow> redirection reg m (write_redirection M hv m h gsi v) k = redirection reg m h k"
    and "r < 16 \<Longrightarrow> reg (write_redirection M hv m h gsi v) r = reg h r"
proof -
  let ?r = "low_reg m gsi"
  note f = low_reg_facts [OF assms(2)]
  have w: "reg (write_redirection M hv m h gsi v) =
    (reg h)(?r := (ucast v AND NOT 0x5000) OR (reg h ?r AND 0x5000), ?r + 1 := ucast (drop_bit 32 v))"
    using io_apicD(3) [OF assms(1)] f unfolding write_redirection_def low_reg_def [symmetric] Let_def by simp
  have "ucast (0x5000 :: u32) = ro_bits" by (simp add: ro_bits_def)
  then show "redirection reg m (write_redirection M hv m h gsi v) gsi = (v AND NOT ro_bits) OR (redirection reg m h gsi AND ro_bits)"
    using w f(5) join_halves [of v "0x5000" "reg h ?r" "reg h (?r + 1)"] by (simp add: redirection_def)
  show "redirection reg m (write_redirection M hv m h gsi v) k = redirection reg m h k" if "own_gsi m k" "k \<noteq> gsi"
    using w low_reg_apart [OF assms(2) that] by (simp add: redirection_def)
  show "reg (write_redirection M hv m h gsi v) r = reg h r" if "r < 16"
    using w that f(1,2) by auto
qed

lemma keep_fixed:
  fixes b c v :: u64
  assumes "b AND c = 0"
  shows "((v OR b) AND NOT c) OR (v AND c) = v OR b" and "((v AND b) AND NOT c) OR (v AND c) = v AND (b OR c)"
proof -
  have "\<not> (bit b n \<and> bit c n)" for n using arg_cong [OF assms, of "\<lambda>w. bit w n"] by (simp add: bit_and_iff)
  then show "((v OR b) AND NOT c) OR (v AND c) = v OR b" and "((v AND b) AND NOT c) OR (v AND c) = v AND (b OR c)"
    by (auto intro!: bit_word_eqI simp: bit_and_iff bit_or_iff bit_not_iff)
qed

lemma mask_gsi_eq:
  assumes "io_apic M hv m sel reg" and "own_gsi m gsi"
  shows "redirection reg m (mask_gsi M hv m h gsi) gsi = redirection reg m h gsi OR push_bit 16 1"
    and "own_gsi m k \<Longrightarrow> k \<noteq> gsi \<Longrightarrow> redirection reg m (mask_gsi M hv m h gsi) k = redirection reg m h k"
    and "r < 16 \<Longrightarrow> reg (mask_gsi M hv m h gsi) r = reg h r"
proof -
  note rd = read_redirection_eq [OF assms(1)]
  let ?h = "snd (read_redirection M hv m h gsi)"
  have same: "redirection reg m ?h = redirection reg m h" using rd(2) by (simp add: redirection_def fun_eq_iff)
  have "push_bit 16 1 AND ro_bits = 0" by (simp add: ro_bits_def)
  note join = keep_fixed(1) [OF this]
  have m: "mask_gsi M hv m h gsi = write_redirection M hv m ?h gsi (redirection reg m h gsi OR push_bit 16 1)"
    using rd(1) by (simp add: mask_gsi_def case_prod_unfold)
  note w = write_redirection_eq [OF assms]
  show "redirection reg m (mask_gsi M hv m h gsi) gsi = redirection reg m h gsi OR push_bit 16 1"
    unfolding m w(1) same by (rule join)
  show "redirection reg m (mask_gsi M hv m h gsi) k = redirection reg m h k" if "own_gsi m k" "k \<noteq> gsi"
    unfolding m w(2) [OF that] same ..
  show "reg (mask_gsi M hv m h gsi) r = reg h r" if "r < 16"
    unfolding m w(3) [OF that] rd(2) ..
qed

text \<open>All interrupts from \<open>i\<close> on are masked up to the number the version register gives.\<close>

lemma mask_all_from_eq:
  assumes "io_apic M hv m sel reg" and "drop_bit 16 (reg h 1) AND NOT (push_bit 7 1) = x" and "x < 120" and "gsi_base m \<le> i"
  shows "\<exists>h'. mask_all_from M hv m i h = Some h'
    \<and> (\<forall>g. own_gsi m g \<longrightarrow> redirection reg m h' g = (if i \<le> g \<and> g < x then redirection reg m h g OR push_bit 16 1 else redirection reg m h g))"
  using assms(2,4)
proof (induction "unat x - unat i" arbitrary: i h rule: less_induct)
  case less
  obtain v h1 where r: "ioapic_read M hv m h 1 = (v, h1)" by fastforce
  then have v: "v = reg h 1" "reg h1 = reg h" using io_apicD(1,2) [OF assms(1), of h 1] by simp_all
  have mx: "max_gsi M hv m h = (x, h1)" using r v(1) less.prems(1) by (simp add: max_gsi_def)
  have same: "redirection reg m h1 = redirection reg m h" using v(2) by (simp add: redirection_def fun_eq_iff)
  show ?case
  proof (cases "i < x")
    case False
    then have "mask_all_from M hv m i h = Some h1" using mx by (subst mask_all_from.simps) simp
    then show ?thesis using False same by auto
  next
    case True
    have lt: "i < 120" using True assms(3) by simp
    have own: "own_gsi m i" using less.prems(2) lt
      by (simp add: own_gsi_def) (metis le_less_trans word_le_nat_alt unat_sub diff_le_self)
    note k = mask_gsi_eq [OF assms(1) own, where h = h1]
    have u: "unat (i + 1) = Suc (unat i)" using lt by (simp add: word_less_nat_alt unat_word_ariths)
    then have step: "(i + 1 \<le> g) = (i \<le> g \<and> g \<noteq> i)" for g
      by (auto simp: word_le_nat_alt Suc_le_eq word_unat_eq_iff)
    have "unat x - unat (i + 1) < unat x - unat i" using True u by (simp add: word_less_nat_alt)
    moreover have "drop_bit 16 (reg (mask_gsi M hv m h1 i) 1) AND NOT (push_bit 7 1) = x"
      using k(3) [of 1] v(2) less.prems(1) by simp
    moreover have "gsi_base m \<le> i + 1" using less.prems(2) u by (simp add: word_le_nat_alt)
    ultimately obtain h' where h': "mask_all_from M hv m (i + 1) (mask_gsi M hv m h1 i) = Some h'"
      "\<forall>g. own_gsi m g \<longrightarrow> redirection reg m h' g = (if i + 1 \<le> g \<and> g < x then redirection reg m (mask_gsi M hv m h1 i) g OR push_bit 16 1
        else redirection reg m (mask_gsi M hv m h1 i) g)"
      using less.hyps [of "i + 1" "mask_gsi M hv m h1 i"] by blast
    have "mask_all_from M hv m i h = Some h'" using mx True h'(1) by (subst mask_all_from.simps) simp
    moreover have "redirection reg m h' g = (if i \<le> g \<and> g < x then redirection reg m h g OR push_bit 16 1 else redirection reg m h g)" if "own_gsi m g" for g
      using h'(2) [rule_format, OF that] k(1) k(2) [OF that] True step [of g] same by (cases "g = i") auto
    ultimately show ?thesis by blast
  qed
qed

section \<open>The entries of the table\<close>

text \<open>An entry is its type and the bytes behind the type and the size.\<close>

definition enc_entries :: "(u8 \<times> u8 list) list \<Rightarrow> u8 list" where
  "enc_entries xs = concat (map (\<lambda>(t, b). t # of_nat (length b + 2) # b) xs)"

fun entry_ok :: "u8 \<times> u8 list \<Rightarrow> bool" where
  "entry_ok (t, b) \<longleftrightarrow> length b + 2 < 256 \<and> (t = 0 \<longrightarrow> 6 \<le> length b) \<and> (t = 1 \<longrightarrow> 10 \<le> length b) \<and> (t = 2 \<longrightarrow> 8 \<le> length b)
     \<and> (t = 4 \<longrightarrow> 4 \<le> length b) \<and> (t = 5 \<longrightarrow> 3 \<le> length b)"

definition of_type :: "u8 \<Rightarrow> (u8 list \<Rightarrow> 'a) \<Rightarrow> (u8 \<times> u8 list) list \<Rightarrow> 'a list" where
  "of_type t f xs = map (f \<circ> snd) (filter (\<lambda>e. fst e = t) xs)"

text \<open>A list with room for \<open>n\<close> more elements of \<open>k\<close> bytes, and that it has grown by \<open>xs\<close>.\<close>

definition push_room :: "nat \<Rightarrow> nat \<Rightarrow> 'a vector \<Rightarrow> bool" where
  "push_room k n l \<longleftrightarrow> vec_inv l \<and> seq_room (madt_type k) (length (vec_list l) + n)"

definition lists_ok :: "nat \<Rightarrow> madt_lists \<Rightarrow> bool" where
  "lists_ok n s \<longleftrightarrow> push_room 6 n (madt0_list s) \<and> push_room 10 n (madt1_list s) \<and> push_room 8 n (madt2_list s)
     \<and> push_room 4 n (madt4_list s) \<and> push_room 3 n (madt5_list s) \<and> push_room 10 n (ioapic_list s)"

definition lists_grow :: "madt_lists \<Rightarrow> (u8 \<times> u8 list) list \<Rightarrow> madt_lists \<Rightarrow> bool" where
  "lists_grow s xs s' \<longleftrightarrow> vec_list (madt0_list s') = vec_list (madt0_list s) @ of_type 0 (madt0_of \<circ> take 6) xs
     \<and> vec_list (madt1_list s') = vec_list (madt1_list s) @ of_type 1 (madt1_of \<circ> take 10) xs
     \<and> vec_list (madt2_list s') = vec_list (madt2_list s) @ of_type 2 (madt2_of \<circ> take 8) xs
     \<and> vec_list (madt4_list s') = vec_list (madt4_list s) @ of_type 4 (madt4_of \<circ> take 4) xs
     \<and> vec_list (madt5_list s') = vec_list (madt5_list s) @ of_type 5 (madt5_of \<circ> take 3) xs
     \<and> vec_list (ioapic_list s') = vec_list (ioapic_list s) @ of_type 1 (madt1_of \<circ> take 10) xs"

lemma push_room_push:
  assumes "push_room k (Suc n) l" and "0 < k"
  obtains l' where "vector_push (madt_type k) l x = Some l'" and "push_room k n l'" and "vec_list l' = vec_list l @ [x]"
proof -
  have "seq_room (madt_type k) (length (vec_list l))" using assms(1) vec.room_mono unfolding push_room_def by (metis le_add1)
  then obtain l' where "vector_push (madt_type k) l x = Some l'" "vec_inv l'" "vec_list l' = vec_list l @ [x]"
    using vec.push [of l "madt_type k" x] assms(1) by (auto simp: push_room_def)
  then show thesis using that assms(1) by (simp add: push_room_def)
qed

lemma push_room_less: "push_room k (Suc n) l \<Longrightarrow> push_room k n l"
  unfolding push_room_def using vec.room_mono by (metis add_Suc_right le_SucI order_refl)

lemma of_type_append [simp]: "of_type t f (xs @ ys) = of_type t f xs @ of_type t f ys"
  by (simp add: of_type_def)

lemma of_type_one: "of_type t f [(u, b)] = (if u = t then [f b] else [])"
  by (simp add: of_type_def)

lemma lists_grow_trans: "lists_grow s xs s' \<Longrightarrow> lists_grow s' ys s'' \<Longrightarrow> lists_grow s (xs @ ys) s''"
  by (simp add: lists_grow_def)

lemma madt_entry_grows:
  assumes "entry_ok (t, b)" and "\<And>k. k \<le> length b \<Longrightarrow> struct_at es i k = Some (take k b)" and "lists_ok (Suc n) s"
  shows "\<exists>s'. madt_entry t es i s = Some s' \<and> lists_ok n s' \<and> lists_grow s [(t, b)] s'"
proof -
  note at = assms(2) and ok = assms(3)
  have less: "push_room 6 n (madt0_list s)" "push_room 10 n (madt1_list s)" "push_room 8 n (madt2_list s)" "push_room 4 n (madt4_list s)"
    "push_room 3 n (madt5_list s)" "push_room 10 n (ioapic_list s)" using ok push_room_less by (auto simp: lists_ok_def)
  consider (zero) "t = 0" | (one) "t = 1" | (two) "t = 2" | (four) "t = 4" | (five) "t = 5"
    | (other) "t \<noteq> 0" "t \<noteq> 1" "t \<noteq> 2" "t \<noteq> 4" "t \<noteq> 5" by blast
  then show ?thesis
  proof cases
    case zero
    obtain l where l: "vector_push (madt_type 6) (madt0_list s) (madt0_of (take 6 b)) = Some l" "push_room 6 n l"
      "vec_list l = vec_list (madt0_list s) @ [madt0_of (take 6 b)]" using push_room_push [of 6 n "madt0_list s"] ok by (auto simp: lists_ok_def)
    then show ?thesis using zero at [of 6] assms(1) ok less by (simp add: madt_entry_def lists_ok_def lists_grow_def of_type_one)
  next
    case two
    obtain l where l: "vector_push (madt_type 8) (madt2_list s) (madt2_of (take 8 b)) = Some l" "push_room 8 n l"
      "vec_list l = vec_list (madt2_list s) @ [madt2_of (take 8 b)]" using push_room_push [of 8 n "madt2_list s"] ok by (auto simp: lists_ok_def)
    then show ?thesis using two at [of 8] assms(1) ok less by (simp add: madt_entry_def lists_ok_def lists_grow_def of_type_one)
  next
    case four
    obtain l where l: "vector_push (madt_type 4) (madt4_list s) (madt4_of (take 4 b)) = Some l" "push_room 4 n l"
      "vec_list l = vec_list (madt4_list s) @ [madt4_of (take 4 b)]" using push_room_push [of 4 n "madt4_list s"] ok by (auto simp: lists_ok_def)
    then show ?thesis using four at [of 4] assms(1) ok less by (simp add: madt_entry_def lists_ok_def lists_grow_def of_type_one)
  next
    case five
    obtain l where l: "vector_push (madt_type 3) (madt5_list s) (madt5_of (take 3 b)) = Some l" "push_room 3 n l"
      "vec_list l = vec_list (madt5_list s) @ [madt5_of (take 3 b)]" using push_room_push [of 3 n "madt5_list s"] ok by (auto simp: lists_ok_def)
    then show ?thesis using five at [of 3] assms(1) ok less by (simp add: madt_entry_def lists_ok_def lists_grow_def of_type_one)
  next
    case one
    obtain l where l: "vector_push (madt_type 10) (madt1_list s) (madt1_of (take 10 b)) = Some l" "push_room 10 n l"
      "vec_list l = vec_list (madt1_list s) @ [madt1_of (take 10 b)]" using push_room_push [of 10 n "madt1_list s"] ok by (auto simp: lists_ok_def)
    obtain k where k: "vector_push (madt_type 10) (ioapic_list s) (madt1_of (take 10 b)) = Some k" "push_room 10 n k"
      "vec_list k = vec_list (ioapic_list s) @ [madt1_of (take 10 b)]" using push_room_push [of 10 n "ioapic_list s"] ok by (auto simp: lists_ok_def)
    show ?thesis using one at [of 10] assms(1) ok less l k by (simp add: madt_entry_def lists_ok_def lists_grow_def of_type_one)
  next
    case other
    then show ?thesis using less by (simp add: madt_entry_def lists_ok_def lists_grow_def of_type_one)
  qed
qed

lemma enc_entries_Cons: "enc_entries ((t, b) # xs) = t # of_nat (length b + 2) # b @ enc_entries xs"
  by (simp add: enc_entries_def)

lemma ucast8_of_nat: "k < 256 \<Longrightarrow> ucast (of_nat k :: u8) = (of_nat k :: size_t)"
  by (intro word_eq_unatI) (simp add: unsigned_ucast_eq unat_of_nat take_bit_nat_eq_self)

lemma madt_loop_grows:
  assumes "list_all entry_ok xs" and "lists_ok (length xs) s" and "length pre + length (enc_entries xs) < 2 ^ 32"
  shows "\<exists>s'. madt_loop (of_nat (length pre + length (enc_entries xs))) (pre @ enc_entries xs @ post) (of_nat (length pre)) s = Some s'
    \<and> lists_grow s xs s'"
  using assms
proof (induction xs arbitrary: pre s)
  case Nil
  then show ?case by (subst madt_loop.simps) (simp add: enc_entries_def lists_grow_def of_type_def)
next
  case (Cons x xs)
  obtain t b where x: "x = (t, b)" by fastforce
  have ok: "entry_ok (t, b)" using Cons.prems(1) x by simp
  then have b: "length b + 2 < 256" by simp
  let ?es = "pre @ enc_entries (x # xs) @ post"
  let ?n = "length pre"
  let ?i = "of_nat ?n :: size_t"
  let ?pre = "pre @ t # of_nat (length b + 2) # b"
  have len: "?n + (length b + 2) + length (enc_entries xs) < 2 ^ 32" using Cons.prems(3) x by (simp add: enc_entries_Cons)
  have u: "unat (of_nat k :: size_t) = k" if "k < 2 ^ 32" for k using that by (simp add: unat_of_nat take_bit_nat_eq_self)
  have un: "unat ?i = ?n" "unat (?i + 1) = Suc ?n" "unat (?i + 2) = ?n + 2"
    using u [of ?n] u [of "Suc ?n"] u [of "?n + 2"] len by (simp_all add: add.commute)
  have lt: "?i < of_nat (?n + length (enc_entries (x # xs)))"
    using u [of "?n + length (enc_entries (x # xs))"] un(1) Cons.prems(3) x by (simp add: word_less_nat_alt enc_entries_Cons del: of_nat_add)
  have rd: "read_at ?es (unat ?i) = Some t" "read_at ?es (unat (?i + 1)) = Some (of_nat (length b + 2))"
    unfolding un by (simp_all add: x enc_entries_Cons nth_append)
  have st: "struct_at ?es (?i + 2) k = Some (take k b)" if "k \<le> length b" for k
    using that by (simp add: struct_at_def un x enc_entries_Cons)
  obtain s1 where s1: "madt_entry t ?es (?i + 2) s = Some s1" "lists_ok (length xs) s1" "lists_grow s [(t, b)] s1"
    using madt_entry_grows [OF ok st] Cons.prems(2) by fastforce
  have nx: "?i + 2 + (ucast (of_nat (length b + 2) :: u8) - 3) + 1 = of_nat (length ?pre)" unfolding ucast8_of_nat [OF b] by simp
  have e: "?pre @ enc_entries xs @ post = ?es" "length ?pre + length (enc_entries xs) = ?n + length (enc_entries (x # xs))"
    by (simp_all add: x enc_entries_Cons)
  then obtain s' where s': "madt_loop (of_nat (?n + length (enc_entries (x # xs)))) ?es (of_nat (length ?pre)) s1 = Some s'" "lists_grow s1 xs s'"
    using Cons.IH [OF _ s1(2), of ?pre, unfolded e] Cons.prems(1,3) by auto
  have "madt_loop (of_nat (?n + length (enc_entries (x # xs)))) ?es ?i s = Some s'"
    by (subst madt_loop.simps) (use lt rd s1(1) s'(1) nx in \<open>simp add: Let_def add.left_commute\<close>)
  then show ?case using lists_grow_trans [OF s1(3) s'(2)] x by auto
qed

section \<open>Properties\<close>

text \<open>
  C27. A table of well-formed entries is read to its end, and each list holds exactly the entries of its
  type, in the order of the table; every I/O controller is listed as a controller, too. Entries of
  other types are skipped.
\<close>

theorem madt_loop_reads:
  assumes "list_all entry_ok xs" and "lists_ok (length xs) s" and "length (enc_entries xs) < 2 ^ 32"
  shows "\<exists>s'. madt_loop (of_nat (length (enc_entries xs))) (enc_entries xs @ post) 0 s = Some s' \<and> lists_grow s xs s'"
  using madt_loop_grows [OF assms(1,2), of "[]" post] assms(3) by simp

definition no_lists :: madt_lists where
  "no_lists = \<lparr>madt0_list = vector_new, madt1_list = vector_new, madt2_list = vector_new, madt4_list = vector_new,
     madt5_list = vector_new, ioapic_list = vector_new\<rparr>"

theorem madt_loop_reads_witness:
  "\<exists>s'. madt_loop 20 (enc_entries [(0, [1, 2, 3, 0, 0, 0]), (1, [7, 0, 0, 0, 0xc0, 0xfe, 0, 0, 0, 0])]) 0 no_lists = Some s'
     \<and> vec_list (madt0_list s') = [\<lparr>m0_acpi_id = 1, m0_apic_id = 2, m0_flags = 3\<rparr>]
     \<and> vec_list (ioapic_list s') = [\<lparr>m1_ioapic_id = 7, m1_reserved = 0, ioapic_addr = 0xfec00000, gsi_base = 0\<rparr>]"
proof -
  let ?xs = "[(0, [1, 2, 3, 0, 0, 0]), (1, [7, 0, 0, 0, 0xc0, 0xfe, 0, 0, 0, 0])] :: (u8 \<times> u8 list) list"
  have l: "lists_ok (length ?xs) no_lists" by (simp add: lists_ok_def no_lists_def push_room_def seq_room_def madt_type_def)
  have a: "madt0_of (take 6 [1, 2, 3, 0, 0, 0]) = \<lparr>m0_acpi_id = 1, m0_apic_id = 2, m0_flags = 3\<rparr>" by code_simp
  have b: "madt1_of (take 10 [7, 0, 0, 0, 0xc0, 0xfe, 0, 0, 0, 0]) = \<lparr>m1_ioapic_id = 7, m1_reserved = 0, ioapic_addr = 0xfec00000, gsi_base = 0\<rparr>" by code_simp
  have n: "length (enc_entries ?xs) = 20" by (simp add: enc_entries_def)
  have "\<exists>s'. madt_loop (of_nat (length (enc_entries ?xs))) (enc_entries ?xs @ []) 0 no_lists = Some s' \<and> lists_grow no_lists ?xs s'"
    by (rule madt_loop_reads) (use l n in simp_all)
  then show ?thesis unfolding n using a b by (auto simp: lists_grow_def of_type_def no_lists_def vector_new_list)
qed

text \<open>
  An entry with the size zero is read again and again: the loop does not end, whatever follows in
  the table.
\<close>

theorem madt_loop_stuck:
  assumes "i < len" and "read_at es (unat i) = Some t" and "t \<notin> {0, 1, 2, 4, 5}" and "read_at es (unat (i + 1)) = Some 0"
  shows "madt_loop len es i s = None"
proof (rule ccontr)
  assume "madt_loop len es i s \<noteq> None"
  then obtain s' where r: "madt_loop len es i s = Some s'" by blast
  have "\<not> (len' = len \<and> es' = es \<and> i' = i)" if "madt_loop len' es' i' t' = Some r'" for len' es' i' t' r'
  proof (rule madt_loop.raw_induct [of "\<lambda>l e j s r. \<not> (l = len \<and> e = es \<and> j = i)", OF _ that], goal_cases)
    case (1 f l e j s r)
    show ?case
    proof
      assume "l = len \<and> e = es \<and> j = i"
      then have "f len es i s = Some r" using 1(2) assms by (simp add: Let_def madt_entry_def)
      then show False using 1(1) by blast
    qed
  qed
  then show False using r by blast
qed

theorem madt_loop_stuck_witness: "\<forall>s. madt_loop 4 [9, 0, 0, 0] 0 s = None"
  using madt_loop_stuck [of 0 4 "[9, 0, 0, 0]" 9] by simp

text \<open>
  C28. Masking an interrupt sets the mask bit of its entry and nothing else. Unmasking keeps the mask bit as it
  is and clears the vector and everything else that can be written. The entries of the other
  interrupts stay as they are.
\<close>

theorem mask_unmask_gsi:
  assumes "io_apic M hv m sel reg" and "own_gsi m gsi"
  shows "redirection reg m (mask_gsi M hv m h gsi) gsi = redirection reg m h gsi OR push_bit 16 1
    \<and> redirection reg m (unmask_gsi M hv m h gsi) gsi = redirection reg m h gsi AND (push_bit 16 1 OR ro_bits)
    \<and> (\<forall>k. own_gsi m k \<and> k \<noteq> gsi \<longrightarrow> redirection reg m (mask_gsi M hv m h gsi) k = redirection reg m h k
         \<and> redirection reg m (unmask_gsi M hv m h gsi) k = redirection reg m h k)"
proof -
  note rd = read_redirection_eq [OF assms(1)]
  let ?h = "snd (read_redirection M hv m h gsi)"
  have same: "redirection reg m ?h = redirection reg m h" using rd(2) by (simp add: redirection_def fun_eq_iff)
  have m: "unmask_gsi M hv m h gsi = write_redirection M hv m ?h gsi (redirection reg m h gsi AND push_bit 16 1)"
    using rd(1) by (simp add: unmask_gsi_def case_prod_unfold)
  have ro: "push_bit 16 1 AND ro_bits = 0" by (simp add: ro_bits_def)
  note w = write_redirection_eq [OF assms]
  have "redirection reg m (unmask_gsi M hv m h gsi) gsi = redirection reg m h gsi AND (push_bit 16 1 OR ro_bits)"
    unfolding m w(1) same by (rule keep_fixed(2) [OF ro])
  moreover have "redirection reg m (unmask_gsi M hv m h gsi) k = redirection reg m h k" if "own_gsi m k" "k \<noteq> gsi" for k
    unfolding m w(2) [OF that] same ..
  ultimately show ?thesis using mask_gsi_eq [OF assms] by blast
qed

text \<open>
  Masking all interrupts of a controller ends and masks those below the number the version register
  reports, which is the number of the last one: the last interrupt of the first controller keeps its
  entry, and a controller whose first interrupt is not below the number keeps them all.
\<close>

theorem mask_all_gsi_misses:
  assumes "io_apic M hv m sel reg" and "drop_bit 16 (reg h 1) AND NOT (push_bit 7 1) = x" and "x < 120"
  shows "\<exists>h'. mask_all_gsi M hv m h = Some h' \<and> (\<forall>g. own_gsi m g \<longrightarrow>
    redirection reg m h' g = (if g < x then redirection reg m h g OR push_bit 16 1 else redirection reg m h g))"
proof -
  obtain h' where "mask_all_gsi M hv m h = Some h'" "\<forall>g. own_gsi m g \<longrightarrow>
      redirection reg m h' g = (if gsi_base m \<le> g \<and> g < x then redirection reg m h g OR push_bit 16 1 else redirection reg m h g)"
    using mask_all_from_eq [OF assms order_refl] by (auto simp: mask_all_gsi_def)
  then show ?thesis by (intro exI [of _ h']) (simp add: own_gsi_def)
qed

text \<open>
  The register that a local controller has in memory is at sixteen times the number its
  model-specific register has from \<open>0x800\<close> on, for every register.
\<close>

theorem lapic_registers_agree: "xapic_reg r = 16 * (x2apic_reg r - 0x800)"
  by (cases r) simp_all

text \<open>
  An interrupt for another processor goes to the processor asked for when the controller is in
  memory. Through the model-specific register the field of the destination, its upper half, holds
  the number shifted by 24 bits, which is another processor unless the number is zero.
\<close>

theorem send_ipi_destination:
  assumes "ap < 256" and "ipi < 0x100000000"
  shows "(\<exists>d. send_ipi M hv Xapic h ap ipi =
        (let h = mem_wr M h (xapic_addr M hv h 0x310) d in mem_wr M h (xapic_addr M hv h 0x300) (ucast ipi)) \<and> ucast (drop_bit 24 d) = ap)
    \<and> (\<exists>w. send_ipi M hv X2apic h ap ipi = msr_wr M h 0x830 w \<and> drop_bit 32 w = push_bit 24 ap \<and> (drop_bit 32 w = ap \<longleftrightarrow> ap = 0))"
proof -
  have small: "take_bit n w = w" if "unat w < 2 ^ n" for n and w :: u64
    using that by (intro word_eq_unatI) (simp add: unsigned_take_bit_eq take_bit_nat_eq_self)
  have ap: "take_bit 8 ap = ap" "take_bit 32 ipi = ipi" using assms by (auto intro!: small simp: word_less_nat_alt)
  have "ucast (drop_bit 24 (ucast (push_bit 24 (take_bit 8 ap)) :: u32)) = take_bit 8 ap"
    by (rule bit_word_eqI) (auto simp: bit_simps)
  then have d: "ucast (drop_bit 24 (ucast (push_bit 24 ap) :: u32)) = ap" unfolding ap .
  have "drop_bit 32 (push_bit 32 (push_bit 24 (take_bit 8 ap)) OR take_bit 32 ipi) = push_bit 24 (take_bit 8 ap)"
    by (rule bit_word_eqI) (auto simp: bit_simps)
  then have w: "drop_bit 32 (push_bit 32 (push_bit 24 ap) OR ipi) = push_bit 24 ap" unfolding ap .
  have u: "unat (push_bit 24 ap) = unat ap * 2 ^ 24" using assms(1) by (simp add: push_bit_eq_mult word_less_nat_alt unat_word_ariths)
  have "push_bit 24 ap = ap \<longleftrightarrow> ap = 0"
  proof
    assume "push_bit 24 ap = ap"
    then have "unat ap * 2 ^ 24 = unat ap" using u by simp
    then show "ap = 0" by (simp add: unat_eq_0)
  qed simp
  then show ?thesis using d w by (auto simp: Let_def simp del: push_bit_push_bit)
qed

theorem send_ipi_destination_witness:
  "\<forall>M hv h. \<exists>w. send_ipi M hv X2apic h 1 0x500 = msr_wr M h 0x830 w \<and> drop_bit 32 w = 0x1000000"
  using send_ipi_destination [of 1 "0x500"] by fastforce

text \<open>A controller alone at address \<open>0\<close> of the bus, for the examples: the selected register and the registers.\<close>

definition demo_io :: "(u32 \<times> (u32 \<Rightarrow> u32)) machine" where
  "demo_io = \<lparr>mem_rd = \<lambda>(s, f) a. (f s, (s, f)),
     mem_wr = \<lambda>(s, f) a v. if a = 0 then (v, f) else (s, f(s := (v AND NOT (io_fixed s)) OR (f s AND io_fixed s))),
     msr_rd = \<lambda>h r. 0, msr_wr = \<lambda>h r v. h, cpuid_rcx = \<lambda>l s. 0,
     io_port = \<lparr>inb = \<lambda>h p. (0, h), outb = \<lambda>h p v. h\<rparr>, set_cr8 = \<lambda>h v. h\<rparr>"

lemma demo_io_apic: "io_apic demo_io 0 no_ioapic fst snd"
  by (auto simp: io_apic_def demo_io_def no_ioapic_def Let_def)

definition demo_entries :: "u32 \<Rightarrow> u32" where
  "demo_entries r = (if r = 1 then 0x170011 else if r = 18 then 0x21 else if r = 62 then 0x37 else 0)"

theorem mask_unmask_gsi_witness:
  "redirection snd no_ioapic (mask_gsi demo_io 0 no_ioapic (0, demo_entries) 1) 1 = 0x10021
   \<and> redirection snd no_ioapic (unmask_gsi demo_io 0 no_ioapic (0, demo_entries) 1) 1 = 0"
proof -
  have own: "own_gsi no_ioapic 1" by (simp add: own_gsi_def no_ioapic_def)
  have e: "redirection snd no_ioapic (0 :: u32, demo_entries) 1 = 0x21" by code_simp
  show ?thesis using mask_unmask_gsi [OF demo_io_apic own, of "(0, demo_entries)"] e by (simp add: ro_bits_def)
qed

theorem mask_all_gsi_misses_witness:
  "\<exists>h'. mask_all_gsi demo_io 0 no_ioapic (0, demo_entries) = Some h'
    \<and> redirection snd no_ioapic h' 1 = 0x10021 \<and> redirection snd no_ioapic h' 23 = 0x37"
proof -
  have own: "own_gsi no_ioapic 1" "own_gsi no_ioapic 23" by (simp_all add: own_gsi_def no_ioapic_def)
  have e: "redirection snd no_ioapic (0 :: u32, demo_entries) 1 = 0x21" "redirection snd no_ioapic (0 :: u32, demo_entries) 23 = 0x37" by code_simp+
  have x: "drop_bit 16 (snd (0 :: u32, demo_entries) 1) AND NOT (push_bit 7 1) = 23" by code_simp
  have "(23 :: u32) < 120" by simp
  from mask_all_gsi_misses [OF demo_io_apic x this] show ?thesis
  proof (elim exE conjE)
    fix h'
    assume a: "mask_all_gsi demo_io 0 no_ioapic (0, demo_entries) = Some h'"
      and r: "\<forall>g. own_gsi no_ioapic g \<longrightarrow> redirection snd no_ioapic h' g =
        (if g < 23 then redirection snd no_ioapic (0 :: u32, demo_entries) g OR push_bit 16 1 else redirection snd no_ioapic (0 :: u32, demo_entries) g)"
    show ?thesis using a r [rule_format, OF own(1)] r [rule_format, OF own(2)] e by simp
  qed
qed

end
