(* ===== verification/Interrupts.thy ===== *)
theory Interrupts
  imports Task Segments Apic
begin

text \<open>
  The dispatch of interrupts in \<^verbatim>\<open>kernel/int/idt.cpp\<close> and the features of a processor in \<^verbatim>\<open>kernel/lib/cpu.cpp\<close>. The
  scheduler and the keyboard handler are called through parameters here. The lock around the report
  of an exception is taken and released in one step, and the processor goes on after \<^verbatim>\<open>hlt\<close> when
  the next interrupt arrives.
\<close>

section \<open>Definitions\<close>

definition exception_messages :: "string list" where
  "exception_messages = [''Divide by zero'', ''Debug'', ''NMI'', ''Breakpoint'', ''Overflow'', ''Bound Range Exceeded'', ''Invaild Opcode'',
     ''Device Not Available'', ''Double fault'', ''Co-processor Segment Overrun'', ''Invaild TSS'', ''Segment not present'',
     ''Stack-Segment Fault'', ''GPF'', ''Page Fault'', ''Reserved'', ''x87 Floating Point Exception'', ''allignement check'',
     ''Machine check'', ''SIMD floating-point exception'', ''Virtualization Excpetion'', ''Deadlock'', ''Reserved'', ''Reserved'',
     ''Reserved'', ''Reserved'', ''Reserved'', ''Reserved'', ''Reserved'', ''Reserved'', ''Reserved'', ''Security Exception'',
     ''Reserved'', ''Triple Fault'', ''FPU error'']"

datatype irq_handler = Disr | Reschedule | Ps2_keyboard

definition func_array :: "irq_handler list" where
  "func_array = replicate 32 Disr @ [Reschedule, Ps2_keyboard] @ replicate 222 Disr"

definition line_end :: string where "line_end = [CHR 0x0A, NUL]"

definition num_arg :: "u64 \<Rightarrow> fmt_arg" where "num_arg w = Arg_int (int (unat w))"

definition disr :: "string \<Rightarrow> 'h machine \<Rightarrow> regs \<Rightarrow> 'h \<Rightarrow> 'h option" where
  "disr tmp M r h = print tmp (io_port M) h (''Unhandled Interrupt Vector {}'' @ line_end) [num_arg (isr_number r)]"

text \<open>The seven messages with their arguments, in order.\<close>

definition exception_report :: "string \<Rightarrow> regs \<Rightarrow> u64 \<Rightarrow> u64 \<Rightarrow> u64 \<Rightarrow> (string \<times> fmt_arg list) list" where
  "exception_report msg r ident cr2 used =
     [(''[KDEBUG] Kowalski analysis: '' @ [CHR 0x22] @ ''{}'' @ [CHR 0x22] @ '', Error: {x}, LAPIC_ID {x}'' @ line_end,
        [Arg_cstr (msg @ [NUL]), num_arg (err_code r), num_arg ident]),
      (''[KDEBUG] RAX: {x} | RBX: {x} | RCX: {x} | RDX: {x}'' @ line_end, [num_arg (rax r), num_arg (rbx r), num_arg (rcx r), num_arg (rdx r)]),
      (''[KDEBUG] RSI: {x} | RDI: {x} | RBP: {x} | RSP: {x}'' @ line_end, [num_arg (rsi r), num_arg (rdi r), num_arg (rbp r), num_arg (rsp r)]),
      (''[KDEBUG] r8:  {x} | r9:  {x} | r10: {x} | r11: {x}'' @ line_end, [num_arg (r8 r), num_arg (r9 r), num_arg (r10 r), num_arg (r11 r)]),
      (''[KDEBUG] r12: {x} | r13: {x} | r14: {x} | r15: {x}'' @ line_end, [num_arg (r12 r), num_arg (r13 r), num_arg (r14 r), num_arg (r15 r)]),
      (''[KDEBUG] cs:  {x} | ss:  {x} | cr2: {x} | rip: {x}'' @ line_end, [num_arg (cs r), num_arg (ss r), num_arg cr2, num_arg (rip r)]),
      (''[KDEBUG] Total memory in use: {x}'' @ line_end, [num_arg used])]"

fun print_all :: "string \<Rightarrow> 'h io_ports \<Rightarrow> 'h \<Rightarrow> (string \<times> fmt_arg list) list \<Rightarrow> 'h option" where
  "print_all tmp P h [] = Some h"
| "print_all tmp P h ((str, args) # ps) = do { h \<leftarrow> print tmp P h str args; print_all tmp P h ps }"

fun call_handler :: "string \<Rightarrow> 'h machine \<Rightarrow> (regs \<Rightarrow> 'h \<Rightarrow> 'h option) \<Rightarrow> (regs \<Rightarrow> 'h \<Rightarrow> 'h option) \<Rightarrow> irq_handler \<Rightarrow> regs \<Rightarrow> 'h \<Rightarrow> 'h option" where
  "call_handler tmp M resched kbd Disr r h = disr tmp M r h"
| "call_handler tmp M resched kbd Reschedule r h = resched r h"
| "call_handler tmp M resched kbd Ps2_keyboard r h = kbd r h"

definition isr_handler_main ::
  "string \<Rightarrow> 'h machine \<Rightarrow> u64 \<Rightarrow> lapic \<Rightarrow> (regs \<Rightarrow> 'h \<Rightarrow> 'h option) \<Rightarrow> (regs \<Rightarrow> 'h \<Rightarrow> 'h option) \<Rightarrow> u64 \<Rightarrow> u64 \<Rightarrow> regs \<Rightarrow> 'h \<Rightarrow> 'h option" where
  "isr_handler_main tmp M hv k resched kbd cr2 used r h = do {
     h \<leftarrow> (if isr_number r < 32
       then do {
         msg \<leftarrow> read_at exception_messages (unat (isr_number r));
         let (ident, h) = lapic_read M hv k h (lapic_reg_of k Id_reg);
         print_all tmp (io_port M) h (exception_report msg r ident cr2 used)
       }
       else Some h);
     f \<leftarrow> read_at func_array (unat (isr_number r));
     h \<leftarrow> call_handler tmp M resched kbd f r h;
     Some (lapic_write M hv k h (lapic_reg_of k Eoi) 0)
   }"

text \<open>The control registers and the model-specific registers of one processor.\<close>

record cpu_control =
  cr0 :: u64
  cr4 :: u64
  core_msrs :: core_hw

definition msr_efer :: u32 where "msr_efer = 0xc0000080"
definition msr_star :: u32 where "msr_star = 0xc0000081"
definition msr_lstar :: u32 where "msr_lstar = 0xc0000082"
definition msr_sfmask :: u32 where "msr_sfmask = 0xc0000084"

definition cpu_init_features :: "u64 \<Rightarrow> cpu_control \<Rightarrow> cpu_control" where
  "cpu_init_features syscall_main c =
     (let m = core_msrs c;
          m = wrmsr m msr_efer (rdmsr m msr_efer OR 1);
          c = c\<lparr>cr0 := (cr0 c AND NOT (push_bit 2 1)) OR push_bit 1 1\<rparr>;
          c = c\<lparr>cr4 := cr4 c OR (push_bit 7 1 OR push_bit 9 1 OR push_bit 10 1)\<rparr>;
          m = wrmsr m msr_star 0x0013000800000000;
          m = wrmsr m msr_lstar syscall_main;
          m = wrmsr m msr_sfmask (ucast (NOT (0x002 :: u32)))
      in c\<lparr>core_msrs := m\<rparr>)"

section \<open>Formats that print\<close>

text \<open>
  Two more characters follow every brace, so that looking ahead stays in the format, and no number is
  printed in binary, where it might not fit.
\<close>

fun fmt_ok :: "string \<Rightarrow> bool" where
  "fmt_ok [] \<longleftrightarrow> False"
| "fmt_ok (c # s) \<longleftrightarrow> c = NUL \<or> ((c = CHR ''{'' \<longrightarrow> 2 \<le> length s \<and> s ! 0 \<noteq> NUL \<and> s ! 0 \<noteq> CHR ''b'' \<and> (s ! 0 = CHR ''}'' \<or> s ! 1 \<noteq> NUL)) \<and> fmt_ok s)"

lemma fmt_ok_emit: "fmt_ok s \<Longrightarrow> \<exists>t. emit_cstr s = Some t"
  by (induction s) auto

lemma fmt_ok_drop1: "fmt_ok (c # s) \<Longrightarrow> c \<noteq> NUL \<Longrightarrow> fmt_ok s"
  by simp

lemma print_arg_total:
  assumes "fmt_ok s" and "\<And>b. b \<in> {10, 16} \<Longrightarrow> \<exists>t. format tmp arg b = Some t"
  shows "\<exists>t r. print_arg tmp s arg = Some (t, r) \<and> fmt_ok r"
  using assms(1)
proof (induction s)
  case (Cons c s)
  show ?case
  proof (cases "c = NUL")
    case False
    then have s: "fmt_ok s" "c = CHR ''{'' \<Longrightarrow> 2 \<le> length s \<and> s ! 0 \<noteq> NUL \<and> s ! 0 \<noteq> CHR ''b'' \<and> (s ! 0 = CHR ''}'' \<or> s ! 1 \<noteq> NUL)" using Cons.prems by auto
    show ?thesis
    proof (cases "c = CHR ''{''")
      case True
      then obtain c1 c2 s2 where s2: "s = c1 # c2 # s2" using s(2) by (metis Suc_le_length_iff numeral_2_eq_2)
      have "fmt_ok (c2 # s2)" using s s2 True fmt_ok_drop1 by auto
      then have ok: "fmt_ok (c2 # s2)" "c2 = CHR ''}'' \<Longrightarrow> fmt_ok s2" by auto
      obtain u where u: "format tmp arg 10 = Some u" using assms(2) [of 10] by auto
      have "base_of c1 \<in> {10, 16}" using s(2) s2 True by (auto simp: base_of_def)
      then obtain w where w: "format tmp arg (base_of c1) = Some w" using assms(2) by blast
      obtain t' r' where t': "print_arg tmp (c1 # c2 # s2) arg = Some (t', r')" "fmt_ok r'" using Cons.IH [OF s(1)] s2 by blast
      have "print_arg tmp (c # s) arg = Some (if c1 = CHR ''}'' then (u, c2 # s2) else if c2 = CHR ''}'' then (w, s2) else (c # t', r'))"
        unfolding s2 by (subst print_arg.simps(2)) (use False True u w t'(1) in \<open>simp del: print_arg.simps\<close>)
      then show ?thesis using ok t'(2) s s2 True by (auto simp del: print_arg.simps)
    next
      case no: False
      then show ?thesis using Cons.IH [OF s(1)] False by auto
    qed
  qed simp
qed simp

definition arg_ok :: "string \<Rightarrow> fmt_arg \<Rightarrow> bool" where
  "arg_ok tmp arg \<longleftrightarrow> (\<forall>b \<in> {10, 16}. \<exists>t. format tmp arg b = Some t)"

lemma print_format_total:
  assumes "fmt_ok s" and "list_all (arg_ok tmp) args"
  shows "\<exists>t. print_format tmp s args = Some t"
  using assms
proof (induction args arbitrary: s)
  case (Cons a args)
  then obtain t r where t: "print_arg tmp s a = Some (t, r)" "fmt_ok r" using print_arg_total [of s tmp a] by (auto simp: arg_ok_def)
  then show ?case using Cons.IH [of r] Cons.prems(2) by auto
qed (simp add: fmt_ok_emit)

lemma num_arg_ok: "length tmp = 50 \<Longrightarrow> arg_ok tmp (num_arg w)"
proof -
  assume l: "length tmp = 50"
  have n: "unat w < 10 ^ 49" "unat w < 16 ^ 49" by (rule less_trans [OF unat_lt_2p64], simp)+
  have "\<exists>t. print_integer tmp (int (unat w)) 10 = Some t" using print_integer_fits [OF l n(1)] by auto
  moreover have "\<exists>t. print_integer tmp (int (unat w)) 16 = Some t" using print_integer_fits [OF l n(2)] by auto
  ultimately show ?thesis by (simp add: arg_ok_def num_arg_def)
qed

lemma cstr_arg_ok: "NUL \<notin> set s \<Longrightarrow> arg_ok tmp (Arg_cstr (s @ [NUL]))"
  using emit_cstr_text [of s "[]"] by (simp add: arg_ok_def)

text \<open>Messages that print are sent one after the other.\<close>

lemma print_all_sends:
  assumes "serial_line P sent busy" and "\<forall>(s, args) \<in> set ps. fmt_ok s \<and> list_all (arg_ok tmp) args"
  shows "\<exists>h' ts. print_all tmp P h ps = Some h' \<and> sent h' = sent h @ map of_char (concat ts)
    \<and> list_all2 (\<lambda>(s, args) t. print_format tmp s args = Some t) ps ts"
  using assms(2)
proof (induction ps arbitrary: h)
  case (Cons p ps)
  obtain s args where p: "p = (s, args)" by fastforce
  obtain t where t: "print_format tmp s args = Some t" using print_format_total [of s tmp args] Cons.prems p by auto
  then obtain h1 where h1: "print tmp P h s args = Some h1" "sent h1 = sent h @ map of_char t"
    using serial_all_sends [OF assms(1), of h t] by (auto simp: print_def)
  obtain h' ts where "print_all tmp P h1 ps = Some h'" "sent h' = sent h1 @ map of_char (concat ts)"
    "list_all2 (\<lambda>(s, args) t. print_format tmp s args = Some t) ps ts" using Cons.IH [of h1] Cons.prems by auto
  then show ?case using h1 p t by (intro exI [of _ h'] exI [of _ "t # ts"]) simp
qed simp

lemma disr_sends:
  assumes "serial_line (io_port M) sent busy" and "length tmp = 50"
  shows "\<exists>h' ds. num_text 10 (unat (isr_number r)) ds \<and> disr tmp M r h = Some h'
    \<and> sent h' = sent h @ map of_char (''Unhandled Interrupt Vector '' @ ds @ [CHR 0x0A])"
proof -
  let ?n = "unat (isr_number r)"
  have "?n < 10 ^ 49" by (rule less_trans [OF unat_lt_2p64]) simp
  then obtain ds where ds: "print_integer tmp (int ?n) 10 = Some ds" "num_text 10 ?n ds"
    using print_integer_fits [OF assms(2), of ?n 10] by auto
  have "print_format tmp (''Unhandled Interrupt Vector {}'' @ line_end) [num_arg (isr_number r)] =
    Some (''Unhandled Interrupt Vector '' @ ds @ [CHR 0x0A])" using ds(1) by (simp add: num_arg_def line_end_def)
  then show ?thesis using ds(2) serial_all_sends [OF assms(1), of h "''Unhandled Interrupt Vector '' @ ds @ [CHR 0x0A]"]
    by (auto simp: disr_def print_def)
qed

lemma length_func_array [simp]: "length func_array = 256" by (simp add: func_array_def)

lemma func_array_nth:
  assumes "i < 256"
  shows "func_array ! i = (if i = 32 then Reschedule else if i = 33 then Ps2_keyboard else Disr)"
proof -
  have "list_all (\<lambda>i. func_array ! i = (if i = 32 then Reschedule else if i = 33 then Ps2_keyboard else Disr)) [0..<256]" by code_simp
  then show ?thesis using assms unfolding list_all_iff by (metis atLeastLessThan_iff set_upt zero_le)
qed

lemma messages_plain: "n < 32 \<Longrightarrow> n < length exception_messages \<and> NUL \<notin> set (exception_messages ! n)"
proof -
  assume n: "n < 32"
  have l: "length exception_messages = 35" by (simp add: exception_messages_def)
  have "list_all (\<lambda>m. NUL \<notin> set m) exception_messages" by code_simp
  then show ?thesis using n l by (auto simp: list_all_length)
qed

lemma report_ok:
  assumes "length tmp = 50" and "NUL \<notin> set msg"
  shows "\<forall>(s, args) \<in> set (exception_report msg r ident cr2 used). fmt_ok s \<and> list_all (arg_ok tmp) args"
proof -
  have "list_all fmt_ok (map fst (exception_report [] r 0 0 0))" for r by (simp add: exception_report_def line_end_def)
  then have "list_all fmt_ok (map fst (exception_report msg r ident cr2 used))" by (simp add: exception_report_def)
  moreover have "list_all (list_all (arg_ok tmp)) (map snd (exception_report msg r ident cr2 used))"
    using num_arg_ok [OF assms(1)] cstr_arg_ok [OF assms(2)] by (simp add: exception_report_def)
  ultimately show ?thesis by (auto simp: list_all_iff)
qed

section \<open>Properties\<close>

text \<open>
  Every vector up to 255 is served and acknowledged: 32 by the scheduler, 33 by the keyboard, and the others
  by a message with the number of the vector; a larger number is outside the table.
\<close>

theorem isr_dispatch:
  assumes "serial_line (io_port M) sent busy" and "length tmp = 50" and "32 \<le> isr_number r"
  shows "(isr_number r = 32 \<longrightarrow> isr_handler_main tmp M hv k resched kbd cr2 used r h =
        map_option (\<lambda>h. lapic_write M hv k h (lapic_reg_of k Eoi) 0) (resched r h))
    \<and> (isr_number r = 33 \<longrightarrow> isr_handler_main tmp M hv k resched kbd cr2 used r h =
        map_option (\<lambda>h. lapic_write M hv k h (lapic_reg_of k Eoi) 0) (kbd r h))
    \<and> (33 < isr_number r \<and> isr_number r < 256 \<longrightarrow> (\<exists>h' ds. num_text 10 (unat (isr_number r)) ds
        \<and> isr_handler_main tmp M hv k resched kbd cr2 used r h = Some (lapic_write M hv k h' (lapic_reg_of k Eoi) 0)
        \<and> sent h' = sent h @ map of_char (''Unhandled Interrupt Vector '' @ ds @ [CHR 0x0A])))
    \<and> (256 \<le> isr_number r \<longrightarrow> isr_handler_main tmp M hv k resched kbd cr2 used r h = None)"
proof (intro conjI impI)
  have no: "\<not> isr_number r < 32" using assms(3) by simp
  show "isr_handler_main tmp M hv k resched kbd cr2 used r h = map_option (\<lambda>h. lapic_write M hv k h (lapic_reg_of k Eoi) 0) (resched r h)"
    if "isr_number r = 32" using that by (simp add: isr_handler_main_def func_array_nth map_conv_bind_option comp_def)
  show "isr_handler_main tmp M hv k resched kbd cr2 used r h = map_option (\<lambda>h. lapic_write M hv k h (lapic_reg_of k Eoi) 0) (kbd r h)"
    if "isr_number r = 33" using that by (simp add: isr_handler_main_def func_array_nth map_conv_bind_option comp_def)
  show "isr_handler_main tmp M hv k resched kbd cr2 used r h = None" if "256 \<le> isr_number r"
  proof -
    have "read_at func_array (unat (isr_number r)) = None" using that by (simp add: read_at_None word_le_nat_alt)
    then show ?thesis using no by (simp add: isr_handler_main_def)
  qed
  show "\<exists>h' ds. num_text 10 (unat (isr_number r)) ds
        \<and> isr_handler_main tmp M hv k resched kbd cr2 used r h = Some (lapic_write M hv k h' (lapic_reg_of k Eoi) 0)
        \<and> sent h' = sent h @ map of_char (''Unhandled Interrupt Vector '' @ ds @ [CHR 0x0A])"
    if v: "33 < isr_number r \<and> isr_number r < 256"
  proof -
    have n: "unat (isr_number r) < 256" "33 < unat (isr_number r)" using v by (simp_all add: word_less_nat_alt)
    obtain h' ds where h': "num_text 10 (unat (isr_number r)) ds" "disr tmp M r h = Some h'"
      "sent h' = sent h @ map of_char (''Unhandled Interrupt Vector '' @ ds @ [CHR 0x0A])" using disr_sends [OF assms(1,2)] by blast
    have "isr_handler_main tmp M hv k resched kbd cr2 used r h = Some (lapic_write M hv k h' (lapic_reg_of k Eoi) 0)"
      using h'(2) no n by (simp add: isr_handler_main_def func_array_nth)
    then show ?thesis using h'(1,3) by blast
  qed
qed


text \<open>
  The features of a processor and the table of segments fit together: a system call enters the code and
  stack segment of the kernel and returns to those of a program, with interrupts off at the entry.
\<close>

theorem cpu_init_features_selectors:
  "let m = msr (core_msrs (cpu_init_features entry c)) in
     ucast (drop_bit 32 (m msr_star)) = kernel64_cs \<and> ucast (drop_bit 32 (m msr_star)) + 8 = kernel64_ds
     \<and> (ucast (drop_bit 48 (m msr_star)) + 16) OR 3 = user64_cs \<and> (ucast (drop_bit 48 (m msr_star)) + 8) OR 3 = user64_ds
     \<and> bit (m msr_efer) 0 \<and> m msr_lstar = entry \<and> bit (m msr_sfmask) 9"
  by (simp add: cpu_init_features_def Let_def wrmsr_eq msr_star_def msr_lstar_def msr_efer_def msr_sfmask_def
      kernel64_cs_def kernel64_ds_def user64_cs_def user64_ds_def bit_or_iff)

text \<open>A line that is always ready, for the examples.\<close>

definition demo_machine :: "u8 list machine" where
  "demo_machine = \<lparr>mem_rd = \<lambda>h a. (0, h), mem_wr = \<lambda>h a v. h, msr_rd = \<lambda>h r. 0, msr_wr = \<lambda>h r v. h, cpuid_rcx = \<lambda>l s. 0,
     io_port = \<lparr>inb = \<lambda>h p. (0x20, h), outb = \<lambda>h p v. h @ [v]\<rparr>, set_cr8 = \<lambda>h v. h\<rparr>"

definition demo_regs :: "u64 \<Rightarrow> regs" where
  "demo_regs n = \<lparr>r15 = 0, r14 = 0, r13 = 0, r12 = 0, r11 = 0, r10 = 0, r9 = 0, r8 = 0, rsi = 0, rdi = 0, rbp = 0, rdx = 0, rcx = 0, rbx = 0,
     rax = 0, isr_number = n, err_code = 2, rip = 0, cs = 8, rflags = 2, rsp = 0, ss = 16\<rparr>"

lemma demo_serial: "serial_line (io_port demo_machine) (\<lambda>h. h) (\<lambda>_. 0)"
  by (simp add: serial_line_def demo_machine_def)

theorem isr_dispatch_witness:
  "\<exists>h'. isr_handler_main (replicate 50 NUL) demo_machine 0 X2apic (\<lambda>r. Some) (\<lambda>r. Some) 0 0 (demo_regs 40) [] =
      Some (lapic_write demo_machine 0 X2apic h' (lapic_reg_of X2apic Eoi) 0) \<and> h' \<noteq> []"
proof -
  have "length (replicate 50 NUL) = 50" by simp
  from isr_dispatch [OF demo_serial this, of "demo_regs 40" 0 X2apic "\<lambda>r. Some" "\<lambda>r. Some" 0 0 "[]"]
  show ?thesis by (auto simp: demo_regs_def)
qed


end
