(* ===== verification/Tty.thy ===== *)
theory Tty
  imports Vmm KString
begin

text \<open>
  \<^verbatim>\<open>kernel/drivers/tty.cpp\<close> and \<^verbatim>\<open>tty.hpp\<close>: the screen with its frame buffer and the copy of it in memory, the
  terminal that draws characters on it, and the keyboard. A buffer is the list of its pixels, and an
  access outside it is a fault. The list of terminals is a map from numbers; registering a terminal
  as a device file is left out.
\<close>

section \<open>Definitions\<close>

record screen =
  framebuffer :: "u32 list"
  double_buffer :: "u32 list"
  sc_pitch :: u32
  sc_width :: u32
  sc_height :: u32
  sc_bpp :: u32
  sc_size :: u32

record stivale_fb =
  fb_addr :: u64
  fb_pitch :: u16
  fb_width :: u16
  fb_height :: u16
  fb_bpp :: u16

definition pa_wc :: ssize_t where "pa_wc = 2"

text \<open>\<open>fb\<close> is what is at the address of the frame buffer.\<close>

definition screen_ctor :: "bool \<Rightarrow> u64 \<Rightarrow> stivale_fb \<Rightarrow> u32 list \<Rightarrow> vmm \<Rightarrow> pmlx_table \<Rightarrow> (screen \<times> vmm \<times> pmlx_table) option" where
  "screen_ctor five hv st fb s t = do {
     let size = (ucast (fb_height st) * ucast (fb_pitch st) :: u32);
     let pages = div_roundup (ucast size) page_size;
     (a, s) \<leftarrow> calloc_pages_at hv s pages;
     let db = a + hv;
     let fb_page_off = fb_addr st div page_size;
     (s, t) \<leftarrow> for_range (\<lambda>i (s, t). do {
         (s, t) \<leftarrow> map_page_raw five s t (fb_page_off + hv + of_nat i * 0x200000) (fb_page_off + of_nat i * 0x200000) 0x3 (0x3 OR push_bit 7 1 OR push_bit 8 1) pa_wc;
         map_page_raw five s t (db + of_nat i * 0x200000) (db - hv + of_nat i * 0x200000) 0x3 (0x3 OR push_bit 7 1 OR push_bit 8 1) pa_wc
       }) 0 (nat (sint (div_roundup (ucast size) 0x200000))) (s, t);
     Some (\<lparr>framebuffer = fb, double_buffer = replicate (unat pages * 1024) 0, sc_pitch = ucast (fb_pitch st), sc_width = ucast (fb_width st),
       sc_height = ucast (fb_height st), sc_bpp = ucast (fb_bpp st), sc_size = size\<rparr>, s, t)
   }"

definition pixel_index :: "screen \<Rightarrow> ssize_t \<Rightarrow> ssize_t \<Rightarrow> size_t option" where
  "pixel_index s x y = (if sc_bpp s div 8 = 0 then None else Some (x + ucast (sc_pitch s div (sc_bpp s div 8)) * y))"

definition set_pixel :: "screen \<Rightarrow> ssize_t \<Rightarrow> ssize_t \<Rightarrow> u32 \<Rightarrow> screen option" where
  "set_pixel s x y colour = do {
     index \<leftarrow> pixel_index s x y;
     fb \<leftarrow> write_at (framebuffer s) (unat index) colour;
     db \<leftarrow> write_at (double_buffer s) (unat index) colour;
     Some (s\<lparr>framebuffer := fb, double_buffer := db\<rparr>)
   }"

definition get_pixel :: "screen \<Rightarrow> ssize_t \<Rightarrow> ssize_t \<Rightarrow> u32 option" where
  "get_pixel s x y = do { index \<leftarrow> pixel_index s x y; read_at (double_buffer s) (unat index) }"

definition screen_flush :: "screen \<Rightarrow> u32 \<Rightarrow> screen option" where
  "screen_flush s colour = for_range (\<lambda>i. for_range (\<lambda>j s. set_pixel s (of_nat j) (of_nat i) colour) 0 (unat (sc_width s))) 0 (unat (sc_height s)) s"

record tty =
  cursor_foreground :: u32
  text_foreground :: u32
  text_background :: u32
  cursor_x :: ssize_t
  cursor_y :: ssize_t
  tab_size :: ssize_t
  font :: "u8 list"
  font_height :: size_t
  font_width :: size_t
  rows :: ssize_t
  cols :: ssize_t
  sc :: screen
  char_grid :: "char list"

text \<open>
  The index \<open>j\<close> is an 8-bit number: a font that is higher never ends the inner loop. The outer loop has at
  most eight rounds, for \<open>i_cnt\<close> runs from eight down to one.
\<close>

definition render_char :: "tty \<Rightarrow> ssize_t \<Rightarrow> ssize_t \<Rightarrow> u32 \<Rightarrow> u32 \<Rightarrow> char \<Rightarrow> tty option" where
  "render_char t x y fg bg c = do {
     let offset = (ucast ((ucast (of_char c :: u8) - 0x20) * font_height t) :: u16);
     if 0 < font_width t \<and> 255 < font_height t then None
     else do {
       s \<leftarrow> for_range (\<lambda>i. for_range (\<lambda>j s. do {
           b \<leftarrow> read_at (font t) (unat offset + j);
           set_pixel s (x + of_nat (8 - i)) (y + of_nat j) (if drop_bit i b AND 1 \<noteq> 0 then fg else bg)
         }) 0 (unat (font_height t))) 0 (min 8 (unat (font_width t))) (sc t);
       Some (t\<lparr>sc := s\<rparr>)
     }
   }"

definition plot_char :: "tty \<Rightarrow> ssize_t \<Rightarrow> ssize_t \<Rightarrow> u32 \<Rightarrow> u32 \<Rightarrow> char \<Rightarrow> tty option" where
  "plot_char t x y fg bg c = do {
     t \<leftarrow> render_char t (x * font_width t) (y * font_height t) fg bg c;
     g \<leftarrow> write_at (char_grid t) (unat (x + y * cols t)) c;
     Some (t\<lparr>char_grid := g\<rparr>)
   }"

definition fill_cursor :: "tty \<Rightarrow> u32 \<Rightarrow> tty option" where
  "fill_cursor t colour = do {
     s \<leftarrow> for_range (\<lambda>i. for_range (\<lambda>j s. set_pixel s (of_nat j + cursor_x t * font_width t) (of_nat i + cursor_y t * font_height t) colour)
       0 (unat (font_width t))) 0 (unat (font_height t)) (sc t);
     Some (t\<lparr>sc := s\<rparr>)
   }"

definition clear_cursor :: "tty \<Rightarrow> tty option" where
  "clear_cursor t = fill_cursor t (text_background t)"

definition draw_cursor :: "tty \<Rightarrow> tty option" where
  "draw_cursor t = fill_cursor t (cursor_foreground t)"

definition update_cursor :: "tty \<Rightarrow> ssize_t \<Rightarrow> ssize_t \<Rightarrow> tty option" where
  "update_cursor t x y = do { t \<leftarrow> clear_cursor t; draw_cursor (t\<lparr>cursor_x := x, cursor_y := y\<rparr>) }"

definition grid_up :: "tty \<Rightarrow> char list option" where
  "grid_up t = do {
     g \<leftarrow> for_range (\<lambda>k g. do { x \<leftarrow> read_at g (unat (cols t) + k); write_at g k x }) 0 (nat (sint (rows t * cols t) - sint (cols t))) (char_grid t);
     for_range (\<lambda>k g. write_at g (unat (rows t * cols t - cols t) + k) NUL) 0
       (nat (sint (rows t * cols t) - sint (rows t * cols t - cols t))) g
   }"

text \<open>
  The copies of 64-bit words move two pixels each, upwards in the buffer, so that a word is read before it
  is overwritten.
\<close>

definition screen_up :: "screen \<Rightarrow> size_t \<Rightarrow> u32 \<Rightarrow> screen option" where
  "screen_up s fh bg = do {
     let line = ucast (sc_pitch s) * fh;
     let rest = ucast (sc_size s) - line;
     fb \<leftarrow> memcpy_loop (framebuffer s) 0 (double_buffer s) (2 * unat (line div 8)) (2 * (rest div 8));
     db \<leftarrow> memcpy_loop (double_buffer s) 0 (double_buffer s) (2 * unat (line div 8)) (2 * (rest div 8));
     fb \<leftarrow> memset32 fb (unat (rest div 4)) bg (line div 4);
     db \<leftarrow> memset32 db (unat (rest div 4)) bg (line div 4);
     Some (s\<lparr>framebuffer := fb, double_buffer := db\<rparr>)
   }"

definition scroll :: "tty \<Rightarrow> tty option" where
  "scroll t = do {
     t \<leftarrow> clear_cursor t;
     g \<leftarrow> grid_up t;
     s \<leftarrow> screen_up (sc t) (font_height t) (text_background t);
     draw_cursor (t\<lparr>char_grid := g, sc := s\<rparr>)
   }"

definition put_newline :: "tty \<Rightarrow> tty option" where
  "put_newline t =
     (if cursor_y t = rows t - 1 then do { t \<leftarrow> scroll t; update_cursor t 0 (rows t - 1) }
      else update_cursor t 0 (cursor_y t + 1))"

definition put_back :: "tty \<Rightarrow> tty option" where
  "put_back t =
     (if cursor_x t \<noteq> 0 \<or> cursor_y t \<noteq> 0 then do {
        t \<leftarrow> clear_cursor t;
        draw_cursor (if cursor_x t \<noteq> 0 then t\<lparr>cursor_x := cursor_x t - 1\<rparr>
          else t\<lparr>cursor_y := cursor_y t - 1, cursor_x := cols t - 1\<rparr>)
      }
      else Some t)"

definition put_plain :: "tty \<Rightarrow> char \<Rightarrow> tty option" where
  "put_plain t c = do {
     t \<leftarrow> clear_cursor t;
     t \<leftarrow> plot_char t (cursor_x t) (cursor_y t) (text_foreground t) (text_background t) c;
     let t = t\<lparr>cursor_x := cursor_x t + 1\<rparr>;
     let t = (if cursor_x t = cols t then t\<lparr>cursor_x := 0, cursor_y := cursor_y t + 1\<rparr> else t);
     t \<leftarrow> (if cursor_y t = rows t then scroll (t\<lparr>cursor_y := cursor_y t - 1\<rparr>) else Some t);
     draw_cursor t
   }"

text \<open>A tabulator is a call for each of its blanks.\<close>

definition putchar :: "tty \<Rightarrow> char \<Rightarrow> tty option" where
  "putchar t c =
     (if c = CHR 0x09 then for_range (\<lambda>_ t. put_plain t CHR '' '') 0 (nat (sint (tab_size t))) t
      else if c = CHR 0x0A then put_newline t
      else if c = CHR 0x08 then put_back t
      else put_plain t c)"

record winsize =
  ws_row :: u16
  ws_col :: u16
  ws_xpixel :: u16
  ws_ypixel :: u16

text \<open>The result and, for the one request there is, what is written to the caller.\<close>

definition tty_ioctl_call :: "tty \<Rightarrow> u64 \<Rightarrow> 32 word \<times> winsize option" where
  "tty_ioctl_call t req = (if req = 0x5413
     then (0, Some \<lparr>ws_row = ucast (rows t), ws_col = ucast (cols t), ws_xpixel = ucast (sc_width (sc t)), ws_ypixel = ucast (sc_height (sc t))\<rparr>)
     else (-1, None))"

record tty_sys =
  tty_list :: "ssize_t \<rightharpoonup> tty"
  current_tty :: ssize_t
  tty_cnt :: size_t

text \<open>The grid is allocated on the heap, as many cells as the size class has.\<close>

definition tty_ctor :: "screen \<Rightarrow> u8 list \<Rightarrow> size_t \<Rightarrow> size_t \<Rightarrow> tty_sys \<Rightarrow> (tty \<times> tty_sys) option" where
  "tty_ctor s f fh fw q =
     (if fh = 0 \<or> fw = 0 then None
      else do {
        s \<leftarrow> screen_flush s 0;
        let r = ucast (sc_height s) div fh;
        let c = ucast (sc_width s) div fw;
        t \<leftarrow> draw_cursor \<lparr>cursor_foreground = 0xffffff, text_foreground = 0xffffff, text_background = 0, cursor_x = 0, cursor_y = 0, tab_size = 4,
          font = f, font_height = fh, font_width = fw, rows = r, cols = c, sc = s, char_grid = replicate (heap_block (unat (r * c))) NUL\<rparr>;
        Some (t, q\<lparr>current_tty := tty_cnt q, tty_list := (tty_list q)(tty_cnt q \<mapsto> t), tty_cnt := tty_cnt q + 1\<rparr>)
      })"

definition put_current :: "tty_sys \<Rightarrow> char \<Rightarrow> tty_sys option" where
  "put_current q c = do { t \<leftarrow> tty_list q (current_tty q); t \<leftarrow> putchar t c; Some (q\<lparr>tty_list := (tty_list q)(current_tty q \<mapsto> t)\<rparr>) }"

definition tty_putchar :: "tty_sys \<Rightarrow> char \<Rightarrow> tty_sys option" where
  "tty_putchar q c = (if current_tty q = -1 then Some q else put_current q c)"

definition keymap :: string where
  "keymap = ''  1234567890-='' @ [CHR 0x08, CHR 0x09] @ ''qwertyuiop[]  asdfghjkl;'' @ [CHR 0x27] @ ''` '' @ [CHR 0x5C] @ ''zxcvbnm,./    ''"

definition cap_keymap :: string where
  "cap_keymap = ''  !@#$%^&*()_+'' @ [CHR 0x08, CHR 0x09] @ ''QWERTYUIOP{}  ASDFGHJKL:'' @ [CHR 0x27] @ ''~ '' @ [CHR 0x5C] @ ''ZXCVBNM<>?    ''"

text \<open>The state of the shift key and the code read from the port.\<close>

definition ps2_keyboard :: "bool \<Rightarrow> u8 \<Rightarrow> tty_sys \<Rightarrow> (bool \<times> tty_sys) option" where
  "ps2_keyboard upkey keycode q =
     (if keycode = 0xaa then Some (False, q)
      else if keycode = 0x2a then Some (True, q)
      else do {
        q \<leftarrow> (if keycode = 0xf then put_current q CHR 0x09
          else if keycode = 0xe then put_current q CHR 0x08
          else if keycode = 0x1c then put_current q CHR 0x0A
          else if keycode \<le> 128 then do { c \<leftarrow> read_at (if upkey then cap_keymap else keymap) (unat keycode); put_current q c }
          else Some q);
        Some (upkey, q)
      })"

section \<open>Pixels\<close>

text \<open>
  A screen of 32 bits per pixel whose buffers hold more than its pixels: drawing in the last column
  touches the pixel behind it.
\<close>

definition scr_ok :: "screen \<Rightarrow> bool" where
  "scr_ok s \<longleftrightarrow> sc_bpp s = 32 \<and> unat (sc_pitch s) < 65536 \<and> unat (sc_height s) < 65536 \<and> 4 * unat (sc_width s) \<le> unat (sc_pitch s)
     \<and> unat (sc_size s) = unat (sc_height s) * unat (sc_pitch s) \<and> length (double_buffer s) = length (framebuffer s)
     \<and> unat (sc_height s) * unat (sc_pitch s) div 4 < length (framebuffer s)"

definition same_dims :: "screen \<Rightarrow> screen \<Rightarrow> bool" where
  "same_dims s s' \<longleftrightarrow> sc_bpp s' = sc_bpp s \<and> sc_pitch s' = sc_pitch s \<and> sc_width s' = sc_width s \<and> sc_height s' = sc_height s
     \<and> sc_size s' = sc_size s \<and> length (framebuffer s') = length (framebuffer s) \<and> length (double_buffer s') = length (double_buffer s)"

lemma same_dims_refl [simp]: "same_dims s s" by (simp add: same_dims_def)

lemma same_dims_trans: "same_dims s s' \<Longrightarrow> same_dims s' s'' \<Longrightarrow> same_dims s s''" by (simp add: same_dims_def)

lemma scr_ok_dims: "same_dims s s' \<Longrightarrow> scr_ok s \<Longrightarrow> scr_ok s'" by (simp add: same_dims_def scr_ok_def)

lemma pixel_index_ok:
  assumes "scr_ok s" and "unat x \<le> unat (sc_width s)" and "unat y < unat (sc_height s)"
  shows "\<exists>i. pixel_index s x y = Some i \<and> unat i < length (framebuffer s)"
proof -
  let ?S = "unat (sc_pitch s) div 4"
  let ?H = "unat (sc_height s)"
  have b: "sc_bpp s = 32" "unat (sc_pitch s) < 65536" "?H < 65536" "unat (sc_width s) \<le> ?S"
    "?H * unat (sc_pitch s) div 4 < length (framebuffer s)" using assms(1) by (auto simp: scr_ok_def)
  have "unat (sc_pitch s div 4) = ?S" by (simp add: unat_div)
  then have u: "unat (ucast (sc_pitch s div 4) :: u64) = ?S" using b(2) by (simp add: unsigned_ucast_eq take_bit_nat_eq_self)
  have "?S * unat y + ?S \<le> ?S * ?H" using assms(3) by (metis Suc_leI mult_Suc_right mult_le_mono2 add.commute)
  moreover have "?H * (?S * 4) \<le> ?H * unat (sc_pitch s)" by (intro mult_le_mono2) simp
  then have "?S * ?H \<le> ?H * unat (sc_pitch s) div 4" by (simp add: less_eq_div_iff_mult_less_eq mult_ac)
  ultimately have le: "unat x + ?S * unat y \<le> ?H * unat (sc_pitch s) div 4" using assms(2) b(4) by simp
  have "?H * unat (sc_pitch s) \<le> 65536 * 65536" using b(2,3) by (intro mult_le_mono) simp_all
  then have lt: "unat x + ?S * unat y < 2 ^ 64" using le by simp
  then have "unat (ucast (sc_pitch s div 4) * y :: u64) = ?S * unat y" using u by (subst unat_mult_lt) simp_all
  then have "unat (x + ucast (sc_pitch s div 4) * y) = unat x + ?S * unat y" using lt by (subst unat_add_lt) simp_all
  then show ?thesis using b(1,5) le by (simp add: pixel_index_def)
qed

lemma set_pixel_ok:
  assumes "scr_ok s" and "unat x \<le> unat (sc_width s)" and "unat y < unat (sc_height s)"
  shows "\<exists>s'. set_pixel s x y colour = Some s' \<and> same_dims s s'"
  using pixel_index_ok [OF assms] assms(1) by (auto simp: set_pixel_def same_dims_def scr_ok_def)

text \<open>A block of pixels, by rows or by columns.\<close>

lemma draw_block:
  assumes "scr_ok s" and "\<And>i j s'. i < m \<Longrightarrow> j < n \<Longrightarrow> same_dims s s' \<Longrightarrow> \<exists>s''. f i j s' = Some s'' \<and> same_dims s s''"
  shows "\<exists>s'. for_range (\<lambda>i. for_range (f i) 0 n) 0 m s = Some s' \<and> same_dims s s'"
proof (rule for_range_invariant [where I = "\<lambda>_. same_dims s"])
  fix k t
  assume k: "k < 0 + m" and t: "same_dims s t"
  show "\<exists>t'. for_range (f k) 0 n t = Some t' \<and> same_dims s t'"
    by (rule for_range_invariant [where I = "\<lambda>_. same_dims s"]) (use k t assms(2) in auto)
qed simp

section \<open>Terminals\<close>

text \<open>
  A terminal with characters eight pixels wide: the font has a picture for every character from the
  blank on, the grid and the screen have room for all cells, and the cursor is on a cell.
\<close>

definition tty_ok :: "tty \<Rightarrow> bool" where
  "tty_ok t \<longleftrightarrow> scr_ok (sc t) \<and> font_width t = 8 \<and> 0 < unat (font_height t) \<and> unat (font_height t) < 256
     \<and> 224 * unat (font_height t) \<le> length (font t)
     \<and> 0 < unat (rows t) \<and> 0 < unat (cols t) \<and> unat (rows t) * unat (font_height t) \<le> unat (sc_height (sc t))
     \<and> unat (cols t) * 8 \<le> unat (sc_width (sc t)) \<and> unat (rows t) * unat (cols t) \<le> length (char_grid t)
     \<and> unat (cursor_x t) < unat (cols t) \<and> unat (cursor_y t) < unat (rows t)"

lemma tty_ok_sc: "tty_ok t \<Longrightarrow> same_dims (sc t) s \<Longrightarrow> tty_ok (t\<lparr>sc := s\<rparr>)"
  using scr_ok_dims [of "sc t" s] by (simp add: tty_ok_def same_dims_def)

lemma tty_ok_small:
  assumes "tty_ok t"
  shows "unat (rows t) < 65536" and "unat (cols t) < 65536"
proof -
  have s: "unat (sc_height (sc t)) < 65536" "unat (sc_width (sc t)) < 65536" using assms by (auto simp: tty_ok_def scr_ok_def)
  have "unat (rows t) \<le> unat (rows t) * unat (font_height t)" using assms by (simp add: tty_ok_def)
  then show "unat (rows t) < 65536" using s(1) assms unfolding tty_ok_def by linarith
  show "unat (cols t) < 65536" using s(2) assms unfolding tty_ok_def by linarith
qed

lemma cell_pixels:
  assumes "tty_ok t" and "unat x < unat (cols t)" and "unat y < unat (rows t)"
  shows "unat (x * font_width t) = 8 * unat x" and "8 * unat x + 8 \<le> unat (sc_width (sc t))"
    and "unat (y * font_height t) = unat y * unat (font_height t)" and "unat y * unat (font_height t) + unat (font_height t) \<le> unat (sc_height (sc t))"
proof -
  note d = tty_ok_small [OF assms(1)]
  have t: "font_width t = 8" "unat (font_height t) < 256" "unat (rows t) * unat (font_height t) \<le> unat (sc_height (sc t))"
    "unat (cols t) * 8 \<le> unat (sc_width (sc t))" using assms(1) by (simp_all add: tty_ok_def)
  show "unat (x * font_width t) = 8 * unat x" using t(1) assms(2) d(2) by (simp add: unat_mult_lt)
  show "8 * unat x + 8 \<le> unat (sc_width (sc t))" using t(4) assms(2) by linarith
  have le: "unat y * unat (font_height t) + unat (font_height t) \<le> unat (rows t) * unat (font_height t)"
    using assms(3) by (metis Suc_leI add.commute mult_Suc mult_le_mono1)
  then show "unat y * unat (font_height t) + unat (font_height t) \<le> unat (sc_height (sc t))" using t(3) by simp
  have "unat y * unat (font_height t) \<le> 65536 * 256" using assms(3) d(1) t(2) by (intro mult_le_mono) simp_all
  then show "unat (y * font_height t) = unat y * unat (font_height t)" by (simp add: unat_mult_lt)
qed

lemma fill_cursor_ok:
  assumes "tty_ok t"
  shows "\<exists>s. fill_cursor t colour = Some (t\<lparr>sc := s\<rparr>) \<and> same_dims (sc t) s"
proof -
  have c: "unat (cursor_x t) < unat (cols t)" "unat (cursor_y t) < unat (rows t)" "scr_ok (sc t)" "font_width t = 8" using assms by (simp_all add: tty_ok_def)
  have w: "unat (sc_height (sc t)) < 65536" "unat (sc_width (sc t)) < 65536" using c(3) by (auto simp: scr_ok_def)
  note p = cell_pixels [OF assms c(1,2)]
  have "\<exists>s. for_range (\<lambda>i. for_range (\<lambda>j s. set_pixel s (of_nat j + cursor_x t * font_width t) (of_nat i + cursor_y t * font_height t) colour)
       0 (unat (font_width t))) 0 (unat (font_height t)) (sc t) = Some s \<and> same_dims (sc t) s"
  proof (rule draw_block [OF c(3)])
    fix i j s'
    assume ij: "i < unat (font_height t)" "j < unat (font_width t)" and s': "same_dims (sc t) s'"
    have j: "j < 8" using ij(2) c(4) by simp
    have "unat (of_nat j + cursor_x t * font_width t) = j + 8 * unat (cursor_x t)"
      using p(1,2) j w by (subst unat_add_lt) (simp_all add: unat_of_nat_lt)
    then have x: "unat (of_nat j + cursor_x t * font_width t) \<le> unat (sc_width s')" using p(2) j s' by (simp add: same_dims_def)
    have "unat (of_nat i + cursor_y t * font_height t) = i + unat (cursor_y t) * unat (font_height t)"
      using p(3,4) ij(1) w by (subst unat_add_lt) (simp_all add: unat_of_nat_lt)
    then have y: "unat (of_nat i + cursor_y t * font_height t) < unat (sc_height s')" using p(4) ij(1) s' by (simp add: same_dims_def)
    show "\<exists>s''. set_pixel s' (of_nat j + cursor_x t * font_width t) (of_nat i + cursor_y t * font_height t) colour = Some s'' \<and> same_dims (sc t) s''"
      using set_pixel_ok [OF scr_ok_dims [OF s' c(3)] x y] same_dims_trans [OF s'] by blast
  qed
  then show ?thesis by (auto simp: fill_cursor_def)
qed

text \<open>Drawing the picture of a character; the control characters before the blank have none.\<close>

definition printable :: "char \<Rightarrow> bool" where
  "printable c \<longleftrightarrow> 0x20 \<le> (of_char c :: nat)"

lemma font_offset:
  assumes "printable c" and "unat fh < 256" and "224 * unat fh \<le> length f" and "j < unat fh"
  shows "unat (ucast ((ucast (of_char c :: u8) - 0x20) * fh :: size_t) :: u16) + j < length f"
proof -
  let ?n = "of_char c :: nat"
  have n: "0x20 \<le> ?n" "?n < 256" using assms(1) nat_of_char_less_256 [of c] by (simp_all add: printable_def)
  have lt: "?n < 2 ^ 64" by (rule order.strict_trans [OF n(2)]) simp
  have "(of_char c :: u8) = of_nat ?n" by (simp add: of_nat_of_char)
  then have "unat (of_char c :: u8) = ?n" using n(2) by (simp only: unat_of_nat) (simp add: take_bit_nat_eq_self)
  then have u: "unat (ucast (of_char c :: u8) :: size_t) = ?n" using take_bit_nat_eq_self [OF lt] by (simp add: unsigned_ucast_eq)
  then have d: "unat (ucast (of_char c :: u8) - 0x20 :: size_t) = ?n - 32" using n(1) by (subst unat_sub) (simp_all add: word_le_nat_alt)
  have le: "(?n - 32) * unat fh \<le> 223 * unat fh" using n(2) by (intro mult_le_mono1) linarith
  have "223 * unat fh < 65536" using assms(2) by simp
  with le have lt: "(?n - 32) * unat fh < 65536" by (rule le_less_trans)
  have "unat (ucast (of_char c :: u8) - 0x20 :: size_t) * unat fh < 2 ^ 64" unfolding d by (rule order.strict_trans [OF lt]) simp
  then have "unat ((ucast (of_char c :: u8) - 0x20) * fh :: size_t) = (?n - 32) * unat fh" using d by (simp only: unat_mult_lt)
  then have "unat (ucast ((ucast (of_char c :: u8) - 0x20) * fh :: size_t) :: u16) = (?n - 32) * unat fh"
    using take_bit_nat_eq_self [of "(?n - 32) * unat fh" 16] lt by (simp add: unsigned_ucast_eq del: mult_less_cancel2)
  then show ?thesis using le assms(3,4) by linarith
qed

lemma render_char_ok:
  assumes "tty_ok t" and "printable c" and "unat x < unat (cols t)" and "unat y < unat (rows t)"
  shows "\<exists>s. render_char t (x * font_width t) (y * font_height t) fg bg c = Some (t\<lparr>sc := s\<rparr>) \<and> same_dims (sc t) s"
proof -
  have c: "scr_ok (sc t)" "font_width t = 8" "unat (font_height t) < 256" "224 * unat (font_height t) \<le> length (font t)"
    using assms(1) by (simp_all add: tty_ok_def)
  have w: "unat (sc_height (sc t)) < 65536" "unat (sc_width (sc t)) < 65536" using c(1) by (auto simp: scr_ok_def)
  note p = cell_pixels [OF assms(1,3,4)]
  let ?o = "unat (ucast ((ucast (of_char c :: u8) - 0x20) * font_height t :: size_t) :: u16)"
  let ?f = "\<lambda>i j s. do { b \<leftarrow> read_at (font t) (?o + j);
      set_pixel s (x * font_width t + of_nat (8 - i)) (y * font_height t + of_nat j) (if drop_bit i b AND 1 \<noteq> 0 then fg else bg) }"
  have "\<exists>s. for_range (\<lambda>i. for_range (?f i) 0 (unat (font_height t))) 0 (min 8 (unat (font_width t))) (sc t) = Some s \<and> same_dims (sc t) s"
  proof (rule draw_block [OF c(1)])
    fix i j s'
    assume ij: "i < min 8 (unat (font_width t))" "j < unat (font_height t)" and s': "same_dims (sc t) s'"
    have "unat (x * font_width t + of_nat (8 - i)) = 8 * unat x + (8 - i)"
      using p(1,2) w by (subst unat_add_lt) (simp_all add: unat_of_nat_lt)
    then have x: "unat (x * font_width t + of_nat (8 - i)) \<le> unat (sc_width s')" using p(2) s' by (simp add: same_dims_def)
    have "unat (y * font_height t + of_nat j) = unat y * unat (font_height t) + j"
      using p(3,4) ij(2) w by (subst unat_add_lt) (simp_all add: unat_of_nat_lt)
    then have y: "unat (y * font_height t + of_nat j) < unat (sc_height s')" using p(4) ij(2) s' by (simp add: same_dims_def)
    show "\<exists>s''. ?f i j s' = Some s'' \<and> same_dims (sc t) s''"
      using font_offset [OF assms(2) c(3,4) ij(2)] set_pixel_ok [OF scr_ok_dims [OF s' c(1)] x y] same_dims_trans [OF s'] by simp blast
  qed
  moreover have "\<not> 255 < font_height t" using c(3) by (simp add: word_less_nat_alt)
  ultimately show ?thesis by (auto simp: render_char_def Let_def)
qed

lemma div_parts:
  assumes "a \<le> (n :: nat)"
  shows "2 * (a div 8) + 2 * ((n - a) div 8) \<le> n div 4" and "(n - a) div 4 + a div 4 \<le> n div 4"
proof -
  have p: "(2 * x + 2 * y) * 4 \<le> n" if "8 * x \<le> a" "8 * y \<le> n - a" for x y
    using that(1) that(2) [unfolded le_diff_conv2 [OF assms]] by presburger
  have "(2 * (a div 8) + 2 * ((n - a) div 8)) * 4 \<le> n" by (rule p) simp_all
  then show "2 * (a div 8) + 2 * ((n - a) div 8) \<le> n div 4" by (simp add: less_eq_div_iff_mult_less_eq)
  have q: "(y + x) * 4 \<le> n" if "4 * x \<le> a" "4 * y \<le> n - a" for x y
    using that(1) that(2) [unfolded le_diff_conv2 [OF assms]] by presburger
  have "((n - a) div 4 + a div 4) * 4 \<le> n" by (rule q) simp_all
  then show "(n - a) div 4 + a div 4 \<le> n div 4" by (simp add: less_eq_div_iff_mult_less_eq)
qed

lemma memcpy_loop_total:
  assumes "doff + unat n \<le> length dest" and "soff + unat n \<le> length src"
  shows "\<exists>ys. memcpy_loop dest doff src soff n = Some ys \<and> length ys = length dest"
  using assms by (subst memcpy_loop_eq) auto

lemma memset_loop_total:
  assumes "off + unat n \<le> length blk"
  shows "\<exists>ys. memset_loop blk off d n = Some ys \<and> length ys = length blk"
  using assms by (subst memset_loop_eq) auto

lemma screen_up_ok:
  assumes "tty_ok t"
  shows "\<exists>s. screen_up (sc t) (font_height t) bg = Some s \<and> same_dims (sc t) s"
proof -
  let ?P = "unat (sc_pitch (sc t))"
  let ?H = "unat (sc_height (sc t))"
  let ?F = "unat (font_height t)"
  let ?line = "ucast (sc_pitch (sc t)) * font_height t :: size_t"
  let ?rest = "ucast (sc_size (sc t)) - ?line :: size_t"
  have c: "scr_ok (sc t)" "?F < 256" "unat (rows t) * ?F \<le> ?H" "0 < unat (rows t)" using assms by (simp_all add: tty_ok_def)
  have b: "?P < 65536" "?H < 65536" "unat (sc_size (sc t)) = ?H * ?P" "length (double_buffer (sc t)) = length (framebuffer (sc t))"
    "?H * ?P div 4 < length (framebuffer (sc t))" using c(1) by (simp_all add: scr_ok_def)
  have "?F \<le> ?H" using c(3,4) by (metis le_trans mult.commute nat_le_linear mult_le_cancel1 mult_1_right Suc_leI One_nat_def)
  then have le: "?P * ?F \<le> ?H * ?P" by (simp add: mult.commute)
  have lim: "?H * ?P \<le> 65536 * 65536" using b(1,2) by (intro mult_le_mono) simp_all
  have p: "unat (ucast (sc_pitch (sc t)) :: size_t) = ?P" using b(1) by (simp add: unsigned_ucast_eq take_bit_nat_eq_self)
  have "?P * ?F < 2 ^ 64" by (rule order.strict_trans1 [OF order.trans [OF le lim]]) simp
  then have l: "unat ?line = ?P * ?F" using p by (subst unat_mult_lt) simp_all
  have z: "unat (ucast (sc_size (sc t)) :: size_t) = ?H * ?P" using b(3) lim by (simp add: unsigned_ucast_eq take_bit_nat_eq_self)
  then have r: "unat ?rest = ?H * ?P - ?P * ?F" using l le by (subst unat_sub) (simp_all add: word_le_nat_alt)
  have d: "unat (?line div 8) = ?P * ?F div 8" "unat (?line div 4) = ?P * ?F div 4" "unat (?rest div 4) = (?H * ?P - ?P * ?F) div 4"
    "unat (?rest div 8) = (?H * ?P - ?P * ?F) div 8" using l r by (simp_all add: unat_div)
  have d2: "unat (2 * (?rest div 8)) = 2 * ((?H * ?P - ?P * ?F) div 8)" using d(4) lim by (subst unat_mult_lt) simp_all
  note ms = div_parts [OF le]
  have n1: "2 * unat (?line div 8) + unat (2 * (?rest div 8)) \<le> length (framebuffer (sc t))" using ms(1) b(5) d d2 by simp
  have copy: "\<exists>ys. memcpy_loop xs 0 (double_buffer (sc t)) (2 * unat (?line div 8)) (2 * (?rest div 8)) = Some ys \<and> length ys = length (framebuffer (sc t))"
    if "length xs = length (framebuffer (sc t))" for xs
    using memcpy_loop_total [of 0 "2 * (?rest div 8)" xs "2 * unat (?line div 8)" "double_buffer (sc t)"] n1 b(4) that by simp
  have n2: "unat (?rest div 4) + unat (?line div 4) \<le> length (framebuffer (sc t))" using ms(2) b(5) d by simp
  have fill: "\<exists>ys. memset32 xs (unat (?rest div 4)) bg (?line div 4) = Some ys \<and> length ys = length (framebuffer (sc t))"
    if "length xs = length (framebuffer (sc t))" for xs
    unfolding memset32_def using memset_loop_total [of "unat (?rest div 4)" "?line div 4" xs bg] n2 that by simp
  obtain fb where fb: "memcpy_loop (framebuffer (sc t)) 0 (double_buffer (sc t)) (2 * unat (?line div 8)) (2 * (?rest div 8)) = Some fb"
    "length fb = length (framebuffer (sc t))" using copy by blast
  obtain db where db: "memcpy_loop (double_buffer (sc t)) 0 (double_buffer (sc t)) (2 * unat (?line div 8)) (2 * (?rest div 8)) = Some db"
    "length db = length (framebuffer (sc t))" using copy b(4) by blast
  show ?thesis using fb(1) db(1) fill [OF fb(2)] fill [OF db(2)] b(4) by (auto simp: screen_up_def Let_def same_dims_def)
qed

section \<open>The text on the screen\<close>

text \<open>The grid of characters moves up by one line; the cells are taken line after line.\<close>

lemma shift_down:
  assumes "c + n \<le> length g"
  shows "\<exists>b. for_range (\<lambda>k b. do { x \<leftarrow> read_at b (c + k); write_at b k x }) 0 n g = Some b
    \<and> length b = length g \<and> (\<forall>i < length g. b ! i = (if i < 0 + n then g ! (c + i) else g ! i))"
proof (rule for_range_invariant [where I = "\<lambda>k b. length b = length g \<and> (\<forall>i < length g. b ! i = (if i < k then g ! (c + i) else g ! i))"])
  fix k b
  assume k: "k < 0 + n" and b: "length b = length g \<and> (\<forall>i < length g. b ! i = (if i < k then g ! (c + i) else g ! i))"
  have "c + k < length g" using k assms by simp
  then have "b ! (c + k) = g ! (c + k)" using b by auto
  then show "\<exists>b'. (do { x \<leftarrow> read_at b (c + k); write_at b k x }) = Some b'
      \<and> length b' = length g \<and> (\<forall>i < length g. b' ! i = (if i < Suc k then g ! (c + i) else g ! i))"
    using b k assms by (auto simp: nth_list_update less_Suc_eq)
qed simp

lemma fill_range:
  assumes "off + n \<le> length g"
  shows "\<exists>b. for_range (\<lambda>k b. write_at b (off + k) d) 0 n g = Some b
    \<and> length b = length g \<and> (\<forall>i < length g. b ! i = (if off \<le> i \<and> i < off + (0 + n) then d else g ! i))"
proof (rule for_range_invariant [where I = "\<lambda>k b. length b = length g \<and> (\<forall>i < length g. b ! i = (if off \<le> i \<and> i < off + k then d else g ! i))"])
  fix k b
  assume k: "k < 0 + n" and b: "length b = length g \<and> (\<forall>i < length g. b ! i = (if off \<le> i \<and> i < off + k then d else g ! i))"
  show "\<exists>b'. write_at b (off + k) d = Some b' \<and> length b' = length g \<and> (\<forall>i < length g. b' ! i = (if off \<le> i \<and> i < off + Suc k then d else g ! i))"
    using b k assms by (auto simp: nth_list_update less_Suc_eq)
qed auto

lemma grid_words:
  assumes "tty_ok t"
  defines "N \<equiv> unat (rows t) * unat (cols t)"
  shows "nat (sint (rows t * cols t) - sint (cols t)) = N - unat (cols t)" and "unat (rows t * cols t - cols t) = N - unat (cols t)"
    and "nat (sint (rows t * cols t) - sint (rows t * cols t - cols t)) = unat (cols t)" and "unat (cols t) \<le> N"
proof -
  note s = tty_ok_small [OF assms(1)]
  have r: "0 < unat (rows t)" using assms(1) by (simp add: tty_ok_def)
  have N: "N < 2 ^ 32"
  proof -
    have "N \<le> 65535 * 65535" unfolding N_def using s by (intro mult_le_mono) simp_all
    then show ?thesis by simp
  qed
  have u: "unat (rows t * cols t) = N" unfolding N_def using N by (simp add: unat_mult_lt N_def)
  show C: "unat (cols t) \<le> N" unfolding N_def using r by (cases "unat (rows t)") simp_all
  show d: "unat (rows t * cols t - cols t) = N - unat (cols t)" using u C by (subst unat_sub) (simp_all add: word_le_nat_alt)
  have i: "sint (rows t * cols t) = int N" "sint (cols t) = int (unat (cols t))" "sint (rows t * cols t - cols t) = int (N - unat (cols t))"
    using sint_eq_unat [of "rows t * cols t"] sint_eq_unat [of "cols t"] sint_eq_unat [of "rows t * cols t - cols t"] u d N C s by simp_all
  show "nat (sint (rows t * cols t) - sint (cols t)) = N - unat (cols t)" unfolding i using C by (simp only: nat_int flip: of_nat_diff)
  show "nat (sint (rows t * cols t) - sint (rows t * cols t - cols t)) = unat (cols t)" unfolding i using C by simp
qed

lemma grid_up_ok:
  assumes "tty_ok t"
  defines "N \<equiv> unat (rows t) * unat (cols t)"
  shows "\<exists>g. grid_up t = Some g \<and> length g = length (char_grid t)
    \<and> take N g = drop (unat (cols t)) (take N (char_grid t)) @ replicate (unat (cols t)) NUL"
proof -
  let ?C = "unat (cols t)"
  let ?g = "char_grid t"
  note w = grid_words [OF assms(1)]
  have C: "?C \<le> N" and L: "N \<le> length ?g" using w(4) assms(1) by (simp_all add: N_def tty_ok_def)
  obtain b where b: "for_range (\<lambda>k g. do { x \<leftarrow> read_at g (?C + k); write_at g k x }) 0 (N - ?C) ?g = Some b"
    "length b = length ?g" "\<forall>i < length ?g. b ! i = (if i < N - ?C then ?g ! (?C + i) else ?g ! i)"
    using shift_down [of ?C "N - ?C" ?g] C L by auto
  obtain g where g: "for_range (\<lambda>k g. write_at g (N - ?C + k) NUL) 0 ?C b = Some g" "length g = length ?g"
    "\<forall>i < length ?g. g ! i = (if N - ?C \<le> i \<and> i < N - ?C + ?C then NUL else b ! i)"
    using fill_range [of "N - ?C" ?C b NUL] C L b(2) by auto
  have "take N g = drop ?C (take N ?g) @ replicate ?C NUL"
  proof (rule nth_equalityI)
    fix i assume "i < length (take N g)"
    then have i: "i < N" "i < length ?g" using g(2) by simp_all
    then show "take N g ! i = (drop ?C (take N ?g) @ replicate ?C NUL) ! i"
      using g(3) b(3) C L by (auto simp: nth_append)
  qed (use g(2) C L in simp)
  then show ?thesis using b(1) g(1,2) w(1,2,3) by (auto simp: grid_up_def N_def)
qed

record screen_text =
  tx :: nat
  ty :: nat
  cells :: "char list"

definition text_of :: "tty \<Rightarrow> screen_text" where
  "text_of t = \<lparr>tx = unat (cursor_x t), ty = unat (cursor_y t), cells = take (unat (rows t) * unat (cols t)) (char_grid t)\<rparr>"

definition text_scroll :: "nat \<Rightarrow> screen_text \<Rightarrow> screen_text" where
  "text_scroll c p = p\<lparr>cells := drop c (cells p) @ replicate c NUL\<rparr>"

definition text_plain :: "nat \<Rightarrow> nat \<Rightarrow> char \<Rightarrow> screen_text \<Rightarrow> screen_text" where
  "text_plain r c x p =
     (let p = p\<lparr>cells := (cells p)[tx p + ty p * c := x]\<rparr> in
      if tx p + 1 < c then p\<lparr>tx := tx p + 1\<rparr>
      else if ty p + 1 < r then p\<lparr>tx := 0, ty := ty p + 1\<rparr>
      else text_scroll c (p\<lparr>tx := 0\<rparr>))"

definition text_newline :: "nat \<Rightarrow> nat \<Rightarrow> screen_text \<Rightarrow> screen_text" where
  "text_newline r c p = (if ty p + 1 < r then p\<lparr>tx := 0, ty := ty p + 1\<rparr> else text_scroll c (p\<lparr>tx := 0\<rparr>))"

definition text_back :: "nat \<Rightarrow> screen_text \<Rightarrow> screen_text" where
  "text_back c p = (if 0 < tx p then p\<lparr>tx := tx p - 1\<rparr> else if 0 < ty p then p\<lparr>tx := c - 1, ty := ty p - 1\<rparr> else p)"

definition text_put :: "nat \<Rightarrow> nat \<Rightarrow> nat \<Rightarrow> char \<Rightarrow> screen_text \<Rightarrow> screen_text" where
  "text_put r c tab x p =
     (if x = CHR 0x09 then (text_plain r c CHR '' '' ^^ tab) p
      else if x = CHR 0x0A then text_newline r c p
      else if x = CHR 0x08 then text_back c p
      else text_plain r c x p)"

text \<open>An operation that keeps a terminal and its shape and does \<open>f\<close> to its text.\<close>

definition does :: "tty \<Rightarrow> tty option \<Rightarrow> (screen_text \<Rightarrow> screen_text) \<Rightarrow> bool" where
  "does t r f \<longleftrightarrow> (\<exists>t'. r = Some t' \<and> tty_ok t' \<and> rows t' = rows t \<and> cols t' = cols t \<and> tab_size t' = tab_size t \<and> text_of t' = f (text_of t))"

lemma does_bind:
  assumes "does t r f" and "\<And>t'. tty_ok t' \<Longrightarrow> rows t' = rows t \<Longrightarrow> cols t' = cols t \<Longrightarrow> text_of t' = f (text_of t) \<Longrightarrow> does t' (k t') g"
  shows "does t (r \<bind> k) (g \<circ> f)"
  using assms unfolding does_def by (auto simp: bind_eq_Some_conv) metis

lemma fill_cursor_does:
  assumes "tty_ok t"
  shows "does t (fill_cursor t colour) id"
  using fill_cursor_ok [OF assms, of colour] tty_ok_sc [OF assms] by (auto simp: does_def text_of_def)

lemma move_cursor:
  assumes "tty_ok t" and "unat x < unat (cols t)" and "unat y < unat (rows t)"
  shows "tty_ok (t\<lparr>cursor_x := x, cursor_y := y\<rparr>)"
  using assms by (simp add: tty_ok_def)

lemma clear_move_draw:
  assumes "tty_ok t" and "unat x < unat (cols t)" and "unat y < unat (rows t)"
  shows "does t (update_cursor t x y) (\<lambda>p. p\<lparr>tx := unat x, ty := unat y\<rparr>)"
proof -
  obtain s where s: "clear_cursor t = Some (t\<lparr>sc := s\<rparr>)" "same_dims (sc t) s"
    using fill_cursor_ok [OF assms(1)] by (auto simp: clear_cursor_def)
  let ?t = "t\<lparr>sc := s, cursor_x := x, cursor_y := y\<rparr>"
  have "tty_ok ?t" using move_cursor [OF tty_ok_sc [OF assms(1) s(2)]] assms(2,3) by simp
  from fill_cursor_does [OF this, of "cursor_foreground t"] show ?thesis
    using s(1) by (auto simp: update_cursor_def draw_cursor_def does_def text_of_def)
qed

lemma scroll_does:
  assumes "tty_ok t"
  shows "does t (scroll t) (text_scroll (unat (cols t)))"
proof -
  obtain s where s: "clear_cursor t = Some (t\<lparr>sc := s\<rparr>)" "same_dims (sc t) s"
    using fill_cursor_ok [OF assms] by (auto simp: clear_cursor_def)
  let ?t = "t\<lparr>sc := s\<rparr>"
  have t: "tty_ok ?t" by (rule tty_ok_sc [OF assms s(2)])
  obtain g where g: "grid_up ?t = Some g" "length g = length (char_grid t)"
    "take (unat (rows t) * unat (cols t)) g = drop (unat (cols t)) (take (unat (rows t) * unat (cols t)) (char_grid t)) @ replicate (unat (cols t)) NUL"
    using grid_up_ok [OF t] by auto
  obtain s' where s': "screen_up s (font_height t) (text_background t) = Some s'" "same_dims s s'"
    using screen_up_ok [OF t, of "text_background t"] by auto
  let ?u = "t\<lparr>char_grid := g, sc := s'\<rparr>"
  have "tty_ok ?u" using tty_ok_sc [OF t, of s'] s'(2) g(2) by (simp add: tty_ok_def)
  from fill_cursor_does [OF this, of "cursor_foreground t"] show ?thesis
    using s(1) g(1,3) s'(1) by (auto simp: scroll_def draw_cursor_def does_def text_of_def text_scroll_def)
qed

lemma put_newline_does:
  assumes "tty_ok t"
  shows "does t (put_newline t) (text_newline (unat (rows t)) (unat (cols t)))"
proof -
  have c: "unat (cursor_y t) < unat (rows t)" "0 < unat (cols t)" "0 < unat (rows t)" using assms by (simp_all add: tty_ok_def)
  have r: "unat (rows t - 1) = unat (rows t) - 1" using c(3) by (subst unat_sub) (simp_all add: word_le_nat_alt)
  show ?thesis
  proof (cases "cursor_y t = rows t - 1")
    case True
    have "does t (scroll t \<bind> (\<lambda>t. update_cursor t 0 (rows t - 1))) ((\<lambda>p. p\<lparr>tx := unat (0 :: ssize_t), ty := unat (rows t - 1)\<rparr>) \<circ> text_scroll (unat (cols t)))"
    proof (rule does_bind [OF scroll_does [OF assms]])
      fix t'
      assume t': "tty_ok t'" "rows t' = rows t" "cols t' = cols t"
      show "does t' (update_cursor t' 0 (rows t' - 1)) (\<lambda>p. p\<lparr>tx := unat (0 :: ssize_t), ty := unat (rows t - 1)\<rparr>)"
        using clear_move_draw [OF t'(1), of 0 "rows t' - 1"] t' c r by simp
    qed
    then show ?thesis using True r c by (auto simp: put_newline_def does_def text_newline_def text_scroll_def text_of_def)
  next
    case False
    then have ne: "unat (cursor_y t) \<noteq> unat (rows t) - 1" using r by (metis word_unat_eq_iff)
    have y: "unat (cursor_y t + 1) = unat (cursor_y t) + 1" using c(1) tty_ok_small(1) [OF assms] by (simp add: unat_add_lt)
    have "does t (update_cursor t 0 (cursor_y t + 1)) (\<lambda>p. p\<lparr>tx := unat (0 :: ssize_t), ty := unat (cursor_y t + 1)\<rparr>)"
      using y ne c by (intro clear_move_draw [OF assms]) simp_all
    then show ?thesis using False ne c(1) y by (auto simp: put_newline_def does_def text_newline_def text_of_def)
  qed
qed

lemma put_back_does:
  assumes "tty_ok t"
  shows "does t (put_back t) (text_back (unat (cols t)))"
proof -
  have c: "unat (cursor_x t) < unat (cols t)" "unat (cursor_y t) < unat (rows t)" "0 < unat (cols t)" using assms by (simp_all add: tty_ok_def)
  obtain s where s: "clear_cursor t = Some (t\<lparr>sc := s\<rparr>)" "same_dims (sc t) s"
    using fill_cursor_ok [OF assms] by (auto simp: clear_cursor_def)
  have t: "tty_ok (t\<lparr>sc := s\<rparr>)" by (rule tty_ok_sc [OF assms s(2)])
  have pred: "unat (w - 1) = unat w - 1" if "w \<noteq> 0" for w :: ssize_t
    using that by (subst unat_sub) (simp_all add: word_le_nat_alt Suc_le_eq unat_gt_0)
  consider (x) "cursor_x t \<noteq> 0" | (y) "cursor_x t = 0" "cursor_y t \<noteq> 0" | (z) "cursor_x t = 0" "cursor_y t = 0" by blast
  then show ?thesis
  proof cases
    case x
    have "tty_ok (t\<lparr>sc := s, cursor_x := cursor_x t - 1\<rparr>)" using move_cursor [OF t, of "cursor_x t - 1" "cursor_y t"] c pred [OF x] by simp
    from fill_cursor_does [OF this, of "cursor_foreground t"] show ?thesis
      using s(1) x pred [OF x] by (auto simp: put_back_def draw_cursor_def does_def text_of_def text_back_def unat_gt_0)
  next
    case y
    have "cols t \<noteq> 0" using c(3) by auto
    note p = pred [OF y(2)] pred [OF this]
    have "tty_ok (t\<lparr>sc := s, cursor_y := cursor_y t - 1, cursor_x := cols t - 1\<rparr>)" using t c p by (auto simp: tty_ok_def)
    from fill_cursor_does [OF this, of "cursor_foreground t"] show ?thesis
      using s(1) y p by (auto simp: put_back_def draw_cursor_def does_def text_of_def text_back_def unat_gt_0)
  next
    case z
    then show ?thesis using assms by (simp add: put_back_def does_def text_of_def text_back_def)
  qed
qed

lemma plot_char_does:
  assumes "tty_ok t" and "printable c"
  shows "\<exists>s. plot_char t (cursor_x t) (cursor_y t) fg bg c =
      Some (t\<lparr>sc := s, char_grid := (char_grid t)[unat (cursor_x t) + unat (cursor_y t) * unat (cols t) := c]\<rparr>) \<and> same_dims (sc t) s"
proof -
  have b: "unat (cursor_x t) < unat (cols t)" "unat (cursor_y t) < unat (rows t)" "unat (rows t) * unat (cols t) \<le> length (char_grid t)"
    using assms(1) by (simp_all add: tty_ok_def)
  note small = tty_ok_small [OF assms(1)]
  have "unat (cursor_y t) * unat (cols t) \<le> 65536 * 65536" using b(2) small by (intro mult_le_mono) simp_all
  then have m: "unat (cursor_y t * cols t) = unat (cursor_y t) * unat (cols t)" by (simp add: unat_mult_lt)
  have i: "unat (cursor_x t + cursor_y t * cols t) = unat (cursor_x t) + unat (cursor_y t) * unat (cols t)"
    using m b(1) small(2) \<open>_ \<le> 65536 * 65536\<close> by (subst unat_add_lt) simp_all
  have "Suc (unat (cursor_y t)) * unat (cols t) \<le> unat (rows t) * unat (cols t)" using b(2) by (intro mult_le_mono1) simp
  then have "unat (cursor_x t) + unat (cursor_y t) * unat (cols t) < length (char_grid t)" using b(1,3) by simp
  moreover obtain s where "render_char t (cursor_x t * font_width t) (cursor_y t * font_height t) fg bg c = Some (t\<lparr>sc := s\<rparr>)" "same_dims (sc t) s"
    using render_char_ok [OF assms b(1,2)] by blast
  ultimately show ?thesis using i by (intro exI [of _ s]) (simp add: plot_char_def)
qed

lemma put_plain_does:
  assumes "tty_ok t" and "printable c"
  shows "does t (put_plain t c) (text_plain (unat (rows t)) (unat (cols t)) c)"
proof -
  let ?R = "unat (rows t)" and ?C = "unat (cols t)" and ?x = "unat (cursor_x t)" and ?y = "unat (cursor_y t)"
  have b: "?x < ?C" "?y < ?R" "0 < ?C" using assms(1) by (simp_all add: tty_ok_def)
  note small = tty_ok_small [OF assms(1)]
  obtain s where s: "clear_cursor t = Some (t\<lparr>sc := s\<rparr>)" "same_dims (sc t) s"
    using fill_cursor_ok [OF assms(1)] by (auto simp: clear_cursor_def)
  note t1 = tty_ok_sc [OF assms(1) s(2)]
  let ?g = "(char_grid t)[?x + ?y * ?C := c]"
  obtain s2 where p: "plot_char (t\<lparr>sc := s\<rparr>) (cursor_x t) (cursor_y t) (text_foreground t) (text_background t) c = Some (t\<lparr>sc := s2, char_grid := ?g\<rparr>)"
    "same_dims s s2" using plot_char_does [OF t1 assms(2)] by auto
  let ?u = "t\<lparr>sc := s2, char_grid := ?g\<rparr>"
  have u: "tty_ok ?u" using tty_ok_sc [OF t1, of s2] p(2) by (simp add: tty_ok_def)
  have xs: "unat (cursor_x t + 1) = ?x + 1" "unat (cursor_y t + 1) = ?y + 1" using b small by (simp_all add: unat_add_lt)
  have eq: "cursor_x t + 1 = cols t \<longleftrightarrow> ?x + 1 = ?C" "cursor_y t + 1 = rows t \<longleftrightarrow> ?y + 1 = ?R" "cursor_y t \<noteq> rows t"
    using xs b(2) by (auto simp: word_unat_eq_iff)
  have cells: "take (?R * ?C) ?g = (take (?R * ?C) (char_grid t))[?x + ?y * ?C := c]" by (rule take_update_swap)
  note defs = put_plain_def Let_def draw_cursor_def does_def text_of_def text_plain_def
  show ?thesis
  proof (cases "?x + 1 < ?C")
    case True
    have "tty_ok (?u\<lparr>cursor_x := cursor_x t + 1\<rparr>)" using u xs True by (simp add: tty_ok_def)
    from fill_cursor_does [OF this, of "cursor_foreground t"] show ?thesis using s(1) p(1) True eq xs cells by (auto simp: defs)
  next
    case False
    then have xe: "?x + 1 = ?C" using b(1) by simp
    show ?thesis
    proof (cases "?y + 1 < ?R")
      case True
      have "tty_ok (?u\<lparr>cursor_x := 0, cursor_y := cursor_y t + 1\<rparr>)" using u xs True b(3) by (simp add: tty_ok_def)
      from fill_cursor_does [OF this, of "cursor_foreground t"] show ?thesis using s(1) p(1) True xe eq xs cells by (auto simp: defs)
    next
      case no: False
      then have ye: "?y + 1 = ?R" using b(2) by simp
      then have rm: "rows t - 1 = cursor_y t" using eq(2) by (metis add_diff_cancel_right')
      let ?v = "?u\<lparr>cursor_x := 0, cursor_y := cursor_y t\<rparr>"
      have v: "tty_ok ?v" using u b(2,3) by (simp add: tty_ok_def)
      have "does ?v (scroll ?v \<bind> draw_cursor) (id \<circ> text_scroll (unat (cols ?v)))"
        by (rule does_bind [OF scroll_does [OF v]]) (simp add: draw_cursor_def fill_cursor_does)
      then show ?thesis using s(1) p(1) xe ye eq cells rm by (simp add: put_plain_def Let_def does_def text_of_def text_plain_def text_scroll_def)
    qed
  qed
qed

section \<open>Properties\<close>


definition demo_tty :: "nat \<Rightarrow> tty" where
  "demo_tty n = \<lparr>cursor_foreground = 0xffffff, text_foreground = 0xffffff, text_background = 0, cursor_x = 1, cursor_y = 0, tab_size = 4,
     font = replicate 224 0, font_height = 1, font_width = 8, rows = 1, cols = 2,
     sc = \<lparr>framebuffer = replicate n 0, double_buffer = replicate n 0, sc_pitch = 64, sc_width = 16, sc_height = 1, sc_bpp = 32, sc_size = 64\<rparr>,
     char_grid = [CHR ''a'', CHR ''b'']\<rparr>"


lemma set_pixel_dims: "set_pixel s x y colour = Some s' \<Longrightarrow> same_dims s s'"
  by (auto simp: set_pixel_def bind_eq_Some_conv same_dims_def write_at_eq_Some)

lemma fill_cursor_dims:
  assumes "fill_cursor t colour = Some t'"
  shows "\<exists>s. t' = t\<lparr>sc := s\<rparr> \<and> same_dims (sc t) s"
proof -
  let ?f = "\<lambda>i j s. set_pixel s (of_nat j + cursor_x t * font_width t) (of_nat i + cursor_y t * font_height t) colour"
  obtain s where s: "for_range (\<lambda>i. for_range (?f i) 0 (unat (font_width t))) 0 (unat (font_height t)) (sc t) = Some s" "t' = t\<lparr>sc := s\<rparr>"
    using assms by (auto simp: fill_cursor_def bind_eq_Some_conv)
  have "same_dims (sc t) s"
  proof (rule for_range_Some_invariant [OF s(1), where I = "\<lambda>_. same_dims (sc t)"])
    fix k u u'
    assume u: "same_dims (sc t) u" "for_range (?f k) 0 (unat (font_width t)) u = Some u'"
    show "same_dims (sc t) u'"
      by (rule for_range_Some_invariant [OF u(2), where I = "\<lambda>_. same_dims (sc t)"]) (use u(1) set_pixel_dims same_dims_trans in blast)+
  qed simp
  then show ?thesis using s(2) by blast
qed

text \<open>A screen that is filled by its cells, with buffers of exactly its pixels.\<close>

definition exact_screen :: "tty \<Rightarrow> bool" where
  "exact_screen t \<longleftrightarrow> sc_bpp (sc t) = 32 \<and> font_width t = 8 \<and> 0 < unat (font_height t) \<and> unat (font_height t) < 256
     \<and> 0 < unat (rows t) \<and> 0 < unat (cols t) \<and> unat (sc_width (sc t)) = unat (cols t) * 8 \<and> unat (sc_height (sc t)) = unat (rows t) * unat (font_height t)
     \<and> unat (sc_pitch (sc t)) = 4 * unat (sc_width (sc t)) \<and> unat (sc_height (sc t)) < 65536 \<and> unat (sc_pitch (sc t)) < 65536
     \<and> length (framebuffer (sc t)) = unat (sc_width (sc t)) * unat (sc_height (sc t))"

lemma pixel_behind:
  assumes "exact_screen t" and "same_dims (sc t) s" and "cursor_x t = cols t - 1" and "cursor_y t = rows t - 1"
  shows "set_pixel s (cursor_x t * font_width t + 8) (cursor_y t * font_height t + of_nat (unat (font_height t) - 1)) colour = None"
proof -
  let ?C = "unat (cols t)" and ?R = "unat (rows t)" and ?F = "unat (font_height t)" and ?W = "unat (sc_width (sc t))"
  have e: "sc_bpp s = 32" "font_width t = 8" "0 < ?F" "0 < ?R" "?W = ?C * 8" "unat (sc_pitch s) = 4 * ?W" "?R * ?F < 65536" "4 * ?W < 65536"
    "length (framebuffer s) = ?W * (?R * ?F)" using assms(1,2) by (auto simp: exact_screen_def same_dims_def)
  have x: "cursor_x t * font_width t + 8 = cols t * 8" unfolding assms(3) e(2) by (simp add: algebra_simps)
  have ux: "unat (cols t * 8) = ?W" using e(5,8) by (simp add: unat_mult_lt)
  have "of_nat (?F - 1) = font_height t - 1" using e(3) by (simp add: of_nat_diff)
  then have y: "cursor_y t * font_height t + of_nat (?F - 1) = rows t * font_height t - 1" unfolding assms(4) by (simp add: algebra_simps)
  have "unat (rows t * font_height t) = ?R * ?F" using e(7) by (simp add: unat_mult_lt)
  then have uy: "unat (rows t * font_height t - 1) = ?R * ?F - 1" using e(3,4) by (subst unat_sub) (simp_all add: word_le_nat_alt Suc_le_eq)
  have "unat (sc_pitch s div 4) = ?W" using e(6) by (simp add: unat_div)
  then have uw: "unat (ucast (sc_pitch s div 4) :: u64) = ?W" using e(8) by (simp add: unsigned_ucast_eq take_bit_nat_eq_self)
  have "?W * (?R * ?F - 1) \<le> 65536 * 65536" using e(7,8) by (intro mult_le_mono) simp_all
  then have um: "unat (ucast (sc_pitch s div 4) * (rows t * font_height t - 1) :: u64) = ?W * (?R * ?F - 1)" "?W + ?W * (?R * ?F - 1) < 2 ^ 64"
    using uw uy e(8) by (subst unat_mult_lt, simp_all)
  have "?R * ?F = Suc (?R * ?F - 1)" using e(3,4) by simp
  then have "?W + ?W * (?R * ?F - 1) = length (framebuffer s)" using e(9) by (metis mult_Suc_right)
  then have "unat (cols t * 8 + ucast (sc_pitch s div 4) * (rows t * font_height t - 1)) = length (framebuffer s)"
    using ux um by (subst unat_add_lt) simp_all
  moreover have "write_at (framebuffer s) (length (framebuffer s)) colour = None" by (simp add: write_at_None)
  ultimately show ?thesis unfolding x y using e(1) by (simp add: set_pixel_def pixel_index_def)
qed

lemma for_range_last_None:
  assumes "\<And>u. for_range f 0 m s = Some u \<Longrightarrow> f m u = None"
  shows "for_range f 0 (m + 1) s = None"
  unfolding for_range_add using assms by (cases "for_range f 0 m s") simp_all

text \<open>
  The picture of a character starts one pixel to the right of its cell. On a screen that its cells fill
  exactly, a character in the last cell is drawn behind the end of the frame buffer: printing there
  is a fault.
\<close>

theorem putchar_overruns:
  assumes "exact_screen t" and "cursor_x t = cols t - 1" and "cursor_y t = rows t - 1" and "c \<notin> {CHR 0x09, CHR 0x0A, CHR 0x08}"
  shows "putchar t c = None"
proof -
  have "plot_char (t\<lparr>sc := s\<rparr>) (cursor_x t) (cursor_y t) fg bg c = None" if s: "same_dims (sc t) s" for s fg bg
  proof -
    let ?n = "unat (font_height t)"
    have n: "?n - 1 + 1 = ?n" "font_width t = 8" "\<not> 255 < font_height t" using assms(1) by (auto simp: exact_screen_def word_less_nat_alt)
    let ?o = "unat (ucast ((ucast (of_char c :: u8) - 0x20) * font_height t :: size_t) :: u16)"
    let ?f = "\<lambda>i j s. do { b \<leftarrow> read_at (font t) (?o + j);
      set_pixel s (cursor_x t * font_width t + of_nat (8 - i)) (cursor_y t * font_height t + of_nat j) (if drop_bit i b AND 1 \<noteq> 0 then fg else bg) }"
    have last: "?f 0 (?n - 1) u = None" if "same_dims (sc t) u" for u
      using pixel_behind [OF assms(1) that assms(2,3)] by (cases "read_at (font t) (?o + (?n - 1))") simp_all
    have "for_range (?f 0) 0 (?n - 1 + 1) s = None"
    proof (rule for_range_last_None)
      fix u
      assume u: "for_range (?f 0) 0 (?n - 1) s = Some u"
      have "same_dims (sc t) u"
        by (rule for_range_Some_invariant [OF u, where I = "\<lambda>_. same_dims (sc t)"])
          (use s same_dims_trans set_pixel_dims in \<open>auto simp: bind_eq_Some_conv\<close>)
      then show "?f 0 (?n - 1) u = None" by (rule last)
    qed
    then have "for_range (?f 0) 0 ?n s = None" using n(1) by metis
    then have "for_range (\<lambda>i. for_range (?f i) 0 ?n) 0 (Suc 7) s = None" unfolding for_range.simps by simp
    then show ?thesis using n(2,3) by (simp add: plot_char_def render_char_def Let_def)
  qed
  note plot = this
  have "put_plain t c = None"
  proof (cases "clear_cursor t")
    case (Some a)
    then obtain s where "a = t\<lparr>sc := s\<rparr>" "same_dims (sc t) s" using fill_cursor_dims unfolding clear_cursor_def by blast
    then show ?thesis using plot Some by (simp add: put_plain_def)
  qed (simp add: put_plain_def)
  then show ?thesis using assms(4) by (simp add: putchar_def)
qed

theorem putchar_overruns_witness: "putchar (demo_tty 16) CHR ''c'' = None"
  using putchar_overruns [of "demo_tty 16" "CHR ''c''"] by (simp add: exact_screen_def demo_tty_def)

text \<open>
  The two tables of the keyboard have 58 characters; the code of a key above them, up to the bound that is
  tested, is read outside the table.
\<close>

theorem ps2_keyboard_table:
  assumes "keycode \<notin> {0xaa, 0x2a, 0xf, 0xe, 0x1c}" and "keycode \<le> 128"
  shows "ps2_keyboard upkey keycode q = (if keycode < 58
    then map_option (Pair upkey) (put_current q ((if upkey then cap_keymap else keymap) ! unat keycode)) else None)"
proof -
  have l: "length keymap = 58" "length cap_keymap = 58" by (simp_all add: keymap_def cap_keymap_def)
  show ?thesis
  proof (cases "keycode < 58")
    case True
    then show ?thesis using assms l by (cases upkey) (simp_all add: ps2_keyboard_def word_less_nat_alt map_conv_bind_option comp_def)
  next
    case False
    then have "read_at (if upkey then cap_keymap else keymap) (unat keycode) = None" using l by (simp add: read_at_None word_less_nat_alt)
    then show ?thesis using assms False by (simp add: ps2_keyboard_def)
  qed
qed

theorem ps2_keyboard_table_witness: "\<forall>q. ps2_keyboard False 0x3b q = None"
  using ps2_keyboard_table [of "0x3b" False] by simp

end
