(* ===== verification/Xhci.thy ===== *)
theory Xhci
  imports Pci Interrupts
begin

text \<open>
  \<^verbatim>\<open>drivers/xhci\<close>: the probe of a USB host controller. The constructor tells the kind of controller from its
  programming interface, finds the register blocks of an xHCI controller, reads its limits and walks along its
  list of extended capabilities. What a read of a register does is a parameter.
\<close>

section \<open>Definitions\<close>

record 'h xhci_bus =
  cfg_ports :: "'h ports"
  serial :: "'h io_ports"
  reg8 :: "'h \<Rightarrow> u64 \<Rightarrow> u8 \<times> 'h"
  reg16 :: "'h \<Rightarrow> u64 \<Rightarrow> u16 \<times> 'h"
  reg32 :: "'h \<Rightarrow> u64 \<Rightarrow> u32 \<times> 'h"

text \<open>The registers have these offsets in the packed structures.\<close>

definition off_interface_vs :: u64 where "off_interface_vs = 2"
definition off_sparms1 :: u64 where "off_sparms1 = 4"
definition off_cap_parms1 :: u64 where "off_cap_parms1 = 16"
definition off_doorbell_offset :: u64 where "off_doorbell_offset = 20"
definition off_runtime_offset :: u64 where "off_runtime_offset = 24"
definition off_page_size :: u64 where "off_page_size = 8"

record controller =
  max_device_slots :: size_t
  max_interrupts :: size_t
  max_ports :: size_t
  x_page_size :: size_t
  x_pci_device :: pci_device
  x_bar :: pci_bar
  cap :: u64
  operation :: u64
  runtime :: u64
  db :: u64
  extended_cap :: u64
  max_page_size :: size_t

text \<open>The register blocks, from the addresses the capability registers give.\<close>

definition find_blocks :: "'h xhci_bus \<Rightarrow> u64 \<Rightarrow> controller \<Rightarrow> 'h \<Rightarrow> controller \<times> 'h" where
  "find_blocks B hv c h =
     (let base = bar_base (x_bar c);
          c = c\<lparr>cap := base + hv\<rparr>;
          (len, h) = reg8 B h (cap c);
          c = c\<lparr>operation := base + ucast len + hv\<rparr>;
          (rt, h) = reg32 B h (cap c + off_runtime_offset);
          c = c\<lparr>runtime := base + ucast (rt AND NOT 0x1f) + hv\<rparr>;
          (d, h) = reg32 B h (cap c + off_doorbell_offset);
          c = c\<lparr>db := base + ucast (d AND NOT 0x3) + hv\<rparr>;
          (p, h) = reg32 B h (cap c + off_cap_parms1)
      in (c\<lparr>extended_cap := base + ucast ((drop_bit 16 p AND 0xffff) * 4) + hv\<rparr>, h))"

text \<open>The last bit of the page size register that is set among the first \<open>n\<close> after \<open>i\<close>, the register being read for each.\<close>

fun highest_page_bit :: "'h xhci_bus \<Rightarrow> u64 \<Rightarrow> nat \<Rightarrow> nat \<Rightarrow> ssize_t \<Rightarrow> 'h \<Rightarrow> ssize_t \<times> 'h" where
  "highest_page_bit B a i 0 highest h = (highest, h)"
| "highest_page_bit B a i (Suc n) highest h =
     (case reg32 B h a of (v, h) \<Rightarrow>
        highest_page_bit B a (Suc i) n (if v AND push_bit i 1 \<noteq> 0 then of_nat i else highest) h)"

definition cap_message :: string where
  "cap_message = ''[XHCI] Unhandled protocol with cap id {}'' @ line_end"

partial_function (option) walk_caps :: "string \<Rightarrow> 'h xhci_bus \<Rightarrow> u64 \<Rightarrow> size_t \<Rightarrow> 'h \<Rightarrow> 'h option" where
  "walk_caps tmp B ext i h = do {
     let (v, h) = reg32 B h (ext + i * 4);
     let cap_id = v AND 0xff;
     let (w, h) = reg32 B h (ext + i * 4);
     let next_cap = drop_bit 8 w AND 0xff;
     h \<leftarrow> (if cap_id = 1 \<or> cap_id = 2 then Some h
           else print tmp (serial B) h cap_message [Arg_int (int (unat cap_id))]);
     if next_cap = 0 then Some h else walk_caps tmp B ext (i + ucast next_cap) h
   }"

text \<open>The kinds of controller that are only reported, or not even that.\<close>

definition usb_kind :: "u8 \<Rightarrow> string option \<times> bool" where
  "usb_kind pi =
     (if pi = 0x0 then (Some ''[USB] UHCI controller detcted'', False)
      else if pi = 0x10 then (Some ''[USB] OHCI controller detcted'', False)
      else if pi = 0x20 then (Some ''[USB] EHCI controller detected'', False)
      else if pi = 0x30 then (Some ''[USB] XHCI controller detected'', True)
      else if pi = 0x80 then (Some ''[USB] Controller type unspecified'', False)
      else if pi = 0xfe then (None, False)
      else (None, True))"

definition read_version :: "string \<Rightarrow> 'h xhci_bus \<Rightarrow> controller \<Rightarrow> 'h \<Rightarrow> 'h option" where
  "read_version tmp B c h = do {
     let (v, h) = reg16 B h (cap c + off_interface_vs);
     let major_version = drop_bit 8 v AND 0xff;
     let (v, h) = reg16 B h (cap c + off_interface_vs);
     let minor_version = drop_bit 4 v AND 0xf;
     let (v, h) = reg16 B h (cap c + off_interface_vs);
     let tertiary_version = v AND 0xf;
     print tmp (serial B) h (''[XHCI] HCI Controller Detcted {}.{}.{}'' @ line_end)
       [Arg_int (int (unat major_version)), Arg_int (int (unat minor_version)), Arg_int (int (unat tertiary_version))]
   }"

definition read_limits :: "string \<Rightarrow> 'h xhci_bus \<Rightarrow> controller \<Rightarrow> 'h \<Rightarrow> (controller \<times> 'h) option" where
  "read_limits tmp B c h = do {
     let (v, h) = reg32 B h (cap c + off_sparms1);
     let c = c\<lparr>max_device_slots := ucast (v AND 0xff)\<rparr>;
     let (v, h) = reg32 B h (cap c + off_sparms1);
     let c = c\<lparr>max_interrupts := ucast (drop_bit 8 v AND 0xff)\<rparr>;
     let (v, h) = reg32 B h (cap c + off_sparms1);
     let c = c\<lparr>max_ports := ucast (drop_bit 24 v AND 0xff)\<rparr>;
     h \<leftarrow> print_all tmp (serial B) h
       [(''[XHCI] Max device slots {}'' @ line_end, [num_arg (max_device_slots c)]),
        (''[XHCI] Max interrupts {}'' @ line_end, [num_arg (max_interrupts c)]),
        (''[XHCI] Max ports {}'' @ line_end, [num_arg (max_ports c)])];
     let (v, h) = reg32 B h (cap c + off_cap_parms1);
     h \<leftarrow> print tmp (serial B) h
       ((if v AND 1 \<noteq> 0 then ''[XHCI] 64 bit addressing supported'' else ''[XHCI] 64 bit addressing not supported'') @ line_end) [];
     Some (c, h)
   }"

definition read_page_size :: "string \<Rightarrow> 'h xhci_bus \<Rightarrow> controller \<Rightarrow> 'h \<Rightarrow> (controller \<times> 'h) option" where
  "read_page_size tmp B c h = do {
     let (highest_bit, h) = highest_page_bit B (operation c + off_page_size) 0 16 0 h;
     let c = c\<lparr>max_page_size := pow 2 (12 + highest_bit)\<rparr>;
     h \<leftarrow> print tmp (serial B) h (''[XHCI] Max page size {x}'' @ line_end) [num_arg (max_page_size c)];
     Some (c, h)
   }"

text \<open>\<open>g\<close> is the object before its members are set.\<close>

definition controller_ctor :: "string \<Rightarrow> 'h xhci_bus \<Rightarrow> u64 \<Rightarrow> pci_device \<Rightarrow> controller \<Rightarrow> 'h \<Rightarrow> (controller \<times> 'h) option" where
  "controller_ctor tmp B hv x g h = do {
     let c = g\<lparr>x_pci_device := x\<rparr>;
     let (msg, go) = usb_kind (prog_if x);
     h \<leftarrow> (case msg of None \<Rightarrow> Some h | Some m \<Rightarrow> print tmp (serial B) h (m @ line_end) []);
     if \<not> go then Some (c, h)
     else do {
       let h = become_bus_master (cfg_ports B) x h;
       let h = enable_mmio (cfg_ports B) x h;
       let (b, h) = get_bar (cfg_ports B) x h 0;
       let c = (case b of Some r \<Rightarrow> c\<lparr>x_bar := r\<rparr> | None \<Rightarrow> c);
       let (c, h) = find_blocks B hv c h;
       h \<leftarrow> read_version tmp B c h;
       (c, h) \<leftarrow> read_limits tmp B c h;
       (c, h) \<leftarrow> read_page_size tmp B c h;
       h \<leftarrow> walk_caps tmp B (extended_cap c) 0 h;
       Some (c, h)
     }
   }"

section \<open>Controllers with fixed registers\<close>

text \<open>
  The registers that the probe reads are read-only: every read gives the same value, and has no effect on the
  serial line. \<open>get_bar\<close> gives the block \<open>b\<close>.
\<close>

definition fixed_regs :: "'h xhci_bus \<Rightarrow> ('h \<Rightarrow> u8 list) \<Rightarrow> (u64 \<Rightarrow> u8) \<Rightarrow> (u64 \<Rightarrow> u16) \<Rightarrow> (u64 \<Rightarrow> u32) \<Rightarrow> bool" where
  "fixed_regs B sent v8 v16 v32 \<longleftrightarrow> (\<forall>h a.
     fst (reg8 B h a) = v8 a \<and> sent (snd (reg8 B h a)) = sent h
     \<and> fst (reg16 B h a) = v16 a \<and> sent (snd (reg16 B h a)) = sent h
     \<and> fst (reg32 B h a) = v32 a \<and> sent (snd (reg32 B h a)) = sent h)"

lemma fixed_reg8: "fixed_regs B sent v8 v16 v32 \<Longrightarrow> \<exists>h'. reg8 B h a = (v8 a, h') \<and> sent h' = sent h"
  unfolding fixed_regs_def by (metis prod.collapse)

lemma fixed_reg16: "fixed_regs B sent v8 v16 v32 \<Longrightarrow> \<exists>h'. reg16 B h a = (v16 a, h') \<and> sent h' = sent h"
  unfolding fixed_regs_def by (metis prod.collapse)

lemma fixed_reg32: "fixed_regs B sent v8 v16 v32 \<Longrightarrow> \<exists>h'. reg32 B h a = (v32 a, h') \<and> sent h' = sent h"
  unfolding fixed_regs_def by (metis prod.collapse)

lemma print_returns:
  assumes "serial_line P sent busy" and "fmt_ok s" and "list_all (arg_ok tmp) args"
  shows "\<exists>h'. print tmp P h s args = Some h'"
proof -
  obtain t where "print_format tmp s args = Some t" using print_format_total [OF assms(2,3)] by blast
  then show ?thesis using serial_all_sends [OF assms(1), of h t] by (auto simp: print_def)
qed

text \<open>The last bit set, or 0 when there is none.\<close>

definition last_bit :: "u32 \<Rightarrow> nat \<Rightarrow> nat \<Rightarrow> bool" where
  "last_bit v n k \<longleftrightarrow> k < n \<and> (bit v k \<or> k = 0) \<and> (\<forall>j. k < j \<and> j < n \<longrightarrow> \<not> bit v j)"

lemma highest_page_bit_last:
  assumes "fixed_regs B sent v8 v16 v32"
  shows "\<exists>k h'. highest_page_bit B a i n (of_nat k0) h = (of_nat k, h') \<and> sent h' = sent h
    \<and> (k = k0 \<or> i \<le> k \<and> k < i + n \<and> bit (v32 a) k) \<and> (\<forall>j. i \<le> j \<and> j < i + n \<and> bit (v32 a) j \<longrightarrow> i \<le> k \<and> j \<le> k)"
proof (induction n arbitrary: i k0 h)
  case (Suc n)
  obtain h1 where h1: "reg32 B h a = (v32 a, h1)" "sent h1 = sent h" using fixed_reg32 [OF assms] by blast
  let ?k = "if bit (v32 a) i then i else k0"
  obtain k h' where k: "highest_page_bit B a (Suc i) n (of_nat ?k) h1 = (of_nat k, h')" "sent h' = sent h1"
    "k = ?k \<or> Suc i \<le> k \<and> k < Suc i + n \<and> bit (v32 a) k" "\<forall>j. Suc i \<le> j \<and> j < Suc i + n \<and> bit (v32 a) j \<longrightarrow> Suc i \<le> k \<and> j \<le> k"
    using Suc.IH [of "Suc i" ?k h1] by blast
  have "highest_page_bit B a i (Suc n) (of_nat k0) h = (of_nat k, h')"
    using h1(1) k(1) by (cases "bit (v32 a) i") (simp_all add: bit_iff_and_push_bit_not_eq_0)
  moreover have "k = k0 \<or> i \<le> k \<and> k < i + Suc n \<and> bit (v32 a) k" using k(3) by (auto split: if_splits)
  moreover have "i \<le> k \<and> j \<le> k" if "i \<le> j" "j < i + Suc n" "bit (v32 a) j" for j
    using k(3,4) that by (cases "j = i") (auto split: if_splits dest!: spec [of _ j])
  ultimately show ?case using h1(2) k(2) by auto
qed auto

lemma read_page_size_fixed:
  assumes "fixed_regs B sent v8 v16 v32" and "serial_line (serial B) sent busy" and "length tmp = 50"
  shows "\<exists>k h'. read_page_size tmp B c h = Some (c\<lparr>max_page_size := 2 ^ (12 + k)\<rparr>, h')
    \<and> last_bit (v32 (operation c + off_page_size)) 16 k"
proof -
  obtain k h1 where k: "highest_page_bit B (operation c + off_page_size) 0 16 0 h = (of_nat k, h1)"
    "k = 0 \<or> k < 16 \<and> bit (v32 (operation c + off_page_size)) k"
    "\<forall>j. j < 16 \<and> bit (v32 (operation c + off_page_size)) j \<longrightarrow> j \<le> k"
    using highest_page_bit_last [OF assms(1), of "operation c + off_page_size" 0 16 0 h] by auto
  then have l: "last_bit (v32 (operation c + off_page_size)) 16 k" by (auto simp: last_bit_def)
  then have "k < 16" by (simp add: last_bit_def)
  then have u: "unat (12 + of_nat k :: ssize_t) = 12 + k" by (subst unat_add_lt) (simp_all add: unat_of_nat_lt)
  then have "sint (12 + of_nat k :: ssize_t) = 12 + int k" using sint_eq_unat [of "12 + of_nat k"] \<open>k < 16\<close> by simp
  then have p: "pow 2 (12 + of_nat k) = 2 ^ (12 + k)" by (simp add: pow_eq nat_add_distrib)
  have "\<exists>h'. print tmp (serial B) h1 (''[XHCI] Max page size {x}'' @ line_end) [num_arg (2 ^ (12 + k))] = Some h'"
    by (rule print_returns [OF assms(2)]) (simp_all add: line_end_def num_arg_ok [OF assms(3)])
  then show ?thesis using k(1) p l by (auto simp: read_page_size_def)
qed


lemma small_arg_ok: "length tmp = 50 \<Longrightarrow> n < 2 ^ 64 \<Longrightarrow> arg_ok tmp (Arg_int (int n))"
  using num_arg_ok [of tmp "of_nat n"] by (simp add: num_arg_def unat_of_nat_lt)

lemma uint_arg_ok: "length tmp = 50 \<Longrightarrow> LENGTH('a) \<le> 64 \<Longrightarrow> arg_ok tmp (Arg_int (uint (w :: 'a :: len word)))"
proof -
  assume "length tmp = 50" and l: "LENGTH('a) \<le> 64"
  have "(2::nat) ^ LENGTH('a) \<le> 2 ^ 64" using l by (rule power_increasing) simp
  then have "unat w < 2 ^ 64" by (rule less_le_trans [OF unsigned_less])
  then show ?thesis using small_arg_ok [OF \<open>length tmp = 50\<close>, of "unat w"] by simp
qed

lemma read_version_fixed:
  assumes "fixed_regs B sent v8 v16 v32" and "serial_line (serial B) sent busy" and "length tmp = 50"
  shows "\<exists>h'. read_version tmp B c h = Some h'"
proof -
  let ?a = "cap c + off_interface_vs"
  obtain h1 where h1: "reg16 B h ?a = (v16 ?a, h1)" using fixed_reg16 [OF assms(1)] by blast
  obtain h2 where h2: "reg16 B h1 ?a = (v16 ?a, h2)" using fixed_reg16 [OF assms(1)] by blast
  obtain h3 where h3: "reg16 B h2 ?a = (v16 ?a, h3)" using fixed_reg16 [OF assms(1)] by blast
  show ?thesis unfolding read_version_def h1 h2 h3 Let_def prod.case
    by (rule print_returns [OF assms(2)]) (simp_all add: line_end_def uint_arg_ok [OF assms(3)])
qed

lemma read_limits_fixed:
  assumes "fixed_regs B sent v8 v16 v32" and "serial_line (serial B) sent busy" and "length tmp = 50"
  shows "\<exists>h'. read_limits tmp B c h = Some (c\<lparr>max_device_slots := ucast (v32 (cap c + off_sparms1) AND 0xff),
      max_interrupts := ucast (drop_bit 8 (v32 (cap c + off_sparms1)) AND 0xff),
      max_ports := ucast (drop_bit 24 (v32 (cap c + off_sparms1)) AND 0xff)\<rparr>, h')"
proof -
  let ?a = "cap c + off_sparms1" and ?b = "cap c + off_cap_parms1"
  obtain h1 where h1: "reg32 B h ?a = (v32 ?a, h1)" using fixed_reg32 [OF assms(1)] by blast
  obtain h2 where h2: "reg32 B h1 ?a = (v32 ?a, h2)" using fixed_reg32 [OF assms(1)] by blast
  obtain h3 where h3: "reg32 B h2 ?a = (v32 ?a, h3)" using fixed_reg32 [OF assms(1)] by blast
  let ?ps = "[(''[XHCI] Max device slots {}'' @ line_end, [num_arg (ucast (v32 ?a AND 0xff))]),
        (''[XHCI] Max interrupts {}'' @ line_end, [num_arg (ucast (drop_bit 8 (v32 ?a) AND 0xff))]),
        (''[XHCI] Max ports {}'' @ line_end, [num_arg (ucast (drop_bit 24 (v32 ?a) AND 0xff))])]"
  have "\<forall>(s, args) \<in> set ?ps. fmt_ok s \<and> list_all (arg_ok tmp) args" by (simp add: line_end_def num_arg_ok [OF assms(3)])
  then obtain h4 where h4: "print_all tmp (serial B) h3 ?ps = Some h4" using print_all_sends [OF assms(2)] by blast
  obtain h5 where h5: "reg32 B h4 ?b = (v32 ?b, h5)" using fixed_reg32 [OF assms(1)] by blast
  let ?m = "(if v32 ?b AND 1 \<noteq> 0 then ''[XHCI] 64 bit addressing supported'' else ''[XHCI] 64 bit addressing not supported'') @ line_end"
  have "fmt_ok ?m" by (simp add: line_end_def)
  then obtain h6 where h6: "print tmp (serial B) h5 ?m [] = Some h6" using print_returns [OF assms(2), of ?m tmp "[]"] by auto
  show ?thesis using h1 h2 h3 h4 h5 h6 by (simp add: read_limits_def del: append_Cons print_all.simps)
qed

section \<open>Extended capabilities\<close>

text \<open>The capabilities from the index \<open>i\<close> on, as the values of their first registers.\<close>

definition next_of :: "u32 \<Rightarrow> u32" where "next_of v = drop_bit 8 v AND 0xff"

definition id_of :: "u32 \<Rightarrow> u32" where "id_of v = v AND 0xff"

fun caps_list :: "(u64 \<Rightarrow> u32) \<Rightarrow> u64 \<Rightarrow> size_t \<Rightarrow> u32 list \<Rightarrow> bool" where
  "caps_list r ext i [] \<longleftrightarrow> False"
| "caps_list r ext i (v # vs) \<longleftrightarrow> r (ext + i * 4) = v
     \<and> (if next_of v = 0 then vs = [] else caps_list r ext (i + ucast (next_of v)) vs)"

text \<open>What is sent for a list of capabilities: a line for each that is neither of the two known ones.\<close>

definition caps_lines :: "u32 list \<Rightarrow> string list \<Rightarrow> bool" where
  "caps_lines vs ts \<longleftrightarrow> list_all2 (\<lambda>v t. \<exists>ds. num_text 10 (unat (id_of v)) ds
      \<and> t = ''[XHCI] Unhandled protocol with cap id '' @ ds @ [CHR 0x0A]) (filter (\<lambda>v. id_of v \<notin> {1, 2}) vs) ts"

lemma cap_message_sends:
  assumes "serial_line P sent busy" and "length tmp = 50"
  shows "\<exists>h' ds. num_text 10 (unat (v :: u32)) ds \<and> print tmp P h cap_message [Arg_int (int (unat v))] = Some h'
    \<and> sent h' = sent h @ map of_char (''[XHCI] Unhandled protocol with cap id '' @ ds @ [CHR 0x0A])"
proof -
  have "unat v < 10 ^ 49" by (rule less_trans [OF unsigned_less]) simp
  then obtain ds where ds: "print_integer tmp (int (unat v)) 10 = Some ds" "num_text 10 (unat v) ds"
    using print_integer_fits [OF assms(2), of "unat v" 10] by auto
  have "print_format tmp cap_message [Arg_int (int (unat v))] = Some (''[XHCI] Unhandled protocol with cap id '' @ ds @ [CHR 0x0A])"
    using ds(1) by (simp add: cap_message_def line_end_def)
  then show ?thesis using ds(2) serial_all_sends [OF assms(1), of h "''[XHCI] Unhandled protocol with cap id '' @ ds @ [CHR 0x0A]"]
    by (auto simp: print_def)
qed


text \<open>One step of the walk.\<close>

lemma walk_step:
  assumes "fixed_regs B sent v8 v16 v32" and "serial_line (serial B) sent busy" and "length tmp = 50" and v: "v32 (ext + i * 4) = v"
  shows "\<exists>h1 t. caps_lines [v] t \<and> sent h1 = sent h @ map of_char (concat t)
    \<and> walk_caps tmp B ext i h = (if next_of (v) = 0 then Some h1 else walk_caps tmp B ext (i + ucast (next_of (v))) h1)"
proof -
  obtain h0 where h0: "reg32 B h (ext + i * 4) = (v, h0)" "sent h0 = sent h" using fixed_reg32 [OF assms(1)] unfolding v [symmetric] by blast
  obtain h1 where h1: "reg32 B h0 (ext + i * 4) = (v, h1)" "sent h1 = sent h0" using fixed_reg32 [OF assms(1)] unfolding v [symmetric] by blast
  show ?thesis
  proof (cases "id_of (v) \<in> {1, 2}")
    case True
    then show ?thesis using h0 h1
      by (intro exI [of _ h1] exI [of _ "[]"], subst walk_caps.simps) (auto simp: caps_lines_def id_of_def next_of_def)
  next
    case False
    obtain h2 ds where h2: "num_text 10 (unat (id_of (v))) ds"
      "print tmp (serial B) h1 cap_message [Arg_int (int (unat (id_of (v))))] = Some h2"
      "sent h2 = sent h1 @ map of_char (''[XHCI] Unhandled protocol with cap id '' @ ds @ [CHR 0x0A])"
      using cap_message_sends [OF assms(2,3)] by blast
    have w: "walk_caps tmp B ext i h = (if next_of (v) = 0 then Some h2 else walk_caps tmp B ext (i + ucast (next_of (v))) h2)"
      using h0 h1 h2(2) False by (subst walk_caps.simps) (simp add: id_of_def next_of_def)
    have "caps_lines [v] [''[XHCI] Unhandled protocol with cap id '' @ ds @ [CHR 0x0A]]" using False h2(1) by (auto simp: caps_lines_def)
    then show ?thesis using w h0(2) h1(2) h2(3)
      by (intro exI [of _ h2] exI [of _ "[''[XHCI] Unhandled protocol with cap id '' @ ds @ [CHR 0x0A]]"]) simp
  qed
qed

lemma caps_lines_Cons: "caps_lines [v] t \<Longrightarrow> caps_lines vs ts \<Longrightarrow> caps_lines (v # vs) (t @ ts)"
  unfolding caps_lines_def by (auto split: if_splits simp: list_all2_Cons1)

lemma walk_caps_list:
  assumes "fixed_regs B sent v8 v16 v32" and "serial_line (serial B) sent busy" and "length tmp = 50" and "caps_list v32 ext i vs"
  shows "\<exists>h' ts. walk_caps tmp B ext i h = Some h' \<and> caps_lines vs ts \<and> sent h' = sent h @ map of_char (concat ts)"
  using assms(4)
proof (induction vs arbitrary: i h)
  case (Cons v vs)
  have v: "v32 (ext + i * 4) = v" using Cons.prems by simp
  obtain h1 t where h1: "caps_lines [v] t" "sent h1 = sent h @ map of_char (concat t)"
    "walk_caps tmp B ext i h = (if next_of v = 0 then Some h1 else walk_caps tmp B ext (i + ucast (next_of v)) h1)"
    using walk_step [OF assms(1-3) v, of h] by blast
  show ?case
  proof (cases "next_of v = 0")
    case True
    then show ?thesis using h1 Cons.prems by auto
  next
    case False
    then obtain h' ts where "walk_caps tmp B ext (i + ucast (next_of v)) h1 = Some h'" "caps_lines vs ts"
      "sent h' = sent h1 @ map of_char (concat ts)" using Cons.IH [of "i + ucast (next_of v)" h1] Cons.prems by auto
    then show ?thesis using h1 False caps_lines_Cons [OF h1(1)] by (intro exI [of _ h'] exI [of _ "t @ ts"]) simp
  qed
qed simp

text \<open>The walk ends only at the end of a list.\<close>

lemma walk_caps_ends:
  assumes "fixed_regs B sent v8 v16 v32" and "walk_caps tmp B ext i h = Some h'"
  shows "\<exists>vs. caps_list v32 ext i vs"
proof -
  have "B = B \<longrightarrow> (\<exists>vs. caps_list v32 ext i vs)"
  proof (rule walk_caps.raw_induct [of "\<lambda>tmp B' ext i h h'. B' = B \<longrightarrow> (\<exists>vs. caps_list v32 ext i vs)", OF _ assms(2)], goal_cases)
    case (1 walk tmp B' ext i h h')
    let ?v = "v32 (ext + i * 4)"
    obtain h0 where h0: "reg32 B h (ext + i * 4) = (?v, h0)" using fixed_reg32 [OF assms(1)] by blast
    obtain h1 where h1: "reg32 B h0 (ext + i * 4) = (?v, h1)" using fixed_reg32 [OF assms(1)] by blast
    have "next_of ?v = 0 \<or> (\<exists>vs. caps_list v32 ext (i + ucast (next_of ?v)) vs)" if "B' = B"
      using 1 h0 h1 that by (auto simp: next_of_def Let_def bind_eq_Some_conv split: if_splits)
    then show ?case using caps_list.simps(2) [of v32 ext i ?v] by (metis (full_types))
  qed
  then show ?thesis by simp
qed

section \<open>Properties\<close>

lemma find_blocks_fixed:
  assumes "fixed_regs B sent v8 v16 v32" and "p = bar_base (x_bar c) + hv"
  shows "\<exists>h'. find_blocks B hv c h = (c\<lparr>cap := p, operation := p + ucast (v8 p),
      runtime := p + ucast (v32 (p + 24) AND NOT 0x1f), db := p + ucast (v32 (p + 20) AND NOT 0x3),
      extended_cap := p + ucast ((drop_bit 16 (v32 (p + 16)) AND 0xffff) * 4)\<rparr>, h')"
proof -
  obtain h1 where h1: "reg8 B h p = (v8 p, h1)" using fixed_reg8 [OF assms(1)] by blast
  obtain h2 where h2: "reg32 B h1 (p + 24) = (v32 (p + 24), h2)" using fixed_reg32 [OF assms(1)] by blast
  obtain h3 where h3: "reg32 B h2 (p + 20) = (v32 (p + 20), h3)" using fixed_reg32 [OF assms(1)] by blast
  obtain h4 where h4: "reg32 B h3 (p + 16) = (v32 (p + 16), h4)" using fixed_reg32 [OF assms(1)] by blast
  have q: "bar_base (x_bar c) + x + hv = p + x" for x using assms(2) by simp
  show ?thesis using h1 h2 h3 h4 unfolding find_blocks_def Let_def
    by (simp add: assms(2) [symmetric] q off_runtime_offset_def off_doorbell_offset_def off_cap_parms1_def)
qed

lemma unat_byte:
  fixes v :: u32
  shows "unat (ucast (drop_bit n v AND 0xff) :: u64) = unat v div 2 ^ n mod 256"
proof -
  have "drop_bit n v AND 0xff = take_bit 8 (drop_bit n v)" by (simp only: take_bit_eq_mask) (simp add: mask_eq_exp_minus_1)
  moreover have "take_bit 32 (unat v) = unat v" by (rule take_bit_nat_eq_self) (use unsigned_less [of v] in simp)
  then have "unat (take_bit 8 (drop_bit n v)) = take_bit 8 (drop_bit n (unat v))"
    by (simp only: unsigned_take_bit_eq unsigned_drop_bit_eq) simp
  ultimately have "unat (drop_bit n v AND 0xff) = unat v div 2 ^ n mod 256" by (simp add: take_bit_eq_mod drop_bit_eq_div)
  then show ?thesis by (simp add: unsigned_ucast_eq take_bit_nat_eq_self)
qed

text \<open>
  C33. The probe of an xHCI controller whose registers do not change returns just when the chain of its extended
  capabilities ends. Then the operational registers are behind the capability registers, the limits are
  the bytes 0, 1 and 3 of the first structural parameters, and the largest page is \<open>2 ^ (12 + k)\<close> for the last bit
  \<open>k\<close> of the page size register that is set.
\<close>

theorem controller_ctor_reads:
  assumes regs: "fixed_regs B sent v8 v16 v32" and line: "serial_line (serial B) sent busy" and buf: "length tmp = 50"
    and kind: "prog_if x \<notin> {0, 0x10, 0x20, 0x80, 0xfe}" and bar: "\<And>h. fst (get_bar (cfg_ports B) x h 0) = Some b"
    and p: "p = bar_base b + hv" and ext: "ext = p + ucast ((drop_bit 16 (v32 (p + 16)) AND 0xffff) * 4)"
  shows "(\<nexists>vs. caps_list v32 ext 0 vs) \<and> controller_ctor tmp B hv x g h = None
    \<or> (\<exists>vs. caps_list v32 ext 0 vs) \<and> (\<exists>c h' k. controller_ctor tmp B hv x g h = Some (c, h')
        \<and> operation c = p + ucast (v8 p) \<and> extended_cap c = ext
        \<and> unat (max_device_slots c) = unat (v32 (p + 4)) mod 256
        \<and> unat (max_interrupts c) = unat (v32 (p + 4)) div 2 ^ 8 mod 256
        \<and> unat (max_ports c) = unat (v32 (p + 4)) div 2 ^ 24 mod 256
        \<and> last_bit (v32 (p + ucast (v8 p) + 8)) 16 k \<and> max_page_size c = 2 ^ (12 + k))"
proof -
  have k: "fst (usb_kind (prog_if x)) \<in> {None, Some ''[USB] XHCI controller detected''}" "snd (usb_kind (prog_if x))"
    using kind by (auto simp: usb_kind_def)
  obtain msg where u: "usb_kind (prog_if x) = (msg, True)" using k(2) by (cases "usb_kind (prog_if x)") simp
  have "\<exists>h'. (case msg of None \<Rightarrow> Some h | Some m \<Rightarrow> print tmp (serial B) h (m @ line_end) []) = Some h'"
  proof (cases msg)
    case (Some m)
    then have "fmt_ok (m @ line_end)" using k(1) u by (simp add: line_end_def)
    then show ?thesis using Some print_returns [OF line, of "m @ line_end" tmp "[]"] by simp
  qed simp
  then obtain h0 where h0: "(case msg of None \<Rightarrow> Some h | Some m \<Rightarrow> print tmp (serial B) h (m @ line_end) []) = Some h0" by blast
  obtain h1 where h1: "get_bar (cfg_ports B) x (enable_mmio (cfg_ports B) x (become_bus_master (cfg_ports B) x h0)) 0 = (Some b, h1)"
    using bar by (metis prod.collapse)
  let ?c = "g\<lparr>x_pci_device := x, x_bar := b\<rparr>"
  let ?d = "?c\<lparr>cap := p, operation := p + ucast (v8 p), runtime := p + ucast (v32 (p + 24) AND NOT 0x1f),
      db := p + ucast (v32 (p + 20) AND NOT 0x3), extended_cap := ext\<rparr>"
  obtain h2 where h2: "find_blocks B hv ?c h1 = (?d, h2)" using find_blocks_fixed [OF regs, of p ?c hv h1] p ext by auto
  obtain h3 where h3: "read_version tmp B ?d h2 = Some h3" using read_version_fixed [OF regs line buf] by blast
  obtain e h4 where h4: "read_limits tmp B ?d h3 = Some (e, h4)" and e: "e = ?d\<lparr>max_device_slots := ucast (v32 (p + 4) AND 0xff),
      max_interrupts := ucast (drop_bit 8 (v32 (p + 4)) AND 0xff), max_ports := ucast (drop_bit 24 (v32 (p + 4)) AND 0xff)\<rparr>"
    using read_limits_fixed [OF regs line buf, of ?d h3] by (auto simp: off_sparms1_def)
  obtain k h5 where h5: "read_page_size tmp B e h4 = Some (e\<lparr>max_page_size := 2 ^ (12 + k)\<rparr>, h5)"
    "last_bit (v32 (operation e + off_page_size)) 16 k" using read_page_size_fixed [OF regs line buf] by blast
  have eq: "controller_ctor tmp B hv x g h = map_option (Pair (e\<lparr>max_page_size := 2 ^ (12 + k)\<rparr>)) (walk_caps tmp B ext 0 h5)"
    using u h0 h1 h2 h3 h4 h5(1) by (simp add: controller_ctor_def e map_conv_bind_option comp_def)
  show ?thesis
  proof (cases "\<exists>vs. caps_list v32 ext 0 vs")
    case True
    then obtain h' where "walk_caps tmp B ext 0 h5 = Some h'" using walk_caps_list [OF regs line buf] by blast
    then show ?thesis using True eq h5(2) unat_byte [of 0] unat_byte [of 8] unat_byte [of 24] by (auto simp: e off_page_size_def)
  next
    case False
    then have "walk_caps tmp B ext 0 h5 = None" using walk_caps_ends [OF regs] by (cases "walk_caps tmp B ext 0 h5") blast+
    then show ?thesis using False eq by simp
  qed
qed


text \<open>A controller at \<open>0xfe000000\<close> with two capabilities, the second of them unknown.\<close>

definition demo_cfg :: "(u32 \<times> nat \<times> u8 list) ports" where
  "demo_cfg = \<lparr>port_out = \<lambda>(a, l) p v. if p = 0xcf8 then (v, l) else (a, l),
     port_in = \<lambda>(a, l) p. (if a AND 0xfc = 0x10 then 0xfe000004 else 0, (a, l))\<rparr>"

definition demo32 :: "u64 \<Rightarrow> u32" where
  "demo32 a = (if a = 0xfe000004 then 0x08000140 else if a = 0xfe000010 then 0x00100000 else if a = 0xfe000028 then 1
     else if a = 0xfe000040 then 0x0201 else if a = 0xfe000048 then 5 else 0)"

definition demo_bus :: "(u32 \<times> nat \<times> u8 list) xhci_bus" where
  "demo_bus = \<lparr>cfg_ports = demo_cfg,
     serial = \<lparr>inb = \<lambda>(a, n, s) p. (if n = 0 then 0x20 else 0, (a, n - 1, s)), outb = \<lambda>(a, n, s) p c. (a, 3, s @ [c])\<rparr>,
     reg8 = \<lambda>h a. (0x20, h), reg16 = \<lambda>h a. (0x0110, h), reg32 = \<lambda>h a. (demo32 a, h)\<rparr>"

theorem controller_ctor_reads_witness:
  "\<exists>x. prog_if x = 0x30 \<and> (\<forall>g h. \<exists>c h' k. controller_ctor (replicate 50 NUL) demo_bus 0 x g h = Some (c, h')
      \<and> unat (max_device_slots c) = 64 \<and> unat (max_interrupts c) = 1 \<and> unat (max_ports c) = 8
      \<and> last_bit 1 16 k \<and> max_page_size c = 2 ^ (12 + k))"
proof -
  let ?x = "\<lparr>bus = 0, device_code = 2, func = 0, class_code = 0xc, sub_class = 3, prog_if = 0x30, device_id = 0, vendor_id = 0\<rparr>"
  have regs: "fixed_regs demo_bus (\<lambda>(a, n, s). s) (\<lambda>_. 0x20) (\<lambda>_. 0x0110) demo32" by (auto simp: fixed_regs_def demo_bus_def)
  have line: "serial_line (serial demo_bus) (\<lambda>(a, n, s). s) (\<lambda>(a, n, s). n)" by (auto simp: serial_line_def demo_bus_def)
  have bar: "fst (get_bar (cfg_ports demo_bus) ?x h 0) = Some \<lparr>bar_base = 0xfe000000, bar_len = 0xffffffff02000000\<rparr>" for h
    by (cases h) (simp add: demo_bus_def demo_cfg_def get_bar_def get_header_type_def raw_read_def raw_write_def config_addr_def
      pci_read_def pci_write_def probe_bar_def Let_def)
  have l: "\<exists>vs. caps_list demo32 0xfe000040 0 vs" by (rule exI [of _ "[0x0201, 5]"]) (simp add: demo32_def next_of_def)
  have "\<exists>c h' k. controller_ctor (replicate 50 NUL) demo_bus 0 ?x g h = Some (c, h')
      \<and> unat (max_device_slots c) = 64 \<and> unat (max_interrupts c) = 1 \<and> unat (max_ports c) = 8
      \<and> last_bit 1 16 k \<and> max_page_size c = 2 ^ (12 + k)" for g h
    using controller_ctor_reads [OF regs line _ _ bar refl refl, of "replicate 50 NUL" 0 g h] l by (auto simp: demo32_def)
  then show ?thesis by (intro exI [of _ ?x]) simp
qed

end
