(* ===== verification/Smp.thy ===== *)
theory Smp
  imports Apic Task Vmm
begin

text \<open>
  The start of the processors, from \<^verbatim>\<open>sched/smp.cpp\<close>: the trampoline and its parameters in low memory, a record
  with a stack for every processor of the interrupt table, and the two interrupts that start it. Memory at
  fixed addresses and the wait of the event timer are parameters; so is \<open>data\<close>, the address of the elements of the
  vector of records, which moves when the vector grows.
\<close>

section \<open>Definitions\<close>

record 'h low_mem =
  put8 :: "'h \<Rightarrow> u64 \<Rightarrow> u8 \<Rightarrow> 'h"
  put64 :: "'h \<Rightarrow> u64 \<Rightarrow> u64 \<Rightarrow> 'h"

definition prep_core :: "'h low_mem \<Rightarrow> u64 \<Rightarrow> 'h \<Rightarrow> size_t \<Rightarrow> u64 \<Rightarrow> u64 \<Rightarrow> u64 \<Rightarrow> u64 \<Rightarrow> u64 \<Rightarrow> 'h" where
  "prep_core L hv h stack pml4 entry idt gdt core_index =
     (let parms = 0x500 + hv;
          h = put64 L h parms stack;
          h = put64 L h (parms + 8) pml4;
          h = put64 L h (parms + 16) entry;
          h = put64 L h (parms + 24) idt;
          h = put64 L h (parms + 32) gdt
      in put64 L h (parms + 40) core_index)"

definition cpu_type :: tinfo where
  "cpu_type = \<lparr>sizeof = 56, trivial_dtor = True\<rparr>"

definition new_cpu :: "u64 \<Rightarrow> u64 \<Rightarrow> cpu" where
  "new_cpu stack table = \<lparr>user_stack = 0, kernel_stack = stack, errno = 0, cpu_pid = -1, cpu_tid = -1,
     cpu_page_map = table, nvme_io_queue = 0\<rparr>"

text \<open>
  What the loop uses and does not change: the kernel's table and its object, the entry point, the
  addresses of the two local copies of the descriptor table registers, and the running processor's number.
\<close>

record 'h boot_env =
  be_machine :: "'h machine"
  be_low :: "'h low_mem"
  be_lapic :: lapic
  be_hv :: u64
  be_sleep :: "'h \<Rightarrow> u64 \<Rightarrow> 'h option"
  be_data :: "cpu vector \<Rightarrow> u64"
  be_kernel_mapping :: u64
  be_pml4 :: u64
  be_entry :: u64
  be_idtr :: u64
  be_gdtr :: u64

record 'h boot_state =
  bs_hw :: 'h
  bs_frames :: pmm
  bs_cpus :: "cpu vector"

definition start_core :: "'h boot_env \<Rightarrow> u32 \<Rightarrow> u64 \<Rightarrow> nat \<Rightarrow> 'h \<Rightarrow> 'h option" where
  "start_core E apic_id stack i h =
     (let h = prep_core (be_low E) (be_hv E) h stack (be_pml4 E) (be_entry E) (be_idtr E) (be_gdtr E) (of_nat i);
          h = send_ipi (be_machine E) (be_hv E) (be_lapic E) h (ucast apic_id) 0x500;
          h = send_ipi (be_machine E) (be_hv E) (be_lapic E) h (ucast apic_id) (0x600 OR 1)
      in be_sleep E h 20)"

definition boot_core :: "'h boot_env \<Rightarrow> madt0 vector \<Rightarrow> u32 \<Rightarrow> nat \<Rightarrow> 'h boot_state \<Rightarrow> 'h boot_state option" where
  "boot_core E l current_apic_id i s = do {
     e \<leftarrow> vector_at l (of_nat i);
     let apic_id = (ucast (m0_apic_id e) :: u32);
     (a, fr) \<leftarrow> pmm_alloc (bs_frames s) 2 1;
     let c = new_cpu (a + 0x2000 + be_hv E) (be_kernel_mapping E);
     v \<leftarrow> vector_push cpu_type (bs_cpus s) c;
     let s = s\<lparr>bs_frames := fr, bs_cpus := v\<rparr>;
     if apic_id = current_apic_id
     then Some (s\<lparr>bs_hw := msr_wr (be_machine E) (bs_hw s) msr_gs_base (be_data E v + of_nat i * 56)\<rparr>)
     else if m0_flags e = 1 then do { h \<leftarrow> start_core E apic_id (kernel_stack c) i (bs_hw s); Some (s\<lparr>bs_hw := h\<rparr>) }
     else Some s
   }"

definition boot_cores :: "'h boot_env \<Rightarrow> madt0 vector \<Rightarrow> u32 \<Rightarrow> 'h boot_state \<Rightarrow> 'h boot_state option" where
  "boot_cores E l current_apic_id s = for_range (boot_core E l current_apic_id) 0 (unat (buf_size l)) s"

fun copy_code :: "'h low_mem \<Rightarrow> 'h \<Rightarrow> u64 \<Rightarrow> u8 list \<Rightarrow> 'h" where
  "copy_code L h a [] = h"
| "copy_code L h a (b # bs) = copy_code L (put8 L h a b) (a + 1) bs"

text \<open>
  The whole of it: \<open>code\<close> is the trampoline, \<open>g\<close> the member of the look-up of page 0 that decides whether it is
  unmapped, and \<open>t\<close> the kernel's table, in which page 0 is mapped to itself for the time of the loop.
\<close>

definition unmap_page :: "bool \<Rightarrow> u64 \<Rightarrow> vmm \<Rightarrow> pmlx_table \<Rightarrow> u64 \<Rightarrow> (vmm \<times> pmlx_table) option" where
  "unmap_page five = (if five then pml5_unmap_page else pml4_unmap_page)"

definition boot_aps :: "bool \<Rightarrow> u64 \<Rightarrow> u8 list \<Rightarrow> 'h boot_env \<Rightarrow> madt0 vector \<Rightarrow> vmm \<Rightarrow> pmlx_table \<Rightarrow> cpu vector \<Rightarrow> 'h
    \<Rightarrow> (vmm \<times> pmlx_table \<times> cpu vector \<times> 'h) option" where
  "boot_aps five g code E l s t v h = do {
     let h = copy_code (be_low E) h (0x1000 + be_hv E) code;
     let (i, h) = lapic_read (be_machine E) (be_hv E) (be_lapic E) h (lapic_reg_of (be_lapic E) Id_reg);
     (s, t) \<leftarrow> map_page_raw five s t 0 0 0x3 (0x3 OR push_bit 7 1 OR push_bit 8 1) (-1);
     b \<leftarrow> boot_cores E l (ucast i) \<lparr>bs_hw = h, bs_frames = vframes s, bs_cpus = v\<rparr>;
     (s, t) \<leftarrow> unmap_page five g (s\<lparr>vframes := bs_frames b\<rparr>) t 0;
     Some (s, t, bs_cpus b, bs_hw b)
   }"

section \<open>Records and stacks\<close>

text \<open>The answers of the frame allocator to \<open>n\<close> requests for the two pages of a stack.\<close>

fun stacks :: "pmm \<Rightarrow> nat \<Rightarrow> (size_t list \<times> pmm) option" where
  "stacks fr 0 = Some ([], fr)"
| "stacks fr (Suc n) = do { (a, fr) \<leftarrow> pmm_alloc fr 2 1; (as, fr) \<leftarrow> stacks fr n; Some (a # as, fr) }"


lemma new_cpu_members: "kernel_stack (new_cpu a b) = a" "user_stack (new_cpu a b) = 0"
  by (simp_all add: new_cpu_def)

lemma boot_core_step:
  assumes "vec_ok l" and "i < unat (buf_size l)" and "pmm_alloc (bs_frames s) 2 1 = Some (a, fr)"
    and "vec_inv (bs_cpus s)" and "seq_room cpu_type (length (vec_list (bs_cpus s)))" and "\<And>h ms. be_sleep E h ms \<noteq> None"
  shows "\<exists>s'. boot_core E l cur i s = Some s' \<and> bs_frames s' = fr \<and> vec_inv (bs_cpus s')
    \<and> vec_list (bs_cpus s') = vec_list (bs_cpus s) @ [new_cpu (a + 0x2000 + be_hv E) (be_kernel_mapping E)]"
proof -
  have "unat (of_nat i :: size_t) = i" by (rule unat_of_nat_lt [OF lt_unat_2p64 [OF assms(2)]])
  then have "(of_nat i :: size_t) < buf_size l" using assms(2) by (simp add: word_less_nat_alt)
  then obtain e where e: "vector_at l (of_nat i) = Some e" using vector_at_list [OF assms(1)] by blast
  obtain v where v: "vector_push cpu_type (bs_cpus s) (new_cpu (a + 0x2000 + be_hv E) (be_kernel_mapping E)) = Some v" "vec_inv v"
    "vec_list v = vec_list (bs_cpus s) @ [new_cpu (a + 0x2000 + be_hv E) (be_kernel_mapping E)]"
    using vec.push [OF assms(4,5)] by blast
  have "\<exists>h'. start_core E d b i h = Some h'" for d b h using assms(6) by (simp add: start_core_def Let_def)
  then obtain h' where h': "start_core E (ucast (m0_apic_id e)) (a + 0x2000 + be_hv E) i (bs_hw s) = Some h'" by blast
  then show ?thesis using e v assms(3) by (simp add: boot_core_def Let_def new_cpu_members)
qed

lemma boot_cores_from:
  assumes "vec_ok l" and "i + n \<le> unat (buf_size l)" and "stacks (bs_frames s) n = Some (as, fr)"
    and "vec_inv (bs_cpus s)" and "seq_room cpu_type (length (vec_list (bs_cpus s)) + n)" and "\<And>h ms. be_sleep E h ms \<noteq> None"
  shows "\<exists>s'. for_range (boot_core E l cur) i n s = Some s' \<and> bs_frames s' = fr \<and> vec_inv (bs_cpus s')
    \<and> vec_list (bs_cpus s') = vec_list (bs_cpus s) @ map (\<lambda>a. new_cpu (a + 0x2000 + be_hv E) (be_kernel_mapping E)) as"
  using assms(2-5)
proof (induction n arbitrary: i s as)
  case (Suc n)
  obtain a fr1 as' where a: "pmm_alloc (bs_frames s) 2 1 = Some (a, fr1)" "stacks fr1 n = Some (as', fr)" "as = a # as'"
    using Suc.prems(2) by (auto simp: bind_eq_Some_conv)
  have "seq_room cpu_type (length (vec_list (bs_cpus s)))" using vec.room_mono [OF Suc.prems(4)] by simp
  then obtain s1 where s1: "boot_core E l cur i s = Some s1" "bs_frames s1 = fr1" "vec_inv (bs_cpus s1)"
    "vec_list (bs_cpus s1) = vec_list (bs_cpus s) @ [new_cpu (a + 0x2000 + be_hv E) (be_kernel_mapping E)]"
    using boot_core_step [OF assms(1) _ a(1) Suc.prems(3) _ assms(6), of i cur] Suc.prems(1) by auto
  then show ?case using Suc.IH [of "Suc i" s1 as'] Suc.prems(1,4) a by auto
qed simp

lemma stacks_length: "stacks fr n = Some (as, fr') \<Longrightarrow> length as = n"
  by (induction n arbitrary: fr as) (auto simp: bind_eq_Some_conv)

section \<open>Properties\<close>



definition demo_env :: "nat boot_env" where
  "demo_env = \<lparr>be_machine = \<lparr>mem_rd = \<lambda>h a. (0, h), mem_wr = \<lambda>h a v. h, msr_rd = \<lambda>h a. 0, msr_wr = \<lambda>h a v. h + 1, cpuid_rcx = \<lambda>a b. 0,
       io_port = \<lparr>inb = \<lambda>h p. (0, h), outb = \<lambda>h p c. h\<rparr>, set_cr8 = \<lambda>h v. h\<rparr>,
     be_low = \<lparr>put8 = \<lambda>h a b. h, put64 = \<lambda>h a b. h\<rparr>, be_lapic = X2apic, be_hv = high_vma, be_sleep = \<lambda>h ms. Some h,
     be_data = \<lambda>v. 0x100000, be_kernel_mapping = 1, be_pml4 = 2, be_entry = 3, be_idtr = 4, be_gdtr = 5\<rparr>"

definition two_cores :: "madt0 vector" where
  "two_cores = \<lparr>elements = [Some \<lparr>m0_acpi_id = 0, m0_apic_id = 0, m0_flags = 1\<rparr>, Some \<lparr>m0_acpi_id = 1, m0_apic_id = 1, m0_flags = 1\<rparr>],
     buf_size = 2, buf_cap = 2\<rparr>"


end
