(* ===== verification/Spec2Isabelle.thy ===== *)
theory Spec2Isabelle
  imports Memutils Pmm Slab Vector Map_Lib KString Vmm Devfs Ext2 Path Vfs Ext2_Dir
    Task Fd Mmap Elf Scheduler Sched_Inv Sched_Steps Stack_Layout Pci Mmio Partitions Nvme Ahci Ramfs
    Debug_Print Segments Acpi Apic Interrupts Tty Xhci Smp
begin

text \<open>
  A verification of the crepOS kernel, a 64-bit x86 kernel in C++ (\<^verbatim>\<open>src/kernel\<close>).

  \<^bold>\<open>The parts and how they interact.\<close> The physical memory manager (\<^verbatim>\<open>mm/pmm.cpp\<close>) hands out frames; the
  slab allocator (\<^verbatim>\<open>mm/slab.cpp\<close>) builds the heap on them; the containers \<^verbatim>\<open>lib::vector\<close>,
  \<^verbatim>\<open>lib::map\<close> and \<^verbatim>\<open>lib::string\<close> live on the heap and hold the lists of every other part. The page
  tables (\<^verbatim>\<open>mm/vmm.cpp\<close>) take their frames from the physical memory manager; \<^verbatim>\<open>mm/mmap.cpp\<close> gives out the
  pages of an address space and maps them. The virtual file system (\<^verbatim>\<open>fs/vfs.cpp\<close>) keeps the list of
  nodes and finds a file system for each; ext2 (\<^verbatim>\<open>fs/ext2\<close>) reads and writes a partition of a device
  node (\<^verbatim>\<open>fs/devfs.cpp\<close>), which the scan of the partition tables makes for each partition of a disk; \<^verbatim>\<open>fs/ramfs.cpp\<close>
  keeps files in memory. File descriptors (\<^verbatim>\<open>fs/fd.cpp\<close>) connect a task's numbers with nodes. The
  scheduler (\<^verbatim>\<open>sched/scheduler.cpp\<close>) creates tasks and threads, loads programs through the ELF
  loader (\<^verbatim>\<open>lib/elf.cpp\<close>), and switches between threads in the timer interrupt. The scan of the PCI buses
  (\<^verbatim>\<open>drivers/pci.cpp\<close>) finds the controllers; the NVMe and AHCI drivers (\<^verbatim>\<open>drivers/nvme\<close>, \<^verbatim>\<open>drivers/ahci\<close>) start
  them, move blocks through their rings and command lists, and register the disks with the device nodes.
  The segment and interrupt tables (\<^verbatim>\<open>int/gdt.cpp\<close>, \<^verbatim>\<open>int/idt.cpp\<close>) send every vector to one dispatcher, which
  reports exceptions on the serial line (\<^verbatim>\<open>lib/debug.hpp\<close>) and calls the handlers of the timer, which is the
  scheduler, and of the keyboard, which feeds the terminal (\<^verbatim>\<open>drivers/tty.cpp\<close>). The ACPI tables (\<^verbatim>\<open>acpi\<close>) locate the
  interrupt controllers (\<^verbatim>\<open>int/apic.cpp\<close>) and the timer that calibrates them (\<^verbatim>\<open>drivers/hpet.cpp\<close>).

  \<^bold>\<open>Theories.\<close>
  \<^item> \<open>Kernel_Prelude\<close>: the widths of the machine (\<open>u64\<close>, \<open>size_t\<close> and so on as words), counted loops over the
    option monad, and the lemmas on words, lists and loops all theories share.
  \<^item> \<open>Memutils\<close>: \<^verbatim>\<open>lib/memutils.hpp\<close> and \<^verbatim>\<open>.cpp\<close>, rounding, bitmaps, memory and string functions; the locale of
    bitmaps with its laws and their interpretation.
  \<^item> \<open>Pmm\<close>: \<^verbatim>\<open>mm/pmm.cpp\<close>; the state is the list of chunks with their bitmaps and the accounting. The
    abstraction is the set of pages in use; allocation and release refine operations on it.
  \<^item> \<open>Slab\<close>: \<^verbatim>\<open>mm/slab.cpp\<close>; caches with their three lists of slabs and the general-purpose allocator.
  \<^item> \<open>Vector\<close>, \<open>Map_Lib\<close>, \<open>KString\<close>: the containers, as values with size, capacity and buffer, refined to lists,
    finite maps and texts; their locales are interpreted on these definitions.
  \<^item> \<open>Vmm\<close>: \<^verbatim>\<open>mm/vmm.cpp\<close>; entries, walks of four and five levels, the locked operations of a table, with
    the translation of the processor as the specification.
  \<^item> \<open>Devfs\<close>: device nodes with their sector cache and byte transfers, from \<^verbatim>\<open>fs/devfs.cpp\<close>.
  \<^item> \<open>Ext2\<close>, \<open>Ext2_Dir\<close>: \<^verbatim>\<open>fs/ext2\<close>; superblock, descriptors, inodes with the block tree, directories and
    the file operations.
  \<^item> \<open>Path\<close>, \<open>Vfs\<close>: \<^verbatim>\<open>fs/vfs.cpp\<close>; splitting of paths and the list of nodes.
  \<^item> \<open>Task\<close>: registers, model-specific registers, processor records, tasks and threads
    (\<^verbatim>\<open>lib/cpu.hpp\<close>, \<^verbatim>\<open>lib/cpu.cpp\<close>, \<^verbatim>\<open>sched/smp.cpp\<close>, \<^verbatim>\<open>sched/scheduler.hpp\<close>).
  \<^item> \<open>Fd\<close>: \<^verbatim>\<open>fs/fd.cpp\<close>, the descriptors and their system calls over any file system.
  \<^item> \<open>Mmap\<close>: \<^verbatim>\<open>mm/mmap.cpp\<close>; \<open>Elf\<close>: \<^verbatim>\<open>lib/elf.cpp\<close>; \<open>Scheduler\<close>: \<^verbatim>\<open>sched/scheduler.cpp\<close>.
  \<^item> \<open>Sched_Inv\<close>: the invariant of the scheduler, and one call of it as an operation on the statuses;
    \<open>Sched_Steps\<close>: the transition system of timer interrupts, new tasks and new threads, the invariant in
    every reachable state, and that no waiting task starves; \<open>Stack_Layout\<close>: the stack of a new program.
  \<^item> \<open>Pci\<close>: \<^verbatim>\<open>drivers/pci.cpp\<close> over any host bridge, given by what its two ports do: configuration accesses, the
    scan of the buses, base address registers, message-signalled interrupts.
  \<^item> \<open>Mmio\<close>: memory shared with a device, given by what its registers do and by what it does to memory between
    two looks of the driver; the pages of a transfer and the copy between them and the caller.
  \<^item> \<open>Nvme\<close>: \<^verbatim>\<open>drivers/nvme\<close> over any such device: commands, rings, start-up, transfers, registration.
  \<^item> \<open>Ahci\<close>: \<^verbatim>\<open>drivers/ahci\<close> over any such device: command headers and tables, slots, transfers, ports.
  \<^item> \<open>Partitions\<close>: the partition tables of a disk, from \<^verbatim>\<open>fs/devfs.cpp\<close>.
  \<^item> \<open>Ramfs\<close>: \<^verbatim>\<open>fs/ramfs.cpp\<close>, with the destructor of its nodes.
  \<^item> \<open>Debug_Print\<close>: \<^verbatim>\<open>lib/debug.hpp\<close>, numbers and formats as the bytes sent to the serial line.
  \<^item> \<open>Segments\<close>: the bytes of the tables of \<^verbatim>\<open>int/gdt.cpp\<close> and \<^verbatim>\<open>int/idt.cpp\<close>, read back the way the processor does.
  \<^item> \<open>Acpi\<close>: the search of the system tables and the waiting loop of \<^verbatim>\<open>drivers/hpet.cpp\<close>, over any memory and clock.
  \<^item> \<open>Apic\<close>: the entries of the interrupt table, redirection entries, local registers and messages of \<^verbatim>\<open>int/apic.cpp\<close>.
  \<^item> \<open>Interrupts\<close>: the dispatcher of \<^verbatim>\<open>int/idt.cpp\<close>, and the features that \<^verbatim>\<open>lib/cpu.cpp\<close> enables.
  \<^item> \<open>Xhci\<close>: \<^verbatim>\<open>drivers/xhci\<close>, the probe of a USB controller over any registers.
  \<^item> \<open>Smp\<close>: the start of the other processors in \<^verbatim>\<open>sched/smp.cpp\<close>, with their records and stacks.
  \<^item> \<open>Tty\<close>: \<^verbatim>\<open>drivers/tty.cpp\<close>; the grid of characters, the cursor, scrolling and the keyboard.

  \<^bold>\<open>Conventions.\<close> A function returns an option; \<open>None\<close> stands for a fault (an access outside an object,
  a use of \<open>NULL\<close>, a spin lock that is already held) or for a loop that does not end. Loops with a
  bound are structural recursion or \<open>for_range\<close>; a loop without one is a \<open>partial_function (option)\<close>, and
  where a theorem says that such a function returns this is part of its statement. The only fuel is the
  depth of nested buses in \<open>scan_bus\<close>; a rank on the buses bounds it.
  A step between taking and releasing a lock is one step. Members that a constructor leaves
  uninitialised come from a parameter (\<open>junk\<close>), so that the theorems hold for any values there.
  Methods of file systems and transfers of a device are parameters of the operations that call them.
  References into a container are used through their keys.

  \<^bold>\<open>What the lemmas show.\<close> For every part: the invariant and that the operations keep it; the result of
  each operation on each branch; round trips (bitmaps, containers, inodes, bytes of files, mappings);
  refinement of an abstract state where there is one. Where the code does not do what it is meant to
  do the theorem states what it does, and the manifest lists it as a finding.

  \<^bold>\<open>Not modelled.\<close> What a processor that was started does (\<^verbatim>\<open>core_bootstrap\<close> in \<^verbatim>\<open>sched/smp.cpp\<close>) and the boot
  sequence of \<^verbatim>\<open>main.cpp\<close> call parts that are modelled each for itself and then wait for ever; the assembly
  that enters and leaves an interrupt has its effect outside the state of the kernel. The font is data.
\<close>

end
